(* ===== verification/Prelude.thy ===== *)
theory Prelude
  imports Main "HOL-Library.Word" "HOL-Library.AList" "HOL-Library.Monad_Syntax"
begin

text \<open>
  Shared vocabulary of the development: the Go integer types as words, the wrap-around of
  \<^verbatim>\<open>int32\<close>, the slice and index expressions of Go with their bounds checks, the big-endian
  codecs of \<^verbatim>\<open>encoding/binary\<close>, and the generic lemmas the component theories rest on.

  Conventions used by every theory:
  \<^item> a Go run-time panic is \<open>None\<close> of an \<open>option\<close> result;
  \<^item> a Go error return is \<open>Inl\<close> of a sum (inside the option where a panic is possible too);
  \<^item> a Go \<^verbatim>\<open>string\<close> or \<^verbatim>\<open>[]byte\<close> is the list of its bytes.
\<close>

unbundle bit_operations_syntax

section \<open>Machine types\<close>

type_synonym byte = "8 word"
type_synonym u16 = "16 word"
type_synonym u32 = "32 word"
type_synonym u64 = "64 word"

named_theorems wire_simps \<open>codec equations of the wire formats\<close>
named_theorems wf_intros \<open>preservation of the well-formedness invariants\<close>
named_theorems panic_free \<open>operations that do not panic on well-formed values\<close>

text \<open>The conversion to \<^verbatim>\<open>int32\<close>: two's complement wrap-around at 32 bits.\<close>

definition i32 :: "int \<Rightarrow> int" where
  "i32 x = signed_take_bit 31 x"

lemma i32_id: "- (2 ^ 31) \<le> x \<Longrightarrow> x < 2 ^ 31 \<Longrightarrow> i32 x = x"
  by (simp add: i32_def signed_take_bit_int_eq_self)

lemma i32_bounds: "- (2 ^ 31) \<le> i32 x" "i32 x < 2 ^ 31"
  unfolding i32_def
  by (rule signed_take_bit_int_greater_eq_minus_exp, rule signed_take_bit_int_less_exp)

lemma i32_wrap: "2 ^ 31 \<le> x \<Longrightarrow> x < 2 ^ 32 \<Longrightarrow> i32 x = x - 2 ^ 32"
proof -
  assume x: "2 ^ 31 \<le> x" "x < 2 ^ 32"
  then have "(x + 2 ^ 31) mod 2 ^ 32 = (x + 2 ^ 31 - 2 ^ 32) mod 2 ^ 32"
    by (simp add: mod_pos_geq)
  also have "\<dots> = x + 2 ^ 31 - 2 ^ 32" using x by (simp add: mod_pos_pos_trivial)
  finally show ?thesis
    by (simp add: i32_def signed_take_bit_eq_take_bit_shift take_bit_eq_mod)
qed

lemma i32_0 [simp]: "i32 0 = 0"
  by (simp add: i32_def)

section \<open>Slice and index expressions\<close>

text \<open>
  \<^verbatim>\<open>s[lo:hi]\<close> on a slice whose backing array, up to its capacity, is \<open>a\<close>: it panics
  unless \<open>0 \<le> lo \<le> hi \<le> cap\<close>.
\<close>

definition slice_expr :: "'a list \<Rightarrow> int \<Rightarrow> int \<Rightarrow> 'a list option" where
  "slice_expr a lo hi =
     (if 0 \<le> lo \<and> lo \<le> hi \<and> hi \<le> int (length a)
      then Some (take (nat hi - nat lo) (drop (nat lo) a)) else None)"

text \<open>\<^verbatim>\<open>s[i]\<close>: it panics unless \<open>0 \<le> i < len\<close>.\<close>

definition index_expr :: "'a list \<Rightarrow> int \<Rightarrow> int \<Rightarrow> 'a option" where
  "index_expr a len i =
     (if 0 \<le> i \<and> i < len \<and> len \<le> int (length a) then Some (a ! nat i) else None)"

text \<open>Storing a run of bytes into the array at an offset (\<^verbatim>\<open>copy\<close> or a slice write).\<close>

definition blit :: "nat \<Rightarrow> 'a list \<Rightarrow> 'a list \<Rightarrow> 'a list" where
  "blit off xs a = take off a @ xs @ drop (off + length xs) a"

text \<open>The bytes of an array in the half-open range \<open>lo ..< hi\<close>.\<close>

definition range_of :: "nat \<Rightarrow> nat \<Rightarrow> 'a list \<Rightarrow> 'a list" where
  "range_of lo hi a = take (hi - lo) (drop lo a)"

lemma slice_expr_Some:
  "0 \<le> lo \<Longrightarrow> lo \<le> hi \<Longrightarrow> hi \<le> int (length a) \<Longrightarrow>
   slice_expr a lo hi = Some (range_of (nat lo) (nat hi) a)"
  by (simp add: slice_expr_def range_of_def)

lemma length_blit [simp]: "off + length xs \<le> length a \<Longrightarrow> length (blit off xs a) = length a"
  by (simp add: blit_def)

lemma blit_Nil [simp]: "blit off [] a = a"
  by (simp add: blit_def)

lemma length_range_of [simp]: "hi \<le> length a \<Longrightarrow> length (range_of lo hi a) = hi - lo"
  by (simp add: range_of_def)

lemma range_of_empty [simp]: "range_of lo lo a = []"
  by (simp add: range_of_def)

lemma range_of_append:
  "lo \<le> mid \<Longrightarrow> mid \<le> hi \<Longrightarrow> range_of lo mid a @ range_of mid hi a = range_of lo hi a"
proof -
  assume a: "lo \<le> mid" "mid \<le> hi"
  then have "drop mid a = drop (mid - lo) (drop lo a)" and "hi - lo = (mid - lo) + (hi - mid)"
    by simp_all
  then show ?thesis by (simp only: range_of_def take_add)
qed

lemma take_range_of: "take n (range_of lo hi a) = range_of lo (min hi (lo + n)) a"
  by (auto simp: range_of_def min_def intro!: arg_cong2 [of _ _ _ _ take])

lemma drop_range_of: "drop n (range_of lo hi a) = range_of (lo + n) hi a"
  by (simp add: range_of_def drop_take add.commute)

lemma range_of_blit_same:
  "off + length xs \<le> length a \<Longrightarrow> range_of off (off + length xs) (blit off xs a) = xs"
  by (simp add: range_of_def blit_def)

lemma range_of_blit_before:
  "hi \<le> off \<Longrightarrow> off \<le> length a \<Longrightarrow> range_of lo hi (blit off xs a) = range_of lo hi a"
proof -
  assume a: "hi \<le> off" "off \<le> length a"
  show ?thesis
  proof (cases "lo \<le> hi")
    case True
    with a show ?thesis by (simp add: range_of_def blit_def drop_take min_def)
  next
    case False
    then show ?thesis by (simp add: range_of_def)
  qed
qed

lemma range_of_blit_extend:
  assumes "lo \<le> off" "off + length xs \<le> length a"
  shows "range_of lo (off + length xs) (blit off xs a) = range_of lo off a @ xs"
proof -
  have "range_of lo (off + length xs) (blit off xs a)
      = range_of lo off (blit off xs a) @ range_of off (off + length xs) (blit off xs a)"
    using assms by (simp add: range_of_append)
  then show ?thesis
    using assms by (simp add: range_of_blit_same range_of_blit_before)
qed

section \<open>Big-endian integers (\<^verbatim>\<open>encoding/binary\<close>)\<close>

definition PutUint16 :: "u16 \<Rightarrow> byte list" where
  "PutUint16 w = [ucast (drop_bit 8 w), ucast w]"

definition PutUint32 :: "u32 \<Rightarrow> byte list" where
  "PutUint32 w = [ucast (drop_bit 24 w), ucast (drop_bit 16 w), ucast (drop_bit 8 w), ucast w]"

text \<open>Reading panics on a slice that is too short.\<close>

fun Uint16 :: "byte list \<Rightarrow> u16 option" where
  "Uint16 (a # b # _) = Some (push_bit 8 (ucast a) OR ucast b)"
| "Uint16 _ = None"

fun Uint32 :: "byte list \<Rightarrow> u32 option" where
  "Uint32 (a # b # c # d # _) =
     Some (push_bit 24 (ucast a) OR push_bit 16 (ucast b) OR push_bit 8 (ucast c) OR ucast d)"
| "Uint32 _ = None"

lemma length_PutUint16 [simp]: "length (PutUint16 w) = 2"
  by (simp add: PutUint16_def)

lemma length_PutUint32 [simp]: "length (PutUint32 w) = 4"
  by (simp add: PutUint32_def)

lemma Uint16_PutUint16 [simp, wire_simps]: "Uint16 (PutUint16 w @ xs) = Some w"
proof -
  have "push_bit 8 (ucast (ucast (drop_bit 8 w) :: byte)) OR ucast (ucast w :: byte) = w"
    by (rule bit_word_eqI) (auto simp: bit_simps)
  then show ?thesis by (simp add: PutUint16_def)
qed

lemma Uint32_PutUint32 [simp, wire_simps]: "Uint32 (PutUint32 w @ xs) = Some w"
proof -
  have "(push_bit 24 (ucast (ucast (drop_bit 24 w) :: byte)) OR
        push_bit 16 (ucast (ucast (drop_bit 16 w) :: byte)) OR
        push_bit 8 (ucast (ucast (drop_bit 8 w) :: byte)) OR ucast (ucast w :: byte) :: u32) = w"
    (is "?l = w")
  proof (rule bit_word_eqI)
    fix n
    assume "n < LENGTH(32)"
    then consider "n < 8" | "8 \<le> n \<and> n < 16" | "16 \<le> n \<and> n < 24" | "24 \<le> n \<and> n < 32"
      by force
    then show "bit ?l n = bit w n"
      by cases (auto simp: bit_simps)
  qed
  then show ?thesis by (simp add: PutUint32_def)
qed

lemma Uint16_Some: "2 \<le> length xs \<Longrightarrow> \<exists>w. Uint16 xs = Some w"
  by (cases xs rule: Uint16.cases) auto

lemma Uint32_Some: "4 \<le> length xs \<Longrightarrow> \<exists>w. Uint32 xs = Some w"
  by (cases xs rule: Uint32.cases) auto

lemma PutUint16_Uint16: "Uint16 xs = Some w \<Longrightarrow> PutUint16 w = take 2 xs"
proof (cases xs rule: Uint16.cases)
  case (1 a b us)
  assume "Uint16 xs = Some w"
  with 1 have w: "w = push_bit 8 (ucast a) OR ucast b" by simp
  have "ucast (drop_bit 8 w) = a" "ucast w = b"
    unfolding w by (rule bit_word_eqI; auto simp: bit_simps dest: bit_imp_le_length)+
  with 1 show ?thesis by (simp add: PutUint16_def)
qed auto

section \<open>Association lists for Go maps\<close>

lemma length_delete_less:
  "map_of m k = Some v \<Longrightarrow> length (AList.delete k m) < length m"
  by (induction m) (auto simp: AList.delete_eq le_imp_less_Suc)

lemma unat_u32: "unat (n :: u32) < 2 ^ 32"
proof -
  have "unat n < 2 ^ LENGTH(32)" by (rule unsigned_less)
  then show ?thesis by simp
qed

lemma unat_succ: "n \<noteq> 0xFFFFFFFF \<Longrightarrow> unat (n + 1) = unat n + 1" for n :: u32
proof -
  assume n: "n \<noteq> 0xFFFFFFFF"
  have "unat n \<noteq> unat (0xFFFFFFFF :: u32)" using n by (metis word_unat_eq_iff)
  then show ?thesis using unat_u32 [of n] by (simp add: unat_word_ariths)
qed

lemma unat_sub_wrap: "b > a \<Longrightarrow> unat (a - b) = 2 ^ 32 - (unat b - unat a)" for a b :: u32
proof -
  assume "b > a"
  then have lt: "unat a < unat b" by (simp add: word_less_nat_alt)
  then have "\<not> b \<le> a" using \<open>b > a\<close> by simp
  then show ?thesis using lt unat_u32 [of b] by (simp add: unat_sub_if' word_le_nat_alt)
qed

end
