(* ===== verification/Go_Std.thy ===== *)
theory Go_Std
  imports Prelude
begin

text \<open>
  The parts of the Go standard library the modelled packages call: error values,
  \<^verbatim>\<open>io.Reader\<close> and \<^verbatim>\<open>io.ReadFull\<close>, \<^verbatim>\<open>strings.TrimSpace\<close>,
  \<^verbatim>\<open>strconv.ParseUint\<close> and \<^verbatim>\<open>Itoa\<close>, and \<^verbatim>\<open>net.ParseIP\<close>.
\<close>

section \<open>Errors\<close>

datatype go_error =
    EOF
  | ErrUnexpectedEOF
  | ErrClosedPipe
  | ErrNew string \<comment> \<open>\<^verbatim>\<open>errors.New\<close> with its fixed text\<close>

text \<open>\<^verbatim>\<open>err.Error()\<close>.\<close>

fun go_Error :: "go_error \<Rightarrow> string" where
  "go_Error EOF = ''EOF''"
| "go_Error ErrUnexpectedEOF = ''unexpected EOF''"
| "go_Error ErrClosedPipe = ''io: read/write on closed pipe''"
| "go_Error (ErrNew msg) = msg"

section \<open>Readers\<close>

text \<open>
  A reader is the sequence of chunks that its successive \<^verbatim>\<open>Read\<close> calls deliver, followed by
  \<^verbatim>\<open>io.EOF\<close>. A call with a destination shorter than the next chunk takes the front of it.
  An empty chunk is a call that returns no byte and no error.
\<close>

type_synonym reader = "byte list list"

fun reader_Read :: "nat \<Rightarrow> reader \<Rightarrow> byte list \<times> go_error option \<times> reader" where
  "reader_Read n [] = ([], Some EOF, [])"
| "reader_Read n (c # cs) =
     (if length c \<le> n then (c, None, cs) else (take n c, None, drop n c # cs))"

definition short_read :: "byte list \<Rightarrow> go_error option \<Rightarrow> go_error option" where
  "short_read got e = (if e = Some EOF \<and> got \<noteq> [] then Some ErrUnexpectedEOF else e)"

text \<open>
  \<^verbatim>\<open>io.ReadFull\<close> of \<open>n\<close> bytes: the bytes read, \<^verbatim>\<open>io.EOF\<close> when there were none and
  \<^verbatim>\<open>io.ErrUnexpectedEOF\<close> when there were fewer than \<open>n\<close>.
\<close>

fun ReadFull :: "nat \<Rightarrow> reader \<Rightarrow> byte list \<times> go_error option \<times> reader" where
  "ReadFull n [] = (if n = 0 then ([], None, []) else ([], Some EOF, []))"
| "ReadFull n (c # cs) =
     (if n = 0 then ([], None, c # cs)
      else if length c \<le> n
      then let (bs, e, r) = ReadFull (n - length c) cs in (c @ bs, short_read c e, r)
      else (take n c, None, drop n c # cs))"

lemma ReadFull_enough:
  "n \<le> length (concat r) \<Longrightarrow>
   \<exists>r'. ReadFull n r = (take n (concat r), None, r') \<and> concat r' = drop n (concat r)"
proof (induction n r rule: ReadFull.induct)
  case (2 n c cs)
  consider "n = 0" | "n \<noteq> 0" "length c \<le> n" | "length c > n" by linarith
  then show ?case
  proof cases
    case 2
    with "2.prems" have "n - length c \<le> length (concat cs)" by simp
    with "2.IH" [OF 2] obtain r' where
      "ReadFull (n - length c) cs = (take (n - length c) (concat cs), None, r')"
      "concat r' = drop (n - length c) (concat cs)" by blast
    with 2 show ?thesis by (simp add: short_read_def)
  qed auto
qed auto

lemma ReadFull_short:
  "length (concat r) < n \<Longrightarrow> \<exists>r'. ReadFull n r =
     (concat r, Some (if concat r = [] then EOF else ErrUnexpectedEOF), r') \<and> concat r' = []"
proof (induction n r rule: ReadFull.induct)
  case (2 n c cs)
  then have le: "n \<noteq> 0" "length c \<le> n" "length (concat cs) < n - length c" by auto
  with "2.IH" obtain r' where
    "ReadFull (n - length c) cs =
       (concat cs, Some (if concat cs = [] then EOF else ErrUnexpectedEOF), r')"
    "concat r' = []" by blast
  with le show ?case by (auto simp: short_read_def)
qed auto

lemma ReadFull_0 [simp]: "ReadFull 0 r = ([], None, r)"
  by (cases r) auto

lemma ReadFull_length: "ReadFull n r = (bs, e, r') \<Longrightarrow> length bs \<le> n"
  using ReadFull_enough [of n r] ReadFull_short [of r n] by (cases "n \<le> length (concat r)") auto

lemma ReadFull_ok:
  "ReadFull n r = (bs, None, r') \<Longrightarrow>
   bs = take n (concat r) \<and> n \<le> length (concat r) \<and> concat r' = drop n (concat r)"
  using ReadFull_enough [of n r] ReadFull_short [of r n] by (cases "n \<le> length (concat r)") auto

section \<open>Strings\<close>

text \<open>The bytes of a string literal.\<close>

definition bytes_of :: "string \<Rightarrow> byte list" where
  "bytes_of s = map of_char s"

text \<open>The UTF-8 encodings of the code points \<^verbatim>\<open>unicode.IsSpace\<close> accepts.\<close>

definition space_runes :: "byte list list" where
  "space_runes =
     [[0x20], [0x09], [0x0A], [0x0B], [0x0C], [0x0D], [0xC2, 0x85], [0xC2, 0xA0],
      [0xE1, 0x9A, 0x80], [0xE2, 0x80, 0x80], [0xE2, 0x80, 0x81], [0xE2, 0x80, 0x82],
      [0xE2, 0x80, 0x83], [0xE2, 0x80, 0x84], [0xE2, 0x80, 0x85], [0xE2, 0x80, 0x86],
      [0xE2, 0x80, 0x87], [0xE2, 0x80, 0x88], [0xE2, 0x80, 0x89], [0xE2, 0x80, 0x8A],
      [0xE2, 0x80, 0xA8], [0xE2, 0x80, 0xA9], [0xE2, 0x80, 0xAF], [0xE2, 0x81, 0x9F],
      [0xE3, 0x80, 0x80]]"

text \<open>The length of a space at the front of a string, 0 if there is none.\<close>

definition space_prefix :: "byte list list \<Rightarrow> byte list \<Rightarrow> nat" where
  "space_prefix rs s =
     (case find (\<lambda>r. take (length r) s = r) rs of None \<Rightarrow> 0 | Some r \<Rightarrow> length r)"

function trim_left :: "byte list list \<Rightarrow> byte list \<Rightarrow> byte list" where
  "trim_left rs s =
     (if s = [] \<or> space_prefix rs s = 0 then s else trim_left rs (drop (space_prefix rs s) s))"
  by pat_completeness auto
termination
  by (relation "measure (\<lambda>(rs, s). length s)") auto

declare trim_left.simps [simp del]

definition TrimSpace :: "byte list \<Rightarrow> byte list" where
  "TrimSpace s = rev (trim_left (map rev space_runes) (rev (trim_left space_runes s)))"

definition is_digit :: "byte \<Rightarrow> bool" where
  "is_digit c \<longleftrightarrow> 48 \<le> c \<and> c \<le> 57"

text \<open>\<^verbatim>\<open>strconv.ParseUint(s, 10, bits)\<close>; \<open>None\<close> is its error.\<close>

fun parse_digits :: "nat \<Rightarrow> byte list \<Rightarrow> nat option" where
  "parse_digits acc [] = Some acc"
| "parse_digits acc (c # cs) =
     (if is_digit c then parse_digits (10 * acc + unat (c - 48)) cs else None)"

definition ParseUint10 :: "nat \<Rightarrow> byte list \<Rightarrow> nat option" where
  "ParseUint10 bits s =
     (if s = [] then None
      else case parse_digits 0 s of
             None \<Rightarrow> None
           | Some n \<Rightarrow> if n < 2 ^ bits then Some n else None)"

text \<open>\<^verbatim>\<open>strconv.Itoa\<close> of a non-negative integer.\<close>

fun Itoa :: "nat \<Rightarrow> byte list" where
  "Itoa n = (if n < 10 then [of_nat (48 + n)] else Itoa (n div 10) @ [of_nat (48 + n mod 10)])"

declare Itoa.simps [simp del]

lemma parse_digits_append:
  "parse_digits acc (xs @ ys) =
     (case parse_digits acc xs of None \<Rightarrow> None | Some a \<Rightarrow> parse_digits a ys)"
  by (induction xs arbitrary: acc) auto

lemma parse_digit:
  assumes "d < 10"
  shows "parse_digits acc [of_nat (48 + d)] = Some (10 * acc + d)"
proof -
  have u: "unat (of_nat (48 + d) :: byte) = 48 + d"
    using assms by (simp add: unat_of_nat del: of_nat_add)
  have "is_digit (of_nat (48 + d))"
    unfolding is_digit_def word_le_nat_alt u using assms by simp
  moreover have "(of_nat (48 + d) :: byte) - 48 = of_nat d" by simp
  moreover have "unat (of_nat d :: byte) = d"
    using assms by (simp add: unat_of_nat)
  ultimately show ?thesis by simp
qed

lemma parse_digits_Itoa: "parse_digits 0 (Itoa n) = Some n"
proof (induction n rule: Itoa.induct)
  case (1 n)
  show ?case
  proof (cases "n < 10")
    case True
    then show ?thesis using parse_digit [of n 0] by (simp add: Itoa.simps [of n])
  next
    case False
    with 1 have "parse_digits 0 (Itoa (n div 10)) = Some (n div 10)" by simp
    with False show ?thesis
      using parse_digit [of "n mod 10" "n div 10"]
      by (simp add: Itoa.simps [of n] parse_digits_append)
  qed
qed

lemma Itoa_not_Nil [simp]: "Itoa n \<noteq> []"
  by (subst Itoa.simps) simp

lemma ParseUint10_Itoa: "n < 2 ^ bits \<Longrightarrow> ParseUint10 bits (Itoa n) = Some n"
  by (simp add: ParseUint10_def parse_digits_Itoa)

section \<open>IP literals (\<^verbatim>\<open>net.ParseIP\<close>)\<close>

text \<open>
  The dotted-decimal scanner of \<^verbatim>\<open>net/netip\<close>: \<open>val\<close> and \<open>dig\<close> are the value and the
  number of digits of the current octet, \<open>fs\<close> the finished octets. A dot needs a digit before
  it and a byte after it.
\<close>

fun parse_ipv4_fields :: "byte list \<Rightarrow> nat \<Rightarrow> nat \<Rightarrow> byte list \<Rightarrow> byte list option" where
  "parse_ipv4_fields fs val dig [] =
     (if length fs < 3 then None else Some (fs @ [of_nat val]))"
| "parse_ipv4_fields fs val dig (c # cs) =
     (if is_digit c then
        (if dig = 1 \<and> val = 0 then None
         else let val' = 10 * val + unat (c - 48)
              in if val' > 255 then None else parse_ipv4_fields fs val' (dig + 1) cs)
      else if c = 46 then
        (if dig = 0 \<or> cs = [] then None
         else if length fs = 3 then None
         else parse_ipv4_fields (fs @ [of_nat val]) 0 0 cs)
      else None)"

definition hex_value :: "byte \<Rightarrow> nat option" where
  "hex_value c =
     (if 48 \<le> c \<and> c \<le> 57 then Some (unat (c - 48))
      else if 97 \<le> c \<and> c \<le> 102 then Some (unat (c - 97) + 10)
      else if 65 \<le> c \<and> c \<le> 70 then Some (unat (c - 65) + 10)
      else None)"

text \<open>A group of hex digits: its value, its length and the rest; \<open>None\<close> beyond four digits.\<close>

fun hex_group :: "nat \<Rightarrow> nat \<Rightarrow> byte list \<Rightarrow> (nat \<times> nat \<times> byte list) option" where
  "hex_group acc off [] = Some (acc, off, [])"
| "hex_group acc off (c # cs) =
     (case hex_value c of
        None \<Rightarrow> Some (acc, off, c # cs)
      | Some d \<Rightarrow> if off > 3 then None else hex_group (16 * acc + d) (off + 1) cs)"

text \<open>
  The group loop of \<^verbatim>\<open>parseIPv6\<close>: \<open>ip\<close> holds the bytes stored so far, \<open>ell\<close> the position
  of the ellipsis; the first argument counts the groups still allowed (the loop runs while
  \<open>i < 16\<close>, two bytes a turn). The result carries the unread rest of the string.
\<close>

fun parse_ipv6_groups ::
  "nat \<Rightarrow> byte list \<Rightarrow> nat option \<Rightarrow> byte list \<Rightarrow> (byte list \<times> nat option \<times> byte list) option" where
  "parse_ipv6_groups 0 ip ell s = Some (ip, ell, s)"
| "parse_ipv6_groups (Suc k) ip ell s =
     (case hex_group 0 0 s of
        None \<Rightarrow> None
      | Some (acc, off, rest) \<Rightarrow>
          if off = 0 then None
          else if rest \<noteq> [] \<and> hd rest = 46 then
            (if ell = None \<and> length ip \<noteq> 12 then None
             else if length ip + 4 > 16 then None
             else case parse_ipv4_fields [] 0 0 s of
                    None \<Rightarrow> None
                  | Some f4 \<Rightarrow> Some (ip @ f4, ell, []))
          else
            (let ip' = ip @ [of_nat (acc div 256), of_nat acc]
             in if rest = [] then Some (ip', ell, [])
                else if hd rest \<noteq> 58 then None
                else if tl rest = [] then None
                else if hd (tl rest) = 58 then
                  (if ell \<noteq> None then None
                   else if tl (tl rest) = [] then Some (ip', Some (length ip'), [])
                   else parse_ipv6_groups k ip' (Some (length ip')) (tl (tl rest)))
                else parse_ipv6_groups k ip' ell (tl rest)))"

definition expand_ipv6 :: "byte list \<times> nat option \<times> byte list \<Rightarrow> byte list option" where
  "expand_ipv6 r = (case r of (ip, ell, s) \<Rightarrow>
     if s \<noteq> [] then None
     else if length ip < 16 then
       (case ell of None \<Rightarrow> None
        | Some e \<Rightarrow> Some (take e ip @ replicate (16 - length ip) 0 @ drop e ip))
     else if ell \<noteq> None then None else Some ip)"

text \<open>A zone (after \<^verbatim>\<open>%\<close>) is an error for \<^verbatim>\<open>net.ParseIP\<close>, even an empty one.\<close>

definition parse_ipv6 :: "byte list \<Rightarrow> byte list option" where
  "parse_ipv6 s =
     (if 37 \<in> set s then None
      else if take 2 s = [58, 58] then
        (if drop 2 s = [] then Some (replicate 16 0)
         else Option.bind (parse_ipv6_groups 8 [] (Some 0) (drop 2 s)) expand_ipv6)
      else Option.bind (parse_ipv6_groups 8 [] None s) expand_ipv6)"

definition v4_mapped :: "byte list \<Rightarrow> byte list" where
  "v4_mapped f4 = replicate 10 0 @ [0xff, 0xff] @ f4"

text \<open>The first of \<^verbatim>\<open>.\<close>, \<^verbatim>\<open>:\<close> and \<^verbatim>\<open>%\<close> decides which parser runs.\<close>

definition ParseIP :: "byte list \<Rightarrow> byte list option" where
  "ParseIP s =
     (case find (\<lambda>c. c = 46 \<or> c = 58 \<or> c = 37) s of
        None \<Rightarrow> None
      | Some c \<Rightarrow>
          if c = 46 then map_option v4_mapped (parse_ipv4_fields [] 0 0 s)
          else if c = 58 then parse_ipv6 s
          else None)"

lemma parse_ipv4_fields_length:
  "length fs \<le> 3 \<Longrightarrow> parse_ipv4_fields fs val dig s = Some r \<Longrightarrow> length r = 4"
  by (induction fs val dig s rule: parse_ipv4_fields.induct)
     (auto simp: Let_def split: if_splits)

text \<open>Every byte an address parser accepts is a hex digit, a dot or a colon.\<close>

definition ip_byte :: "byte \<Rightarrow> bool" where
  "ip_byte c \<longleftrightarrow> hex_value c \<noteq> None \<or> c = 46 \<or> c = 58"

lemma ip_byte_intros [simp, intro]:
  "hex_value c = Some d \<Longrightarrow> ip_byte c" "ip_byte 46" "ip_byte 58" "is_digit c \<Longrightarrow> ip_byte c"
  by (simp_all add: ip_byte_def is_digit_def hex_value_def)

lemma parse_ipv4_fields_bytes:
  "parse_ipv4_fields fs val dig s = Some r \<Longrightarrow> list_all ip_byte s"
  by (induction fs val dig s rule: parse_ipv4_fields.induct)
     (auto simp: Let_def split: if_splits)

lemma hex_group_bytes:
  "hex_group acc off s = Some (acc', off', rest) \<Longrightarrow>
   \<exists>pre. s = pre @ rest \<and> list_all ip_byte pre"
proof (induction acc off s rule: hex_group.induct)
  case (2 acc off c cs)
  show ?case
  proof (cases "hex_value c")
    case None
    with "2.prems" show ?thesis by simp
  next
    case (Some d)
    with 2 obtain pre where "cs = pre @ rest" "list_all ip_byte pre"
      by (auto split: if_splits)
    with Some show ?thesis
      by (intro exI [of _ "c # pre"]) simp
  qed
qed simp

lemma parse_ipv6_groups_bytes:
  "parse_ipv6_groups k ip ell s = Some (ip', ell', []) \<Longrightarrow> list_all ip_byte s"
proof (induction k ip ell s rule: parse_ipv6_groups.induct)
  case (2 k ip ell s)
  from "2.prems" obtain acc off rest where h: "hex_group 0 0 s = Some (acc, off, rest)"
    by (auto split: option.splits)
  from hex_group_bytes [OF h] obtain pre where s: "s = pre @ rest" "list_all ip_byte pre" by blast
  from "2.prems" h have off: "off \<noteq> 0" by (auto split: if_splits)
  have rest: "list_all ip_byte s" if "rest = c # rest'" for c rest'
  proof (cases "c = 46")
    case True
    with "2.prems" h off that show ?thesis
      by (auto split: if_splits option.splits dest: parse_ipv4_fields_bytes)
  next
    case False
    with "2.prems" h off that s "2.IH" [OF h refl refl off] show ?thesis
      by (cases rest') (auto simp: Let_def split: if_splits)
  qed
  show ?case using rest s by (cases rest) auto
qed auto

lemma ParseIP_bytes: "ParseIP s = Some r \<Longrightarrow> list_all ip_byte s"
proof -
  assume r: "ParseIP s = Some r"
  have v6: "list_all ip_byte t"
    if "Option.bind (parse_ipv6_groups 8 [] e t) expand_ipv6 = Some r" for e t
    using that parse_ipv6_groups_bytes
    by (fastforce simp: expand_ipv6_def Option.bind_eq_Some_conv split: if_splits)
  have "list_all ip_byte s" if "parse_ipv6 s = Some r"
  proof (cases "take 2 s = [58, 58]")
    case True
    then have s: "s = [58, 58] @ drop 2 s" by (metis append_take_drop_id)
    have "list_all ip_byte (drop 2 s)"
      using that True v6 by (cases "drop 2 s = []") (auto simp: parse_ipv6_def split: if_splits)
    then show ?thesis by (subst s) simp
  next
    case False
    with that v6 show ?thesis by (auto simp: parse_ipv6_def split: if_splits)
  qed
  with r show ?thesis
    by (auto simp: ParseIP_def dest: parse_ipv4_fields_bytes split: option.splits if_splits)
qed

end
