(* ===== verification/Net.thy ===== *)
theory Net
  imports Go_Std
begin

text \<open>
  Package \<^verbatim>\<open>common/net\<close>: addresses and their families, ports and port ranges, networks and
  destinations, with the codecs \<^verbatim>\<open>serial.ReadUint16\<close> / \<^verbatim>\<open>WriteUint16\<close> and the
  \<^verbatim>\<open>bitmask.Byte\<close> operations that the protocol packages use beside them. The three Go types
  behind the \<^verbatim>\<open>Address\<close> interface are the constructors of one datatype; a nil
  \<^verbatim>\<open>Address\<close> is \<open>None\<close>.
\<close>

section \<open>Addresses (\<^verbatim>\<open>common/net/address.go\<close>)\<close>

type_synonym AddressFamily = byte

definition AddressFamilyIPv4 :: AddressFamily where "AddressFamilyIPv4 = 0"
definition AddressFamilyIPv6 :: AddressFamily where "AddressFamilyIPv6 = 1"
definition AddressFamilyDomain :: AddressFamily where "AddressFamilyDomain = 2"

lemmas family_defs = AddressFamilyIPv4_def AddressFamilyIPv6_def AddressFamilyDomain_def

definition IsIPv4 :: "AddressFamily \<Rightarrow> bool" where
  "IsIPv4 af \<longleftrightarrow> af = AddressFamilyIPv4"

definition IsIPv6 :: "AddressFamily \<Rightarrow> bool" where
  "IsIPv6 af \<longleftrightarrow> af = AddressFamilyIPv6"

definition IsIP :: "AddressFamily \<Rightarrow> bool" where
  "IsIP af \<longleftrightarrow> af = AddressFamilyIPv4 \<or> af = AddressFamilyIPv6"

definition IsDomain :: "AddressFamily \<Rightarrow> bool" where
  "IsDomain af \<longleftrightarrow> af = AddressFamilyDomain"

datatype address =
    ipv4Address "byte list"
  | ipv6Address "byte list"
  | domainAddress "byte list"

fun Family :: "address \<Rightarrow> AddressFamily" where
  "Family (ipv4Address _) = AddressFamilyIPv4"
| "Family (ipv6Address _) = AddressFamilyIPv6"
| "Family (domainAddress _) = AddressFamilyDomain"

text \<open>\<^verbatim>\<open>IP()\<close> panics on a domain, \<^verbatim>\<open>Domain()\<close> on an IP address.\<close>

fun IP :: "address \<Rightarrow> byte list option" where
  "IP (ipv4Address a) = Some a"
| "IP (ipv6Address a) = Some a"
| "IP (domainAddress _) = None"

fun Domain :: "address \<Rightarrow> byte list option" where
  "Domain (ipv4Address _) = None"
| "Domain (ipv6Address _) = None"
| "Domain (domainAddress d) = Some d"

definition isAlphaNum :: "byte \<Rightarrow> bool" where
  "isAlphaNum c \<longleftrightarrow> (48 \<le> c \<and> c \<le> 57) \<or> (97 \<le> c \<and> c \<le> 122) \<or> (65 \<le> c \<and> c \<le> 90)"

definition bytes0 :: "byte list" where
  "bytes0 = [0, 0, 0, 0, 0, 0, 0, 0, 0, 0]"

text \<open>A 16-byte IPv4-mapped address is unmapped by the recursive call on its last four bytes.\<close>

definition IPAddress :: "byte list \<Rightarrow> address option" where
  "IPAddress ip =
     (if length ip = 4 then Some (ipv4Address ip)
      else if length ip = 16 then
        (if take 10 ip = bytes0 \<and> ip ! 10 = 0xff \<and> ip ! 11 = 0xff
         then Some (ipv4Address (drop 12 ip))
         else Some (ipv6Address ip))
      else None)"

definition DomainAddress :: "byte list \<Rightarrow> address" where
  "DomainAddress d = domainAddress d"

definition ParseAddress :: "byte list \<Rightarrow> address option" where
  "ParseAddress addr0 =
     (let addr1 = (if addr0 \<noteq> [] \<and> hd addr0 = 91 \<and> last addr0 = 93
                   then take (length addr0 - 2) (drop 1 addr0) else addr0);
          addr2 = (if addr1 \<noteq> [] \<and> (\<not> isAlphaNum (hd addr1) \<or> \<not> isAlphaNum (last addr1))
                   then TrimSpace addr1 else addr1)
      in case ParseIP addr2 of
           Some ip \<Rightarrow> IPAddress ip
         | None \<Rightarrow> Some (DomainAddress addr2))"

text \<open>The protobuf form of an address; the third case is a oneof that is not set.\<close>

datatype IPOrDomain = IPOrDomain_Ip "byte list" | IPOrDomain_Domain "byte list" | IPOrDomain_Unset

text \<open>\<^verbatim>\<open>AsAddress\<close>: outer \<open>None\<close> a panic, inner \<open>None\<close> the nil address.\<close>

fun AsAddress :: "IPOrDomain option \<Rightarrow> address option option" where
  "AsAddress None = Some None"
| "AsAddress (Some (IPOrDomain_Ip ip)) = Some (IPAddress ip)"
| "AsAddress (Some (IPOrDomain_Domain d)) = Some (Some (DomainAddress d))"
| "AsAddress (Some IPOrDomain_Unset) = None"

definition NewIPOrDomain :: "address \<Rightarrow> IPOrDomain option" where
  "NewIPOrDomain addr =
     (if Family addr = AddressFamilyDomain then map_option IPOrDomain_Domain (Domain addr)
      else if Family addr = AddressFamilyIPv4 \<or> Family addr = AddressFamilyIPv6
      then map_option IPOrDomain_Ip (IP addr)
      else None)"

text \<open>
  The values the constructors of the package produce: four bytes, or sixteen that are not an
  IPv4-mapped address. Domains are arbitrary strings.
\<close>

fun address_wf :: "address \<Rightarrow> bool" where
  "address_wf (ipv4Address a) \<longleftrightarrow> length a = 4"
| "address_wf (ipv6Address a) \<longleftrightarrow>
     length a = 16 \<and> \<not> (take 10 a = bytes0 \<and> a ! 10 = 0xff \<and> a ! 11 = 0xff)"
| "address_wf (domainAddress d) \<longleftrightarrow> True"

section \<open>Ports (\<^verbatim>\<open>common/net/port.go\<close>)\<close>

type_synonym Port = u16

definition PortFromBytes :: "byte list \<Rightarrow> Port option" where
  "PortFromBytes b = Uint16 b"

definition PortFromInt :: "u32 \<Rightarrow> go_error + Port" where
  "PortFromInt val = (if val > 65535 then Inl (ErrNew ''invalid port range: '') else Inr (ucast val))"

definition PortFromString :: "byte list \<Rightarrow> go_error + Port" where
  "PortFromString s =
     (case ParseUint10 32 s of
        None \<Rightarrow> Inl (ErrNew ''invalid port range: '')
      | Some val \<Rightarrow> PortFromInt (of_nat val))"

definition Port_String :: "Port \<Rightarrow> byte list" where
  "Port_String p = Itoa (unat p)"

record PortRange =
  From :: u32
  To :: u32

definition PortRange_Contains :: "PortRange \<Rightarrow> Port \<Rightarrow> bool" where
  "PortRange_Contains r p \<longleftrightarrow> ucast (From r) \<le> p \<and> p \<le> ucast (To r)"

definition SinglePortRange :: "Port \<Rightarrow> PortRange" where
  "SinglePortRange p = \<lparr>From = ucast p, To = ucast p\<rparr>"

record MemoryPortRange =
  mFrom :: Port
  mTo :: Port

definition MemoryPortRange_Contains :: "MemoryPortRange \<Rightarrow> Port \<Rightarrow> bool" where
  "MemoryPortRange_Contains r p \<longleftrightarrow> mFrom r \<le> p \<and> p \<le> mTo r"

definition PortListFromProto :: "PortRange list \<Rightarrow> MemoryPortRange list" where
  "PortListFromProto l = map (\<lambda>r. \<lparr>mFrom = ucast (From r), mTo = ucast (To r)\<rparr>) l"

fun MemoryPortList_Contains :: "MemoryPortRange list \<Rightarrow> Port \<Rightarrow> bool" where
  "MemoryPortList_Contains [] p = False"
| "MemoryPortList_Contains (r # rs) p =
     (if MemoryPortRange_Contains r p then True else MemoryPortList_Contains rs p)"

section \<open>Networks and destinations (\<^verbatim>\<open>network.go\<close>, \<^verbatim>\<open>destination.go\<close>)\<close>

datatype Network = Network_Unknown | Network_TCP | Network_UDP | Network_UNIX

fun SystemString :: "Network \<Rightarrow> string" where
  "SystemString Network_TCP = ''tcp''"
| "SystemString Network_UDP = ''udp''"
| "SystemString Network_UNIX = ''unix''"
| "SystemString Network_Unknown = ''unknown''"

fun HasNetwork :: "Network list \<Rightarrow> Network \<Rightarrow> bool" where
  "HasNetwork [] n = False"
| "HasNetwork (v # vs) n = (if v = n then True else HasNetwork vs n)"

record Destination =
  Address :: "address option"
  DPort :: Port
  DNetwork :: Network

definition TCPDestination :: "address \<Rightarrow> Port \<Rightarrow> Destination" where
  "TCPDestination a p = \<lparr>Address = Some a, DPort = p, DNetwork = Network_TCP\<rparr>"

definition UDPDestination :: "address \<Rightarrow> Port \<Rightarrow> Destination" where
  "UDPDestination a p = \<lparr>Address = Some a, DPort = p, DNetwork = Network_UDP\<rparr>"

definition UnixDestination :: "address \<Rightarrow> Destination" where
  "UnixDestination a = \<lparr>Address = Some a, DPort = 0, DNetwork = Network_UNIX\<rparr>"

definition Destination_IsValid :: "Destination \<Rightarrow> bool" where
  "Destination_IsValid d \<longleftrightarrow> DNetwork d \<noteq> Network_Unknown"

text \<open>The zero value of the struct.\<close>

definition zero_Destination :: Destination where
  "zero_Destination = \<lparr>Address = None, DPort = 0, DNetwork = Network_Unknown\<rparr>"

section \<open>Serialisation of a port (\<^verbatim>\<open>common/serial\<close>) and bit masks (\<^verbatim>\<open>common/bitmask\<close>)\<close>

definition ReadUint16 :: "reader \<Rightarrow> (go_error + u16) \<times> reader" where
  "ReadUint16 r =
     (case ReadFull 2 r of
        (b, Some e, r') \<Rightarrow> (Inl e, r')
      | (b, None, r') \<Rightarrow> (case Uint16 b of Some w \<Rightarrow> (Inr w, r') | None \<Rightarrow> (Inl EOF, r')))"

definition mask_Has :: "byte \<Rightarrow> byte \<Rightarrow> bool" where
  "mask_Has b bb \<longleftrightarrow> (b AND bb) \<noteq> 0"

definition mask_Set :: "byte \<Rightarrow> byte \<Rightarrow> byte" where
  "mask_Set b bb = (b OR bb)"

definition mask_Clear :: "byte \<Rightarrow> byte \<Rightarrow> byte" where
  "mask_Clear b bb = (b AND NOT bb)"

definition mask_Toggle :: "byte \<Rightarrow> byte \<Rightarrow> byte" where
  "mask_Toggle b bb = (b XOR bb)"

section \<open>Properties\<close>

lemma IPAddress_wf: "IPAddress ip = Some a \<Longrightarrow> address_wf a"
  by (auto simp: IPAddress_def split: if_splits)

lemma IPAddress_IP: "address_wf a \<Longrightarrow> IP a = Some ip \<Longrightarrow> IPAddress ip = Some a"
  by (cases a) (auto simp: IPAddress_def)

lemma parse_ipv6_groups_length:
  assumes "parse_ipv6_groups k ip ell s = Some (ip', ell', s')"
    and "length ip + 2 * k = 16" and "case ell of None \<Rightarrow> True | Some e \<Rightarrow> e \<le> length ip"
  shows "length ip' \<le> 16 \<and> (case ell' of None \<Rightarrow> True | Some e \<Rightarrow> e \<le> length ip')"
  using assms
proof (induction k ip ell s rule: parse_ipv6_groups.induct)
  case (2 k ip ell s)
  from "2.prems"(1) obtain acc off rest where h: "hex_group 0 0 s = Some (acc, off, rest)"
    and off: "off \<noteq> 0"
    by (auto split: option.splits if_splits)
  note IH = "2.IH" [OF h refl refl off]
  show ?case
  proof (cases "rest \<noteq> [] \<and> hd rest = 46")
    case True
    with "2.prems" h off show ?thesis
      by (auto split: if_splits option.splits dest!: parse_ipv4_fields_length [rotated])
  next
    case False
    with "2.prems" h off IH show ?thesis
      by (auto simp: Let_def split: if_splits option.splits)
  qed
qed auto

lemma expand_ipv6_length:
  "expand_ipv6 (ip, ell, s) = Some r \<Longrightarrow> length ip \<le> 16 \<Longrightarrow>
   (case ell of None \<Rightarrow> True | Some e \<Rightarrow> e \<le> length ip) \<Longrightarrow> length r = 16"
  by (auto simp: expand_ipv6_def split: if_splits option.splits)

lemma ParseIP_length: "ParseIP s = Some r \<Longrightarrow> length r = 16"
proof -
  have v6: "length r = 16"
    if "Option.bind (parse_ipv6_groups 8 [] e t) expand_ipv6 = Some r" "e = None \<or> e = Some 0" for e t
  proof -
    from that(1) obtain ip ell s where "parse_ipv6_groups 8 [] e t = Some (ip, ell, s)"
      and x: "expand_ipv6 (ip, ell, s) = Some r"
      by (auto simp: Option.bind_eq_Some_conv)
    from parse_ipv6_groups_length [OF this(1)] that(2)
    have "length ip \<le> 16 \<and> (case ell of None \<Rightarrow> True | Some e \<Rightarrow> e \<le> length ip)" by auto
    with x show ?thesis using expand_ipv6_length by blast
  qed
  assume "ParseIP s = Some r"
  then show ?thesis
    by (auto simp: ParseIP_def parse_ipv6_def v4_mapped_def split: if_splits option.splits
        dest: v6 dest!: parse_ipv4_fields_length [rotated])
qed

lemma IPAddress_some: "length ip = 4 \<or> length ip = 16 \<Longrightarrow> \<exists>a. IPAddress ip = Some a"
  by (auto simp: IPAddress_def)

lemma ParseAddress_cases:
  "\<exists>t. ParseAddress s = (case ParseIP t of Some ip \<Rightarrow> IPAddress ip | None \<Rightarrow> Some (domainAddress t))"
  unfolding ParseAddress_def Let_def DomainAddress_def by (rule exI, rule refl)

lemma ParseAddress_some: "\<exists>a. ParseAddress s = Some a \<and> address_wf a"
proof -
  obtain t where t: "ParseAddress s = (case ParseIP t of Some ip \<Rightarrow> IPAddress ip | None \<Rightarrow> Some (domainAddress t))"
    using ParseAddress_cases by blast
  show ?thesis
  proof (cases "ParseIP t")
    case (Some ip)
    then obtain a where "IPAddress ip = Some a" using ParseIP_length [OF Some] IPAddress_some by blast
    then show ?thesis using t Some IPAddress_wf by simp
  qed (simp add: t)
qed

text \<open>
  C40: \<^verbatim>\<open>ParseAddress\<close> never yields the nil address: for every string it returns a
  well-formed address (four bytes, or sixteen that are not an IPv4-mapped address), and it
  returns a domain only when that domain is not an IP literal itself.
\<close>

theorem ParseAddress_total:
  "\<exists>a. ParseAddress s = Some a \<and> address_wf a \<and>
     (case a of domainAddress d \<Rightarrow> ParseIP d = None | _ \<Rightarrow> True)"
proof -
  obtain t where t: "ParseAddress s =
      (case ParseIP t of Some ip \<Rightarrow> IPAddress ip | None \<Rightarrow> Some (domainAddress t))"
    using ParseAddress_cases by blast
  show ?thesis
  proof (cases "ParseIP t")
    case (Some ip)
    with t show ?thesis using ParseIP_length [OF Some] by (simp add: IPAddress_def)
  qed (simp add: t)
qed

lemma AsAddress_NewIPOrDomain:
  "address_wf a \<Longrightarrow> Option.bind (NewIPOrDomain a) (\<lambda>d. AsAddress (Some d)) = Some (Some a)"
  by (cases a) (auto simp: NewIPOrDomain_def family_defs DomainAddress_def IPAddress_def)

lemma MemoryPortList_Contains_iff:
  "MemoryPortList_Contains (PortListFromProto l) p \<longleftrightarrow> (\<exists>r \<in> set l. PortRange_Contains r p)"
  by (induction l) (auto simp: PortListFromProto_def MemoryPortRange_Contains_def
      PortRange_Contains_def)

lemma SinglePortRange_Contains: "PortRange_Contains (SinglePortRange p) q \<longleftrightarrow> p = q"
  by (auto simp: PortRange_Contains_def SinglePortRange_def unsigned_ucast_eq
      take_bit_word_eq_self)

lemma HasNetwork_iff: "HasNetwork ns n \<longleftrightarrow> n \<in> set ns"
  by (induction ns) auto

text \<open>
  Printing a port and reading it back gives the port, and every accepted string denotes a
  value of at most 65535: \<^verbatim>\<open>PortFromString\<close> inverts \<^verbatim>\<open>Port.String\<close> and rejects the
  numbers that the conversion to 16 bits would truncate.
\<close>

theorem Port_roundtrip:
  "PortFromString (Port_String p) = Inr p \<and>
   (PortFromString s = Inr q \<longleftrightarrow> ParseUint10 32 s = Some (unat q))"
proof -
  have small: "unat w < 65536" for w :: u16
    using unsigned_less [of w] by simp
  have conv: "PortFromInt (of_nat n) = Inr w \<longleftrightarrow> n = unat w" if "n < 2 ^ 32" for n and w :: u16
  proof -
    have "(65535 :: u32) < of_nat n \<longleftrightarrow> 65535 < n"
      using that by (simp add: word_less_nat_alt unat_of_nat)
    moreover have "(ucast (of_nat n :: u32) :: u16) = of_nat n"
      using that by (simp add: unsigned_of_nat take_bit_nat_eq_self)
    moreover have "(of_nat n :: u16) = w \<longleftrightarrow> n = unat w" if "n < 65536"
      using that by (auto simp: unat_of_nat)
    ultimately show ?thesis using small [of w]
      by (cases "n < 65536") (auto simp: PortFromInt_def)
  qed
  have iff: "PortFromString t = Inr w \<longleftrightarrow> ParseUint10 32 t = Some (unat w)" for t and w :: u16
    using conv by (auto simp: PortFromString_def ParseUint10_def split: option.splits if_splits)
  have "unat p < 2 ^ 32" using small [of p] by simp
  then have "ParseUint10 32 (Port_String p) = Some (unat p)"
    unfolding Port_String_def by (rule ParseUint10_Itoa)
  with iff show ?thesis by blast
qed

lemma ReadUint16_PutUint16:
  "concat r = PutUint16 w @ xs \<Longrightarrow> \<exists>r'. ReadUint16 r = (Inr w, r') \<and> concat r' = xs"
  using ReadFull_enough [of 2 r] Uint16_PutUint16 [of w "[]"]
  by (auto simp: ReadUint16_def)

lemma mask_Has_Set: "bb \<noteq> 0 \<Longrightarrow> mask_Has (mask_Set b bb) bb"
  by (simp add: mask_Has_def mask_Set_def bit.conj_disj_distrib2 or.commute)

end
