(* ===== verification/Buffer.thy ===== *)
theory Buffer
  imports Net
begin

text \<open>
  Package \<^verbatim>\<open>common/buf\<close>, file \<^verbatim>\<open>buffer.go\<close>: the recyclable byte buffer that every
  transport and proxy of the program moves its data in, and the array pool of
  \<^verbatim>\<open>common/bytespool\<close> below it. The offsets are \<^verbatim>\<open>int32\<close> values (with their
  wrap-around), every slice and index expression is checked as Go checks it, and a slice that a
  method hands out is the pair of its offsets, through which \<open>buf_put\<close> writes.
\<close>

section \<open>The array pool (\<^verbatim>\<open>common/bytespool/pool.go\<close>)\<close>

definition numPools :: nat where "numPools = 4"
definition sizeMulti :: nat where "sizeMulti = 4"

definition poolSize :: "nat list" where
  "poolSize = map (\<lambda>i. 2048 * sizeMulti ^ i) [0..<numPools]"

text \<open>
  The state of the pools: the slices that were put back. A \<^verbatim>\<open>sync.Pool\<close> hands out any of
  them, or makes a new one; the choice is an argument (out of range: a new one).
\<close>

type_synonym pools = "byte list list list"

definition GetPool :: "int \<Rightarrow> nat option" where
  "GetPool sz = find (\<lambda>i. sz \<le> int (poolSize ! i)) [0..<numPools]"

definition pool_Get :: "nat \<Rightarrow> nat \<Rightarrow> pools \<Rightarrow> byte list \<times> pools" where
  "pool_Get choice i ps =
     (if choice < length (ps ! i)
      then (ps ! i ! choice, ps[i := take choice (ps ! i) @ drop (Suc choice) (ps ! i)])
      else (replicate (poolSize ! i) 0, ps))"

definition pool_Put :: "nat \<Rightarrow> byte list \<Rightarrow> pools \<Rightarrow> pools" where
  "pool_Put i b ps = ps[i := b # ps ! i]"

text \<open>\<^verbatim>\<open>make([]byte, size)\<close> panics on a negative size.\<close>

definition Alloc :: "nat \<Rightarrow> int \<Rightarrow> pools \<Rightarrow> (byte list \<times> pools) option" where
  "Alloc choice sz ps =
     (case GetPool sz of
        Some i \<Rightarrow> Some (pool_Get choice i ps)
      | None \<Rightarrow> if sz < 0 then None else Some (replicate (nat sz) 0, ps))"

text \<open>\<^verbatim>\<open>Free\<close>: the slice, extended to its capacity, goes to the largest pool it serves.\<close>

definition Free :: "byte list \<Rightarrow> pools \<Rightarrow> pools" where
  "Free b ps =
     (case find (\<lambda>i. i32 (int (length b)) \<ge> int (poolSize ! i)) (rev [0..<numPools]) of
        Some i \<Rightarrow> pool_Put i b ps
      | None \<Rightarrow> ps)"

section \<open>The buffer\<close>

definition Size :: nat where "Size = 8192"

text \<open>
  \<open>arr\<close> is the array behind \<^verbatim>\<open>v\<close> up to its capacity, \<open>vlen\<close> is \<^verbatim>\<open>len(v)\<close> and
  \<open>vnil\<close> says that \<^verbatim>\<open>v\<close> is nil.
\<close>

record buffer =
  arr :: "byte list"
  vlen :: nat
  vnil :: bool
  buf_start :: int
  buf_end :: int
  unmanaged :: bool
  UDP :: "Destination option"

definition buf_of :: "byte list \<Rightarrow> nat \<Rightarrow> int \<Rightarrow> bool \<Rightarrow> buffer" where
  "buf_of a n e u = \<lparr>arr = a, vlen = n, vnil = False, buf_start = 0, buf_end = e,
     unmanaged = u, UDP = None\<rparr>"

text \<open>\<^verbatim>\<open>New\<close> on the array that the pool returned.\<close>

definition buf_New :: "byte list \<Rightarrow> buffer" where
  "buf_New a =
     (if length a \<ge> Size then buf_of a Size 0 False else buf_of (replicate Size 0) Size 0 False)"

text \<open>\<^verbatim>\<open>New\<close> where the pool makes a new array.\<close>

definition New :: buffer where
  "New = buf_New (replicate Size 0)"

definition StackNew :: "byte list \<Rightarrow> buffer" where
  "StackNew a =
     (if length a \<ge> Size then buf_of a Size 0 False else buf_of (replicate Size 0) Size 0 False)"

definition NewExisted :: "byte list \<Rightarrow> nat \<Rightarrow> buffer option" where
  "NewExisted a oLen =
     (if length a < Size then None
      else Some (buf_of a (if oLen < Size then Size else oLen) (i32 (int oLen)) False))"

definition FromBytes :: "byte list \<Rightarrow> buffer" where
  "FromBytes b = buf_of b (length b) (i32 (int (length b))) True"

definition NewWithSize :: "nat \<Rightarrow> int \<Rightarrow> pools \<Rightarrow> (buffer \<times> pools) option" where
  "NewWithSize choice sz ps =
     (case Alloc choice sz ps of
        None \<Rightarrow> None
      | Some (a, ps') \<Rightarrow> Some (buf_of a (length a) 0 False, ps'))"

definition buf_Clear :: "buffer \<Rightarrow> buffer" where
  "buf_Clear b = b\<lparr>buf_start := 0, buf_end := 0\<rparr>"

text \<open>\<^verbatim>\<open>Release\<close>: the buffer afterwards and the array given to the pool, if any.\<close>

definition buf_Release :: "buffer \<Rightarrow> buffer \<times> byte list option" where
  "buf_Release b =
     (if vnil b \<or> unmanaged b then (b, None)
      else ((buf_Clear (b\<lparr>arr := [], vlen := 0, vnil := True\<rparr>))\<lparr>UDP := None\<rparr>,
            if length (arr b) = Size then Some (arr b) else None))"

definition Byte :: "int \<Rightarrow> buffer \<Rightarrow> byte option" where
  "Byte i b = index_expr (arr b) (int (vlen b)) (i32 (buf_start b + i))"

definition SetByte :: "int \<Rightarrow> byte \<Rightarrow> buffer \<Rightarrow> buffer option" where
  "SetByte i x b =
     (let j = i32 (buf_start b + i)
      in if 0 \<le> j \<and> j < int (vlen b) then Some (b\<lparr>arr := (arr b)[nat j := x]\<rparr>) else None)"

definition Bytes :: "buffer \<Rightarrow> byte list option" where
  "Bytes b = slice_expr (arr b) (buf_start b) (buf_end b)"

definition buf_Len :: "buffer \<Rightarrow> int" where
  "buf_Len b = i32 (buf_end b - buf_start b)"

text \<open>\<^verbatim>\<open>Len\<close> and \<^verbatim>\<open>Cap\<close> accept the nil pointer.\<close>

definition buf_Len_ptr :: "buffer option \<Rightarrow> int" where
  "buf_Len_ptr p = (case p of None \<Rightarrow> 0 | Some b \<Rightarrow> buf_Len b)"

definition buf_Cap :: "buffer option \<Rightarrow> int" where
  "buf_Cap p = (case p of None \<Rightarrow> 0 | Some b \<Rightarrow> i32 (int (vlen b)))"

definition buf_IsEmpty :: "buffer \<Rightarrow> bool" where
  "buf_IsEmpty b \<longleftrightarrow> buf_Len b = 0"

definition buf_IsFull :: "buffer \<Rightarrow> bool" where
  "buf_IsFull b \<longleftrightarrow> buf_end b = i32 (int (vlen b))"

text \<open>\<^verbatim>\<open>Extend\<close>: the offsets of the part added to the buffer.\<close>

definition Extend :: "int \<Rightarrow> buffer \<Rightarrow> (buffer \<times> nat \<times> nat) option" where
  "Extend n b =
     (let e = i32 (buf_end b + n)
      in if e > i32 (int (vlen b)) then None
         else case slice_expr (arr b) (buf_end b) e of
                None \<Rightarrow> None
              | Some _ \<Rightarrow> Some (b\<lparr>buf_end := e\<rparr>, nat (buf_end b), nat e))"

definition buf_put :: "nat \<Rightarrow> byte list \<Rightarrow> buffer \<Rightarrow> buffer" where
  "buf_put off xs b = b\<lparr>arr := blit off xs (arr b)\<rparr>"

definition from_end :: "int \<Rightarrow> buffer \<Rightarrow> int" where
  "from_end i b = (if i < 0 then i32 (i + buf_Len b) else i)"

definition BytesRange :: "int \<Rightarrow> int \<Rightarrow> buffer \<Rightarrow> byte list option" where
  "BytesRange from to b =
     slice_expr (arr b) (i32 (buf_start b + from_end from b)) (i32 (buf_start b + from_end to b))"

definition BytesFrom :: "int \<Rightarrow> buffer \<Rightarrow> byte list option" where
  "BytesFrom from b = slice_expr (arr b) (i32 (buf_start b + from_end from b)) (buf_end b)"

definition BytesTo :: "int \<Rightarrow> buffer \<Rightarrow> byte list option" where
  "BytesTo to b =
     (let t = from_end to b; t' = (if t < 0 then 0 else t)
      in slice_expr (arr b) (buf_start b) (i32 (buf_start b + t')))"

definition Check :: "buffer \<Rightarrow> buffer" where
  "Check b =
     (let s = (if buf_start b < 0 then 0 else buf_start b);
          e = (if buf_end b < 0 then 0 else buf_end b)
      in b\<lparr>buf_start := (if s > e then e else s), buf_end := e\<rparr>)"

definition Resize :: "int \<Rightarrow> int \<Rightarrow> buffer \<Rightarrow> buffer option" where
  "Resize from to b =
     (let f = from_end from b; t = from_end to b
      in if t < f then None
         else Some (Check (b\<lparr>buf_end := i32 (buf_start b + t), buf_start := i32 (buf_start b + f)\<rparr>)))"

definition Advance :: "int \<Rightarrow> buffer \<Rightarrow> buffer" where
  "Advance from b = Check (b\<lparr>buf_start := i32 (buf_start b + from_end from b)\<rparr>)"

text \<open>\<^verbatim>\<open>Write\<close>: the number of bytes copied and the buffer; it never returns an error.\<close>

definition buf_Write :: "byte list \<Rightarrow> buffer \<Rightarrow> (nat \<times> buffer) option" where
  "buf_Write data b =
     (if 0 \<le> buf_end b \<and> buf_end b \<le> int (vlen b)
      then let n = min (vlen b - nat (buf_end b)) (length data)
           in Some (n, (buf_put (nat (buf_end b)) (take n data) b)\<lparr>buf_end := i32 (buf_end b + int n)\<rparr>)
      else None)"

definition WriteByte :: "byte \<Rightarrow> buffer \<Rightarrow> ((go_error + unit) \<times> buffer) option" where
  "WriteByte x b =
     (if buf_IsFull b then Some (Inl (ErrNew ''buffer full''), b)
      else if 0 \<le> buf_end b \<and> buf_end b < int (vlen b)
      then Some (Inr (), (buf_put (nat (buf_end b)) [x] b)\<lparr>buf_end := i32 (buf_end b + 1)\<rparr>)
      else None)"

definition ReadByte :: "buffer \<Rightarrow> ((go_error + byte) \<times> buffer) option" where
  "ReadByte b =
     (if buf_start b = buf_end b then Some (Inl EOF, b)
      else case index_expr (arr b) (int (vlen b)) (buf_start b) of
             None \<Rightarrow> None
           | Some x \<Rightarrow> Some (Inr x, b\<lparr>buf_start := i32 (buf_start b + 1)\<rparr>))"

definition ReadBytes :: "int \<Rightarrow> buffer \<Rightarrow> ((go_error + byte list) \<times> buffer) option" where
  "ReadBytes n b =
     (if i32 (buf_end b - buf_start b) < n then Some (Inl EOF, b)
      else case slice_expr (arr b) (buf_start b) (i32 (buf_start b + n)) of
             None \<Rightarrow> None
           | Some xs \<Rightarrow> Some (Inr xs, b\<lparr>buf_start := i32 (buf_start b + n)\<rparr>))"

text \<open>\<^verbatim>\<open>Read\<close> into a slice of \<open>n\<close> bytes: the bytes copied into it, or \<^verbatim>\<open>io.EOF\<close>.\<close>

definition buf_Read :: "nat \<Rightarrow> buffer \<Rightarrow> ((go_error + byte list) \<times> buffer) option" where
  "buf_Read n b =
     (if buf_Len b = 0 then Some (Inl EOF, b)
      else case Bytes b of
             None \<Rightarrow> None
           | Some c \<Rightarrow>
               let xs = take n c
               in Some (Inr xs,
                        if int (length xs) = buf_Len b then buf_Clear b
                        else b\<lparr>buf_start := i32 (buf_start b + int (length xs))\<rparr>))"

text \<open>\<^verbatim>\<open>ReadFrom\<close>: one \<^verbatim>\<open>Read\<close> of the reader into the free part.\<close>

definition ReadFrom :: "reader \<Rightarrow> buffer \<Rightarrow> (nat \<times> go_error option \<times> reader \<times> buffer) option" where
  "ReadFrom r b =
     (if 0 \<le> buf_end b \<and> buf_end b \<le> int (vlen b)
      then case reader_Read (vlen b - nat (buf_end b)) r of
             (xs, e, r') \<Rightarrow>
               Some (length xs, e, r',
                 (buf_put (nat (buf_end b)) xs b)\<lparr>buf_end := i32 (buf_end b + int (length xs))\<rparr>)
      else None)"

definition ReadFullFrom ::
  "reader \<Rightarrow> int \<Rightarrow> buffer \<Rightarrow> (nat \<times> go_error option \<times> reader \<times> buffer) option" where
  "ReadFullFrom r sz b =
     (let e = i32 (buf_end b + sz)
      in if e > i32 (int (vlen b)) then Some (0, Some (ErrNew ''out of bound: ''), r, b)
         else case slice_expr (arr b) (buf_end b) e of
                None \<Rightarrow> None
              | Some dst \<Rightarrow>
                  case ReadFull (length dst) r of
                    (xs, err, r') \<Rightarrow>
                      Some (length xs, err, r',
                        (buf_put (nat (buf_end b)) xs b)\<lparr>buf_end := i32 (buf_end b + int (length xs))\<rparr>))"

section \<open>Well-formedness and content\<close>

definition buf_wf :: "buffer \<Rightarrow> bool" where
  "buf_wf b \<longleftrightarrow> 0 \<le> buf_start b \<and> buf_start b \<le> buf_end b \<and> buf_end b \<le> int (vlen b) \<and>
     vlen b \<le> length (arr b) \<and> length (arr b) < 2 ^ 31"

text \<open>The bytes between the two offsets, and the room behind them.\<close>

definition content :: "buffer \<Rightarrow> byte list" where
  "content b = range_of (nat (buf_start b)) (nat (buf_end b)) (arr b)"

definition room :: "buffer \<Rightarrow> nat" where
  "room b = vlen b - nat (buf_end b)"

section \<open>Lemmas\<close>

lemma buf_wf_nat:
  assumes "buf_wf b"
  obtains s e where "buf_start b = int s" "buf_end b = int e" "s \<le> e" "e \<le> vlen b"
    "vlen b \<le> length (arr b)" "length (arr b) < 2 ^ 31"
proof (rule that)
  show "buf_start b = int (nat (buf_start b))" "buf_end b = int (nat (buf_end b))"
    using assms by (simp_all add: buf_wf_def)
  show "nat (buf_start b) \<le> nat (buf_end b)" "nat (buf_end b) \<le> vlen b"
    "vlen b \<le> length (arr b)" "length (arr b) < 2 ^ 31"
    using assms by (auto simp: buf_wf_def)
qed

lemma i32_nat [simp]: "n < 2 ^ 31 \<Longrightarrow> i32 (int n) = int n"
  by (rule i32_id) auto

lemma i32_add_nat: "m + n < 2 ^ 31 \<Longrightarrow> i32 (int m + int n) = int m + int n"
  using i32_nat [of "m + n"] by simp

lemma length_content: "buf_wf b \<Longrightarrow> length (content b) = nat (buf_end b - buf_start b)"
  by (auto simp: content_def buf_wf_def nat_diff_distrib)

lemma buf_Len_content [simp]: "buf_wf b \<Longrightarrow> buf_Len b = int (length (content b))"
proof -
  assume w: "buf_wf b"
  then have "i32 (buf_end b - buf_start b) = buf_end b - buf_start b"
    by (intro i32_id) (auto simp: buf_wf_def)
  with w show ?thesis by (simp add: buf_Len_def length_content) (simp add: buf_wf_def)
qed

lemma buf_IsEmpty_content [simp]: "buf_wf b \<Longrightarrow> buf_IsEmpty b \<longleftrightarrow> content b = []"
  by (simp add: buf_IsEmpty_def)

lemma Bytes_content [panic_free]: "buf_wf b \<Longrightarrow> Bytes b = Some (content b)"
  by (auto simp: Bytes_def content_def buf_wf_def intro!: slice_expr_Some)

lemma content_length_room: "buf_wf b \<Longrightarrow> length (content b) + room b \<le> vlen b"
  by (auto simp: length_content room_def buf_wf_def)

lemma buf_wf_New [simp, wf_intros]: "length a < 2 ^ 31 \<Longrightarrow> buf_wf (buf_New a)"
  by (auto simp: buf_New_def buf_of_def buf_wf_def Size_def)

lemma content_New [simp]: "content (buf_New a) = []" "room (buf_New a) = Size"
  by (auto simp: buf_New_def buf_of_def content_def room_def)

lemma New_facts [simp]: "buf_wf New" "content New = []" "room New = Size" "UDP New = None"
  by (simp_all add: New_def Size_def) (simp add: buf_New_def buf_of_def)

lemma StackNew_facts [simp]:
  "length a < 2 ^ 31 \<Longrightarrow> buf_wf (StackNew a)" "content (StackNew a) = []" "room (StackNew a) = Size"
  by (auto simp: StackNew_def buf_of_def buf_wf_def content_def room_def Size_def)

lemma FromBytes_facts:
  "length xs < 2 ^ 31 \<Longrightarrow> buf_wf (FromBytes xs) \<and> content (FromBytes xs) = xs \<and> room (FromBytes xs) = 0"
  by (auto simp: FromBytes_def buf_of_def buf_wf_def content_def room_def range_of_def)

lemma buf_Clear_facts [simp]:
  "buf_wf b \<Longrightarrow> buf_wf (buf_Clear b)" "content (buf_Clear b) = []" "room (buf_Clear b) = vlen b"
  "vlen (buf_Clear b) = vlen b" "UDP (buf_Clear b) = UDP b"
  by (auto simp: buf_Clear_def buf_wf_def content_def room_def)

lemma buf_append:
  assumes "buf_wf b" "length xs \<le> room b"
  shows "buf_wf ((buf_put (nat (buf_end b)) xs b)\<lparr>buf_end := i32 (buf_end b + int (length xs))\<rparr>)"
      (is "buf_wf ?b")
    and "content ((buf_put (nat (buf_end b)) xs b)\<lparr>buf_end := i32 (buf_end b + int (length xs))\<rparr>)
         = content b @ xs"
    and "room ((buf_put (nat (buf_end b)) xs b)\<lparr>buf_end := i32 (buf_end b + int (length xs))\<rparr>)
         = room b - length xs"
proof -
  obtain s e where b: "buf_start b = int s" "buf_end b = int e" "s \<le> e" "e \<le> vlen b"
    "vlen b \<le> length (arr b)" "length (arr b) < 2 ^ 31" by (rule buf_wf_nat [OF assms(1)])
  with assms have le: "e + length xs \<le> vlen b" by (auto simp: room_def)
  with b have i: "i32 (int e + int (length xs)) = int e + int (length xs)"
    by (intro i32_add_nat) linarith
  show "buf_wf ?b"
    using b le i by (simp add: buf_wf_def buf_put_def)
  have "nat (int e + int (length xs)) = e + length xs" by simp
  then show "content ?b = content b @ xs"
    using b le i by (simp add: content_def buf_put_def range_of_blit_extend)
  show "room ?b = room b - length xs"
    using b i by (simp add: room_def buf_put_def nat_add_distrib)
qed

text \<open>What each operation does to a well-formed buffer, with the frame it keeps.\<close>

lemma buf_Write_spec:
  assumes "buf_wf b"
  obtains b' where "buf_Write data b = Some (min (room b) (length data), b')" "buf_wf b'"
    "content b' = content b @ take (room b) data" "room b' = room b - length data"
    "UDP b' = UDP b" "vlen b' = vlen b" "buf_start b' = buf_start b"
proof -
  let ?n = "min (room b) (length data)"
  let ?xs = "take ?n data"
  let ?b = "(buf_put (nat (buf_end b)) ?xs b)\<lparr>buf_end := i32 (buf_end b + int (length ?xs))\<rparr>"
  have l: "length ?xs = ?n" by simp
  have "buf_Write data b = Some (?n, ?b)"
    using assms by (simp add: buf_Write_def room_def Let_def buf_wf_def)
  moreover have "take ?n data = take (room b) data" by (simp add: min_def)
  ultimately show ?thesis
    using buf_append [OF assms, of ?xs] l
    by (intro that [of ?b]) (auto simp: buf_put_def)
qed

lemma WriteByte_spec:
  assumes "buf_wf b" "0 < room b"
  obtains b' where "WriteByte x b = Some (Inr (), b')" "buf_wf b'"
    "content b' = content b @ [x]" "room b' = room b - 1" "UDP b' = UDP b" "vlen b' = vlen b" "buf_start b' = buf_start b"
proof -
  have "\<not> buf_IsFull b" "0 \<le> buf_end b" "buf_end b < int (vlen b)"
    using assms by (auto simp: buf_IsFull_def room_def buf_wf_def)
  then show ?thesis
    using buf_append [OF assms(1), of "[x]"] assms
    by (intro that [of "(buf_put (nat (buf_end b)) [x] b)\<lparr>buf_end := i32 (buf_end b + 1)\<rparr>"])
       (auto simp: WriteByte_def buf_put_def)
qed

lemma WriteByte_full:
  "buf_wf b \<Longrightarrow> room b = 0 \<Longrightarrow> WriteByte x b = Some (Inl (ErrNew ''buffer full''), b)"
  by (auto simp: WriteByte_def buf_IsFull_def room_def buf_wf_def)

lemma buf_advance:
  assumes "buf_wf b" "n \<le> length (content b)"
  shows "buf_wf (b\<lparr>buf_start := i32 (buf_start b + int n)\<rparr>) \<and>
     content (b\<lparr>buf_start := i32 (buf_start b + int n)\<rparr>) = drop n (content b) \<and>
     room (b\<lparr>buf_start := i32 (buf_start b + int n)\<rparr>) = room b"
proof -
  obtain s e where b: "buf_start b = int s" "buf_end b = int e" "s \<le> e" "e \<le> vlen b"
    "vlen b \<le> length (arr b)" "length (arr b) < 2 ^ 31" by (rule buf_wf_nat [OF assms(1)])
  with assms have le: "s + n \<le> e" by (simp add: length_content)
  with b have i: "i32 (int s + int n) = int s + int n" by (intro i32_add_nat) linarith
  have "nat (int s + int n) = s + n" by simp
  then show ?thesis
    using b le i by (simp add: buf_wf_def content_def room_def drop_range_of)
qed

lemma buf_Read_spec:
  assumes "buf_wf b" "content b \<noteq> []"
  obtains b' where "buf_Read n b = Some (Inr (take n (content b)), b')" "buf_wf b'"
    "content b' = drop n (content b)" "room b \<le> room b'" "UDP b' = UDP b" "vlen b' = vlen b"
proof -
  let ?xs = "take n (content b)"
  let ?b' = "if int (length ?xs) = buf_Len b then buf_Clear b
             else b\<lparr>buf_start := i32 (buf_start b + int (length ?xs))\<rparr>"
  have r: "buf_Read n b = Some (Inr ?xs, ?b')"
    using assms by (simp add: buf_Read_def Bytes_content Let_def)
  have le: "length ?xs \<le> length (content b)" by simp
  have d: "drop (length ?xs) (content b) = drop n (content b)" by (auto simp: min_def)
  note adv = buf_advance [OF assms(1) le]
  have room: "room b \<le> vlen b" by (simp add: room_def)
  show ?thesis
    using r assms adv d room by (intro that [of ?b']) (auto split: if_splits)
qed

lemma buf_Read_EOF: "buf_wf b \<Longrightarrow> content b = [] \<Longrightarrow> buf_Read n b = Some (Inl EOF, b)"
  by (simp add: buf_Read_def)

lemma ReadByte_spec:
  assumes "buf_wf b" "content b = x # xs"
  obtains b' where "ReadByte b = Some (Inr x, b')" "buf_wf b'" "content b' = xs" "room b' = room b"
proof -
  obtain s e where b: "buf_start b = int s" "buf_end b = int e" "s \<le> e" "e \<le> vlen b"
    "vlen b \<le> length (arr b)" "length (arr b) < 2 ^ 31" by (rule buf_wf_nat [OF assms(1)])
  have lt: "s < e" using assms(2) length_content [OF assms(1)] b by (cases "s = e") auto
  then have "arr b ! s = x"
    using assms(2) b by (auto simp: content_def range_of_def take_Cons' drop_eq_Nil
        Cons_nth_drop_Suc [symmetric, of s "arr b"] split: if_splits)
  then have "ReadByte b = Some (Inr x, b\<lparr>buf_start := i32 (buf_start b + int 1)\<rparr>)"
    using b lt by (simp add: ReadByte_def index_expr_def)
  then show ?thesis
    using buf_advance [OF assms(1), of 1] assms(2)
    by (intro that [of "b\<lparr>buf_start := i32 (buf_start b + int 1)\<rparr>"]) simp_all
qed

lemma ReadBytes_spec:
  assumes "buf_wf b" "n \<le> length (content b)"
  obtains b' where "ReadBytes (int n) b = Some (Inr (take n (content b)), b')" "buf_wf b'"
    "content b' = drop n (content b)" "room b' = room b"
proof -
  obtain s e where b: "buf_start b = int s" "buf_end b = int e" "s \<le> e" "e \<le> vlen b"
    "vlen b \<le> length (arr b)" "length (arr b) < 2 ^ 31" by (rule buf_wf_nat [OF assms(1)])
  with assms have le: "s + n \<le> e" by (simp add: length_content)
  with b have i: "i32 (int s + int n) = int s + int n" by (intro i32_add_nat) linarith
  have "i32 (buf_end b - buf_start b) = int (length (content b))"
    using buf_Len_content [OF assms(1)] by (simp add: buf_Len_def)
  moreover have "slice_expr (arr b) (int s) (int s + int n) = Some (take n (content b))"
    using b le by (simp add: slice_expr_def content_def range_of_def min_def nat_add_distrib)
  ultimately have "ReadBytes (int n) b
      = Some (Inr (take n (content b)), b\<lparr>buf_start := i32 (buf_start b + int n)\<rparr>)"
    using assms(2) b i by (simp add: ReadBytes_def)
  then show ?thesis
    using buf_advance [OF assms]
    by (intro that [of "b\<lparr>buf_start := i32 (buf_start b + int n)\<rparr>"]) simp_all
qed

lemma Extend_spec:
  assumes "buf_wf b" "n \<le> room b"
  obtains b' where "Extend (int n) b = Some (b', nat (buf_end b), nat (buf_end b) + n)"
    "b' = b\<lparr>buf_end := buf_end b + int n\<rparr>" "buf_wf b'" "room b' = room b - n"
    "take (length (content b)) (content b') = content b"
    "length (content b') = length (content b) + n"
proof -
  obtain s e where b: "buf_start b = int s" "buf_end b = int e" "s \<le> e" "e \<le> vlen b"
    "vlen b \<le> length (arr b)" "length (arr b) < 2 ^ 31" by (rule buf_wf_nat [OF assms(1)])
  with assms have le: "e + n \<le> vlen b" by (auto simp: room_def)
  with b have i: "i32 (int e + int n) = int e + int n" by (intro i32_add_nat) linarith
  let ?b = "b\<lparr>buf_end := buf_end b + int n\<rparr>"
  have x: "Extend (int n) b = Some (?b, nat (buf_end b), nat (buf_end b) + n)"
    using b le i by (simp add: Extend_def Let_def slice_expr_def nat_add_distrib)
  have w: "buf_wf ?b" using b le by (simp add: buf_wf_def)
  have "content ?b = content b @ range_of e (e + n) (arr b)"
    using b le range_of_append [of s e "e + n" "arr b"]
    by (simp add: content_def nat_add_distrib)
  then show ?thesis
    using x w b le by (intro that [of ?b]) (auto simp: room_def nat_add_distrib)
qed

lemma room_arr: "buf_wf b \<Longrightarrow> nat (buf_end b) + room b \<le> length (arr b)"
  by (auto simp: buf_wf_def room_def)

lemma Extend_put:
  assumes "buf_wf b" "n \<le> room b" "n \<le> length xs" "nat (buf_end b) + length xs \<le> length (arr b)"
  obtains b' where "Extend (int n) b = Some (b', nat (buf_end b), nat (buf_end b) + n)"
    "arr b' = arr b" "buf_wf (buf_put (nat (buf_end b)) xs b')"
    "content (buf_put (nat (buf_end b)) xs b') = content b @ take n xs"
    "room (buf_put (nat (buf_end b)) xs b') = room b - n"
    "b' = b\<lparr>buf_end := buf_end b + int n\<rparr>"
proof -
  obtain s e where b: "buf_start b = int s" "buf_end b = int e" "s \<le> e" "e \<le> vlen b"
    "vlen b \<le> length (arr b)" "length (arr b) < 2 ^ 31" by (rule buf_wf_nat [OF assms(1)])
  obtain b' where b': "Extend (int n) b = Some (b', nat (buf_end b), nat (buf_end b) + n)"
    "b' = b\<lparr>buf_end := buf_end b + int n\<rparr>" "buf_wf b'" "room b' = room b - n"
    using Extend_spec [OF assms(1,2)] by metis
  have "range_of s (e + n) (blit e xs (arr b)) = take (e + n - s) (range_of s (e + length xs) (blit e xs (arr b)))"
    using assms(3) b by (simp add: take_range_of min_def)
  also have "\<dots> = range_of s e (arr b) @ take n xs"
    using b assms by (simp add: range_of_blit_extend)
  finally have "content (buf_put (nat (buf_end b)) xs b') = content b @ take n xs"
    using b b'(2) by (simp add: content_def buf_put_def nat_add_distrib)
  moreover have "buf_wf (buf_put (nat (buf_end b)) xs b')"
    using b'(3) assms(4) b b'(2) by (simp add: buf_wf_def buf_put_def)
  ultimately show ?thesis
    using b' by (intro that [of b']) (simp_all add: room_def buf_put_def)
qed

text \<open>Overwriting the first bytes of the content.\<close>

lemma buf_put_front:
  assumes "buf_wf b" "length xs \<le> length (content b)"
  shows "buf_wf (buf_put (nat (buf_start b)) xs b)" "room (buf_put (nat (buf_start b)) xs b) = room b"
    "content (buf_put (nat (buf_start b)) xs b) = xs @ drop (length xs) (content b)"
proof -
  obtain s e where b: "buf_start b = int s" "buf_end b = int e" "s \<le> e" "e \<le> vlen b"
    "vlen b \<le> length (arr b)" "length (arr b) < 2 ^ 31" by (rule buf_wf_nat [OF assms(1)])
  with assms have le: "s + length xs \<le> e" by (simp add: length_content)
  show "buf_wf (buf_put (nat (buf_start b)) xs b)" "room (buf_put (nat (buf_start b)) xs b) = room b"
    using b le by (simp_all add: buf_wf_def buf_put_def room_def)
  have "range_of s e (blit s xs (arr b)) = range_of s (s + length xs) (blit s xs (arr b)) @ range_of (s + length xs) e (blit s xs (arr b))"
    using le by (simp add: range_of_append)
  also have "range_of (s + length xs) e (blit s xs (arr b)) = range_of (s + length xs) e (arr b)"
    using b le by (simp add: range_of_def blit_def)
  finally show "content (buf_put (nat (buf_start b)) xs b) = xs @ drop (length xs) (content b)"
    using b le by (simp add: content_def buf_put_def range_of_blit_same drop_range_of)
qed

lemma Extend_panics:
  assumes "buf_wf b" "- (2 ^ 31) \<le> n" "n < 2 ^ 31" "n < 0 \<or> n > int (room b)"
  shows "Extend n b = None"
proof -
  obtain s e where b: "buf_start b = int s" "buf_end b = int e" "s \<le> e" "e \<le> vlen b"
    "vlen b \<le> length (arr b)" "length (arr b) < 2 ^ 31" by (rule buf_wf_nat [OF assms(1)])
  consider "n < 0" | "n > int (room b)" "int e + n < 2 ^ 31" | "n > 0" "int e + n \<ge> 2 ^ 31"
    using assms by linarith
  then show ?thesis
  proof cases
    case 1
    then have "i32 (int e + n) = int e + n" using b assms(2) by (intro i32_id) auto
    then show ?thesis using b 1 by (simp add: Extend_def Let_def slice_expr_def)
  next
    case 2
    then have "i32 (int e + n) = int e + n" by (intro i32_id) auto
    then show ?thesis using b 2 by (simp add: Extend_def Let_def room_def)
  next
    case 3
    then have "i32 (int e + n) = int e + n - 2 ^ 32" using b assms(3) by (intro i32_wrap) auto
    then show ?thesis using b 3 assms(3) by (simp add: Extend_def Let_def slice_expr_def)
  qed
qed

lemma slice_content:
  assumes "buf_wf b" "i \<le> j" "j \<le> length (content b)"
  shows "slice_expr (arr b) (buf_start b + int i) (buf_start b + int j)
         = Some (take (j - i) (drop i (content b)))"
proof -
  obtain s e where b: "buf_start b = int s" "buf_end b = int e" "s \<le> e" "e \<le> vlen b"
    "vlen b \<le> length (arr b)" "length (arr b) < 2 ^ 31" by (rule buf_wf_nat [OF assms(1)])
  with assms have "s + j \<le> e" by (simp add: length_content)
  then have "take (j - i) (drop i (range_of s e (arr b))) = range_of (s + i) (s + j) (arr b)"
    using assms(2) by (simp add: drop_range_of take_range_of min_def)
  then show ?thesis
    using b \<open>s + j \<le> e\<close> assms(2) slice_expr_Some [of "int s + int i" "int s + int j" "arr b"]
    by (simp add: content_def nat_add_distrib)
qed

lemma content_offset:
  assumes "buf_wf b" "i \<le> length (content b)"
  shows "i32 (buf_start b + int i) = buf_start b + int i"
    and "buf_start b + int (length (content b)) = buf_end b"
    and "buf_start b + int i \<le> int (vlen b)"
  using assms by (auto simp: length_content buf_wf_def intro!: i32_id)

lemma BytesFrom_neg:
  assumes "buf_wf b" "0 < n" "n \<le> length (content b)"
  shows "BytesFrom (- int n) b = Some (drop (length (content b) - n) (content b))"
proof -
  let ?k = "length (content b) - n"
  have "length (content b) < 2 ^ 31"
    using content_length_room [OF assms(1)] assms(1) by (auto simp: buf_wf_def)
  then have "from_end (- int n) b = int ?k"
    using assms i32_nat [of ?k] by (simp add: from_end_def)
  then show ?thesis
    using content_offset [OF assms(1), of ?k] content_offset(2) [OF assms(1), of 0]
      slice_content [OF assms(1), of ?k "length (content b)"]
    by (simp add: BytesFrom_def)
qed

lemma BytesFrom_0: "buf_wf b \<Longrightarrow> BytesFrom 0 b = Some (content b)"
  using content_offset [of b 0] slice_content [of b 0 "length (content b)"]
  by (simp add: BytesFrom_def from_end_def)

lemma BytesTo_nat:
  "buf_wf b \<Longrightarrow> n \<le> length (content b) \<Longrightarrow> BytesTo (int n) b = Some (take n (content b))"
  using content_offset [of b n] slice_content [of b 0 n]
  by (simp add: BytesTo_def from_end_def)

lemma Byte_nat:
  assumes "buf_wf b" "i < length (content b)"
  shows "Byte (int i) b = Some (content b ! i)"
proof -
  obtain s e where b: "buf_start b = int s" "buf_end b = int e" "s \<le> e" "e \<le> vlen b"
    "vlen b \<le> length (arr b)" "length (arr b) < 2 ^ 31" by (rule buf_wf_nat [OF assms(1)])
  with assms have "s + i < e" by (simp add: length_content)
  then show ?thesis
    using b assms content_offset [OF assms(1), of i]
    by (simp add: Byte_def index_expr_def content_def range_of_def nat_add_distrib)
qed

lemma Advance_nat:
  assumes "buf_wf b" "n \<le> length (content b)"
  shows "Advance (int n) b = b\<lparr>buf_start := i32 (buf_start b + int n)\<rparr>"
proof -
  have "0 \<le> buf_start b + int n" "buf_start b + int n \<le> buf_end b"
    using assms content_offset(2) [OF assms] by (auto simp: buf_wf_def)
  then show ?thesis
    using assms(1) content_offset(1) [OF assms]
    by (simp add: Advance_def Check_def from_end_def Let_def buf_wf_def)
qed

lemma Advance_spec:
  assumes "buf_wf b" "n \<le> length (content b)"
  shows "buf_wf (Advance (int n) b)" "content (Advance (int n) b) = drop n (content b)"
    "room (Advance (int n) b) = room b" "UDP (Advance (int n) b) = UDP b"
  using buf_advance [OF assms] by (simp_all add: Advance_nat [OF assms])

lemma Resize_spec:
  assumes "buf_wf b" "i \<le> j" "j \<le> length (content b)"
  obtains b' where "Resize (int i) (int j) b = Some b'" "buf_wf b'"
    "content b' = take (j - i) (drop i (content b))"
proof -
  let ?b = "b\<lparr>buf_end := buf_start b + int j, buf_start := buf_start b + int i\<rparr>"
  have le: "buf_start b + int j \<le> buf_end b" "0 \<le> buf_start b"
    using assms content_offset(2) [OF assms(1,3)] by (auto simp: buf_wf_def)
  have r: "Resize (int i) (int j) b = Some ?b"
    using assms le content_offset(1) [OF assms(1,3)] content_offset(1) [OF assms(1), of i]
    by (simp add: Resize_def from_end_def Let_def Check_def)
  have w: "buf_wf ?b" using assms le by (auto simp: buf_wf_def)
  have "content ?b = take (j - i) (drop i (content b))"
    using slice_content [OF assms] Bytes_content [OF w] by (simp add: Bytes_def)
  with r w show ?thesis by (rule that)
qed

lemma ReadFullFrom_spec:
  assumes "buf_wf b" "n \<le> room b" "ReadFull n r = (xs, err, r')"
  obtains b' where "ReadFullFrom r (int n) b = Some (length xs, err, r', b')" "buf_wf b'"
    "content b' = content b @ xs" "room b' = room b - length xs" "UDP b' = UDP b" "vlen b' = vlen b"
proof -
  obtain s e where b: "buf_start b = int s" "buf_end b = int e" "s \<le> e" "e \<le> vlen b"
    "vlen b \<le> length (arr b)" "length (arr b) < 2 ^ 31" by (rule buf_wf_nat [OF assms(1)])
  with assms have le: "e + n \<le> vlen b" by (auto simp: room_def)
  with b have i: "i32 (int e + int n) = int e + int n" by (intro i32_add_nat) linarith
  let ?b = "(buf_put (nat (buf_end b)) xs b)\<lparr>buf_end := i32 (buf_end b + int (length xs))\<rparr>"
  have "slice_expr (arr b) (int e) (int e + int n) = Some (range_of e (e + n) (arr b))"
    using b le slice_expr_Some [of "int e" "int e + int n" "arr b"] by (simp add: nat_add_distrib)
  then have "ReadFullFrom r (int n) b = Some (length xs, err, r', ?b)"
    using b le i assms(3) by (simp add: ReadFullFrom_def Let_def)
  moreover have "length xs \<le> room b" using ReadFull_length [OF assms(3)] assms(2) by simp
  ultimately show ?thesis
    using buf_append [OF assms(1), of xs] by (intro that [of ?b]) (auto simp: buf_put_def)
qed

lemma ReadFullFrom_out_of_bound:
  assumes "buf_wf b" "n > room b" "nat (buf_end b) + n < 2 ^ 31"
  shows "ReadFullFrom r (int n) b = Some (0, Some (ErrNew ''out of bound: ''), r, b)"
proof -
  obtain s e where b: "buf_start b = int s" "buf_end b = int e" "s \<le> e" "e \<le> vlen b"
    "vlen b \<le> length (arr b)" "length (arr b) < 2 ^ 31" by (rule buf_wf_nat [OF assms(1)])
  moreover have "i32 (int e + int n) = int e + int n"
    using assms(3) b by (intro i32_add_nat) simp
  moreover have "int e + int n > int (vlen b)" using assms(2) calculation by (simp add: room_def)
  ultimately show ?thesis by (simp add: ReadFullFrom_def Let_def)
qed

lemma ReadFrom_spec:
  assumes "buf_wf b" "reader_Read (room b) r = (xs, err, r')"
  obtains b' where "ReadFrom r b = Some (length xs, err, r', b')" "buf_wf b'"
    "content b' = content b @ xs" "room b' = room b - length xs" "UDP b' = UDP b" "vlen b' = vlen b"
proof -
  let ?b = "(buf_put (nat (buf_end b)) xs b)\<lparr>buf_end := i32 (buf_end b + int (length xs))\<rparr>"
  have "length xs \<le> room b"
    using assms(2) by (cases r) (auto split: if_splits)
  moreover have "ReadFrom r b = Some (length xs, err, r', ?b)"
    using assms by (simp add: ReadFrom_def room_def buf_wf_def)
  ultimately show ?thesis
    using buf_append [OF assms(1), of xs] by (intro that [of ?b]) (auto simp: buf_put_def)
qed

lemma buf_Release_facts:
  "buf_wf b \<Longrightarrow> buf_wf (fst (buf_Release b))"
  "\<not> vnil b \<Longrightarrow> \<not> unmanaged b \<Longrightarrow> content (fst (buf_Release b)) = [] \<and> vlen (fst (buf_Release b)) = 0"
  "snd (buf_Release b) = Some a \<Longrightarrow> length a = Size"
  "vnil (fst (buf_Release b)) \<longrightarrow> buf_Release (fst (buf_Release b)) = (fst (buf_Release b), None)"
  by (auto simp: buf_Release_def buf_Clear_def buf_wf_def content_def split: if_splits)

section \<open>The pool hands out arrays that are large enough\<close>

definition pools_wf :: "pools \<Rightarrow> bool" where
  "pools_wf ps \<longleftrightarrow> length ps = numPools \<and>
     (\<forall>i < numPools. \<forall>a \<in> set (ps ! i). poolSize ! i \<le> length a)"

lemma poolSize_eq: "poolSize = [2048, 8192, 32768, 131072]"
  by (simp add: poolSize_def numPools_def sizeMulti_def upt_rec)

lemma upt_numPools: "[0..<numPools] = [0, 1, 2, 3]"
  by (simp add: numPools_def upt_rec)

lemma GetPool_Some: "GetPool sz = Some i \<Longrightarrow> i < numPools \<and> sz \<le> int (poolSize ! i)"
  by (auto simp: GetPool_def find_Some_iff)

lemma all_less_4: "(\<forall>i < (4 :: nat). P i) \<longleftrightarrow> P 0 \<and> P 1 \<and> P 2 \<and> P 3"
  by (simp add: All_less_Suc numeral_eq_Suc conj_ac)

lemma pools_wf_iff:
  "pools_wf [p0, p1, p2, p3] \<longleftrightarrow>
     (\<forall>a \<in> set p0. 2048 \<le> length a) \<and> (\<forall>a \<in> set p1. 8192 \<le> length a) \<and>
     (\<forall>a \<in> set p2. 32768 \<le> length a) \<and> (\<forall>a \<in> set p3. 131072 \<le> length a)"
  by (simp add: pools_wf_def numPools_def all_less_4 poolSize_eq)

lemma pools_wf_update:
  "pools_wf ps \<Longrightarrow> (\<And>a. a \<in> set q \<Longrightarrow> poolSize ! i \<le> length a) \<Longrightarrow> pools_wf (ps[i := q])"
  unfolding pools_wf_def by (metis length_list_update nth_list_update_eq nth_list_update_neq)

lemma pools_wfD:
  "pools_wf ps \<Longrightarrow> i < numPools \<Longrightarrow> a \<in> set (ps ! i) \<Longrightarrow> poolSize ! i \<le> length a"
  by (simp add: pools_wf_def)

lemma pool_Get_wf:
  assumes "pools_wf ps" "i < numPools" "pool_Get choice i ps = (a, ps')"
  shows "pools_wf ps' \<and> poolSize ! i \<le> length a"
proof (cases "choice < length (ps ! i)")
  case True
  let ?q = "take choice (ps ! i) @ drop (Suc choice) (ps ! i)"
  have q: "x \<in> set ?q \<Longrightarrow> x \<in> set (ps ! i)" for x
    by (auto dest: in_set_takeD in_set_dropD)
  have "pools_wf (ps[i := ?q])"
    by (rule pools_wf_update [OF assms(1)], rule pools_wfD [OF assms(1,2)], erule q)
  moreover have "poolSize ! i \<le> length (ps ! i ! choice)"
    using pools_wfD [OF assms(1,2)] True by simp
  ultimately show ?thesis using assms(3) True by (auto simp: pool_Get_def)
qed (use assms in \<open>auto simp: pool_Get_def\<close>)

lemma pool_Put_wf:
  "pools_wf ps \<Longrightarrow> i < numPools \<Longrightarrow> poolSize ! i \<le> length b \<Longrightarrow> pools_wf (pool_Put i b ps)"
  unfolding pool_Put_def by (rule pools_wf_update) (auto dest: pools_wfD)

lemma Free_wf: "pools_wf ps \<Longrightarrow> length b < 2 ^ 31 \<Longrightarrow> pools_wf (Free b ps)"
  unfolding Free_def
  by (auto split: option.split intro!: pool_Put_wf simp: find_Some_iff rev_nth)

text \<open>
  The array pool keeps its size classes: from well-formed pools, whatever array a pool
  chooses to hand out, \<^verbatim>\<open>Alloc\<close> returns at least the requested number of bytes and at least
  2048, and both \<^verbatim>\<open>Alloc\<close> and \<^verbatim>\<open>Free\<close> (of an array whose length fits
  \<^verbatim>\<open>int32\<close>) leave the pools well-formed.
\<close>

theorem Alloc_Free_pools:
  assumes "pools_wf ps" "0 \<le> sz" "length b < 2 ^ 31"
  shows "\<exists>a ps'. Alloc choice sz ps = Some (a, ps') \<and> sz \<le> int (length a) \<and> 2048 \<le> length a \<and>
           pools_wf ps' \<and> pools_wf (Free b ps')"
proof -
  note free = Free_wf [OF _ assms(3)]
  show ?thesis
  proof (cases "GetPool sz")
    case None
    then have "131072 < sz"
      by (simp add: GetPool_def upt_numPools poolSize_eq split: if_splits)
    with None assms free show ?thesis by (auto simp: Alloc_def)
  next
    case (Some i)
    obtain a ps' where g: "pool_Get choice i ps = (a, ps')" by force
    note i = GetPool_Some [OF Some]
    have "2048 \<le> poolSize ! i"
      using i all_less_4 [of "\<lambda>i. 2048 \<le> poolSize ! i"] by (simp add: numPools_def poolSize_eq)
    with pool_Get_wf [OF assms(1) _ g] i g Some free show ?thesis
      by (auto simp: Alloc_def)
  qed
qed

theorem Alloc_Free_pools_witness:
  "pools_wf [[], [replicate 8192 7], [], []] \<and>
   (\<exists>a ps'. Alloc 0 5000 [[], [replicate 8192 7], [], []] = Some (a, ps') \<and> 5000 \<le> int (length a) \<and>
      pools_wf (Free (replicate 3000 1) ps'))"
proof -
  have w: "pools_wf [[], [replicate 8192 7], [], []]"
    by (simp add: pools_wf_iff)
  show ?thesis
    using w Alloc_Free_pools [OF w, of 5000 "replicate 3000 1" 0] by auto
qed

section \<open>Byte queues\<close>

text \<open>
  The contract that the holders of bytes of this program share: a write appends the bytes it
  accepts, a read takes bytes from the front, and a read of an empty holder is
  \<^verbatim>\<open>io.EOF\<close>. The buffer provides it here, the multi-buffer container in
  \<open>Multi_Buffer\<close>.
\<close>

datatype io_op = Wr "byte list" | Rd nat

text \<open>A run of operations: the bytes accepted, the bytes delivered, the final holder.\<close>

fun io_run ::
  "(byte list \<Rightarrow> 'b \<Rightarrow> (nat \<times> 'b) option) \<Rightarrow>
   (nat \<Rightarrow> 'b \<Rightarrow> ((go_error + byte list) \<times> 'b) option) \<Rightarrow>
   io_op list \<Rightarrow> 'b \<Rightarrow> (byte list \<times> byte list \<times> 'b) option" where
  "io_run w r [] b = Some ([], [], b)"
| "io_run w r (Wr xs # ops) b =
     (case w xs b of
        None \<Rightarrow> None
      | Some (n, b') \<Rightarrow>
          map_option (\<lambda>(acc, out, c). (take n xs @ acc, out, c)) (io_run w r ops b'))"
| "io_run w r (Rd n # ops) b =
     (case r n b of
        None \<Rightarrow> None
      | Some (Inl e, b') \<Rightarrow> io_run w r ops b'
      | Some (Inr xs, b') \<Rightarrow>
          map_option (\<lambda>(acc, out, c). (acc, xs @ out, c)) (io_run w r ops b'))"

locale byte_fifo =
  fixes fwrite :: "byte list \<Rightarrow> 'b \<Rightarrow> (nat \<times> 'b) option"
    and fread :: "nat \<Rightarrow> 'b \<Rightarrow> ((go_error + byte list) \<times> 'b) option"
    and bytes :: "'b \<Rightarrow> byte list"
    and invar :: "'b \<Rightarrow> bool"
  assumes write_law: "invar b \<Longrightarrow>
      \<exists>n b'. fwrite xs b = Some (n, b') \<and> invar b' \<and> bytes b' = bytes b @ take n xs"
    and read_law: "invar b \<Longrightarrow> bytes b \<noteq> [] \<Longrightarrow>
      \<exists>b'. fread n b = Some (Inr (take n (bytes b)), b') \<and> invar b' \<and> bytes b' = drop n (bytes b)"
    and eof_law: "invar b \<Longrightarrow> bytes b = [] \<Longrightarrow> fread n b = Some (Inl EOF, b)"
begin

lemma run_conserves:
  "invar b \<Longrightarrow> \<exists>acc out b'. io_run fwrite fread ops b = Some (acc, out, b') \<and> invar b' \<and>
     bytes b @ acc = out @ bytes b'"
proof (induction ops arbitrary: b)
  case (Cons op ops)
  show ?case
  proof (cases op)
    case (Wr xs)
    from write_law [OF Cons.prems] obtain n b1 where 1: "fwrite xs b = Some (n, b1)" "invar b1"
      "bytes b1 = bytes b @ take n xs" by blast
    from Cons.IH [OF 1(2)] obtain acc out b' where
      "io_run fwrite fread ops b1 = Some (acc, out, b')" "invar b'" "bytes b1 @ acc = out @ bytes b'"
      by blast
    with 1 Wr show ?thesis by simp
  next
    case (Rd n)
    show ?thesis
    proof (cases "bytes b = []")
      case True
      with Rd Cons.IH [OF Cons.prems] eof_law [OF Cons.prems True] show ?thesis by simp
    next
      case False
      with read_law [OF Cons.prems] obtain b1 where 1: "fread n b = Some (Inr (take n (bytes b)), b1)"
        "invar b1" "bytes b1 = drop n (bytes b)" by blast
      from Cons.IH [OF 1(2)] obtain acc out b' where
        "io_run fwrite fread ops b1 = Some (acc, out, b')" "invar b'"
        "drop n (bytes b) @ acc = out @ bytes b'" using 1(3) by metis
      moreover from this(3) have "bytes b @ acc = take n (bytes b) @ out @ bytes b'"
        by (metis append.assoc append_take_drop_id)
      ultimately show ?thesis using 1 Rd by simp
    qed
  qed
qed simp

end

interpretation buf_fifo: byte_fifo buf_Write buf_Read content buf_wf
proof
  fix b :: buffer and xs :: "byte list" and n :: nat
  assume w: "buf_wf b"
  obtain b' where "buf_Write xs b = Some (min (room b) (length xs), b')" "buf_wf b'"
    "content b' = content b @ take (room b) xs" by (rule buf_Write_spec [OF w])
  then show "\<exists>n b'. buf_Write xs b = Some (n, b') \<and> buf_wf b' \<and> content b' = content b @ take n xs"
    by (auto simp: min_def)
  show "content b = [] \<Longrightarrow> buf_Read n b = Some (Inl EOF, b)"
    using w by (rule buf_Read_EOF)
  assume "content b \<noteq> []"
  from buf_Read_spec [OF w this] show "\<exists>b'. buf_Read n b = Some (Inr (take n (content b)), b') \<and>
      buf_wf b' \<and> content b' = drop n (content b)"
    by metis
qed



section \<open>Stale bytes of a recycled array\<close>

text \<open>Two buffers that differ at most in the bytes outside their content.\<close>

definition buf_sim :: "buffer \<Rightarrow> buffer \<Rightarrow> bool" where
  "buf_sim b c \<longleftrightarrow> buf_wf b \<and> buf_wf c \<and> buf_start b = buf_start c \<and> buf_end b = buf_end c \<and>
     vlen b = vlen c \<and> content b = content c"

lemma buf_sim_Write:
  assumes "buf_sim b c"
  shows "\<exists>n b' c'. buf_Write xs b = Some (n, b') \<and> buf_Write xs c = Some (n, c') \<and> buf_sim b' c'"
proof -
  have w: "buf_wf b" "buf_wf c" and room: "room b = room c"
    using assms by (auto simp: buf_sim_def room_def)
  obtain b' where b': "buf_Write xs b = Some (min (room b) (length xs), b')" "buf_wf b'"
    "content b' = content b @ take (room b) xs" "vlen b' = vlen b" by (rule buf_Write_spec [OF w(1)])
  obtain c' where c': "buf_Write xs c = Some (min (room c) (length xs), c')" "buf_wf c'"
    "content c' = content c @ take (room c) xs" "vlen c' = vlen c" by (rule buf_Write_spec [OF w(2)])
  have "buf_start b' = buf_start c' \<and> buf_end b' = buf_end c'"
    using b'(1) c'(1) assms
    by (auto simp: buf_Write_def buf_sim_def buf_put_def Let_def split: if_splits)
  with b' c' assms room show ?thesis by (auto simp: buf_sim_def)
qed

lemma buf_sim_Read:
  assumes "buf_sim b c"
  shows "\<exists>r b' c'. buf_Read n b = Some (r, b') \<and> buf_Read n c = Some (r, c') \<and> buf_sim b' c'"
proof (cases "content b = []")
  case True
  with assms show ?thesis using buf_Read_EOF by (auto simp: buf_sim_def)
next
  case False
  then have w: "buf_wf b" "buf_wf c" "content c \<noteq> []" using assms by (auto simp: buf_sim_def)
  obtain b' where b': "buf_Read n b = Some (Inr (take n (content b)), b')" "buf_wf b'"
    "content b' = drop n (content b)" "vlen b' = vlen b" by (rule buf_Read_spec [OF w(1) False])
  obtain c' where c': "buf_Read n c = Some (Inr (take n (content c)), c')" "buf_wf c'"
    "content c' = drop n (content c)" "vlen c' = vlen c" by (rule buf_Read_spec [OF w(2,3)])
  have "buf_start b' = buf_start c' \<and> buf_end b' = buf_end c'"
    using b'(1) c'(1) assms False
    by (auto simp: buf_Read_def buf_sim_def buf_Clear_def Bytes_content Let_def split: if_splits)
  with b' c' assms show ?thesis by (auto simp: buf_sim_def)
qed

lemma buf_sim_run:
  "buf_sim b c \<Longrightarrow>
   map_option (\<lambda>(acc, out, b). (acc, out, content b)) (io_run buf_Write buf_Read ops b) =
   map_option (\<lambda>(acc, out, b). (acc, out, content b)) (io_run buf_Write buf_Read ops c)"
proof (induction ops arbitrary: b c)
  case (Cons op ops)
  show ?case
  proof (cases op)
    case (Wr xs)
    obtain n b' c' where "buf_Write xs b = Some (n, b')" "buf_Write xs c = Some (n, c')" "buf_sim b' c'"
      using buf_sim_Write [OF Cons.prems] by blast
    with Wr Cons.IH [of b' c'] show ?thesis
      by (cases "io_run buf_Write buf_Read ops b'"; cases "io_run buf_Write buf_Read ops c'") auto
  next
    case (Rd n)
    obtain r b' c' where "buf_Read n b = Some (r, b')" "buf_Read n c = Some (r, c')" "buf_sim b' c'"
      using buf_sim_Read [OF Cons.prems] by blast
    with Rd Cons.IH [of b' c'] show ?thesis
      by (cases r; cases "io_run buf_Write buf_Read ops b'"; cases "io_run buf_Write buf_Read ops c'") auto
  qed
qed (simp add: buf_sim_def)

text \<open>
  A recycled array leaks nothing: a new buffer behaves the same whatever array the pool
  returned, for every sequence of \<^verbatim>\<open>Write\<close> and \<^verbatim>\<open>Read\<close> calls (the bytes accepted, the
  bytes delivered and the content left are equal), so the stale bytes of an earlier user of the
  array never become visible through them.
\<close>

theorem buffer_pool_independent:
  assumes "length a < 2 ^ 31" "length a' < 2 ^ 31"
  shows "map_option (\<lambda>(acc, out, b). (acc, out, content b)) (io_run buf_Write buf_Read ops (buf_New a)) =
         map_option (\<lambda>(acc, out, b). (acc, out, content b)) (io_run buf_Write buf_Read ops (buf_New a'))"
  by (rule buf_sim_run)
     (use assms in \<open>simp add: buf_sim_def\<close>, simp add: buf_New_def buf_of_def)

theorem buffer_pool_independent_witness:
  "map_option (\<lambda>(acc, out, b). (acc, out, content b))
     (io_run buf_Write buf_Read [Wr [1, 2], Rd 1] (buf_New (replicate 8192 255))) =
   map_option (\<lambda>(acc, out, b). (acc, out, content b))
     (io_run buf_Write buf_Read [Wr [1, 2], Rd 1] (buf_New []))"
  by (rule buffer_pool_independent) simp_all

end
