(* ===== verification/Multi_Buffer.thy ===== *)
theory Multi_Buffer
  imports Buffer
begin

text \<open>
  Package \<^verbatim>\<open>common/buf\<close>, file \<^verbatim>\<open>multi_buffer.go\<close>: lists of buffers and their
  splitting, merging and compaction, with the container that makes one a reader and a writer.
  A slot that the code sets to nil before it cuts it off is gone from the list; a nil
  multi-buffer and an empty one are both \<open>[]\<close> here (the pipe, where they differ, has its own
  option type).
\<close>

type_synonym MultiBuffer = "buffer list"

section \<open>Operations\<close>

definition MergeMulti :: "MultiBuffer \<Rightarrow> MultiBuffer \<Rightarrow> MultiBuffer \<times> MultiBuffer" where
  "MergeMulti dest src = (dest @ src, [])"

text \<open>The loop of \<^verbatim>\<open>MergeBytes\<close>: new buffers for the bytes that are left.\<close>

function fill_new :: "byte list \<Rightarrow> MultiBuffer option" where
  "fill_new src =
     (if src = [] then Some []
      else case buf_Write src New of
             None \<Rightarrow> None
           | Some (n, b) \<Rightarrow> map_option ((#) b) (fill_new (drop n src)))"
  by pat_completeness auto
termination
proof (relation "measure length", goal_cases)
  case (2 src p n b)
  obtain b' where "buf_Write src New = Some (min (room New) (length src), b')"
    by (rule buf_Write_spec [OF New_facts(1)])
  with 2 show ?case by (auto simp: Size_def)
qed simp

declare fill_new.simps [simp del]

definition MergeBytes :: "MultiBuffer \<Rightarrow> byte list \<Rightarrow> MultiBuffer option" where
  "MergeBytes dest src =
     (if dest \<noteq> [] \<and> \<not> buf_IsFull (last dest)
      then case buf_Write src (last dest) of
             None \<Rightarrow> None
           | Some (n, b) \<Rightarrow> map_option (\<lambda>bs. (butlast dest @ [b]) @ bs) (fill_new (drop n src))
      else map_option (\<lambda>bs. dest @ bs) (fill_new src))"

text \<open>\<^verbatim>\<open>ReleaseMulti\<close>: the empty multi-buffer and the arrays given to the pool.\<close>

definition ReleaseMulti :: "MultiBuffer \<Rightarrow> MultiBuffer \<times> byte list list" where
  "ReleaseMulti mb = ([], List.map_filter (\<lambda>b. snd (buf_Release b)) mb)"

text \<open>\<^verbatim>\<open>Copy\<close> into a slice of \<open>n\<close> bytes: the bytes copied.\<close>

fun mb_Copy :: "MultiBuffer \<Rightarrow> nat \<Rightarrow> byte list option" where
  "mb_Copy [] n = Some []"
| "mb_Copy (bb # mb) n =
     (case Bytes bb of
        None \<Rightarrow> None
      | Some c \<Rightarrow>
          let xs = take n c
          in if int (length xs) < buf_Len bb then Some xs
             else map_option ((@) xs) (mb_Copy mb (n - length xs)))"

function mb_ReadFrom :: "reader \<Rightarrow> (MultiBuffer \<times> go_error option) option" where
  "mb_ReadFrom r =
     (case ReadFullFrom r (int Size) New of
        None \<Rightarrow> None
      | Some (n, err, r', b) \<Rightarrow>
          let pre = (if buf_IsEmpty b then [] else [b])
          in case err of
               None \<Rightarrow> map_option (\<lambda>(mb, e). (pre @ mb, e)) (mb_ReadFrom r')
             | Some e \<Rightarrow> Some (pre, if e = EOF \<or> e = ErrUnexpectedEOF then None else Some e))"
  by pat_completeness auto
termination
proof (relation "measure (\<lambda>r. length (concat r))", goal_cases)
  case (2 r p n q err q' r' b pre)
  obtain xs e r1 where f: "ReadFull Size r = (xs, e, r1)" by (cases "ReadFull Size r") auto
  from ReadFullFrom_spec [OF New_facts(1) _ f] obtain b' where
    "ReadFullFrom r (int Size) New = Some (length xs, e, r1, b')" by auto
  with 2 f have "ReadFull Size r = (xs, None, r')" by auto
  then show ?case by (auto dest!: ReadFull_ok simp: Size_def)
qed simp

declare mb_ReadFrom.simps [simp del]

text \<open>\<^verbatim>\<open>SplitBytes\<close> into a slice of \<open>n\<close> bytes: what is left and the bytes copied.\<close>

fun SplitBytes :: "MultiBuffer \<Rightarrow> nat \<Rightarrow> (MultiBuffer \<times> byte list) option" where
  "SplitBytes [] n = Some ([], [])"
| "SplitBytes (pBuffer # mb) n =
     (case buf_Read n pBuffer of
        None \<Rightarrow> None
      | Some (r, b') \<Rightarrow>
          let xs = (case r of Inl e \<Rightarrow> [] | Inr xs \<Rightarrow> xs)
          in if \<not> buf_IsEmpty b' then Some (b' # mb, xs)
             else map_option (\<lambda>(mb', ys). (mb', xs @ ys)) (SplitBytes mb (n - length xs)))"

definition SplitFirst :: "MultiBuffer \<Rightarrow> MultiBuffer \<times> buffer option" where
  "SplitFirst mb = (case mb of [] \<Rightarrow> ([], None) | b # mb' \<Rightarrow> (mb', Some b))"

definition SplitFirstBytes :: "MultiBuffer \<Rightarrow> nat \<Rightarrow> (MultiBuffer \<times> byte list) option" where
  "SplitFirstBytes mb n =
     (case SplitFirst mb of
        (mb', None) \<Rightarrow> Some (mb', [])
      | (mb', Some b) \<Rightarrow> map_option (\<lambda>c. (mb', take n c)) (Bytes b))"

text \<open>
  \<^verbatim>\<open>last.ReadFrom(curr)\<close> with the buffer \<^verbatim>\<open>curr\<close> as the reader: one \<^verbatim>\<open>Read\<close> of
  it into the free part of \<^verbatim>\<open>last\<close>. \<^verbatim>\<open>common.Must2\<close> panics on the error.
\<close>

definition buf_ReadFrom_buf :: "buffer \<Rightarrow> buffer \<Rightarrow> buffer option" where
  "buf_ReadFrom_buf cur l =
     (if 0 \<le> buf_end l \<and> buf_end l \<le> int (vlen l)
      then case buf_Read (vlen l - nat (buf_end l)) cur of
             Some (Inr xs, _) \<Rightarrow>
               Some ((buf_put (nat (buf_end l)) xs l)\<lparr>buf_end := i32 (buf_end l + int (length xs))\<rparr>)
           | _ \<Rightarrow> None
      else None)"

fun compact_loop :: "buffer \<Rightarrow> MultiBuffer \<Rightarrow> MultiBuffer option" where
  "compact_loop l [] = Some [l]"
| "compact_loop l (cur # mb) =
     (if i32 (buf_Len l + buf_Len cur) > int Size
      then map_option ((#) l) (compact_loop cur mb)
      else case buf_ReadFrom_buf cur l of
             None \<Rightarrow> None
           | Some l' \<Rightarrow> compact_loop l' mb)"

definition Compact :: "MultiBuffer \<Rightarrow> MultiBuffer option" where
  "Compact mb = (case mb of [] \<Rightarrow> Some [] | b # bs \<Rightarrow> compact_loop b bs)"

text \<open>The loop of \<^verbatim>\<open>SplitSize\<close>: whole buffers while the total stays within \<^verbatim>\<open>size\<close>.\<close>

fun split_size_loop :: "int \<Rightarrow> int \<Rightarrow> MultiBuffer \<Rightarrow> MultiBuffer \<times> MultiBuffer" where
  "split_size_loop tot sz [] = ([], [])"
| "split_size_loop tot sz (b # mb) =
     (if i32 (tot + buf_Len b) > sz then (b # mb, [])
      else let (rest, r) = split_size_loop (i32 (tot + buf_Len b)) sz mb in (rest, b # r))"

definition SplitSize :: "MultiBuffer \<Rightarrow> int \<Rightarrow> (MultiBuffer \<times> MultiBuffer) option" where
  "SplitSize mb sz =
     (case mb of
        [] \<Rightarrow> Some ([], [])
      | b0 # bs \<Rightarrow>
          if buf_Len b0 > sz
          then case Extend sz New of
                 None \<Rightarrow> None
               | Some (b, lo, hi) \<Rightarrow>
                   case BytesTo sz b0 of
                     None \<Rightarrow> None
                   | Some xs \<Rightarrow> Some (Advance sz b0 # bs, [buf_put lo (take (hi - lo) xs) b])
          else Some (split_size_loop 0 sz mb))"

definition SplitMulti :: "MultiBuffer \<Rightarrow> int \<Rightarrow> MultiBuffer \<times> MultiBuffer" where
  "SplitMulti mb i =
     (if i < int (length mb) \<and> i \<ge> 0 then (take (nat i) mb, drop (nat i) mb) else (mb, []))"

text \<open>
  \<^verbatim>\<open>WriteMultiBuffer\<close> on a writer given by its \<^verbatim>\<open>Write\<close> function on a writer state:
  the buffers left, the error, the writer.
\<close>

fun WriteMultiBuffer ::
  "(byte list \<Rightarrow> 'w \<Rightarrow> go_error option \<times> 'w) \<Rightarrow> 'w \<Rightarrow> MultiBuffer \<Rightarrow>
   (MultiBuffer \<times> go_error option \<times> 'w) option" where
  "WriteMultiBuffer wr w [] = Some ([], None, w)"
| "WriteMultiBuffer wr w (b # mb) =
     (case Bytes b of
        None \<Rightarrow> None
      | Some c \<Rightarrow>
          case wr c w of
            (Some e, w') \<Rightarrow> Some (mb, Some e, w')
          | (None, w') \<Rightarrow> WriteMultiBuffer wr w' mb)"

definition mb_Len :: "MultiBuffer \<Rightarrow> int" where
  "mb_Len mb = foldl (\<lambda>s b. i32 (s + buf_Len b)) 0 mb"

fun mb_IsEmpty :: "MultiBuffer \<Rightarrow> bool" where
  "mb_IsEmpty [] = True"
| "mb_IsEmpty (b # mb) = (if \<not> buf_IsEmpty b then False else mb_IsEmpty mb)"

definition ReadAllToBytes :: "reader \<Rightarrow> (go_error + byte list) option" where
  "ReadAllToBytes r =
     (case mb_ReadFrom r of
        None \<Rightarrow> None
      | Some (mb, Some e) \<Rightarrow> Some (Inl e)
      | Some (mb, None) \<Rightarrow>
          if mb_Len mb = 0 then Some (Inr [])
          else if mb_Len mb < 0 then None
          else map_option (\<lambda>(_, xs). Inr xs) (SplitBytes mb (nat (mb_Len mb))))"

section \<open>The container\<close>

definition MultiBufferContainer_Read ::
  "nat \<Rightarrow> MultiBuffer \<Rightarrow> ((go_error + byte list) \<times> MultiBuffer) option" where
  "MultiBufferContainer_Read n c =
     (if mb_IsEmpty c then Some (Inl EOF, c)
      else map_option (\<lambda>(mb, xs). (Inr xs, mb)) (SplitBytes c n))"

definition MultiBufferContainer_ReadMultiBuffer :: "MultiBuffer \<Rightarrow> MultiBuffer \<times> MultiBuffer" where
  "MultiBufferContainer_ReadMultiBuffer c = (c, [])"

definition MultiBufferContainer_Write :: "byte list \<Rightarrow> MultiBuffer \<Rightarrow> (nat \<times> MultiBuffer) option" where
  "MultiBufferContainer_Write xs c = map_option (\<lambda>mb. (length xs, mb)) (MergeBytes c xs)"

definition MultiBufferContainer_WriteMultiBuffer :: "MultiBuffer \<Rightarrow> MultiBuffer \<Rightarrow> MultiBuffer" where
  "MultiBufferContainer_WriteMultiBuffer mb c = fst (MergeMulti c mb)"

definition MultiBufferContainer_Close :: "MultiBuffer \<Rightarrow> MultiBuffer" where
  "MultiBufferContainer_Close c = fst (ReleaseMulti c)"

section \<open>Content\<close>

definition mb_wf :: "MultiBuffer \<Rightarrow> bool" where
  "mb_wf mb \<longleftrightarrow> list_all buf_wf mb"

definition mb_content :: "MultiBuffer \<Rightarrow> byte list" where
  "mb_content mb = concat (map content mb)"

lemma mb_wf_simps [simp]:
  "mb_wf []" "mb_wf (b # mb) \<longleftrightarrow> buf_wf b \<and> mb_wf mb" "mb_wf (xs @ ys) \<longleftrightarrow> mb_wf xs \<and> mb_wf ys"
  by (auto simp: mb_wf_def)

lemma mb_content_simps [simp]:
  "mb_content [] = []" "mb_content (b # mb) = content b @ mb_content mb"
  "mb_content (xs @ ys) = mb_content xs @ mb_content ys"
  by (simp_all add: mb_content_def)

lemma mb_IsEmpty_iff [simp]: "mb_wf mb \<Longrightarrow> mb_IsEmpty mb \<longleftrightarrow> mb_content mb = []"
  by (induction mb) auto

lemma fill_new_spec: "\<exists>bs. fill_new src = Some bs \<and> mb_wf bs \<and> mb_content bs = src \<and>
    list_all (\<lambda>b. content b \<noteq> []) bs"
proof (induction src rule: fill_new.induct)
  case (1 src)
  show ?case
  proof (cases "src = []")
    case False
    obtain b where b: "buf_Write src New = Some (min (room New) (length src), b)" "buf_wf b"
      "content b = content New @ take (room New) src"
      by (rule buf_Write_spec [OF New_facts(1)])
    with "1.IH" [OF False b(1)] obtain bs where
      "fill_new (drop (min Size (length src)) src) = Some bs" "mb_wf bs"
      "mb_content bs = drop (min Size (length src)) src" "list_all (\<lambda>b. content b \<noteq> []) bs" by auto
    moreover have "take Size src @ drop (min Size (length src)) src = src" by (simp add: min_def)
    moreover have "take Size src \<noteq> []" using False by (simp add: Size_def)
    ultimately show ?thesis
      using b False by (simp add: fill_new.simps [of src])
  qed (simp add: fill_new.simps)
qed

lemma MergeBytes_spec:
  assumes "mb_wf dest"
  obtains mb where "MergeBytes dest src = Some mb" "mb_wf mb" "mb_content mb = mb_content dest @ src"
proof (cases "dest \<noteq> [] \<and> \<not> buf_IsFull (last dest)")
  case True
  then have d: "butlast dest @ [last dest] = dest" by simp
  have wf: "buf_wf (last dest)" "mb_wf (butlast dest)" using assms d mb_wf_simps by metis+
  obtain b where b: "buf_Write src (last dest) = Some (min (room (last dest)) (length src), b)" "buf_wf b"
    "content b = content (last dest) @ take (room (last dest)) src"
    by (rule buf_Write_spec [OF wf(1)])
  obtain bs where bs: "fill_new (drop (min (room (last dest)) (length src)) src) = Some bs" "mb_wf bs"
    "mb_content bs = drop (min (room (last dest)) (length src)) src" using fill_new_spec by blast
  have "take (room (last dest)) src @ drop (min (room (last dest)) (length src)) src = src"
    by (simp add: min_def)
  moreover have "mb_content dest = mb_content (butlast dest) @ content (last dest)"
    by (subst d [symmetric]) simp
  ultimately show ?thesis
    using True b bs wf by (intro that [of "(butlast dest @ [b]) @ bs"]) (auto simp: MergeBytes_def)
next
  case False
  obtain bs where "fill_new src = Some bs" "mb_wf bs" "mb_content bs = src"
    using fill_new_spec by blast
  with False assms show ?thesis
    by (intro that [of "dest @ bs"]) (auto simp: MergeBytes_def)
qed

lemma SplitBytes_spec:
  "mb_wf mb \<Longrightarrow> \<exists>mb'. SplitBytes mb n = Some (mb', take n (mb_content mb)) \<and> mb_wf mb' \<and>
     mb_content mb' = drop n (mb_content mb)"
proof (induction mb arbitrary: n)
  case (Cons b mb)
  then have wf: "buf_wf b" "mb_wf mb" by simp_all
  show ?case
  proof (cases "content b = []")
    case True
    with wf Cons.IH [OF wf(2), of n] show ?thesis by (auto simp: buf_Read_EOF Let_def)
  next
    case False
    obtain b' where b': "buf_Read n b = Some (Inr (take n (content b)), b')" "buf_wf b'"
      "content b' = drop n (content b)" by (rule buf_Read_spec [OF wf(1) False])
    show ?thesis
    proof (cases "length (content b) \<le> n")
      case True
      with b' wf Cons.IH [OF wf(2), of "n - length (content b)"] show ?thesis
        by (auto simp: Let_def)
    next
      case False
      with b' wf show ?thesis by (auto simp: Let_def)
    qed
  qed
qed simp

interpretation container_fifo:
  byte_fifo MultiBufferContainer_Write MultiBufferContainer_Read mb_content mb_wf
proof
  fix c :: MultiBuffer and xs :: "byte list" and n :: nat
  assume w: "mb_wf c"
  obtain mb where "MergeBytes c xs = Some mb" "mb_wf mb" "mb_content mb = mb_content c @ xs"
    by (rule MergeBytes_spec [OF w])
  then show "\<exists>n c'. MultiBufferContainer_Write xs c = Some (n, c') \<and> mb_wf c' \<and>
      mb_content c' = mb_content c @ take n xs"
    by (auto simp: MultiBufferContainer_Write_def)
  show "mb_content c = [] \<Longrightarrow> MultiBufferContainer_Read n c = Some (Inl EOF, c)"
    using w by (simp add: MultiBufferContainer_Read_def)
  assume "mb_content c \<noteq> []"
  with w SplitBytes_spec [OF w, of n] show "\<exists>c'. MultiBufferContainer_Read n c =
      Some (Inr (take n (mb_content c)), c') \<and> mb_wf c' \<and> mb_content c' = drop n (mb_content c)"
    by (auto simp: MultiBufferContainer_Read_def)
qed

section \<open>Splitting and merging keep the bytes\<close>

lemma buf_Len_small: "buf_wf b \<Longrightarrow> 0 \<le> buf_Len b \<and> buf_Len b < 2 ^ 31"
  using content_length_room [of b] by (auto simp: buf_wf_def)

lemma split_size_loop_spec:
  "mb_wf mb \<Longrightarrow> 0 \<le> tot \<Longrightarrow> tot \<le> sz \<Longrightarrow> sz < 2 ^ 31 \<Longrightarrow> split_size_loop tot sz mb = (rest, r) \<Longrightarrow>
   tot + int (length (mb_content mb)) < 2 ^ 31 \<Longrightarrow>
   mb = r @ rest \<and> tot + int (length (mb_content r)) \<le> sz \<and>
   (case rest of [] \<Rightarrow> True | b # _ \<Rightarrow> tot + int (length (mb_content r) + length (content b)) > sz)"
proof (induction tot sz mb arbitrary: rest r rule: split_size_loop.induct)
  case (2 tot sz b mb)
  have i: "i32 (tot + buf_Len b) = tot + int (length (content b))"
    using "2.prems" by (simp add: i32_id)
  show ?case
  proof (cases "tot + int (length (content b)) > sz")
    case True
    with 2 i show ?thesis by auto
  next
    case False
    obtain r' where r': "split_size_loop (i32 (tot + buf_Len b)) sz mb = (rest, r')" "r = b # r'"
      using "2.prems"(5) False i by (auto split: prod.splits)
    have "mb = r' @ rest \<and> tot + int (length (content b)) + int (length (mb_content r')) \<le> sz \<and>
      (case rest of [] \<Rightarrow> True
       | c # _ \<Rightarrow> tot + int (length (content b)) + int (length (mb_content r') + length (content c)) > sz)"
      using "2.IH" [OF _ _ _ _ "2.prems"(4) r'(1)] "2.prems" False unfolding i
      by (simp cong: list.case_cong)
    then show ?thesis using r'(2) by (auto split: list.splits)
  qed
qed auto

lemma SplitSize_first:
  assumes "buf_wf b0" "sz < int (length (content b0))" "0 \<le> sz" "sz \<le> int Size"
  obtains b where "SplitSize (b0 # bs) sz = Some (Advance sz b0 # bs, [b])" "buf_wf b"
    "content b = take (nat sz) (content b0)" "buf_wf (Advance sz b0)"
    "content (Advance sz b0) = drop (nat sz) (content b0)"
proof -
  let ?n = "nat sz"
  have n: "int ?n = sz" "?n \<le> room New" "?n \<le> length (content b0)" using assms by simp_all
  obtain b where b: "Extend (int ?n) New = Some (b, nat (buf_end New), nat (buf_end New) + ?n)"
    "b = New\<lparr>buf_end := buf_end New + int ?n\<rparr>" "buf_wf b"
    by (rule Extend_spec [OF New_facts(1) n(2)])
  have e: "buf_end New = 0" "buf_start New = 0" "length (arr New) = Size" "vlen New = Size"
    by (simp_all add: New_def buf_New_def buf_of_def)
  let ?xs = "take ?n (content b0)"
  have l: "length ?xs = ?n" using n(3) by simp
  have "SplitSize (b0 # bs) sz = Some (Advance sz b0 # bs, [buf_put 0 ?xs b])"
    using assms b(1) e BytesTo_nat [OF assms(1) n(3)] n(1) by (simp add: SplitSize_def)
  moreover have "buf_wf (buf_put 0 ?xs b)"
    using b(2,3) e l n(2) by (simp add: buf_wf_def buf_put_def)
  moreover have "content (buf_put 0 ?xs b) = ?xs"
    using range_of_blit_same [of 0 ?xs "arr New"] b(2) e l n by (simp add: content_def buf_put_def)
  ultimately show ?thesis
    using Advance_spec [OF assms(1) n(3)] n(1) by (intro that) simp_all
qed

text \<open>
  \<^verbatim>\<open>SplitSize\<close> (for a size within one buffer) loses and reorders nothing: it does not
  panic, the part split off followed by the rest is the old content, the part has at most
  \<^verbatim>\<open>size\<close> bytes, and it is as long as whole buffers allow: either the first buffer was cut at
  exactly \<^verbatim>\<open>size\<close> bytes, or the next whole buffer would not have fitted.
\<close>

theorem SplitSize_conserves:
  assumes "mb_wf mb" "0 \<le> sz" "sz \<le> int Size" "length (mb_content mb) < 2 ^ 31"
  shows "\<exists>rest r. SplitSize mb sz = Some (rest, r) \<and> mb_wf rest \<and> mb_wf r \<and>
     mb_content r @ mb_content rest = mb_content mb \<and> int (length (mb_content r)) \<le> sz \<and>
     (int (length (mb_content r)) = sz \<or>
      (case rest of [] \<Rightarrow> True | b # _ \<Rightarrow> int (length (mb_content r) + length (content b)) > sz))"
proof (cases mb)
  case Nil
  then show ?thesis by (simp add: SplitSize_def assms)
next
  case (Cons b0 bs)
  then have wf: "buf_wf b0" "mb_wf bs" using assms(1) by simp_all
  show ?thesis
  proof (cases "sz < int (length (content b0))")
    case True
    obtain b where b: "SplitSize (b0 # bs) sz = Some (Advance sz b0 # bs, [b])" "buf_wf b"
      "content b = take (nat sz) (content b0)" "buf_wf (Advance sz b0)"
      "content (Advance sz b0) = drop (nat sz) (content b0)"
      by (rule SplitSize_first [OF wf(1) True assms(2,3)])
    have "int (length (content b)) = sz" using b(3) True assms(2) by simp
    then have "mb_wf (Advance sz b0 # bs) \<and> mb_wf [b] \<and>
        mb_content [b] @ mb_content (Advance sz b0 # bs) = mb_content mb \<and>
        int (length (mb_content [b])) = sz"
      using b wf Cons by simp
    with b(1) Cons show ?thesis by auto
  next
    case False
    obtain rest r where l: "split_size_loop 0 sz mb = (rest, r)" by force
    then have s: "SplitSize mb sz = Some (rest, r)"
      using Cons False wf by (simp add: SplitSize_def)
    have "sz < 2 ^ 31" using assms(3) by (simp add: Size_def)
    from split_size_loop_spec [OF assms(1) _ assms(2) this l] assms(4)
    have "mb = r @ rest" "int (length (mb_content r)) \<le> sz"
      "case rest of [] \<Rightarrow> True | b # _ \<Rightarrow> int (length (mb_content r) + length (content b)) > sz"
      by (simp_all cong: list.case_cong)
    with s assms(1) show ?thesis by auto
  qed
qed

theorem SplitSize_conserves_witness:
  "mb_wf [FromBytes [1, 2], FromBytes [3, 4, 5]] \<and>
   (\<exists>rest r. SplitSize [FromBytes [1, 2], FromBytes [3, 4, 5]] 4 = Some (rest, r) \<and>
      mb_content r @ mb_content rest = [1, 2, 3, 4, 5] \<and> int (length (mb_content r)) \<le> 4)"
proof -
  have w: "mb_wf [FromBytes [1, 2], FromBytes [3, 4, 5]]"
    and c: "mb_content [FromBytes [1, 2], FromBytes [3, 4, 5]] = [1, 2, 3, 4, 5]"
    using FromBytes_facts [of "[1, 2]"] FromBytes_facts [of "[3, 4, 5]"] by simp_all
  show ?thesis
    using w SplitSize_conserves [OF w, of 4] unfolding c by (auto simp: Size_def)
qed

text \<open>
  The container over a multi-buffer is a first-in first-out queue without a bound: for every
  sequence of its \<^verbatim>\<open>Write\<close> and \<^verbatim>\<open>Read\<close> calls no call panics and the old content
  followed by what was written is what was read followed by the new content; each write takes
  all the bytes it is given, however full the last buffer is.
\<close>

theorem container_fifo_unbounded:
  assumes "mb_wf c"
  shows "(\<exists>acc out c'. io_run MultiBufferContainer_Write MultiBufferContainer_Read ops c = Some (acc, out, c') \<and>
            mb_wf c' \<and> mb_content c @ acc = out @ mb_content c') \<and>
         (\<exists>c'. MultiBufferContainer_Write xs c = Some (length xs, c') \<and>
            mb_content c' = mb_content c @ xs)"
proof -
  obtain mb where "MergeBytes c xs = Some mb" "mb_wf mb" "mb_content mb = mb_content c @ xs"
    by (rule MergeBytes_spec [OF assms])
  then show ?thesis
    using container_fifo.run_conserves [OF assms] by (auto simp: MultiBufferContainer_Write_def)
qed

theorem container_fifo_unbounded_witness:
  "\<exists>acc out c'. io_run MultiBufferContainer_Write MultiBufferContainer_Read [Wr [1, 2, 3], Rd 2]
     [FromBytes [9]] = Some (acc, out, c') \<and> [9] @ acc = out @ mb_content c'"
proof -
  have w: "mb_wf [FromBytes [9]]" and c: "mb_content [FromBytes [9]] = [9]"
    using FromBytes_facts [of "[9]"] by simp_all
  show ?thesis
    using container_fifo_unbounded [OF w, of "[Wr [1, 2, 3], Rd 2]" "[]"] unfolding c by blast
qed

section \<open>Reading a whole stream\<close>

lemma mb_ReadFrom_spec:
  "\<exists>mb. mb_ReadFrom r = Some (mb, None) \<and> mb_wf mb \<and> mb_content mb = concat r"
proof (induction r rule: mb_ReadFrom.induct)
  case (1 r)
  obtain xs err r' where f: "ReadFull Size r = (xs, err, r')" by (cases "ReadFull Size r") auto
  obtain b where b: "ReadFullFrom r (int Size) New = Some (length xs, err, r', b)" "buf_wf b"
    "content b = content New @ xs" by (rule ReadFullFrom_spec [OF New_facts(1) _ f]) auto
  let ?pre = "if buf_IsEmpty b then [] else [b]"
  have pre: "mb_wf ?pre" "mb_content ?pre = xs" using b by simp_all
  show ?case
  proof (cases err)
    case None
    with "1.IH" [OF b(1) refl refl refl refl None] obtain mb where
      "mb_ReadFrom r' = Some (mb, None)" "mb_wf mb" "mb_content mb = concat r'" by auto
    moreover have "xs @ concat r' = concat r" using ReadFull_ok [of Size r xs r'] f None by auto
    ultimately show ?thesis
      using b None pre by (simp add: mb_ReadFrom.simps [of r])
  next
    case (Some e)
    have "length (concat r) < Size"
      using ReadFull_enough [of Size r] f Some by (cases "Size \<le> length (concat r)") auto
    from ReadFull_short [OF this] f Some have "xs = concat r" "e = EOF \<or> e = ErrUnexpectedEOF"
      by auto
    then show ?thesis using b Some pre by (simp add: mb_ReadFrom.simps [of r])
  qed
qed

lemma mb_Len_content:
  assumes "mb_wf mb" "length (mb_content mb) < 2 ^ 31"
  shows "mb_Len mb = int (length (mb_content mb))"
proof -
  have "foldl (\<lambda>s b. i32 (s + buf_Len b)) (int k) mb = int k + int (length (mb_content mb))"
    if "k + length (mb_content mb) < 2 ^ 31" for k
    using that assms(1)
  proof (induction mb arbitrary: k)
    case (Cons b mb)
    have "i32 (int k + buf_Len b) = int (k + length (content b))"
      using Cons.prems i32_nat [of "k + length (content b)"] by simp
    with Cons.IH [of "k + length (content b)"] Cons.prems show ?case by simp
  qed simp
  from this [of 0] assms(2) show ?thesis by (simp add: mb_Len_def)
qed

text \<open>
  \<^verbatim>\<open>ReadAllToBytes\<close> returns the whole stream: however the reader cuts its data into
  chunks (empty ones too), the loop of 8192-byte reads ends at the end of the stream and the
  result is the concatenation of the chunks.
\<close>

theorem ReadAllToBytes_all:
  assumes "length (concat r) < 2 ^ 31"
  shows "ReadAllToBytes r = Some (Inr (concat r))"
proof -
  obtain mb where mb: "mb_ReadFrom r = Some (mb, None)" "mb_wf mb" "mb_content mb = concat r"
    using mb_ReadFrom_spec by blast
  then have len: "mb_Len mb = int (length (concat r))" using mb_Len_content assms by simp
  from SplitBytes_spec [OF mb(2), of "length (concat r)"] mb(3)
  obtain mb' where "SplitBytes mb (length (concat r)) = Some (mb', concat r)" by auto
  with mb(1) len show ?thesis by (auto simp: ReadAllToBytes_def)
qed

theorem ReadAllToBytes_all_witness:
  "ReadAllToBytes [[1, 2], [], [3]] = Some (Inr [1, 2, 3])"
  using ReadAllToBytes_all [of "[[1, 2], [], [3]]"] by simp

section \<open>Compaction\<close>

lemma buf_ReadFrom_buf_spec:
  assumes "buf_wf l" "buf_wf c" "content c \<noteq> []"
  obtains l' where "buf_ReadFrom_buf c l = Some l'" "buf_wf l'"
    "content l' = content l @ take (room l) (content c)" "buf_start l' = buf_start l" "vlen l' = vlen l"
proof -
  obtain c' where c': "buf_Read (room l) c = Some (Inr (take (room l) (content c)), c')"
    by (rule buf_Read_spec [OF assms(2,3)])
  let ?xs = "take (room l) (content c)"
  let ?l = "(buf_put (nat (buf_end l)) ?xs l)\<lparr>buf_end := i32 (buf_end l + int (length ?xs))\<rparr>"
  have "buf_ReadFrom_buf c l = Some ?l"
    using assms(1) c' by (simp add: buf_ReadFrom_buf_def room_def buf_wf_def)
  moreover have "length ?xs \<le> room l" by simp
  ultimately show ?thesis
    using buf_append [OF assms(1), of ?xs] by (intro that [of ?l]) (auto simp: buf_put_def)
qed

definition standard_buf :: "buffer \<Rightarrow> bool" where
  "standard_buf b \<longleftrightarrow> buf_wf b \<and> buf_start b = 0 \<and> vlen b \<ge> Size"

lemma compact_loop_spec:
  "standard_buf l \<Longrightarrow> list_all standard_buf mb \<Longrightarrow> list_all (\<lambda>b. content b \<noteq> []) mb \<Longrightarrow>
   list_all (\<lambda>b. length (content b) \<le> Size) (l # mb) \<Longrightarrow>
   \<exists>mb'. compact_loop l mb = Some mb' \<and> mb_wf mb' \<and> mb_content mb' = content l @ mb_content mb \<and>
     length mb' \<le> Suc (length mb)"
proof (induction mb arbitrary: l)
  case Nil
  then show ?case by (simp add: standard_buf_def)
next
  case (Cons c mb)
  then have wf: "buf_wf l" "buf_wf c" "content c \<noteq> []" "standard_buf c" by (auto simp: standard_buf_def)
  have i: "i32 (buf_Len l + buf_Len c) = int (length (content l) + length (content c))"
    using i32_nat [of "length (content l) + length (content c)"] wf Cons.prems(4) by (simp add: Size_def)
  show ?case
  proof (cases "length (content l) + length (content c) > Size")
    case True
    with Cons.IH [OF wf(4)] Cons.prems obtain mb' where
      "compact_loop c mb = Some mb'" "mb_wf mb'" "mb_content mb' = content c @ mb_content mb"
      "length mb' \<le> Suc (length mb)" by auto
    with True i wf show ?thesis by simp
  next
    case False
    obtain l' where l': "buf_ReadFrom_buf c l = Some l'" "buf_wf l'"
      "content l' = content l @ take (room l) (content c)" "buf_start l' = buf_start l" "vlen l' = vlen l"
      by (rule buf_ReadFrom_buf_spec [OF wf(1-3)])
    have "length (content c) \<le> room l"
      using False Cons.prems(1) length_content [OF wf(1)]
      by (auto simp: standard_buf_def room_def)
    then have c: "content l' = content l @ content c" using l'(3) by simp
    have "standard_buf l'" "length (content l') \<le> Size"
      using Cons.prems(1) l' c False by (simp_all add: standard_buf_def)
    with Cons.IH [of l'] Cons.prems obtain mb' where
      "compact_loop l' mb = Some mb'" "mb_wf mb'" "mb_content mb' = content l' @ mb_content mb"
      "length mb' \<le> Suc (length mb)" by auto
    with False i l' c show ?thesis by simp
  qed
qed

text \<open>
  \<^verbatim>\<open>Compact\<close> on standard buffers (the array from \<^verbatim>\<open>New\<close>, nothing read from them
  yet, none of them empty) keeps every byte in order and never gives more buffers.
\<close>

theorem Compact_standard:
  assumes "list_all standard_buf mb" "list_all (\<lambda>b. content b \<noteq> [] \<and> length (content b) \<le> Size) mb"
  shows "\<exists>mb'. Compact mb = Some mb' \<and> mb_wf mb' \<and> mb_content mb' = mb_content mb \<and>
           length mb' \<le> length mb"
proof (cases mb)
  case (Cons b bs)
  with assms have "standard_buf b" "list_all standard_buf bs" "list_all (\<lambda>b. content b \<noteq> []) bs"
    "list_all (\<lambda>b. length (content b) \<le> Size) (b # bs)" by (auto simp: list_all_iff)
  from compact_loop_spec [OF this] Cons show ?thesis by (auto simp: Compact_def)
qed (simp add: Compact_def)

definition standard_of :: "byte list \<Rightarrow> buffer" where
  "standard_of xs = New\<lparr>arr := blit 0 xs (arr New), buf_end := int (length xs)\<rparr>"

lemma standard_of:
  assumes "length xs \<le> Size"
  shows "standard_buf (standard_of xs)" "content (standard_of xs) = xs"
proof -
  have e: "buf_end New = 0" "buf_start New = 0" "length (arr New) = Size" "vlen New = Size"
    by (simp_all add: New_def buf_New_def buf_of_def)
  with assms show "standard_buf (standard_of xs)"
    by (simp add: standard_buf_def standard_of_def buf_wf_def Size_def)
  show "content (standard_of xs) = xs"
    using range_of_blit_same [of 0 xs "arr New"] e assms by (simp add: standard_of_def content_def)
qed

theorem Compact_standard_witness:
  "\<exists>mb'. Compact [standard_of [1, 2], standard_of [3]] = Some mb' \<and> mb_content mb' = [1, 2, 3]"
  using Compact_standard [of "[standard_of [1, 2], standard_of [3]]"]
    standard_of [of "[1, 2]"] standard_of [of "[3]"] by (auto simp: Size_def)

text \<open>
  \<^verbatim>\<open>Compact\<close> compares the lengths with the buffer size but fills only the room behind
  the first buffer's content. When the first buffer has been advanced (or its array is smaller),
  the bytes of the second that do not fit are dropped: exactly the first \<^verbatim>\<open>room\<close> bytes of it
  survive. An empty second buffer makes \<^verbatim>\<open>Must2\<close> panic on \<^verbatim>\<open>io.EOF\<close>.
\<close>

theorem Compact_drops_bytes:
  assumes "buf_wf l" "buf_wf c" "length (content l) + length (content c) \<le> Size"
  shows "(if content c = [] then Compact [l, c] = None
          else \<exists>l'. Compact [l, c] = Some [l'] \<and> content l' = content l @ take (room l) (content c))"
proof -
  have i: "i32 (buf_Len l + buf_Len c) \<le> int Size"
    using i32_nat [of "length (content l) + length (content c)"] assms by (simp add: Size_def)
  show ?thesis
  proof (cases "content c = []")
    case True
    with assms i show ?thesis
      by (simp add: Compact_def buf_ReadFrom_buf_def buf_Read_EOF buf_wf_def [of l])
  next
    case False
    obtain l' where "buf_ReadFrom_buf c l = Some l'"
      "content l' = content l @ take (room l) (content c)"
      by (rule buf_ReadFrom_buf_spec [OF assms(1,2) False])
    with False i show ?thesis by (simp add: Compact_def)
  qed
qed

theorem Compact_drops_bytes_witness:
  "mb_content [(standard_of (replicate 8192 7))\<lparr>buf_start := 8190\<rparr>, standard_of [1, 2, 3]] = [7, 7, 1, 2, 3]
   \<and> (\<exists>l'. Compact [(standard_of (replicate 8192 7))\<lparr>buf_start := 8190\<rparr>, standard_of [1, 2, 3]] = Some [l']
        \<and> content l' = [7, 7])"
proof -
  let ?l = "(standard_of (replicate 8192 7))\<lparr>buf_start := 8190\<rparr>"
  let ?f = "standard_of (replicate 8192 7)"
  have f: "buf_wf ?f" "content ?f = replicate 8192 7" "buf_start ?f = 0" "vlen ?f = 8192" "buf_end ?f = 8192"
    using standard_of [of "replicate 8192 7"]
    by (simp_all add: Size_def standard_buf_def standard_of_def New_def buf_New_def buf_of_def)
  have adv: "buf_wf ?l \<and> content ?l = drop 8190 (content ?f) \<and> room ?l = room ?f"
    using buf_advance [OF f(1), of 8190] i32_nat [of 8190] by (simp add: f(2,3))
  have l: "buf_wf ?l" "content ?l = [7, 7]" "room ?l = 0"
    using adv f by (simp_all add: room_def numeral_2_eq_2)
  have c: "buf_wf (standard_of [1, 2, 3])" "content (standard_of [1, 2, 3]) = [1, 2, 3]"
    using standard_of [of "[1, 2, 3]"] by (simp_all add: Size_def standard_buf_def)
  show ?thesis
    using Compact_drops_bytes [OF l(1) c(1)] l c by (simp add: Size_def)
qed

end
