(* ===== verification/Kcp_Segment.thy ===== *)
theory Kcp_Segment
  imports Multi_Buffer
begin

text \<open>
  Package \<^verbatim>\<open>transport/internet/kcp\<close>, file \<^verbatim>\<open>segment.go\<close>: the three kinds of segments
  of mKCP, their wire format and the parser of one segment. The Go interface
  \<^verbatim>\<open>Segment\<close> is the datatype of its three implementations. A parse result is a panic
  (\<open>None\<close>), a rejection (\<open>Some None\<close>) or a segment with the unread bytes.
\<close>

section \<open>Segments\<close>

type_synonym Command = byte
type_synonym SegmentOption = byte

definition CommandACK :: Command where "CommandACK = 0"
definition CommandData :: Command where "CommandData = 1"
definition CommandTerminate :: Command where "CommandTerminate = 2"
definition CommandPing :: Command where "CommandPing = 3"
definition SegmentOptionClose :: SegmentOption where "SegmentOptionClose = 1"
definition DataSegmentOverhead :: u32 where "DataSegmentOverhead = 18"

lemmas command_defs = CommandACK_def CommandData_def CommandTerminate_def CommandPing_def

record DataSegment =
  dConv :: u16
  dOption :: SegmentOption
  dTimestamp :: u32
  Number :: u32
  dSendingNext :: u32
  payload :: "buffer option"
  timeout :: u32
  transmit :: u32

record AckSegment =
  aConv :: u16
  aOption :: SegmentOption
  ReceivingWindow :: u32
  aReceivingNext :: u32
  aTimestamp :: u32
  NumberList :: "u32 list"

record CmdOnlySegment =
  cConv :: u16
  Cmd :: Command
  cOption :: SegmentOption
  cSendingNext :: u32
  cReceivingNext :: u32
  PeerRTO :: u32

datatype Segment = SData DataSegment | SAck AckSegment | SCmd CmdOnlySegment

definition NewDataSegment :: DataSegment where
  "NewDataSegment = \<lparr>dConv = 0, dOption = 0, dTimestamp = 0, Number = 0, dSendingNext = 0,
     payload = None, timeout = 0, transmit = 0\<rparr>"

definition NewAckSegment :: AckSegment where
  "NewAckSegment = \<lparr>aConv = 0, aOption = 0, ReceivingWindow = 0, aReceivingNext = 0,
     aTimestamp = 0, NumberList = []\<rparr>"

definition NewCmdOnlySegment :: CmdOnlySegment where
  "NewCmdOnlySegment = \<lparr>cConv = 0, Cmd = 0, cOption = 0, cSendingNext = 0, cReceivingNext = 0,
     PeerRTO = 0\<rparr>"

section \<open>Accessors and updates\<close>

text \<open>\<^verbatim>\<open>Data()\<close> allocates the payload when there is none.\<close>

definition ds_Data :: "DataSegment \<Rightarrow> buffer" where
  "ds_Data s = (case payload s of None \<Rightarrow> New | Some b \<Rightarrow> b)"

definition ds_Detach :: "DataSegment \<Rightarrow> buffer option \<times> DataSegment" where
  "ds_Detach s = (payload s, s\<lparr>payload := None\<rparr>)"

definition ds_Release :: "DataSegment \<Rightarrow> DataSegment" where
  "ds_Release s = s\<lparr>payload := None\<rparr>"

definition ackNumberLimit :: nat where "ackNumberLimit = 128"

definition PutTimestamp :: "u32 \<Rightarrow> AckSegment \<Rightarrow> AckSegment" where
  "PutTimestamp ts s = (if ts - aTimestamp s < 0x7FFFFFFF then s\<lparr>aTimestamp := ts\<rparr> else s)"

definition PutNumber :: "u32 \<Rightarrow> AckSegment \<Rightarrow> AckSegment" where
  "PutNumber n s = s\<lparr>NumberList := NumberList s @ [n]\<rparr>"

definition ack_IsFull :: "AckSegment \<Rightarrow> bool" where
  "ack_IsFull s \<longleftrightarrow> length (NumberList s) = ackNumberLimit"

definition ack_IsEmpty :: "AckSegment \<Rightarrow> bool" where
  "ack_IsEmpty s \<longleftrightarrow> length (NumberList s) = 0"

fun Conversation :: "Segment \<Rightarrow> u16" where
  "Conversation (SData s) = dConv s"
| "Conversation (SAck s) = aConv s"
| "Conversation (SCmd s) = cConv s"

fun seg_Command :: "Segment \<Rightarrow> Command" where
  "seg_Command (SData s) = CommandData"
| "seg_Command (SAck s) = CommandACK"
| "seg_Command (SCmd s) = Cmd s"

definition DataSegment_ByteSize :: "DataSegment \<Rightarrow> int" where
  "DataSegment_ByteSize s = i32 (2 + 1 + 1 + 4 + 4 + 4 + 2 + buf_Len_ptr (payload s))"

definition AckSegment_ByteSize :: "AckSegment \<Rightarrow> int" where
  "AckSegment_ByteSize s = i32 (2 + 1 + 1 + 4 + 4 + 4 + 1 + i32 (int (length (NumberList s) * 4)))"

definition CmdOnlySegment_ByteSize :: "CmdOnlySegment \<Rightarrow> int" where
  "CmdOnlySegment_ByteSize s = 2 + 1 + 1 + 4 + 4 + 4"

fun ByteSize :: "Segment \<Rightarrow> int" where
  "ByteSize (SData s) = DataSegment_ByteSize s"
| "ByteSize (SAck s) = AckSegment_ByteSize s"
| "ByteSize (SCmd s) = CmdOnlySegment_ByteSize s"

section \<open>Serialisation\<close>

text \<open>
  The bytes \<^verbatim>\<open>Serialize\<close> stores, in a slice of \<^verbatim>\<open>ByteSize()\<close> bytes; a data segment
  without a payload dereferences a nil buffer.
\<close>

definition DataSegment_Serialize :: "DataSegment \<Rightarrow> byte list option" where
  "DataSegment_Serialize s =
     (case payload s of
        None \<Rightarrow> None
      | Some p \<Rightarrow>
          map_option (\<lambda>c. PutUint16 (dConv s) @ [CommandData, dOption s] @ PutUint32 (dTimestamp s) @
              PutUint32 (Number s) @ PutUint32 (dSendingNext s) @
              PutUint16 (of_int (buf_Len p)) @ c) (Bytes p))"

definition AckSegment_Serialize :: "AckSegment \<Rightarrow> byte list" where
  "AckSegment_Serialize s =
     PutUint16 (aConv s) @ [CommandACK, aOption s] @ PutUint32 (ReceivingWindow s) @
       PutUint32 (aReceivingNext s) @ PutUint32 (aTimestamp s) @ [of_nat (length (NumberList s))] @
       concat (map PutUint32 (NumberList s))"

definition CmdOnlySegment_Serialize :: "CmdOnlySegment \<Rightarrow> byte list" where
  "CmdOnlySegment_Serialize s =
     PutUint16 (cConv s) @ [Cmd s, cOption s] @ PutUint32 (cSendingNext s) @
       PutUint32 (cReceivingNext s) @ PutUint32 (PeerRTO s)"

fun Serialize :: "Segment \<Rightarrow> byte list option" where
  "Serialize (SData s) = DataSegment_Serialize s"
| "Serialize (SAck s) = Some (AckSegment_Serialize s)"
| "Serialize (SCmd s) = Some (CmdOnlySegment_Serialize s)"

lemmas segment_format_defs [simp] =
  DataSegment_ByteSize_def AckSegment_ByteSize_def CmdOnlySegment_ByteSize_def
  DataSegment_Serialize_def AckSegment_Serialize_def CmdOnlySegment_Serialize_def

section \<open>Parsing\<close>

definition DataSegment_parse ::
  "DataSegment \<Rightarrow> u16 \<Rightarrow> SegmentOption \<Rightarrow> byte list \<Rightarrow> (DataSegment \<times> byte list) option option" where
  "DataSegment_parse s conv opt b0 =
     (if length b0 < 15 then Some None
      else do {
        ts \<leftarrow> Uint32 b0;
        let b1 = drop 4 b0;
        num \<leftarrow> Uint32 b1;
        let b2 = drop 4 b1;
        sn \<leftarrow> Uint32 b2;
        let b3 = drop 4 b2;
        l \<leftarrow> Uint16 b3;
        let b4 = drop 2 b3;
        let dataLen = unat l;
        if length b4 < dataLen then Some None
        else do {
          (n, d) \<leftarrow> buf_Write (take dataLen b4) (buf_Clear (ds_Data s));
          Some (Some (s\<lparr>dConv := conv, dOption := opt, dTimestamp := ts, Number := num,
            dSendingNext := sn, payload := Some d\<rparr>, drop dataLen b4))
        }
      })"

fun put_numbers :: "nat \<Rightarrow> byte list \<Rightarrow> AckSegment \<Rightarrow> (AckSegment \<times> byte list) option" where
  "put_numbers 0 b s = Some (s, b)"
| "put_numbers (Suc k) b s =
     (case Uint32 b of None \<Rightarrow> None | Some n \<Rightarrow> put_numbers k (drop 4 b) (PutNumber n s))"

definition AckSegment_parse ::
  "AckSegment \<Rightarrow> u16 \<Rightarrow> SegmentOption \<Rightarrow> byte list \<Rightarrow> (AckSegment \<times> byte list) option option" where
  "AckSegment_parse s conv opt b0 =
     (if length b0 < 13 then Some None
      else do {
        rw \<leftarrow> Uint32 b0;
        let b1 = drop 4 b0;
        rn \<leftarrow> Uint32 b1;
        let b2 = drop 4 b1;
        ts \<leftarrow> Uint32 b2;
        let b3 = drop 4 b2;
        c \<leftarrow> index_expr b3 (int (length b3)) 0;
        let b4 = drop 1 b3;
        let count = unat c;
        if length b4 < count * 4 then Some None
        else map_option Some
          (put_numbers count b4
            (s\<lparr>aConv := conv, aOption := opt, ReceivingWindow := rw, aReceivingNext := rn,
               aTimestamp := ts\<rparr>))
      })"

definition CmdOnlySegment_parse ::
  "CmdOnlySegment \<Rightarrow> u16 \<Rightarrow> Command \<Rightarrow> SegmentOption \<Rightarrow> byte list \<Rightarrow>
   (CmdOnlySegment \<times> byte list) option option" where
  "CmdOnlySegment_parse s conv cmd opt b0 =
     (if length b0 < 12 then Some None
      else do {
        sn \<leftarrow> Uint32 b0;
        let b1 = drop 4 b0;
        rn \<leftarrow> Uint32 b1;
        let b2 = drop 4 b1;
        rto \<leftarrow> Uint32 b2;
        Some (Some (s\<lparr>cConv := conv, Cmd := cmd, cOption := opt, cSendingNext := sn,
          cReceivingNext := rn, PeerRTO := rto\<rparr>, drop 4 b2))
      })"

definition ReadSegment :: "byte list \<Rightarrow> (Segment \<times> byte list) option option" where
  "ReadSegment b0 =
     (if length b0 < 4 then Some None
      else do {
        conv \<leftarrow> Uint16 b0;
        let b1 = drop 2 b0;
        cmd \<leftarrow> index_expr b1 (int (length b1)) 0;
        opt \<leftarrow> index_expr b1 (int (length b1)) 1;
        let b2 = drop 2 b1;
        if cmd = CommandData
        then map_option (map_option (map_prod SData id)) (DataSegment_parse NewDataSegment conv opt b2)
        else if cmd = CommandACK
        then map_option (map_option (map_prod SAck id)) (AckSegment_parse NewAckSegment conv opt b2)
        else map_option (map_option (map_prod SCmd id)) (CmdOnlySegment_parse NewCmdOnlySegment conv cmd opt b2)
      })"

section \<open>Parsing never panics and consumes input\<close>

lemma Uint32_drop: "4 + n \<le> length b \<Longrightarrow> \<exists>w. Uint32 (drop n b) = Some w"
  by (rule Uint32_Some) simp

lemma Uint16_drop: "2 + n \<le> length b \<Longrightarrow> \<exists>w. Uint16 (drop n b) = Some w"
  by (rule Uint16_Some) simp

lemma index_drop: "n + i < length b \<Longrightarrow> index_expr (drop n b) (int (length (drop n b))) (int i) = Some (b ! (n + i))"
  by (simp add: index_expr_def)

text \<open>A parser accepts a suffix of its input, at least \<open>k\<close> bytes shorter, or rejects it.\<close>

definition accepts_suffix :: "nat \<Rightarrow> byte list \<Rightarrow> ('a \<times> byte list) option option \<Rightarrow> bool" where
  "accepts_suffix k b r \<longleftrightarrow>
     (case r of None \<Rightarrow> False | Some None \<Rightarrow> True
      | Some (Some (x, rest)) \<Rightarrow> \<exists>n. rest = drop n b \<and> k \<le> n \<and> n \<le> length b)"

lemma accepts_suffix_simps [simp]:
  "\<not> accepts_suffix k b None" "accepts_suffix k b (Some None)"
  "accepts_suffix k b (Some (Some (x, rest))) \<longleftrightarrow> (\<exists>n. rest = drop n b \<and> k \<le> n \<and> n \<le> length b)"
  "accepts_suffix k b (map_option (map_option (map_prod f id)) r) \<longleftrightarrow> accepts_suffix k b r"
  by (auto simp: accepts_suffix_def split: option.splits)

lemma buf_Write_payload:
  obtains d where "buf_Write xs (buf_Clear (ds_Data NewDataSegment)) = Some (min Size (length xs), d)"
    "buf_wf d" "content d = take Size xs"
proof -
  have "vlen New = Size" by (simp add: New_def buf_New_def buf_of_def)
  then have "room (buf_Clear New) = Size" by simp
  then show ?thesis
    using buf_Write_spec [OF buf_Clear_facts(1) [OF New_facts(1)], of xs] that
    by (auto simp: ds_Data_def NewDataSegment_def)
qed

lemma put_numbers_spec:
  "4 * k \<le> length b \<Longrightarrow> \<exists>s'. put_numbers k b s = Some (s', drop (4 * k) b)"
proof (induction k arbitrary: b s)
  case (Suc k)
  then obtain w where "Uint32 b = Some w" using Uint32_Some [of b] by auto
  moreover from Suc have "\<exists>s'. put_numbers k (drop 4 b) (PutNumber w s) = Some (s', drop (4 * k) (drop 4 b))"
    by (intro Suc.IH) simp
  ultimately show ?case by (simp add: add.commute)
qed simp

lemma DataSegment_parse_total:
  "accepts_suffix 14 b (DataSegment_parse NewDataSegment conv opt b)"
proof (cases "length b < 15")
  case False
  then have len: "15 \<le> length b" by simp
  obtain w0 where 0: "Uint32 b = Some w0" using Uint32_drop [of 0 b] len by auto
  obtain w1 where 1: "Uint32 (drop 4 b) = Some w1" using Uint32_drop [of 4 b] len by auto
  obtain w2 where 2: "Uint32 (drop 8 b) = Some w2" using Uint32_drop [of 8 b] len by auto
  obtain l where 3: "Uint16 (drop 12 b) = Some l" using Uint16_drop [of 12 b] len by auto
  obtain n d where 4: "buf_Write (take (unat l) (drop 14 b)) (buf_Clear (ds_Data NewDataSegment)) = Some (n, d)"
    by (rule buf_Write_payload)
  show ?thesis
  proof (cases "length (drop 14 b) < unat l")
    case True
    then show ?thesis using False 0 1 2 3 by (simp add: DataSegment_parse_def Let_def)
  next
    case lt: False
    then have "14 + unat l \<le> length b" using len by simp
    with lt show ?thesis using False 0 1 2 3 4
      by (auto simp: DataSegment_parse_def Let_def add.commute intro!: exI [of _ "14 + unat l"])
  qed
qed (simp add: DataSegment_parse_def)

lemma AckSegment_parse_total: "accepts_suffix 13 b (AckSegment_parse s conv opt b)"
proof (cases "length b < 13")
  case False
  then have len: "13 \<le> length b" by simp
  obtain w0 where 0: "Uint32 b = Some w0" using Uint32_drop [of 0 b] len by auto
  obtain w1 where 1: "Uint32 (drop 4 b) = Some w1" using Uint32_drop [of 4 b] len by auto
  obtain w2 where 2: "Uint32 (drop 8 b) = Some w2" using Uint32_drop [of 8 b] len by auto
  have 3: "index_expr (drop 12 b) (int (length b - 12)) 0 = Some (b ! 12)"
    using index_drop [of 12 0 b] len by simp
  show ?thesis
  proof (cases "length b - 13 < unat (b ! 12) * 4")
    case True
    then show ?thesis using False 0 1 2 3 by (simp add: AckSegment_parse_def Let_def)
  next
    case lt: False
    let ?s = "s\<lparr>aConv := conv, aOption := opt, ReceivingWindow := w0, aReceivingNext := w1, aTimestamp := w2\<rparr>"
    obtain s' where "put_numbers (unat (b ! 12)) (drop 13 b) ?s = Some (s', drop (4 * unat (b ! 12)) (drop 13 b))"
      using put_numbers_spec [of "unat (b ! 12)" "drop 13 b"] lt by auto
    with lt len show ?thesis using False 0 1 2 3
      by (auto simp: AckSegment_parse_def Let_def intro!: exI [of _ "4 * unat (b ! 12) + 13"])
  qed
qed (simp add: AckSegment_parse_def)

lemma CmdOnlySegment_parse_total: "accepts_suffix 12 b (CmdOnlySegment_parse s conv cmd opt b)"
proof (cases "length b < 12")
  case False
  then have len: "12 \<le> length b" by simp
  obtain w0 where 0: "Uint32 b = Some w0" using Uint32_drop [of 0 b] len by auto
  obtain w1 where 1: "Uint32 (drop 4 b) = Some w1" using Uint32_drop [of 4 b] len by auto
  obtain w2 where 2: "Uint32 (drop 8 b) = Some w2" using Uint32_drop [of 8 b] len by auto
  with False 0 1 len show ?thesis
    by (auto simp: CmdOnlySegment_parse_def Let_def intro!: exI [of _ 12])
qed (simp add: CmdOnlySegment_parse_def)

lemma accepts_suffix_mono: "accepts_suffix k b r \<Longrightarrow> j \<le> k \<Longrightarrow> accepts_suffix j b r"
  by (fastforce simp: accepts_suffix_def split: option.splits)

lemma accepts_suffix_drop:
  assumes "accepts_suffix k (drop m b) r" "m \<le> length b" "j \<le> m + k"
  shows "accepts_suffix j b r"
proof (cases r)
  case (Some o')
  show ?thesis
  proof (cases o')
    case (Some p)
    with \<open>r = Some o'\<close> assms(1) obtain x n where "r = Some (Some (x, drop n (drop m b)))"
      "k \<le> n" "n \<le> length (drop m b)" by (cases p) auto
    then have "r = Some (Some (x, drop (n + m) b))" "j \<le> n + m" "n + m \<le> length b"
      using assms(2,3) by simp_all
    then show ?thesis by auto
  qed (simp add: Some)
qed (use assms in simp)

lemma ReadSegment_accepts: "accepts_suffix 16 b (ReadSegment b)"
proof (cases "length b < 4")
  case False
  then have len: "4 \<le> length b" by simp
  obtain conv where 0: "Uint16 b = Some conv" using Uint16_drop [of 0 b] len by auto
  have 1: "index_expr (drop 2 b) (int (length b - 2)) 0 = Some (b ! 2)"
    and 2: "index_expr (drop 2 b) (int (length b - 2)) 1 = Some (b ! 3)"
    using index_drop [of 2 0 b] index_drop [of 2 1 b] len by simp_all
  have "accepts_suffix 12 (drop 4 b) (DataSegment_parse NewDataSegment conv (b ! 3) (drop 4 b))"
    and "accepts_suffix 12 (drop 4 b) (AckSegment_parse NewAckSegment conv (b ! 3) (drop 4 b))"
    using accepts_suffix_mono [OF DataSegment_parse_total, of 12]
      accepts_suffix_mono [OF AckSegment_parse_total, of 12] by simp_all
  with False 0 1 2 CmdOnlySegment_parse_total [of "drop 4 b"]
  have "accepts_suffix 12 (drop 4 b) (ReadSegment b)" by (simp add: ReadSegment_def Let_def)
  then show ?thesis using len by (rule accepts_suffix_drop) simp
qed (simp add: ReadSegment_def)

text \<open>
  The segment parser is total on network input: for every byte string it either rejects it
  or returns a segment and a proper suffix of the input (at least the 16 bytes of the smallest
  segment are consumed); no index or slice expression can panic.
\<close>

theorem ReadSegment_total:
  "\<exists>r. ReadSegment b = Some r \<and>
     (case r of None \<Rightarrow> True | Some (seg, rest) \<Rightarrow> \<exists>n. rest = drop n b \<and> 16 \<le> n \<and> n \<le> length b)"
  using ReadSegment_accepts [of b] by (auto simp: accepts_suffix_def split: option.splits)

text \<open>Every data segment of the parser has a well-formed payload.\<close>

lemma DataSegment_parse_payload:
  assumes "DataSegment_parse NewDataSegment conv opt b = Some (Some (s, rest))"
  shows "\<exists>p. payload s = Some p \<and> buf_wf p \<and> length (content p) \<le> Size"
proof -
  have len: "\<not> length b < 15" using assms by (cases "length b < 15") (simp_all add: DataSegment_parse_def)
  obtain w0 where 0: "Uint32 b = Some w0" using Uint32_drop [of 0 b] len by auto
  obtain w1 where 1: "Uint32 (drop 4 b) = Some w1" using Uint32_drop [of 4 b] len by auto
  obtain w2 where 2: "Uint32 (drop 8 b) = Some w2" using Uint32_drop [of 8 b] len by auto
  obtain l where 3: "Uint16 (drop 12 b) = Some l" using Uint16_drop [of 12 b] len by auto
  obtain d where d: "buf_Write (take (unat l) (drop 14 b)) (buf_Clear (ds_Data NewDataSegment))
      = Some (min Size (length (take (unat l) (drop 14 b))), d)"
    "buf_wf d" "content d = take Size (take (unat l) (drop 14 b))" by (rule buf_Write_payload)
  then have "payload s = Some d"
    using assms len 0 1 2 3 by (auto simp: DataSegment_parse_def Let_def split: if_splits)
  then show ?thesis using d by simp
qed

lemma ReadSegment_payload:
  assumes "ReadSegment b = Some (Some (SData s, rest))"
  shows "\<exists>p. payload s = Some p \<and> buf_wf p \<and> length (content p) \<le> Size"
proof -
  have len: "4 \<le> length b" using assms by (cases "length b < 4") (simp_all add: ReadSegment_def)
  obtain conv where 0: "Uint16 b = Some conv" using Uint16_drop [of 0 b] len by auto
  have 1: "index_expr (drop 2 b) (int (length b - 2)) 0 = Some (b ! 2)"
    and 2: "index_expr (drop 2 b) (int (length b - 2)) 1 = Some (b ! 3)"
    using index_drop [of 2 0 b] index_drop [of 2 1 b] len by simp_all
  have "DataSegment_parse NewDataSegment conv (b ! 3) (drop 4 b) = Some (Some (s, rest))"
    using assms len 0 1 2 by (auto simp: ReadSegment_def Let_def split: if_splits)
  then show ?thesis by (rule DataSegment_parse_payload)
qed

section \<open>Round trips\<close>

text \<open>What a segment says on the wire: the header fields and the payload bytes.\<close>

datatype wire_msg =
    WData u16 SegmentOption u32 u32 u32 "byte list"
  | WAck u16 SegmentOption u32 u32 u32 "u32 list"
  | WCmd u16 Command SegmentOption u32 u32 u32

definition payload_bytes :: "DataSegment \<Rightarrow> byte list" where
  "payload_bytes s = (case payload s of None \<Rightarrow> [] | Some p \<Rightarrow> content p)"

fun wire :: "Segment \<Rightarrow> wire_msg" where
  "wire (SData s) = WData (dConv s) (dOption s) (dTimestamp s) (Number s) (dSendingNext s) (payload_bytes s)"
| "wire (SAck s) = WAck (aConv s) (aOption s) (ReceivingWindow s) (aReceivingNext s) (aTimestamp s) (NumberList s)"
| "wire (SCmd s) = WCmd (cConv s) (Cmd s) (cOption s) (cSendingNext s) (cReceivingNext s) (PeerRTO s)"

text \<open>
  The segments the protocol sends: a payload of 1 to 8192 bytes, at most 255 acknowledged numbers,
  and a command that is neither of the two with a format of their own.
\<close>

fun sendable :: "Segment \<Rightarrow> bool" where
  "sendable (SData s) \<longleftrightarrow>
     (case payload s of None \<Rightarrow> False | Some p \<Rightarrow> buf_wf p \<and> content p \<noteq> [] \<and> length (content p) \<le> Size)"
| "sendable (SAck s) \<longleftrightarrow> length (NumberList s) < 256"
| "sendable (SCmd s) \<longleftrightarrow> Cmd s \<noteq> CommandData \<and> Cmd s \<noteq> CommandACK"

lemma put_numbers_concat:
  "put_numbers (length ns) (concat (map PutUint32 ns) @ rest) s =
     Some (s\<lparr>NumberList := NumberList s @ ns\<rparr>, rest)"
  by (induction ns arbitrary: s) (simp_all add: PutNumber_def)

lemma length_concat_PutUint32 [simp]: "length (concat (map PutUint32 ns)) = 4 * length ns"
  by (induction ns) simp_all

lemma ReadSegment_header:
  "ReadSegment (PutUint16 conv @ [cmd, opt] @ body) =
     (if cmd = CommandData
      then map_option (map_option (map_prod SData id)) (DataSegment_parse NewDataSegment conv opt body)
      else if cmd = CommandACK
      then map_option (map_option (map_prod SAck id)) (AckSegment_parse NewAckSegment conv opt body)
      else map_option (map_option (map_prod SCmd id)) (CmdOnlySegment_parse NewCmdOnlySegment conv cmd opt body))"
  by (simp add: ReadSegment_def Let_def index_expr_def)

lemma DataSegment_parse_wire:
  assumes "c \<noteq> []" "length c \<le> Size"
  obtains p where "DataSegment_parse NewDataSegment conv opt
      (PutUint32 ts @ PutUint32 num @ PutUint32 sn @ PutUint16 (of_nat (length c)) @ c @ rest)
    = Some (Some (\<lparr>dConv = conv, dOption = opt, dTimestamp = ts, Number = num, dSendingNext = sn,
        payload = Some p, timeout = 0, transmit = 0\<rparr>, rest))" "buf_wf p" "content p = c"
proof -
  have l: "unat (of_nat (length c) :: u16) = length c"
    using assms(2) by (simp add: unat_of_nat Size_def)
  obtain d where d: "buf_Write c (buf_Clear (ds_Data NewDataSegment)) = Some (min Size (length c), d)"
    "buf_wf d" "content d = take Size c" by (rule buf_Write_payload)
  show ?thesis
  proof (rule that [of d])
    show "DataSegment_parse NewDataSegment conv opt
        (PutUint32 ts @ PutUint32 num @ PutUint32 sn @ PutUint16 (of_nat (length c)) @ c @ rest)
      = Some (Some (\<lparr>dConv = conv, dOption = opt, dTimestamp = ts, Number = num, dSendingNext = sn,
          payload = Some d, timeout = 0, transmit = 0\<rparr>, rest))"
      using d(1) l assms(1) by (simp add: DataSegment_parse_def Let_def NewDataSegment_def Suc_le_eq)
  qed (use d assms in simp_all)
qed

lemma Serialize_ReadSegment:
  assumes "sendable seg"
  shows "\<exists>bs seg'. Serialize seg = Some bs \<and> int (length bs) = ByteSize seg \<and>
           ReadSegment (bs @ rest) = Some (Some (seg', rest)) \<and> wire seg' = wire seg"
proof (cases seg)
  case (SData s)
  with assms obtain p where p: "payload s = Some p" "buf_wf p" "content p \<noteq> []" "length (content p) \<le> Size"
    by (auto split: option.splits)
  let ?body = "PutUint32 (dTimestamp s) @ PutUint32 (Number s) @ PutUint32 (dSendingNext s) @
      PutUint16 (of_nat (length (content p))) @ content p"
  have ser: "Serialize seg = Some (PutUint16 (dConv s) @ [CommandData, dOption s] @ ?body)"
    using SData p by (simp add: Bytes_content)
  have size: "ByteSize seg = int (18 + length (content p))"
    using SData p i32_nat [of "18 + length (content p)"] by (simp add: buf_Len_ptr_def Size_def)
  obtain q where q: "DataSegment_parse NewDataSegment (dConv s) (dOption s)
      (PutUint32 (dTimestamp s) @ PutUint32 (Number s) @ PutUint32 (dSendingNext s) @
       PutUint16 (of_nat (length (content p))) @ content p @ rest)
    = Some (Some (\<lparr>dConv = dConv s, dOption = dOption s, dTimestamp = dTimestamp s, Number = Number s,
        dSendingNext = dSendingNext s, payload = Some q, timeout = 0, transmit = 0\<rparr>, rest))"
    "content q = content p"
    by (rule DataSegment_parse_wire [OF p(3,4)])
  have "ReadSegment ((PutUint16 (dConv s) @ [CommandData, dOption s] @ ?body) @ rest)
    = Some (Some (SData \<lparr>dConv = dConv s, dOption = dOption s, dTimestamp = dTimestamp s,
        Number = Number s, dSendingNext = dSendingNext s, payload = Some q, timeout = 0,
        transmit = 0\<rparr>, rest))"
    using ReadSegment_header [of "dConv s" CommandData "dOption s" "?body @ rest"] q(1) by simp
  then show ?thesis using ser size SData p q(2) by (auto simp: payload_bytes_def)
next
  case (SAck s)
  with assms have l: "length (NumberList s) < 256" by simp
  let ?body = "PutUint32 (ReceivingWindow s) @ PutUint32 (aReceivingNext s) @ PutUint32 (aTimestamp s) @
      [of_nat (length (NumberList s))] @ concat (map PutUint32 (NumberList s))"
  have u: "unat (of_nat (length (NumberList s)) :: byte) = length (NumberList s)"
    using l by (simp add: unat_of_nat)
  have "AckSegment_parse NewAckSegment (aConv s) (aOption s) (?body @ rest) = Some (Some (s, rest))"
    using u put_numbers_concat [of "NumberList s" rest]
    by (simp add: AckSegment_parse_def Let_def index_expr_def NewAckSegment_def)
  then have "ReadSegment ((PutUint16 (aConv s) @ [CommandACK, aOption s] @ ?body) @ rest)
    = Some (Some (SAck s, rest))"
    using ReadSegment_header [of "aConv s" CommandACK "aOption s" "?body @ rest"]
    by (simp add: command_defs)
  moreover have "ByteSize seg = int (17 + 4 * length (NumberList s))"
    using l SAck i32_nat [of "17 + length (NumberList s) * 4"] i32_nat [of "length (NumberList s) * 4"]
    by simp
  ultimately show ?thesis using SAck by auto
next
  case (SCmd s)
  let ?body = "PutUint32 (cSendingNext s) @ PutUint32 (cReceivingNext s) @ PutUint32 (PeerRTO s)"
  have "CmdOnlySegment_parse NewCmdOnlySegment (cConv s) (Cmd s) (cOption s) (?body @ rest) = Some (Some (s, rest))"
    by (simp add: CmdOnlySegment_parse_def Let_def NewCmdOnlySegment_def)
  then have "ReadSegment ((PutUint16 (cConv s) @ [Cmd s, cOption s] @ ?body) @ rest) = Some (Some (SCmd s, rest))"
    using ReadSegment_header [of "cConv s" "Cmd s" "cOption s" "?body @ rest"] SCmd assms by simp
  then show ?thesis using SCmd by auto
qed

text \<open>
  The wire format round-trips: every segment the protocol sends serialises to exactly
  \<^verbatim>\<open>ByteSize()\<close> bytes, and parsing these bytes, whatever follows them in the packet, gives a
  segment of the same kind with the same header fields and the same payload bytes or number
  list, and leaves exactly what followed.
\<close>

theorem segment_roundtrip:
  assumes "sendable seg"
  shows "\<exists>bs seg'. Serialize seg = Some bs \<and> int (length bs) = ByteSize seg \<and>
           ReadSegment (bs @ rest) = Some (Some (seg', rest)) \<and> wire seg' = wire seg"
  using assms by (rule Serialize_ReadSegment)

theorem segment_roundtrip_witness:
  "\<exists>bs seg'. Serialize (SData (NewDataSegment\<lparr>Number := 7, payload := Some (FromBytes [1, 2])\<rparr>)) = Some bs \<and>
     ReadSegment (bs @ [9]) = Some (Some (seg', [9])) \<and> wire seg' = WData 0 0 0 7 0 [1, 2]"
proof -
  let ?s = "SData (NewDataSegment\<lparr>Number := 7, payload := Some (FromBytes [1, 2])\<rparr>)"
  have f: "buf_wf (FromBytes [1, 2])" "content (FromBytes [1, 2]) = [1, 2]"
    using FromBytes_facts [of "[1, 2]"] by simp_all
  then have "sendable ?s" by (simp add: Size_def)
  moreover have "wire ?s = WData 0 0 0 7 0 [1, 2]"
    using f by (simp add: payload_bytes_def NewDataSegment_def)
  ultimately show ?thesis using segment_roundtrip [of ?s "[9]"] by auto
qed

lemma Serialize_empty_payload:
  assumes "payload s = Some p" "buf_wf p" "content p = []"
  shows "\<exists>bs. Serialize (SData s) = Some bs \<and> int (length bs) = ByteSize (SData s) \<and>
           ReadSegment bs = Some None"
proof -
  let ?body = "PutUint32 (dTimestamp s) @ PutUint32 (Number s) @ PutUint32 (dSendingNext s) @ PutUint16 0"
  have "Serialize (SData s) = Some (PutUint16 (dConv s) @ [CommandData, dOption s] @ ?body)"
    using assms by (simp add: Bytes_content)
  moreover have "ReadSegment (PutUint16 (dConv s) @ [CommandData, dOption s] @ ?body) = Some None"
    unfolding ReadSegment_header by (simp add: DataSegment_parse_def)
  moreover have "ByteSize (SData s) = 18"
    using assms i32_nat [of 18] by (simp add: buf_Len_ptr_def)
  ultimately show ?thesis by simp
qed

text \<open>
  The one data segment that does not round-trip: with an empty payload its body is 14 bytes
  and \<^verbatim>\<open>parse\<close> asks for 15, so as the last segment of a packet it is rejected.
\<close>

theorem empty_payload_rejected:
  assumes "payload s = Some p" "buf_wf p" "content p = []"
  shows "\<exists>bs. Serialize (SData s) = Some bs \<and> int (length bs) = ByteSize (SData s) \<and>
           ReadSegment bs = Some None"
  using assms by (rule Serialize_empty_payload)

theorem empty_payload_rejected_witness:
  "\<exists>bs. Serialize (SData (NewDataSegment\<lparr>payload := Some New\<rparr>)) = Some bs \<and> ReadSegment bs = Some None"
  using empty_payload_rejected [of "NewDataSegment\<lparr>payload := Some New\<rparr>" New] by auto

end
