(* ===== verification/Kcp_Crypt.thy ===== *)
theory Kcp_Crypt
  imports Kcp_Segment
begin

text \<open>
  Package \<^verbatim>\<open>transport/internet/kcp\<close>, files \<^verbatim>\<open>crypt.go\<close> and \<^verbatim>\<open>xor.go\<close>: the
  legacy authenticator of mKCP, an FNV-1a checksum and a length in front of the plain text, all
  chained by XOR with the byte four places before. The interface \<^verbatim>\<open>cipher.AEAD\<close> is a record
  of functions; its contract is the locale \<open>aead\<close>, which \<^verbatim>\<open>SimpleAuthenticator\<close>
  satisfies for plain texts whose length fits 16 bits.
\<close>

section \<open>The checksum (\<^verbatim>\<open>hash/fnv\<close>, FNV-1a of 32 bits)\<close>

definition fnv32a :: "byte list \<Rightarrow> u32" where
  "fnv32a xs = foldl (\<lambda>h b. (h XOR ucast b) * 16777619) 2166136261 xs"

section \<open>The XOR chain (\<^verbatim>\<open>xor.go\<close>)\<close>

definition xor_step :: "byte list \<Rightarrow> nat \<Rightarrow> byte list" where
  "xor_step x i = x[i := x ! i XOR x ! (i - 4)]"

definition xorfwd :: "byte list \<Rightarrow> byte list" where
  "xorfwd x = foldl xor_step x [4..<length x]"

definition xorbkd :: "byte list \<Rightarrow> byte list" where
  "xorbkd x = foldl xor_step x (rev [4..<length x])"

section \<open>\<^verbatim>\<open>SimpleAuthenticator\<close>\<close>

text \<open>
  \<open>Seal\<close> and \<open>Open\<close> are given the bytes of their destination and return the extended
  slice. \<open>SealInto\<close> is what \<^verbatim>\<open>Seal\<close> with an empty destination of a given capacity leaves
  in the array behind that destination: when the capacity is too small, the result is in another
  array.
\<close>

record AEAD =
  NonceSize :: nat
  Overhead :: nat
  Seal :: "byte list \<Rightarrow> byte list \<Rightarrow> byte list \<Rightarrow> byte list"
  SealInto :: "nat \<Rightarrow> byte list \<Rightarrow> byte list \<Rightarrow> byte list"
  Open :: "byte list \<Rightarrow> byte list \<Rightarrow> byte list \<Rightarrow> (go_error + byte list) option"

definition pad4 :: "nat \<Rightarrow> byte list" where
  "pad4 n = (let xtra = 4 - n mod 4 in if xtra \<noteq> 4 then replicate xtra 0 else [])"

text \<open>
  \<^verbatim>\<open>Seal(dst, nonce, plain, extra)\<close>: the checksum covers everything behind its own four
  bytes, the padding is cut off again.
\<close>

definition simple_Seal :: "byte list \<Rightarrow> byte list \<Rightarrow> byte list \<Rightarrow> byte list" where
  "simple_Seal dst nonce plain =
     (let dst1 = dst @ [0, 0, 0, 0, 0, 0];
          dst2 = blit 4 (PutUint16 (of_nat (length plain))) dst1;
          dst3 = dst2 @ plain;
          dst4 = blit 0 (PutUint32 (fnv32a (drop 4 dst3))) dst3
      in take (length dst4) (xorfwd (dst4 @ pad4 (length dst4))))"

text \<open>
  The same steps on the array of an empty destination: the first \<^verbatim>\<open>append\<close> that does not
  fit the capacity moves the rest of the work to a new array.
\<close>

definition simple_SealInto :: "nat \<Rightarrow> byte list \<Rightarrow> byte list \<Rightarrow> byte list" where
  "simple_SealInto capacity nonce plain =
     (let dst2 = [0, 0, 0, 0] @ PutUint16 (of_nat (length plain));
          dst3 = dst2 @ plain;
          dst4 = blit 0 (PutUint32 (fnv32a (drop 4 dst3))) dst3;
          dst5 = dst4 @ pad4 (length dst4)
      in if length dst2 > capacity then []
         else if length dst3 > capacity then dst2
         else if length dst5 > capacity then dst4
         else xorfwd dst5)"

text \<open>
  \<^verbatim>\<open>Open(dst, nonce, cipherText, extra)\<close>: \<^verbatim>\<open>dst[4:]\<close> and \<^verbatim>\<open>dst[4:6]\<close> need the
  bytes they name.
\<close>

definition simple_Open :: "byte list \<Rightarrow> byte list \<Rightarrow> byte list \<Rightarrow> (go_error + byte list) option" where
  "simple_Open dst nonce cipherText =
     (let dst1 = dst @ cipherText;
          dst2 = take (length dst1) (xorbkd (dst1 @ pad4 (length dst1)))
      in if length dst2 < 4 then None
         else do {
           h \<leftarrow> Uint32 dst2;
           if h \<noteq> fnv32a (drop 4 dst2) then Some (Inl (ErrNew ''invalid auth''))
           else do {
             l \<leftarrow> Uint16 (drop 4 dst2);
             if int (length dst2) - 6 \<noteq> int (unat l) then Some (Inl (ErrNew ''invalid auth''))
             else Some (Inr (drop 6 dst2))
           }
         })"

definition NewSimpleAuthenticator :: AEAD where
  "NewSimpleAuthenticator =
     \<lparr>NonceSize = 0, Overhead = 6, Seal = simple_Seal, SealInto = simple_SealInto,
      Open = simple_Open\<rparr>"

section \<open>The chain is inverted\<close>

lemma length_xor_step [simp]: "length (xor_step x i) = length x"
  by (simp add: xor_step_def)

lemma length_xor_fold [simp]: "length (foldl xor_step x is) = length x"
  by (induction "is" arbitrary: x) simp_all

lemma length_xorfwd [simp]: "length (xorfwd x) = length x"
  and length_xorbkd [simp]: "length (xorbkd x) = length x"
  by (simp_all add: xorfwd_def xorbkd_def)

lemma xorfwd_prefix:
  "k \<le> length x \<Longrightarrow> i < length x \<Longrightarrow>
   foldl xor_step x [4..<k] ! i =
     (if 4 \<le> i \<and> i < k then x ! i XOR foldl xor_step x [4..<k] ! (i - 4) else x ! i)"
proof (induction k arbitrary: i)
  case (Suc k)
  show ?case
  proof (cases "4 \<le> k")
    case True
    let ?y = "foldl xor_step x [4..<k]"
    have s: "foldl xor_step x [4..<Suc k] = ?y[k := ?y ! k XOR ?y ! (k - 4)]"
      using True by (simp add: upt_Suc_append xor_step_def)
    have IH: "\<And>i. i < length x \<Longrightarrow> ?y ! i = (if 4 \<le> i \<and> i < k then x ! i XOR ?y ! (i - 4) else x ! i)"
      using Suc by simp
    have len: "length ?y = length x" by simp
    have yk: "?y ! k = x ! k" using IH [of k] Suc.prems by simp
    consider "i = k" | "4 \<le> i" "i < k" | "i < 4" | "k < i" by linarith
    then show ?thesis
    proof cases
      case 1
      then show ?thesis unfolding s using True Suc.prems yk len by (simp add: nth_list_update)
    next
      case 2
      then have "i - 4 \<noteq> k" "i - 4 < length x" using Suc.prems by auto
      then show ?thesis unfolding s using 2 IH [OF Suc.prems(2)] by simp
    next
      case 3
      then show ?thesis unfolding s using True IH [OF Suc.prems(2)] by simp
    next
      case 4
      then show ?thesis unfolding s using IH [OF Suc.prems(2)] by simp
    qed
  next
    case False
    then have "[4..<Suc k] = []" "\<not> (4 \<le> i \<and> i < Suc k)" by auto
    then show ?thesis by (simp only: foldl.simps if_False)
  qed
qed simp

lemma xorfwd_nth:
  "i < length x \<Longrightarrow> xorfwd x ! i = (if 4 \<le> i then x ! i XOR xorfwd x ! (i - 4) else x ! i)"
  using xorfwd_prefix [of "length x" x i] by (simp add: xorfwd_def)

lemma xorbkd_suffix:
  "4 \<le> k \<Longrightarrow> k \<le> length x \<Longrightarrow> i < length x \<Longrightarrow>
   foldl xor_step x (rev [k..<length x]) ! i = (if k \<le> i then x ! i XOR x ! (i - 4) else x ! i)"
proof (induction "length x - k" arbitrary: k i)
  case (Suc d)
  let ?y = "foldl xor_step x (rev [Suc k..<length x])"
  have k: "k < length x" using Suc.hyps(2) by simp
  have IH: "\<And>i. i < length x \<Longrightarrow> ?y ! i = (if Suc k \<le> i then x ! i XOR x ! (i - 4) else x ! i)"
    using Suc.hyps(1) [of "Suc k"] Suc.hyps(2) Suc.prems k by simp
  have "foldl xor_step x (rev [k..<length x]) = ?y[k := ?y ! k XOR ?y ! (k - 4)]"
    using k by (simp add: upt_conv_Cons xor_step_def)
  moreover have "k - 4 < length x" "\<not> Suc k \<le> k - 4" using k by auto
  ultimately show ?case
    using IH [of i] IH [of k] IH [of "k - 4"] Suc.prems k
    by (auto simp: nth_list_update)
qed simp

lemma xorbkd_nth:
  "i < length x \<Longrightarrow> xorbkd x ! i = (if 4 \<le> i then x ! i XOR x ! (i - 4) else x ! i)"
proof (cases "4 \<le> length x")
  case True
  assume "i < length x"
  with True show ?thesis using xorbkd_suffix [of 4 x i] by (simp add: xorbkd_def)
qed (simp add: xorbkd_def)

text \<open>Neither direction looks ahead, so the padding and its removal change nothing.\<close>

lemma xorfwd_take: "take n (xorfwd (x @ y)) = take n (xorfwd x)" if "n \<le> length x"
proof (rule nth_equalityI)
  show "length (take n (xorfwd (x @ y))) = length (take n (xorfwd x))" using that by simp
  have "i < length x \<Longrightarrow> xorfwd (x @ y) ! i = xorfwd x ! i" for i
  proof (induction i rule: less_induct)
    case (less i)
    then show ?case
      using xorfwd_nth [of i "x @ y"] xorfwd_nth [of i x] less.IH [of "i - 4"]
      by (auto simp: nth_append)
  qed
  then show "i < length (take n (xorfwd (x @ y))) \<Longrightarrow> take n (xorfwd (x @ y)) ! i = take n (xorfwd x) ! i" for i
    using that by simp
qed

lemma xorbkd_take: "take n (xorbkd (x @ y)) = take n (xorbkd x)" if "n \<le> length x"
  using that by (intro nth_equalityI) (auto simp: xorbkd_nth nth_append)

lemma xorbkd_xorfwd: "xorbkd (xorfwd x) = x"
proof (rule nth_equalityI)
  fix i
  assume "i < length (xorbkd (xorfwd x))"
  then have i: "i < length x" by simp
  show "xorbkd (xorfwd x) ! i = x ! i"
    using xorbkd_nth [of i "xorfwd x"] xorfwd_nth [OF i] i by (auto simp: xor.assoc)
qed simp

lemma simple_frame: "take (length z) (xorbkd (take (length x) (xorfwd (x @ pad)) @ z')) = x"
  if "length z = length x" for x z pad z'
  using that xorfwd_take [of "length x" x pad] xorbkd_take [of "length x" "xorfwd x" z']
  by (simp add: xorbkd_xorfwd)

section \<open>The contract of an AEAD\<close>

text \<open>
  What the packet layer relies on: sealing adds \<^verbatim>\<open>Overhead()\<close> bytes and opening with the same
  nonce inverts it, for the plain texts that \<open>plain_ok\<close> admits. An AEAD without a nonce
  is given whatever \<^verbatim>\<open>BytesFrom(0)\<close> returns.
\<close>

definition nonce_fits :: "AEAD \<Rightarrow> byte list \<Rightarrow> bool" where
  "nonce_fits A nonce \<longleftrightarrow> NonceSize A = 0 \<or> length nonce = NonceSize A"

locale aead =
  fixes A :: AEAD and plain_ok :: "byte list \<Rightarrow> bool"
  assumes seal_length: "nonce_fits A nonce \<Longrightarrow> plain_ok p \<Longrightarrow>
      length (Seal A [] nonce p) = length p + Overhead A"
    and open_seal: "nonce_fits A nonce \<Longrightarrow> plain_ok p \<Longrightarrow>
      Open A [] (take (NonceSize A) nonce) (Seal A [] nonce p) = Some (Inr p)"
    and seal_into: "nonce_fits A nonce \<Longrightarrow> plain_ok p \<Longrightarrow> length p + Overhead A + 3 \<le> n \<Longrightarrow>
      length (SealInto A n nonce p) \<le> n \<and>
      take (length p + Overhead A) (SealInto A n nonce p) = Seal A [] nonce p"
    and open_total: "length nonce = NonceSize A \<Longrightarrow> Overhead A \<le> length c \<Longrightarrow> Open A [] nonce c \<noteq> None"

lemma simple_authenticator_laws:
  assumes "length plain < 65536"
  shows "simple_Open [] nonce' (simple_Seal [] nonce plain) = Some (Inr plain)"
    and "length (simple_Seal [] nonce plain) = length plain + 6"
proof -
  let ?l = "PutUint16 (of_nat (length plain))"
  let ?h = "fnv32a (?l @ plain)"
  let ?x = "PutUint32 ?h @ ?l @ plain"
  have b: "blit 4 ?l [0, 0, 0, 0, 0, 0] = [0, 0, 0, 0] @ ?l" by (simp add: blit_def)
  have x: "blit 0 (PutUint32 ?h) ([0, 0, 0, 0] @ ?l @ plain) = ?x" by (simp add: blit_def)
  have s: "simple_Seal [] nonce plain = take (length ?x) (xorfwd (?x @ pad4 (length ?x)))"
    using b x by (simp add: simple_Seal_def Let_def)
  then have len: "length (simple_Seal [] nonce plain) = length ?x" by simp
  have "take (length (simple_Seal [] nonce plain))
      (xorbkd (simple_Seal [] nonce plain @ pad4 (length (simple_Seal [] nonce plain)))) = ?x"
    using simple_frame [OF len] unfolding s by blast
  moreover have "uint (of_nat (length plain) :: u16) = int (length plain)"
    using assms by (simp add: unsigned_of_nat take_bit_nat_eq_self)
  ultimately show "simple_Open [] nonce' (simple_Seal [] nonce plain) = Some (Inr plain)"
    using len by (simp add: simple_Open_def Let_def)
  show "length (simple_Seal [] nonce plain) = length plain + 6" using len by simp
qed

lemma length_pad4: "length (pad4 n) \<le> 3"
  by (simp add: pad4_def Let_def) presburger

lemma simple_SealInto_enough:
  assumes "length plain + 6 + 3 \<le> n"
  shows "length (simple_SealInto n nonce plain) \<le> n \<and>
         take (length plain + 6) (simple_SealInto n nonce plain) = simple_Seal [] nonce plain"
proof -
  let ?d = "blit 0 (PutUint32 (fnv32a (PutUint16 (of_nat (length plain)) @ plain)))
      ([0, 0, 0, 0] @ PutUint16 (of_nat (length plain)) @ plain)"
  have b: "blit 4 (PutUint16 (of_nat (length plain))) [0, 0, 0, 0, 0, 0]
      = [0, 0, 0, 0] @ PutUint16 (of_nat (length plain))" by (simp add: blit_def)
  have l: "length ?d = length plain + 6" by simp
  have "simple_SealInto n nonce plain = xorfwd (?d @ pad4 (length ?d))"
    using assms length_pad4 [of "length ?d"] l by (simp add: simple_SealInto_def Let_def)
  moreover have "simple_Seal [] nonce plain = take (length ?d) (xorfwd (?d @ pad4 (length ?d)))"
    using b by (simp add: simple_Seal_def Let_def)
  moreover have "length (?d @ pad4 (length ?d)) \<le> n" using l assms length_pad4 [of "length ?d"] by simp
  ultimately show ?thesis by (simp only: l length_xorfwd simp_thms)
qed

lemma simple_Open_total:
  assumes "6 \<le> length c"
  shows "simple_Open [] nonce c \<noteq> None"
proof -
  let ?d = "take (length c) (xorbkd (c @ pad4 (length c)))"
  have l: "length ?d = length c" by simp
  obtain h where "Uint32 ?d = Some h" using Uint32_Some [of ?d] assms l by auto
  moreover obtain k where "Uint16 (drop 4 ?d) = Some k" using Uint16_Some [of "drop 4 ?d"] assms l
    by (auto simp: le_diff_conv2)
  ultimately show ?thesis using assms by (simp add: simple_Open_def Let_def)
qed

interpretation simple_aead: aead NewSimpleAuthenticator "\<lambda>p. length p < 65536"
  by unfold_locales (simp_all add: NewSimpleAuthenticator_def simple_authenticator_laws
      simple_SealInto_enough simple_Open_total del: not_None_eq)

text \<open>
  The authenticator round-trips: \<^verbatim>\<open>Open\<close> of what \<^verbatim>\<open>Seal\<close> produced (into an empty
  destination) is the plain text, and the sealed text is \<^verbatim>\<open>Overhead()\<close> bytes longer, for
  every plain text of fewer than 65536 bytes.
\<close>

theorem simple_authenticator_roundtrip:
  assumes "length plain < 65536"
  shows "Open NewSimpleAuthenticator [] [] (Seal NewSimpleAuthenticator [] [] plain) = Some (Inr plain) \<and>
         length (Seal NewSimpleAuthenticator [] [] plain) = length plain + Overhead NewSimpleAuthenticator"
  using simple_aead.open_seal [of "[]" plain] simple_aead.seal_length [of "[]" plain] assms
  by (simp add: NewSimpleAuthenticator_def nonce_fits_def)

theorem simple_authenticator_roundtrip_witness:
  "Open NewSimpleAuthenticator [] [] (Seal NewSimpleAuthenticator [] [] [1, 2, 3]) = Some (Inr [1, 2, 3])"
  using simple_authenticator_roundtrip [of "[1, 2, 3]"] by simp

end
