(* ===== verification/Packet_Headers.thy ===== *)
theory Packet_Headers
  imports Prelude Go_Std
begin

text \<open>
  The packet headers of \<^verbatim>\<open>transport/internet/headers\<close> (none, uTP, SRTP, WireGuard, DTLS, WeChat
  video, DNS): fixed-size disguises in front of every mKCP packet. The Go interface
  \<^verbatim>\<open>internet.PacketHeader\<close> is the datatype of its implementations; \<^verbatim>\<open>Serialize\<close>
  returns the bytes it stores and the header object after it, since some of them count packets.
  The random numbers of \<^verbatim>\<open>dice.RollUint16\<close> are arguments.
\<close>

section \<open>Header objects\<close>

record UTP =
  utp_header :: byte
  utp_extension :: byte
  connectionID :: u16

record SRTP =
  srtp_header :: u16
  srtp_number :: u16

record DTLS =
  epoch :: u16
  dtls_length :: u16
  dtls_sequence :: u32

record VideoChat =
  sn :: u32

record DNS =
  dns_header :: "byte list"

datatype PacketHeader =
    HNoOp | HUTP UTP | HSRTP SRTP | HWireguard | HDTLS DTLS | HVideoChat VideoChat | HDNS DNS

definition NewUTP :: "u16 \<Rightarrow> UTP" where
  "NewUTP roll = \<lparr>utp_header = 1, utp_extension = 0, connectionID = roll\<rparr>"

definition NewSRTP :: "u16 \<Rightarrow> SRTP" where
  "NewSRTP roll = \<lparr>srtp_header = 0xB5E8, srtp_number = roll\<rparr>"

definition NewDTLS :: "u16 \<Rightarrow> DTLS" where
  "NewDTLS roll = \<lparr>epoch = roll, dtls_length = 17, dtls_sequence = 0\<rparr>"

definition NewVideoChat :: "u16 \<Rightarrow> VideoChat" where
  "NewVideoChat roll = \<lparr>sn = ucast roll\<rparr>"

section \<open>Serialisation\<close>

definition UTP_Serialize :: "UTP \<Rightarrow> byte list" where
  "UTP_Serialize u = PutUint16 (connectionID u) @ [utp_header u, utp_extension u]"

definition SRTP_Serialize :: "SRTP \<Rightarrow> byte list \<times> SRTP" where
  "SRTP_Serialize s =
     (let s' = s\<lparr>srtp_number := srtp_number s + 1\<rparr>
      in (PutUint16 (srtp_header s') @ PutUint16 (srtp_number s'), s'))"

definition Wireguard_Serialize :: "byte list" where
  "Wireguard_Serialize = [0x04, 0x00, 0x00, 0x00]"

definition DTLS_Serialize :: "DTLS \<Rightarrow> byte list \<times> DTLS" where
  "DTLS_Serialize d =
     (let l = dtls_length d + 17
      in ([23, 254, 253] @ PutUint16 (epoch d) @ [0, 0] @ PutUint32 (dtls_sequence d) @
          PutUint16 (dtls_length d),
          d\<lparr>dtls_sequence := dtls_sequence d + 1, dtls_length := (if l > 100 then l - 50 else l)\<rparr>))"

definition VideoChat_Serialize :: "VideoChat \<Rightarrow> byte list \<times> VideoChat" where
  "VideoChat_Serialize v =
     (let v' = v\<lparr>sn := sn v + 1\<rparr>
      in ([0xa1, 0x08] @ PutUint32 (sn v') @ [0x00, 0x10, 0x11, 0x18, 0x30, 0x22, 0x30], v'))"

text \<open>The DNS header panics when it has no room for the transaction identifier.\<close>

definition DNS_Serialize :: "u16 \<Rightarrow> DNS \<Rightarrow> byte list option" where
  "DNS_Serialize roll d =
     (if length (dns_header d) < 2 then None else Some (PutUint16 roll @ drop 2 (dns_header d)))"

fun ph_Size :: "PacketHeader \<Rightarrow> int" where
  "ph_Size HNoOp = 0"
| "ph_Size (HUTP _) = 4"
| "ph_Size (HSRTP _) = 4"
| "ph_Size HWireguard = 4"
| "ph_Size (HDTLS _) = 1 + 2 + 2 + 6 + 2"
| "ph_Size (HVideoChat _) = 13"
| "ph_Size (HDNS d) = i32 (int (length (dns_header d)))"

fun ph_Serialize :: "u16 \<Rightarrow> PacketHeader \<Rightarrow> (byte list \<times> PacketHeader) option" where
  "ph_Serialize roll HNoOp = Some ([], HNoOp)"
| "ph_Serialize roll (HUTP u) = Some (UTP_Serialize u, HUTP u)"
| "ph_Serialize roll (HSRTP s) = Some (map_prod id HSRTP (SRTP_Serialize s))"
| "ph_Serialize roll HWireguard = Some (Wireguard_Serialize, HWireguard)"
| "ph_Serialize roll (HDTLS d) = Some (map_prod id HDTLS (DTLS_Serialize d))"
| "ph_Serialize roll (HVideoChat v) = Some (map_prod id HVideoChat (VideoChat_Serialize v))"
| "ph_Serialize roll (HDNS d) = map_option (\<lambda>bs. (bs, HDNS d)) (DNS_Serialize roll d)"

section \<open>The DNS question (\<^verbatim>\<open>headers/dns/dns.go\<close>)\<close>

text \<open>
  \<^verbatim>\<open>packDomainName\<close>: \<open>bs\<close> is the name (shifted left at every backslash, \<open>ls\<close> bytes of it
  count), \<open>off\<close> and \<open>msg\<close> the output. A backslash is dropped and the byte after it is skipped
  by the loop, so it is taken as it is.
\<close>

function pack_loop ::
  "byte list \<Rightarrow> nat \<Rightarrow> nat \<Rightarrow> nat \<Rightarrow> nat \<Rightarrow> byte list \<Rightarrow> (go_error + nat \<times> byte list) option" where
  "pack_loop bs ls i start off msg =
     (if i < ls
      then if i \<ge> length bs then None
           else let c = bs ! i
                in if c = 92
                   then if off + 1 > length msg then Some (Inl (ErrNew ''buffer size too small''))
                        else pack_loop (take i bs @ take (ls - 1 - i) (drop (i + 1) bs) @ drop (ls - 1) bs)
                               (ls - 1) (i + 1) start off msg
                   else if c = 46
                   then let labelLen = i - start
                        in if labelLen \<ge> 64 then Some (Inl (ErrNew ''bad rdata''))
                           else if off + 1 + labelLen > length msg
                           then Some (Inl (ErrNew ''buffer size too small''))
                           else pack_loop bs ls (i + 1) (i + 1) (off + 1 + labelLen)
                                  (blit off (of_nat labelLen # range_of start i bs) msg)
                   else pack_loop bs ls (i + 1) start off msg
      else Some (Inr (off, msg)))"
  by pat_completeness auto
termination
  by (relation "measure (\<lambda>(bs, ls, i, start, off, msg). ls - i)") auto

declare pack_loop.simps [simp del]

definition packDomainName :: "byte list \<Rightarrow> byte list \<Rightarrow> (go_error + nat \<times> byte list) option" where
  "packDomainName s msg =
     (case pack_loop s (length s) 0 0 0 msg of
        None \<Rightarrow> None
      | Some (Inl e) \<Rightarrow> Some (Inl e)
      | Some (Inr (off, msg')) \<Rightarrow>
          Some (Inr (off + 1, if off < length msg' then msg'[off := 0] else msg')))"

definition NewDNS :: "byte list \<Rightarrow> (go_error + DNS) option" where
  "NewDNS domain =
     (case packDomainName (domain @ [46]) (replicate 256 0) of
        None \<Rightarrow> None
      | Some (Inl e) \<Rightarrow> Some (Inl e)
      | Some (Inr (off1, buf)) \<Rightarrow>
          map_option (\<lambda>name. Inr \<lparr>dns_header =
              PutUint16 0x0000 @ PutUint16 0x0100 @ PutUint16 0x0001 @ PutUint16 0x0000 @
              PutUint16 0x0000 @ PutUint16 0x0000 @ name @ PutUint16 0x0001 @ PutUint16 0x0001\<rparr>)
            (slice_expr buf 0 (int off1)))"

section \<open>The contract of a packet header\<close>

text \<open>
  What the packet layer relies on: \<^verbatim>\<open>Serialize\<close> succeeds, stores exactly
  \<^verbatim>\<open>Size()\<close> bytes, and the object keeps its size.
\<close>

locale packet_header =
  fixes hsize :: "'h \<Rightarrow> int" and hserialize :: "u16 \<Rightarrow> 'h \<Rightarrow> (byte list \<times> 'h) option"
    and hinvar :: "'h \<Rightarrow> bool"
  assumes serialize_law: "hinvar h \<Longrightarrow>
      \<exists>bs h'. hserialize roll h = Some (bs, h') \<and> int (length bs) = hsize h \<and>
        hsize h' = hsize h \<and> hinvar h'"
    and size_law: "hinvar h \<Longrightarrow> 0 \<le> hsize h \<and> hsize h < 2 ^ 31"

fun ph_wf :: "PacketHeader \<Rightarrow> bool" where
  "ph_wf (HDNS d) \<longleftrightarrow> 2 \<le> length (dns_header d) \<and> length (dns_header d) < 2 ^ 31"
| "ph_wf _ \<longleftrightarrow> True"

lemma ph_Serialize_size:
  "ph_wf h \<Longrightarrow> \<exists>bs h'. ph_Serialize roll h = Some (bs, h') \<and> int (length bs) = ph_Size h \<and>
     ph_Size h' = ph_Size h \<and> ph_wf h'"
  by (cases h) (auto simp: UTP_Serialize_def SRTP_Serialize_def Wireguard_Serialize_def
      DTLS_Serialize_def VideoChat_Serialize_def DNS_Serialize_def Let_def i32_id)

interpretation ph: packet_header ph_Size ph_Serialize ph_wf
proof
  fix h :: PacketHeader and roll :: u16
  assume "ph_wf h"
  then show "\<exists>bs h'. ph_Serialize roll h = Some (bs, h') \<and> int (length bs) = ph_Size h \<and>
      ph_Size h' = ph_Size h \<and> ph_wf h'" by (rule ph_Serialize_size)
  from \<open>ph_wf h\<close> show "0 \<le> ph_Size h \<and> ph_Size h < 2 ^ 31"
    by (cases h) (auto simp: i32_id)
qed

end
