(* ===== verification/Kcp_IO.thy ===== *)
theory Kcp_IO
  imports Kcp_Crypt Packet_Headers
begin

text \<open>
  Package \<^verbatim>\<open>transport/internet/kcp\<close>, files \<^verbatim>\<open>io.go\<close> and \<^verbatim>\<open>output.go\<close>, and
  package \<^verbatim>\<open>common/retry\<close>: the packets that carry segments (header, nonce, sealed
  segments), the writer of one segment and the retry loop around it. The random numbers of
  \<^verbatim>\<open>crypto/rand\<close> are a reader, the array of \<^verbatim>\<open>buf.StackNew\<close> and the error of the
  writer below are arguments.
\<close>

section \<open>\<^verbatim>\<open>KCPPacketReader\<close>\<close>

record KCPPacketReader =
  rSecurity :: "AEAD option"
  rHeader :: "PacketHeader option"

function read_segments :: "byte list \<Rightarrow> Segment list option" where
  "read_segments b =
     (if length b > 0
      then case ReadSegment b of
             None \<Rightarrow> None
           | Some None \<Rightarrow> Some []
           | Some (Some (seg, x)) \<Rightarrow> map_option ((#) seg) (read_segments x)
      else Some [])"
  by pat_completeness auto
termination
proof (relation "measure length")
  fix b :: "byte list" and a :: "(Segment \<times> byte list) option" and x :: "Segment \<times> byte list"
    and seg :: Segment and rest :: "byte list"
  assume b: "0 < length b" and "ReadSegment b = Some a" "a = Some x" "(seg, rest) = x"
  then have "accepts_suffix 16 b (Some (Some (seg, rest)))" using ReadSegment_accepts [of b] by simp
  then show "(rest, b) \<in> measure length" using b by auto
qed simp

declare read_segments.simps [simp del]

text \<open>\<^verbatim>\<open>Read\<close>; the nil slice of segments is the empty list.\<close>

definition strip_header :: "PacketHeader option \<Rightarrow> byte list \<Rightarrow> byte list option option" where
  "strip_header hdr b =
     (case hdr of
        None \<Rightarrow> Some (Some b)
      | Some h \<Rightarrow>
          if i32 (int (length b)) \<le> ph_Size h then Some None
          else map_option Some (slice_expr b (ph_Size h) (int (length b))))"

definition open_packet :: "AEAD option \<Rightarrow> byte list \<Rightarrow> byte list option option" where
  "open_packet sec b =
     (case sec of
        None \<Rightarrow> Some (Some b)
      | Some A \<Rightarrow>
          if length b \<le> NonceSize A + Overhead A then Some None
          else case Open A [] (take (NonceSize A) b) (drop (NonceSize A) b) of
                 None \<Rightarrow> None
               | Some (Inl e) \<Rightarrow> Some None
               | Some (Inr out) \<Rightarrow> Some (Some out))"

definition KCPPacketReader_Read :: "KCPPacketReader \<Rightarrow> byte list \<Rightarrow> Segment list option" where
  "KCPPacketReader_Read r b =
     (case strip_header (rHeader r) b of
        None \<Rightarrow> None
      | Some None \<Rightarrow> Some []
      | Some (Some b1) \<Rightarrow>
          (case open_packet (rSecurity r) b1 of
             None \<Rightarrow> None
           | Some None \<Rightarrow> Some []
           | Some (Some b2) \<Rightarrow> read_segments b2))"

section \<open>\<^verbatim>\<open>KCPPacketWriter\<close>\<close>

record KCPPacketWriter =
  wHeader :: "PacketHeader option"
  wSecurity :: "AEAD option"

definition KCPPacketWriter_Overhead :: "KCPPacketWriter \<Rightarrow> int" where
  "KCPPacketWriter_Overhead w =
     (case wHeader w of None \<Rightarrow> 0 | Some h \<Rightarrow> ph_Size h) +
     (case wSecurity w of None \<Rightarrow> 0 | Some A \<Rightarrow> int (Overhead A))"

definition put_header :: "u16 \<Rightarrow> PacketHeader option \<Rightarrow> buffer \<Rightarrow> (buffer \<times> PacketHeader option) option" where
  "put_header roll hdr bb =
     (case hdr of
        None \<Rightarrow> Some (bb, None)
      | Some h \<Rightarrow> do {
          (bb', lo, hi) \<leftarrow> Extend (ph_Size h) bb;
          (hs, h') \<leftarrow> ph_Serialize roll h;
          Some (buf_put lo hs bb', Some h')
        })"

text \<open>The nonce is the last \<^verbatim>\<open>NonceSize()\<close> bytes; with none, \<^verbatim>\<open>BytesFrom(0)\<close> is all of them.\<close>

definition put_sealed :: "AEAD option \<Rightarrow> reader \<Rightarrow> byte list \<Rightarrow> buffer \<Rightarrow> (buffer \<times> reader) option" where
  "put_sealed sec rnd b bb =
     (case sec of
        None \<Rightarrow> map_option (\<lambda>(n, bb'). (bb', rnd)) (buf_Write b bb)
      | Some A \<Rightarrow> do {
          (n, err, rnd', bb1) \<leftarrow> ReadFullFrom rnd (i32 (int (NonceSize A))) bb;
          if err \<noteq> None then None
          else do {
            nonce \<leftarrow> BytesFrom (i32 (- int (NonceSize A))) bb1;
            (bb2, lo, hi) \<leftarrow> Extend (i32 (int (Overhead A + length b))) bb1;
            Some (buf_put lo (SealInto A (length (arr bb2) - lo) nonce b) bb2, rnd')
          }
        })"

text \<open>
  \<^verbatim>\<open>Write\<close>: the packet given to the writer below, what \<^verbatim>\<open>Write\<close> returns, the writer
  object and the random source after it.
\<close>

definition KCPPacketWriter_Write ::
  "byte list \<Rightarrow> u16 \<Rightarrow> reader \<Rightarrow> (byte list \<Rightarrow> go_error option) \<Rightarrow> KCPPacketWriter \<Rightarrow> byte list \<Rightarrow>
   (byte list \<times> (nat \<times> go_error option) \<times> KCPPacketWriter \<times> reader) option" where
  "KCPPacketWriter_Write a roll rnd wr w b = do {
     (bb1, hdr) \<leftarrow> put_header roll (wHeader w) (StackNew a);
     (bb2, rnd') \<leftarrow> put_sealed (wSecurity w) rnd b bb1;
     pkt \<leftarrow> Bytes bb2;
     Some (pkt, (length b, wr pkt), w\<lparr>wHeader := hdr\<rparr>, rnd')
   }"

section \<open>Segment writers (\<^verbatim>\<open>output.go\<close>)\<close>

text \<open>\<^verbatim>\<open>SimpleSegmentWriter.Write\<close>: the bytes for the writer below, and the scratch buffer.\<close>

definition SimpleSegmentWriter_Write :: "Segment \<Rightarrow> buffer \<Rightarrow> (byte list \<times> buffer) option" where
  "SimpleSegmentWriter_Write seg buf = do {
     (b1, lo, hi) \<leftarrow> Extend (ByteSize seg) (buf_Clear buf);
     raw \<leftarrow> Serialize seg;
     let b2 = buf_put lo raw b1;
     bs \<leftarrow> Bytes b2;
     Some (bs, b2)
   }"

text \<open>
  \<^verbatim>\<open>retryer.On\<close>: the method changes a state, \<open>delay\<close> is \<^verbatim>\<open>nextDelay\<close>. The result is
  the accumulated errors (\<open>None\<close> for the nil error), the state, and the milliseconds slept.
\<close>

fun retry_loop ::
  "('s \<Rightarrow> go_error option \<times> 's) \<Rightarrow> ('d \<Rightarrow> u32 \<times> 'd) \<Rightarrow> nat \<Rightarrow> go_error list \<Rightarrow> 'd \<Rightarrow> u32 list \<Rightarrow> 's \<Rightarrow>
   go_error list option \<times> 's \<times> u32 list" where
  "retry_loop method delay 0 acc d slept s = (Some acc, s, slept)"
| "retry_loop method delay (Suc left) acc d slept s =
     (case method s of
        (None, s') \<Rightarrow> (None, s', slept)
      | (Some err, s') \<Rightarrow>
          let acc' = (if acc = [] \<or> go_Error err \<noteq> go_Error (last acc) then acc @ [err] else acc);
              (ms, d') = delay d
          in retry_loop method delay left acc' d' (slept @ [ms]) s')"

definition Timed_On ::
  "nat \<Rightarrow> u32 \<Rightarrow> ('s \<Rightarrow> go_error option \<times> 's) \<Rightarrow> 's \<Rightarrow> go_error list option \<times> 's \<times> u32 list" where
  "Timed_On attempts delay method s =
     retry_loop method (\<lambda>d :: unit. (delay, d)) attempts [] () [] s"

definition ExponentialBackoff_On ::
  "nat \<Rightarrow> u32 \<Rightarrow> ('s \<Rightarrow> go_error option \<times> 's) \<Rightarrow> 's \<Rightarrow> go_error list option \<times> 's \<times> u32 list" where
  "ExponentialBackoff_On attempts delay method s =
     retry_loop method (\<lambda>d. (d, d + delay)) attempts [] 0 [] s"

definition RetryableWriter_Write ::
  "(Segment \<Rightarrow> 's \<Rightarrow> go_error option \<times> 's) \<Rightarrow> Segment \<Rightarrow> 's \<Rightarrow> go_error list option \<times> 's \<times> u32 list" where
  "RetryableWriter_Write wr seg s = Timed_On 5 100 (wr seg) s"

section \<open>Headers in use\<close>

definition hdr_size :: "PacketHeader option \<Rightarrow> nat" where
  "hdr_size hdr = (case hdr of None \<Rightarrow> 0 | Some h \<Rightarrow> nat (ph_Size h))"

definition hdr_wf :: "PacketHeader option \<Rightarrow> bool" where
  "hdr_wf hdr \<longleftrightarrow> (case hdr of None \<Rightarrow> True | Some h \<Rightarrow> ph_wf h)"

section \<open>Reading is total\<close>

lemma read_segments_total: "\<exists>segs. read_segments b = Some segs \<and> 16 * length segs \<le> length b"
proof (induction b rule: read_segments.induct)
  case (1 b)
  show ?case
  proof (cases "b = []")
    case False
    then obtain r where r: "ReadSegment b = Some r" using ReadSegment_accepts [of b] by (cases "ReadSegment b") auto
    show ?thesis
    proof (cases r)
      case None
      with r show ?thesis using read_segments.simps [of b] by simp
    next
      case (Some p)
      obtain seg x where p: "p = (seg, x)" by (cases p)
      from r Some p obtain n where n: "x = drop n b" "16 \<le> n" "n \<le> length b"
        using ReadSegment_accepts [of b] by auto
      have "\<exists>segs. read_segments x = Some segs \<and> 16 * length segs \<le> length x"
        by (rule 1 [of r p seg x]) (use r Some p False in simp_all)
      then obtain segs where "read_segments x = Some segs" "16 * length segs \<le> length x" by blast
      moreover have "read_segments b = map_option ((#) seg) (read_segments x)"
        using read_segments.simps [of b] r Some p False by simp
      ultimately show ?thesis using n by auto
    qed
  qed (simp add: read_segments.simps [of "[]"])
qed

lemma read_segments_payload:
  "read_segments b = Some segs \<Longrightarrow> SData d \<in> set segs \<Longrightarrow> \<exists>p. payload d = Some p \<and> buf_wf p \<and> length (content p) \<le> Size"
proof (induction b arbitrary: segs rule: read_segments.induct)
  case (1 b)
  show ?case
  proof (cases "b = []")
    case True
    then show ?thesis using 1(2,3) read_segments.simps [of "[]"] by simp
  next
    case False
    then obtain seg x segs' where r: "ReadSegment b = Some (Some (seg, x))" "read_segments x = Some segs'" "segs = seg # segs'"
      using 1(2,3) read_segments.simps [of b] by (auto split: option.splits)
    from r(3) 1(3) consider "seg = SData d" | "SData d \<in> set segs'" by auto
    then show ?thesis
    proof cases
      case 1
      then show ?thesis using r(1) by (auto dest: ReadSegment_payload)
    next
      case 2
      have "0 < length b" using False by simp
      from 1(1) [OF this r(1) refl refl r(2) 2] show ?thesis .
    qed
  qed
qed

lemma strip_header_total:
  assumes "hdr_wf hdr" "length b < 2 ^ 31"
  shows "\<exists>r. strip_header hdr b = Some r \<and> (case r of None \<Rightarrow> True | Some b' \<Rightarrow> length b' \<le> length b)"
proof (cases hdr)
  case (Some h)
  then have h: "0 \<le> ph_Size h" using ph.size_law [of h] assms(1) by (simp add: hdr_wf_def)
  show ?thesis
  proof (cases "int (length b) \<le> ph_Size h")
    case False
    then have "slice_expr b (ph_Size h) (int (length b)) = Some (range_of (nat (ph_Size h)) (length b) b)"
      using h slice_expr_Some [of "ph_Size h" "int (length b)" b] by simp
    with False Some assms(2) show ?thesis by (simp add: strip_header_def)
  qed (use Some assms(2) in \<open>simp add: strip_header_def\<close>)
qed (simp add: strip_header_def)

lemma strip_header_append:
  assumes "ph_Size h = int (length hs)" "b \<noteq> []" "length (hs @ b) < 2 ^ 31"
  shows "strip_header (Some h) (hs @ b) = Some (Some b)"
  using assms i32_nat [OF assms(3)] slice_expr_Some [of "int (length hs)" "int (length (hs @ b))" "hs @ b"]
  by (simp add: strip_header_def range_of_def)

context aead
begin

lemma open_packet_total: "open_packet (Some A) b \<noteq> None"
proof (cases "length b \<le> NonceSize A + Overhead A")
  case False
  then have "Open A [] (take (NonceSize A) b) (drop (NonceSize A) b) \<noteq> None"
    by (intro open_total) (auto simp: le_diff_conv2)
  with False show ?thesis by (auto simp: open_packet_def split: option.splits sum.splits)
qed (simp add: open_packet_def)

lemma Read_total:
  assumes "rSecurity r = Some A" "hdr_wf (rHeader r)" "length b < 2 ^ 31"
  shows "\<exists>segs. KCPPacketReader_Read r b = Some segs"
proof -
  obtain r1 where r1: "strip_header (rHeader r) b = Some r1" using strip_header_total [OF assms(2,3)] by blast
  show ?thesis
  proof (cases r1)
    case (Some b1)
    obtain r2 where r2: "open_packet (Some A) b1 = Some r2" using open_packet_total [of b1] by blast
    show ?thesis
      using r1 Some r2 read_segments_total
      by (cases r2) (auto simp: KCPPacketReader_Read_def assms(1))
  qed (simp add: r1 KCPPacketReader_Read_def)
qed

end

section \<open>Writing\<close>

lemma put_header_spec:
  assumes "buf_wf b" "hdr_wf hdr" "hdr_size hdr \<le> room b"
  obtains b' hdr' hs where "put_header roll hdr b = Some (b', hdr')" "buf_wf b'"
    "content b' = content b @ hs" "room b' = room b - length hs" "length hs = hdr_size hdr"
    "hdr_wf hdr'" "hdr_size hdr' = hdr_size hdr"
proof (cases hdr)
  case None
  then show ?thesis using assms that [of b None "[]"] by (simp add: put_header_def hdr_size_def hdr_wf_def)
next
  case (Some h)
  then have "ph_wf h" using assms(2) by (simp add: hdr_wf_def)
  obtain hs h' where h: "ph_Serialize roll h = Some (hs, h')" "int (length hs) = ph_Size h"
    "ph_Size h' = ph_Size h" "ph_wf h'"
    using ph.serialize_law [OF \<open>ph_wf h\<close>, of roll] by blast
  then have l: "length hs = hdr_size hdr" using Some by (simp add: hdr_size_def flip: h(2))
  with assms(3) have fit: "length hs \<le> room b" "nat (buf_end b) + length hs \<le> length (arr b)"
    using room_arr [OF assms(1)] by simp_all
  obtain b' where b': "Extend (int (length hs)) b = Some (b', nat (buf_end b), nat (buf_end b) + length hs)"
    "buf_wf (buf_put (nat (buf_end b)) hs b')"
    "content (buf_put (nat (buf_end b)) hs b') = content b @ take (length hs) hs"
    "room (buf_put (nat (buf_end b)) hs b') = room b - length hs"
    by (rule Extend_put [OF assms(1) fit(1) order_refl fit(2)])
  have "put_header roll hdr b = Some (buf_put (nat (buf_end b)) hs b', Some h')"
    using Some b'(1) h(1) by (simp add: put_header_def flip: h(2))
  then show ?thesis using b' h l Some by (intro that) (auto simp: hdr_wf_def hdr_size_def)
qed

context aead
begin

lemma put_sealed_spec:
  assumes b: "buf_wf b" and p: "plain_ok p" and fit: "NonceSize A + length p + Overhead A + 3 \<le> room b"
    and rnd: "NonceSize A \<le> length (concat rnd)"
  obtains b' rnd' nonce where "put_sealed (Some A) rnd p b = Some (b', rnd')" "buf_wf b'"
    "nonce_fits A nonce" "content b' = content b @ take (NonceSize A) nonce @ Seal A [] nonce p"
proof -
  let ?n = "NonceSize A"
  have small: "?n < 2 ^ 31" "length p + Overhead A < 2 ^ 31"
    using fit content_length_room [OF b] b by (auto simp: buf_wf_def)
  obtain r' where r: "ReadFull ?n rnd = (take ?n (concat rnd), None, r')"
    using ReadFull_enough [OF rnd] by blast
  have "?n \<le> room b" using fit by simp
  obtain b1 where b1: "ReadFullFrom rnd (int ?n) b = Some (length (take ?n (concat rnd)), None, r', b1)"
    "buf_wf b1" "content b1 = content b @ take ?n (concat rnd)" "room b1 = room b - length (take ?n (concat rnd))"
    by (rule ReadFullFrom_spec [OF b \<open>?n \<le> room b\<close> r])
  have i: "i32 (- int ?n) = - int ?n" using small by (intro i32_id) auto
  obtain nonce where nonce: "BytesFrom (- int ?n) b1 = Some nonce" "nonce_fits A nonce"
    "take ?n nonce = take ?n (concat rnd)"
  proof (cases "?n = 0")
    case True
    then show ?thesis using that [of "content b1"] b1 BytesFrom_0 [OF b1(2)] by (simp add: nonce_fits_def)
  next
    case False
    then show ?thesis
      using that [of "take ?n (concat rnd)"] BytesFrom_neg [OF b1(2), of ?n] b1(3) rnd
      by (simp add: nonce_fits_def)
  qed
  let ?lo = "nat (buf_end b1)" and ?k = "length p + Overhead A"
  let ?xs = "SealInto A (length (arr b1) - ?lo) nonce p"
  have room1: "?k + 3 \<le> room b1" using fit b1(4) rnd by simp
  then have cap: "?k + 3 \<le> length (arr b1) - ?lo" using room_arr [OF b1(2)] by simp
  have xs: "length ?xs \<le> length (arr b1) - ?lo" "take ?k ?xs = Seal A [] nonce p"
    using seal_into [OF nonce(2) p cap] by simp_all
  then have "length (take ?k ?xs) = ?k" using seal_length [OF nonce(2) p] by simp
  then have "?k \<le> length ?xs" by (simp add: min_def split: if_splits)
  moreover have "?k \<le> room b1" "?lo + length ?xs \<le> length (arr b1)" using room1 xs(1) cap by auto
  ultimately obtain b2 where b2: "Extend (int ?k) b1 = Some (b2, ?lo, ?lo + ?k)" "arr b2 = arr b1"
    "buf_wf (buf_put ?lo ?xs b2)" "content (buf_put ?lo ?xs b2) = content b1 @ take ?k ?xs"
    by (metis Extend_put [OF b1(2)])
  have ik: "i32 (int (Overhead A + length p)) = int ?k" using small i32_nat [of ?k] by (simp add: add.commute)
  have "put_sealed (Some A) rnd p b = Some (buf_put ?lo ?xs b2, r')"
    using b1(1) nonce(1) b2(1,2) i small ik by (simp add: put_sealed_def)
  moreover have "content (buf_put ?lo ?xs b2) = content b @ take ?n nonce @ Seal A [] nonce p"
    using b2(4) b1(3) nonce(3) xs(2) by simp
  ultimately show ?thesis using that [OF _ b2(3) nonce(2)] by blast
qed

text \<open>A packet that was written is opened by the reader of the same settings.\<close>

lemma Write_Read:
  assumes w: "wSecurity w = Some A" "hdr_wf (wHeader w)" and a: "length a < 2 ^ 31"
    and p: "plain_ok p" "p \<noteq> []" and rnd: "NonceSize A \<le> length (concat rnd)"
    and fit: "hdr_size (wHeader w) + NonceSize A + length p + Overhead A + 3 \<le> Size"
    and r: "rSecurity r = Some A" "rHeader r = None \<longleftrightarrow> wHeader w = None" "hdr_wf (rHeader r)"
      "hdr_size (rHeader r) = hdr_size (wHeader w)"
  shows "\<exists>pkt w' rnd'. KCPPacketWriter_Write a roll rnd wr w p = Some (pkt, (length p, wr pkt), w', rnd') \<and>
     int (length pkt) = int (length p) + KCPPacketWriter_Overhead w + int (NonceSize A) \<and>
     wSecurity w' = Some A \<and> hdr_wf (wHeader w') \<and> hdr_size (wHeader w') = hdr_size (wHeader w) \<and>
     KCPPacketReader_Read r pkt = read_segments p"
proof -
  have "hdr_size (wHeader w) \<le> room (StackNew a)" using fit by simp
  then obtain b1 hdr hs where h: "put_header roll (wHeader w) (StackNew a) = Some (b1, hdr)" "buf_wf b1"
    "content b1 = hs" "room b1 = Size - length hs" "length hs = hdr_size (wHeader w)"
    "hdr_wf hdr" "hdr_size hdr = hdr_size (wHeader w)"
    using put_header_spec [OF StackNew_facts(1) [OF a] w(2)] by (metis StackNew_facts(2,3) append_Nil)
  have fit': "NonceSize A + length p + Overhead A + 3 \<le> room b1" using fit h(4,5) by simp
  obtain b2 rnd' nonce where s: "put_sealed (Some A) rnd p b1 = Some (b2, rnd')" "buf_wf b2"
    "nonce_fits A nonce" "content b2 = hs @ take (NonceSize A) nonce @ Seal A [] nonce p"
    using put_sealed_spec [OF h(2) p(1) fit' rnd] h(3) by metis
  let ?sealed = "take (NonceSize A) nonce @ Seal A [] nonce p"
  have nl: "length (take (NonceSize A) nonce) = NonceSize A" using s(3) by (auto simp: nonce_fits_def)
  have sl: "length ?sealed = NonceSize A + length p + Overhead A" using nl seal_length [OF s(3) p(1)] by simp
  have W: "KCPPacketWriter_Write a roll rnd wr w p = Some (hs @ ?sealed, (length p, wr (hs @ ?sealed)), w\<lparr>wHeader := hdr\<rparr>, rnd')"
    using h(1) s w(1) Bytes_content [OF s(2)] by (simp add: KCPPacketWriter_Write_def)
  have ov: "KCPPacketWriter_Overhead w = int (length hs) + int (Overhead A)"
    using h(5) w ph.size_law by (auto simp: KCPPacketWriter_Overhead_def hdr_size_def hdr_wf_def split: option.splits)
  have "open_packet (Some A) ?sealed = Some (Some p)"
    using open_seal [OF s(3) p(1)] sl nl p(2) by (simp add: open_packet_def)
  moreover have "strip_header (rHeader r) (hs @ ?sealed) = Some (Some ?sealed)"
  proof (cases "rHeader r")
    case None
    then have "hs = []" using r(2) h(5) by (simp add: hdr_size_def)
    then show ?thesis using None by (simp add: strip_header_def)
  next
    case (Some hh)
    then have "hdr_size (rHeader r) = nat (ph_Size hh)" "0 \<le> ph_Size hh"
      using r(3) ph.size_law [of hh] by (simp_all add: hdr_size_def hdr_wf_def)
    then have sz: "ph_Size hh = int (length hs)" using r(4) h(5) by simp
    have "?sealed \<noteq> []" using sl p(2) by fastforce
    moreover have "length (hs @ ?sealed) < 2 ^ 31"
      using fit h(5) sl by (simp only: length_append) (simp add: Size_def)
    ultimately show ?thesis using Some strip_header_append [OF sz] by simp
  qed
  ultimately have "KCPPacketReader_Read r (hs @ ?sealed) = read_segments p"
    by (simp add: KCPPacketReader_Read_def r(1))
  then show ?thesis using W ov sl h(6,7) w(1) by auto
qed

end

lemma SimpleSegmentWriter_Write_spec:
  assumes "sendable seg" "ByteSize seg \<le> int Size" "buf_wf b" "vlen b = Size"
  shows "\<exists>bs b'. SimpleSegmentWriter_Write seg b = Some (bs, b') \<and> Serialize seg = Some bs \<and> buf_wf b'"
proof -
  obtain bs where bs: "Serialize seg = Some bs" "int (length bs) = ByteSize seg"
    using Serialize_ReadSegment [OF assms(1)] by blast
  let ?c = "buf_Clear b"
  have c: "buf_wf ?c" "length bs \<le> room ?c" using assms bs(2) by simp_all
  then have "nat (buf_end ?c) + length bs \<le> length (arr ?c)" using room_arr [OF c(1)] by simp
  then obtain b' where b': "Extend (int (length bs)) ?c = Some (b', nat (buf_end ?c), nat (buf_end ?c) + length bs)"
    "buf_wf (buf_put (nat (buf_end ?c)) bs b')"
    "content (buf_put (nat (buf_end ?c)) bs b') = content ?c @ take (length bs) bs"
    by (rule Extend_put [OF c order_refl])
  then have "SimpleSegmentWriter_Write seg b = Some (bs, buf_put (nat (buf_end ?c)) bs b')"
    unfolding SimpleSegmentWriter_Write_def bs(2) [symmetric] using bs(1) by (simp add: Bytes_content)
  then show ?thesis using bs(1) b'(2) by blast
qed

section \<open>Properties\<close>

text \<open>
  No datagram panics the packet reader: whatever the network delivers, with or without the
  authenticator and any of the packet headers, \<^verbatim>\<open>Read\<close> returns a list of segments.
\<close>

theorem packet_reader_total:
  assumes "rSecurity r = None \<or> rSecurity r = Some NewSimpleAuthenticator" "hdr_wf (rHeader r)"
    "length b < 2 ^ 31"
  shows "\<exists>segs. KCPPacketReader_Read r b = Some segs"
  using assms(1)
proof
  assume none: "rSecurity r = None"
  obtain r1 where "strip_header (rHeader r) b = Some r1" using strip_header_total [OF assms(2,3)] by blast
  then show ?thesis
    using none read_segments_total by (cases r1) (auto simp: KCPPacketReader_Read_def open_packet_def)
next
  assume "rSecurity r = Some NewSimpleAuthenticator"
  then show ?thesis using assms(2,3) by (rule simple_aead.Read_total)
qed

theorem packet_reader_total_witness:
  "\<exists>segs. KCPPacketReader_Read \<lparr>rSecurity = Some NewSimpleAuthenticator, rHeader = Some HWireguard\<rparr>
     [4, 0, 0, 0, 1, 2, 3] = Some segs"
  using packet_reader_total [of "\<lparr>rSecurity = Some NewSimpleAuthenticator, rHeader = Some HWireguard\<rparr>"
      "[4, 0, 0, 0, 1, 2, 3]"] by (simp add: hdr_wf_def)



text \<open>
  \<^verbatim>\<open>Overhead()\<close> leaves out the nonce: for every AEAD that keeps the contract of
  \<^verbatim>\<open>cipher.AEAD\<close>, the packet made of \<open>p\<close> is longer than \<open>p\<close> by \<^verbatim>\<open>Overhead()\<close>
  plus the size of the nonce. A connection sizes its segments by \<^verbatim>\<open>Overhead()\<close> alone, so with
  AES-GCM a full segment exceeds the configured MTU by the 12 bytes of the nonce.
\<close>

theorem overhead_omits_nonce:
  assumes "aead A ok" "ok p" "p \<noteq> []" "NonceSize A + length p + Overhead A + 3 \<le> Size"
    and "NonceSize A \<le> length (concat rnd)" "length a < 2 ^ 31"
  shows "\<exists>pkt w' rnd'. KCPPacketWriter_Write a roll rnd wr \<lparr>wHeader = None, wSecurity = Some A\<rparr> p
           = Some (pkt, (length p, wr pkt), w', rnd') \<and>
         int (length pkt) = int (length p) +
           KCPPacketWriter_Overhead \<lparr>wHeader = None, wSecurity = Some A\<rparr> + int (NonceSize A)"
proof -
  let ?w = "\<lparr>wHeader = None, wSecurity = Some A\<rparr>" and ?r = "\<lparr>rSecurity = Some A, rHeader = None\<rparr>"
  have w: "wSecurity ?w = Some A" "hdr_wf (wHeader ?w)" "rSecurity ?r = Some A"
    "rHeader ?r = None \<longleftrightarrow> wHeader ?w = None" "hdr_wf (rHeader ?r)" "hdr_size (rHeader ?r) = hdr_size (wHeader ?w)"
    "hdr_size (wHeader ?w) + NonceSize A + length p + Overhead A + 3 \<le> Size"
    using assms(4) by (simp_all add: hdr_wf_def hdr_size_def)
  from aead.Write_Read [OF assms(1) w(1,2) assms(6,2,3,5) w(7) w(3-6), of roll wr]
  show ?thesis by fast
qed

text \<open>An AEAD with the sizes of AES-GCM that does not encrypt: the tag is 16 zero bytes.\<close>

definition null_aead :: AEAD where
  "null_aead = \<lparr>NonceSize = 12, Overhead = 16, Seal = \<lambda>d n p. d @ p @ replicate 16 0,
     SealInto = \<lambda>capacity n p. if length p + 16 \<le> capacity then p @ replicate 16 0 else [],
     Open = \<lambda>d n c. if length c < 16 then Some (Inl (ErrNew ''message authentication failed''))
                    else Some (Inr (d @ take (length c - 16) c))\<rparr>"

theorem overhead_omits_nonce_witness:
  "\<exists>pkt w' rnd'. KCPPacketWriter_Write [] 0 [replicate 12 5] (\<lambda>_. None)
       \<lparr>wHeader = None, wSecurity = Some null_aead\<rparr> [1, 2] = Some (pkt, (2, None), w', rnd') \<and> length pkt = 30"
proof -
  have "aead null_aead (\<lambda>_. True)" by unfold_locales (auto simp: null_aead_def)
  then show ?thesis
    using overhead_omits_nonce [of null_aead "\<lambda>_. True" "[1, 2]" "[replicate 12 5]" "[]" 0 "\<lambda>_. None"]
    by (auto simp: null_aead_def Size_def KCPPacketWriter_Overhead_def)
qed

section \<open>Retries\<close>

text \<open>The state after \<open>k\<close> calls, and whether a call in a state succeeds.\<close>

definition after_calls :: "('s \<Rightarrow> go_error option \<times> 's) \<Rightarrow> nat \<Rightarrow> 's \<Rightarrow> 's" where
  "after_calls method k s = ((snd \<circ> method) ^^ k) s"

definition call_ok :: "('s \<Rightarrow> go_error option \<times> 's) \<Rightarrow> 's \<Rightarrow> bool" where
  "call_ok method s \<longleftrightarrow> fst (method s) = None"

definition first_success :: "('s \<Rightarrow> go_error option \<times> 's) \<Rightarrow> nat \<Rightarrow> 's \<Rightarrow> nat option" where
  "first_success method n s = find (\<lambda>k. call_ok method (after_calls method k s)) [0..<n]"

lemma after_calls_simps [simp]:
  "after_calls method 0 s = s" "after_calls method (Suc k) s = after_calls method k (snd (method s))"
  by (simp_all add: after_calls_def funpow_swap1)

lemma find_Suc: "find P [0..<Suc n] = (if P 0 then Some 0 else map_option Suc (find (P \<circ> Suc) [0..<n]))"
proof -
  have "find P (map Suc xs) = map_option Suc (find (P \<circ> Suc) xs)" for xs
    by (induction xs) auto
  then show ?thesis by (simp add: upt_conv_Cons map_Suc_upt [symmetric] del: upt_Suc)
qed

lemma retry_loop_timed:
  "\<exists>errs. retry_loop method (\<lambda>d :: unit. (delay, d)) n acc () slept s =
     (case first_success method n s of
        Some k \<Rightarrow> (None, after_calls method (Suc k) s, slept @ replicate k delay)
      | None \<Rightarrow> (Some errs, after_calls method n s, slept @ replicate n delay)) \<and> (acc \<noteq> [] \<or> n > 0 \<longrightarrow> errs \<noteq> [])"
proof (induction n arbitrary: acc slept s)
  case 0
  then show ?case by (auto simp: first_success_def)
next
  case (Suc n)
  obtain e s' where m: "method s = (e, s')" by (cases "method s")
  show ?case
  proof (cases e)
    case None
    with m show ?thesis
      by (auto simp: first_success_def find_Suc call_ok_def simp del: upt_Suc intro!: exI [of _ "[EOF]"])
  next
    case (Some err)
    let ?acc = "if acc = [] \<or> go_Error err \<noteq> go_Error (last acc) then acc @ [err] else acc"
    have "first_success method (Suc n) s = map_option Suc (first_success method n s')"
      using m Some by (simp add: first_success_def find_Suc call_ok_def comp_def del: upt_Suc)
    moreover have "?acc \<noteq> []" by simp
    ultimately show ?thesis
      using Suc.IH [of ?acc "slept @ [delay]" s'] m Some
      by (auto simp: Let_def replicate_append_same [symmetric] split: option.splits)
  qed
qed

text \<open>
  The segment writer retries exactly as long as it has to: a write that succeeds at its
  attempt \<open>k < 5\<close> returns no error after \<open>k\<close> pauses of 100 ms and is not repeated; five
  failures return an error with at least one accumulated cause, after five pauses.
\<close>

theorem RetryableWriter_attempts:
  "\<exists>errs. errs \<noteq> [] \<and> RetryableWriter_Write wr seg s =
     (case first_success (wr seg) 5 s of
        Some k \<Rightarrow> (None, after_calls (wr seg) (Suc k) s, replicate k 100)
      | None \<Rightarrow> (Some errs, after_calls (wr seg) 5 s, replicate 5 100))"
  using retry_loop_timed [of "wr seg" 100 5 "[]" "[]" s]
  by (auto simp: RetryableWriter_Write_def Timed_On_def split: option.splits)

end
