(* ===== verification/Kcp_Config.thy ===== *)
theory Kcp_Config
  imports Prelude
begin

text \<open>
  Package \<^verbatim>\<open>transport/internet/kcp\<close>, file \<^verbatim>\<open>config.go\<close>: the settings of mKCP and the
  window sizes derived from them, in the 32-bit arithmetic of the code. A nil pointer is
  \<open>None\<close>; a division by zero panics, so the derived sizes are options. \<^verbatim>\<open>GetSecurity\<close>
  and \<^verbatim>\<open>GetPackerHeader\<close> look objects up in registries and are not part of the model.
\<close>

section \<open>Settings\<close>

record Config =
  Mtu :: "u32 option"
  Tti :: "u32 option"
  UplinkCapacity :: "u32 option"
  DownlinkCapacity :: "u32 option"
  WriteBuffer :: "u32 option"
  ReadBuffer :: "u32 option"
  Congestion :: bool

definition setting :: "(Config \<Rightarrow> u32 option) \<Rightarrow> u32 \<Rightarrow> Config option \<Rightarrow> u32" where
  "setting field dflt c =
     (case c of None \<Rightarrow> dflt | Some c' \<Rightarrow> (case field c' of None \<Rightarrow> dflt | Some v \<Rightarrow> v))"

definition GetMTUValue :: "Config option \<Rightarrow> u32" where
  "GetMTUValue c = setting Mtu 1350 c"

definition GetTTIValue :: "Config option \<Rightarrow> u32" where
  "GetTTIValue c = setting Tti 50 c"

definition GetUplinkCapacityValue :: "Config option \<Rightarrow> u32" where
  "GetUplinkCapacityValue c = setting UplinkCapacity 5 c"

definition GetDownlinkCapacityValue :: "Config option \<Rightarrow> u32" where
  "GetDownlinkCapacityValue c = setting DownlinkCapacity 20 c"

definition GetWriteBufferSize :: "Config option \<Rightarrow> u32" where
  "GetWriteBufferSize c = setting WriteBuffer (2 * 1024 * 1024) c"

definition GetReadBufferSize :: "Config option \<Rightarrow> u32" where
  "GetReadBufferSize c = setting ReadBuffer (2 * 1024 * 1024) c"

section \<open>Derived sizes\<close>

definition go_div :: "u32 \<Rightarrow> u32 \<Rightarrow> u32 option" where
  "go_div a b = (if b = 0 then None else Some (a div b))"

definition GetSendingInFlightSize :: "Config option \<Rightarrow> u32 option" where
  "GetSendingInFlightSize c = do {
     a \<leftarrow> go_div (GetUplinkCapacityValue c * 1024 * 1024) (GetMTUValue c);
     t \<leftarrow> go_div 1000 (GetTTIValue c);
     sz \<leftarrow> go_div a t;
     Some (if sz < 8 then 8 else sz)
   }"

definition GetSendingBufferSize :: "Config option \<Rightarrow> u32 option" where
  "GetSendingBufferSize c = go_div (GetWriteBufferSize c) (GetMTUValue c)"

definition GetReceivingInFlightSize :: "Config option \<Rightarrow> u32 option" where
  "GetReceivingInFlightSize c = do {
     a \<leftarrow> go_div (GetDownlinkCapacityValue c * 1024 * 1024) (GetMTUValue c);
     t \<leftarrow> go_div 1000 (GetTTIValue c);
     sz \<leftarrow> go_div a t;
     Some (if sz < 8 then 8 else sz)
   }"

definition GetReceivingBufferSize :: "Config option \<Rightarrow> u32 option" where
  "GetReceivingBufferSize c = go_div (GetReadBufferSize c) (GetMTUValue c)"

lemmas config_getter_defs = GetMTUValue_def GetTTIValue_def GetUplinkCapacityValue_def
  GetDownlinkCapacityValue_def GetWriteBufferSize_def GetReadBufferSize_def setting_def

section \<open>Which settings are safe\<close>

definition config_ok :: "Config option \<Rightarrow> bool" where
  "config_ok c \<longleftrightarrow> GetMTUValue c \<noteq> 0 \<and> 1 \<le> GetTTIValue c \<and> GetTTIValue c \<le> 1000"

lemma unat_bound_1000: "t \<le> 1000 \<Longrightarrow> unat t \<le> 1000" for t :: u32
  by (simp add: word_le_nat_alt)

lemma div_1000_nonzero: "1 \<le> t \<Longrightarrow> t \<le> 1000 \<Longrightarrow> 1000 div t \<noteq> 0" for t :: u32
proof
  assume t: "1 \<le> t" "t \<le> 1000" and z: "1000 div t = 0"
  have "unat t \<noteq> 0" "unat t \<le> 1000" using t by (auto simp: word_le_nat_alt unat_eq_0)
  then have "1000 div unat t > 0" by (simp add: div_greater_zero_iff)
  moreover have "unat (1000 div t) = 1000 div unat t" by (simp add: unat_div)
  ultimately show False using z by simp
qed

lemma div_over_1000: "1000 < t \<Longrightarrow> 1000 div t = 0" for t :: u32
proof -
  assume "1000 < t"
  then have "1000 < unat t" by (simp add: word_less_nat_alt)
  then have "unat (1000 div t) = 0" by (simp add: unat_div)
  then show ?thesis by (simp add: unat_eq_0)
qed

lemma in_flight_defined:
  "config_ok c \<Longrightarrow> \<exists>sz. GetSendingInFlightSize c = Some sz \<and> 8 \<le> sz"
  "config_ok c \<Longrightarrow> \<exists>sz. GetReceivingInFlightSize c = Some sz \<and> 8 \<le> sz"
  using div_1000_nonzero [of "GetTTIValue c"]
  by (auto simp: config_ok_def GetSendingInFlightSize_def GetReceivingInFlightSize_def go_div_def
      not_less)

lemma buffer_sizes_defined:
  "config_ok c \<Longrightarrow> \<exists>sz. GetSendingBufferSize c = Some sz"
  "config_ok c \<Longrightarrow> \<exists>sz. GetReceivingBufferSize c = Some sz"
  by (auto simp: config_ok_def GetSendingBufferSize_def GetReceivingBufferSize_def go_div_def)

text \<open>Any other setting divides by zero.\<close>

lemma in_flight_size_cases: "GetSendingInFlightSize c \<noteq> None \<longleftrightarrow> config_ok c"
proof (cases "config_ok c")
  case True
  then show ?thesis using in_flight_defined [of c] by auto
next
  case False
  then have "GetMTUValue c = 0 \<or> GetTTIValue c = 0 \<or> 1000 < GetTTIValue c"
    by (auto simp: config_ok_def not_le word_le_nat_alt Suc_le_eq unat_gt_0 word_less_nat_alt)
  then have "GetSendingInFlightSize c = None"
    using div_over_1000 [of "GetTTIValue c"]
    by (auto simp: GetSendingInFlightSize_def go_div_def split: bind_splits)
  with False show ?thesis by simp
qed

text \<open>
  The derived window sizes exist exactly for an MTU that is not zero and a TTI of 1 to 1000
  milliseconds: any other setting makes the window computations divide by zero, which takes down
  the process when a connection is created; otherwise both windows have at least 8 segments.
\<close>

theorem in_flight_size_panics_iff:
  "(case (GetSendingInFlightSize c, GetReceivingInFlightSize c) of
      (Some s, Some r) \<Rightarrow> config_ok c \<and> 8 \<le> s \<and> 8 \<le> r
    | _ \<Rightarrow> \<not> config_ok c)"
  using in_flight_defined [of c] in_flight_size_cases [of c]
  by (cases "config_ok c") auto

end
