(* ===== verification/Kcp_RoundTrip.thy ===== *)
theory Kcp_RoundTrip
  imports Prelude
begin

text \<open>
  Package \<^verbatim>\<open>transport/internet/kcp\<close>, type \<^verbatim>\<open>RoundTripInfo\<close> of \<^verbatim>\<open>connection.go\<close>:
  the estimate of the round trip time and the retransmission timeout, in 32-bit arithmetic. The
  mutex is left out: an operation is one step.
\<close>

section \<open>Operations\<close>

record RoundTripInfo =
  variation :: u32
  srtt :: u32
  rto :: u32
  minRtt :: u32
  updatedTimestamp :: u32

definition UpdatePeerRTO :: "u32 \<Rightarrow> u32 \<Rightarrow> RoundTripInfo \<Rightarrow> RoundTripInfo" where
  "UpdatePeerRTO r current info =
     (if current - updatedTimestamp info < 3000 then info
      else info\<lparr>updatedTimestamp := current, rto := r\<rparr>)"

definition Update :: "u32 \<Rightarrow> u32 \<Rightarrow> RoundTripInfo \<Rightarrow> RoundTripInfo" where
  "Update rtt current info =
     (if rtt > 0x7FFFFFFF then info
      else let info1 =
             (if srtt info = 0 then info\<lparr>srtt := rtt, variation := rtt div 2\<rparr>
              else let delta = (if srtt info > rtt then srtt info - rtt else rtt - srtt info);
                       v = (3 * variation info + delta) div 4;
                       s = (7 * srtt info + rtt) div 8
                   in info\<lparr>variation := v, srtt := (if s < minRtt info then minRtt info else s)\<rparr>);
             r = (if minRtt info1 < 4 * variation info1 then srtt info1 + 4 * variation info1
                  else srtt info1 + variation info1);
             r' = (if r > 10000 then 10000 else r)
           in info1\<lparr>rto := r' * 5 div 4, updatedTimestamp := current\<rparr>)"

definition Timeout :: "RoundTripInfo \<Rightarrow> u32" where
  "Timeout info = rto info"

definition SmoothedTime :: "RoundTripInfo \<Rightarrow> u32" where
  "SmoothedTime info = srtt info"

section \<open>The estimate over unbounded numbers\<close>

text \<open>
  The same computation over the natural numbers: smoothed time, variation and timeout, without
  wrap-around.
\<close>

definition estimate :: "nat \<Rightarrow> nat \<Rightarrow> nat \<Rightarrow> nat \<Rightarrow> nat \<times> nat \<times> nat" where
  "estimate m s v r =
     (let (s', v') = (if s = 0 then (r, r div 2)
                      else (max m ((7 * s + r) div 8), (3 * v + (if s > r then s - r else r - s)) div 4));
          t = (if m < 4 * v' then s' + 4 * v' else s' + v')
      in (s', v', min 10000 t * 5 div 4))"

definition rtt_wf :: "RoundTripInfo \<Rightarrow> bool" where
  "rtt_wf info \<longleftrightarrow> unat (minRtt info) \<le> 1000 \<and> unat (srtt info) \<le> 10000 \<and> unat (variation info) \<le> 10000"

lemma unat_small_mult: "unat a * k < 2 ^ 32 \<Longrightarrow> k < 2 ^ 32 \<Longrightarrow> unat (a * of_nat k) = unat a * k" for a :: u32
  by (simp add: unat_word_ariths unat_of_nat)

lemma unat_small_add: "unat a + unat b < 2 ^ 32 \<Longrightarrow> unat (a + b) = unat a + unat b" for a b :: u32
  by (simp add: unat_word_ariths)

lemma unat_small_sub: "b \<le> a \<Longrightarrow> unat (a - b) = unat a - unat b" for a b :: u32
  by (simp add: unat_sub)

lemma unat_const_mult:
  "unat a \<le> 100000 \<Longrightarrow> unat (3 * a) = 3 * unat a" "unat a \<le> 100000 \<Longrightarrow> unat (4 * a) = 4 * unat a"
  "unat a \<le> 100000 \<Longrightarrow> unat (7 * a) = 7 * unat a" "unat a \<le> 100000 \<Longrightarrow> unat (a * 5) = unat a * 5" for a :: u32
  by (simp_all add: unat_word_ariths)

lemma smoothing_exact:
  fixes a b c d :: u32
  assumes "unat a \<le> 100000" "unat b \<le> 100000"
  shows "unat ((3 * a + b) div 4) = (3 * unat a + unat b) div 4"
    and "unat ((7 * a + b) div 8) = (7 * unat a + unat b) div 8"
    and "unat (b + 4 * a) = unat b + 4 * unat a" and "unat (b + a) = unat b + unat a"
  using assms unat_const_mult [of a]
  by (simp_all add: unat_div unat_small_add)

lemma delta_exact:
  fixes s r :: u32
  shows "unat (if s > r then s - r else r - s) = (if unat s > unat r then unat s - unat r else unat r - unat s)"
  by (simp add: word_less_nat_alt unat_sub word_le_nat_alt)

lemma timeout_exact:
  fixes m s v :: u32
  assumes "unat m \<le> 1000" "unat s \<le> 10000" "unat v \<le> 10000"
  defines "r \<equiv> (if m < 4 * v then s + 4 * v else s + v)"
  shows "unat ((if r > 10000 then 10000 else r) * 5 div 4)
         = min 10000 (if unat m < 4 * unat v then unat s + 4 * unat v else unat s + unat v) * 5 div 4"
proof -
  have r: "unat r = (if unat m < 4 * unat v then unat s + 4 * unat v else unat s + unat v)"
    using assms smoothing_exact [of v s] unat_const_mult(2) [of v] by (simp add: r_def word_less_nat_alt)
  have m: "unat (if r > 10000 then 10000 else r) = min 10000 (unat r)"
    by (simp add: word_less_nat_alt min_def)
  then have "unat ((if r > 10000 then 10000 else r) * 5) = min 10000 (unat r) * 5"
    using unat_const_mult(4) [of "if r > 10000 then 10000 else r"] by simp
  then show ?thesis unfolding r [symmetric] unat_div by simp
qed

lemma estimate_eq:
  assumes "s' = (if s = 0 then r else max m ((7 * s + r) div 8))"
    and "v' = (if s = 0 then r div 2 else (3 * v + (if s > r then s - r else r - s)) div 4)"
  shows "estimate m s v r = (s', v', min 10000 (if m < 4 * v' then s' + 4 * v' else s' + v') * 5 div 4)"
proof -
  have "(if s = 0 then (r, r div 2)
      else (max m ((7 * s + r) div 8), (3 * v + (if s > r then s - r else r - s)) div 4)) = (s', v')"
    unfolding assms by (cases "s = 0") simp_all
  then show ?thesis by (simp only: estimate_def Let_def prod.case)
qed

lemma Update_estimate:
  assumes "rtt_wf info" "unat rtt < 10000"
  shows "(unat (srtt (Update rtt current info)), unat (variation (Update rtt current info)),
          unat (rto (Update rtt current info)))
         = estimate (unat (minRtt info)) (unat (srtt info)) (unat (variation info)) (unat rtt)"
    and "rtt_wf (Update rtt current info)"
proof -
  let ?d = "if srtt info > rtt then srtt info - rtt else rtt - srtt info"
  let ?s = "if srtt info = 0 then rtt
            else (if (7 * srtt info + rtt) div 8 < minRtt info then minRtt info else (7 * srtt info + rtt) div 8)"
  let ?v = "if srtt info = 0 then rtt div 2 else (3 * variation info + ?d) div 4"
  let ?r = "if minRtt info < 4 * ?v then ?s + 4 * ?v else ?s + ?v"
  have small: "\<not> rtt > 0x7FFFFFFF" using assms(2) by (simp add: word_less_nat_alt)
  have up: "Update rtt current info = info\<lparr>srtt := ?s, variation := ?v,
      rto := (if ?r > 10000 then 10000 else ?r) * 5 div 4, updatedTimestamp := current\<rparr>"
    using small by (simp add: Update_def Let_def)
  have d: "unat ?d \<le> 10000"
    using assms unfolding rtt_wf_def delta_exact by (cases "unat rtt < unat (srtt info)") auto
  have "unat ((3 * variation info + ?d) div 4) = (3 * unat (variation info) + unat ?d) div 4"
    using assms d smoothing_exact(1) [of "variation info" ?d] by (simp add: rtt_wf_def)
  then have v: "unat ?v = (if unat (srtt info) = 0 then unat rtt div 2
      else (3 * unat (variation info) +
        (if unat (srtt info) > unat rtt then unat (srtt info) - unat rtt else unat rtt - unat (srtt info))) div 4)"
    using delta_exact [of rtt "srtt info"] by (simp add: unat_div unat_eq_0)
  have s: "unat ?s = (if unat (srtt info) = 0 then unat rtt
      else max (unat (minRtt info)) ((7 * unat (srtt info) + unat rtt) div 8))"
    using assms smoothing_exact(2) [of "srtt info" rtt] by (simp add: rtt_wf_def unat_eq_0 word_less_nat_alt max_def)
  have bounds: "unat (minRtt info) \<le> 1000" "unat ?s \<le> 10000" "unat ?v \<le> 10000"
    using assms unfolding s v rtt_wf_def by auto
  show "rtt_wf (Update rtt current info)" using bounds unfolding up by (simp add: rtt_wf_def)
  show "(unat (srtt (Update rtt current info)), unat (variation (Update rtt current info)),
          unat (rto (Update rtt current info)))
         = estimate (unat (minRtt info)) (unat (srtt info)) (unat (variation info)) (unat rtt)"
    using timeout_exact [OF bounds] unfolding estimate_eq [OF s v] up by simp
qed

lemma estimate_timeout: "(case estimate m s v r of (s', v', t) \<Rightarrow> t \<le> 12500)"
proof -
  have "min 10000 (t :: nat) * 5 div 4 \<le> 12500" for t
    using div_le_mono [of "min 10000 t * 5" 50000 4] by simp
  then show ?thesis by (simp only: estimate_def Let_def split_def prod.case fst_conv snd_conv)
qed

text \<open>
  C24: the round trip estimate never wraps: starting from bounded values and given samples below
  10 seconds, which is what the acknowledgement handler passes, \<^verbatim>\<open>Update\<close> in 32-bit
  arithmetic computes exactly the smoothed time, variation and timeout of the computation over
  the natural numbers, keeps the bounds, and the timeout is at most 12.5 seconds.
\<close>

theorem round_trip_exact:
  assumes "rtt_wf info" "unat rtt < 10000"
  shows "rtt_wf (Update rtt current info) \<and> unat (Timeout (Update rtt current info)) \<le> 12500 \<and>
         (unat (SmoothedTime (Update rtt current info)), unat (variation (Update rtt current info)),
          unat (Timeout (Update rtt current info)))
         = estimate (unat (minRtt info)) (unat (srtt info)) (unat (variation info)) (unat rtt)"
proof -
  have "unat (rto (Update rtt current info)) \<le> 12500"
    using Update_estimate(1) [OF assms, of current]
      estimate_timeout [of "unat (minRtt info)" "unat (srtt info)" "unat (variation info)" "unat rtt"]
    by (auto split: prod.splits)
  then show ?thesis
    using Update_estimate [OF assms, of current] by (simp add: Timeout_def SmoothedTime_def)
qed

theorem round_trip_exact_witness:
  "unat (Timeout (Update 200 7 \<lparr>variation = 0, srtt = 0, rto = 100, minRtt = 50, updatedTimestamp = 0\<rparr>)) = 750"
  using round_trip_exact [of "\<lparr>variation = 0, srtt = 0, rto = 100, minRtt = 50, updatedTimestamp = 0\<rparr>" 200 7]
  by (simp add: rtt_wf_def estimate_def Let_def)

end
