(* ===== verification/Kcp_Sending.thy ===== *)
theory Kcp_Sending
  imports Kcp_Segment Kcp_Config Kcp_RoundTrip "HOL-Library.Sublist"
begin

text \<open>
  Package \<^verbatim>\<open>transport/internet/kcp\<close>, file \<^verbatim>\<open>sending.go\<close>: the window of segments that
  are not acknowledged yet and the worker that fills, transmits and clears it. The list of
  \<^verbatim>\<open>container/list\<close> is a list, its segments are changed in place by \<^verbatim>\<open>Visit\<close>. What the
  worker takes from its connection (conversation, state, settings, round trip estimate) is an
  argument; the segments given to \<^verbatim>\<open>conn.output.Write\<close> are returned, as is the call of
  \<^verbatim>\<open>conn.Ping\<close>. A lock holder is one step.
\<close>

section \<open>\<^verbatim>\<open>SendingWindow\<close>\<close>

record SendingWindow =
  sw_cache :: "DataSegment list"
  totalInFlightSize :: u32

definition NewSendingWindow :: SendingWindow where
  "NewSendingWindow = \<lparr>sw_cache = [], totalInFlightSize = 0\<rparr>"

definition sw_Release :: "SendingWindow \<Rightarrow> SendingWindow" where
  "sw_Release sw = sw\<lparr>sw_cache := []\<rparr>"

definition sw_Len :: "SendingWindow \<Rightarrow> u32" where
  "sw_Len sw = of_nat (length (sw_cache sw))"

definition sw_IsEmpty :: "SendingWindow \<Rightarrow> bool" where
  "sw_IsEmpty sw \<longleftrightarrow> sw_cache sw = []"

definition sw_Push :: "u32 \<Rightarrow> buffer \<Rightarrow> SendingWindow \<Rightarrow> SendingWindow" where
  "sw_Push number b sw =
     sw\<lparr>sw_cache := sw_cache sw @ [NewDataSegment\<lparr>Number := number, payload := Some b\<rparr>]\<rparr>"

text \<open>\<^verbatim>\<open>FirstNumber\<close> dereferences the front element.\<close>

definition FirstNumber :: "SendingWindow \<Rightarrow> u32 option" where
  "FirstNumber sw = (case sw_cache sw of [] \<Rightarrow> None | seg # _ \<Rightarrow> Some (Number seg))"

fun clear_front :: "u32 \<Rightarrow> DataSegment list \<Rightarrow> DataSegment list" where
  "clear_front una [] = []"
| "clear_front una (seg # segs) = (if Number seg \<ge> una then seg # segs else clear_front una segs)"

definition sw_Clear :: "u32 \<Rightarrow> SendingWindow \<Rightarrow> SendingWindow" where
  "sw_Clear una sw = sw\<lparr>sw_cache := clear_front una (sw_cache sw)\<rparr>"

text \<open>
  \<^verbatim>\<open>Visit\<close>: the visitor changes a segment and the variables it closes over, and says
  whether to go on.
\<close>

fun Visit ::
  "(DataSegment \<Rightarrow> 's \<Rightarrow> DataSegment \<times> 's \<times> bool) \<Rightarrow> DataSegment list \<Rightarrow> 's \<Rightarrow> DataSegment list \<times> 's" where
  "Visit visitor [] s = ([], s)"
| "Visit visitor (seg # segs) s =
     (case visitor seg s of
        (seg', s', True) \<Rightarrow> (let (segs', s'') = Visit visitor segs s' in (seg' # segs', s''))
      | (seg', s', False) \<Rightarrow> (seg' # segs, s'))"

definition fast_ack_visitor :: "u32 \<Rightarrow> u32 \<Rightarrow> DataSegment \<Rightarrow> unit \<Rightarrow> DataSegment \<times> unit \<times> bool" where
  "fast_ack_visitor number r seg s =
     (if number = Number seg \<or> number - Number seg > 0x7FFFFFFF then (seg, s, False)
      else (if transmit seg > 0 \<and> timeout seg > r div 3
            then seg\<lparr>timeout := timeout seg - r div 3\<rparr> else seg, s, True))"

definition HandleFastAck :: "u32 \<Rightarrow> u32 \<Rightarrow> SendingWindow \<Rightarrow> SendingWindow" where
  "HandleFastAck number r sw =
     (if sw_IsEmpty sw then sw
      else sw\<lparr>sw_cache := fst (Visit (fast_ack_visitor number r) (sw_cache sw) ())\<rparr>)"

text \<open>
  \<^verbatim>\<open>Flush\<close>: \<open>stamp\<close> is what the writer of the window does to a segment before it is
  output. The variables of the visitor are \<^verbatim>\<open>totalInFlightSize\<close>, \<^verbatim>\<open>lost\<close>,
  \<^verbatim>\<open>inFlightSize\<close> and the output. The result has the loss rate for
  \<^verbatim>\<open>onPacketLoss\<close>, when it is called.
\<close>

record flush_vars =
  fv_total :: u32
  fv_lost :: u32
  fv_inFlight :: u32
  fv_out :: "DataSegment list"

definition flush_visitor ::
  "(DataSegment \<Rightarrow> DataSegment) \<Rightarrow> u32 \<Rightarrow> u32 \<Rightarrow> u32 \<Rightarrow> DataSegment \<Rightarrow> flush_vars \<Rightarrow>
   DataSegment \<times> flush_vars \<times> bool" where
  "flush_visitor stamp current r maxInFlightSize seg v =
     (if current - timeout seg \<ge> 0x7FFFFFFF then (seg, v, True)
      else let v1 = (if transmit seg = 0 then v\<lparr>fv_total := fv_total v + 1\<rparr>
                     else v\<lparr>fv_lost := fv_lost v + 1\<rparr>);
               seg1 = stamp (seg\<lparr>timeout := current + r, dTimestamp := current,
                        transmit := transmit seg + 1\<rparr>);
               v2 = v1\<lparr>fv_out := fv_out v1 @ [seg1], fv_inFlight := fv_inFlight v1 + 1\<rparr>
           in (seg1, v2, fv_inFlight v2 < maxInFlightSize))"

definition sw_Flush ::
  "(DataSegment \<Rightarrow> DataSegment) \<Rightarrow> u32 \<Rightarrow> u32 \<Rightarrow> u32 \<Rightarrow> SendingWindow \<Rightarrow>
   SendingWindow \<times> DataSegment list \<times> u32 option" where
  "sw_Flush stamp current r maxInFlightSize sw =
     (if sw_IsEmpty sw then (sw, [], None)
      else let (segs, v) = Visit (flush_visitor stamp current r maxInFlightSize) (sw_cache sw)
                 \<lparr>fv_total = totalInFlightSize sw, fv_lost = 0, fv_inFlight = 0, fv_out = []\<rparr>
           in (sw\<lparr>sw_cache := segs, totalInFlightSize := fv_total v\<rparr>, fv_out v,
               if fv_inFlight v > 0 \<and> fv_total v \<noteq> 0 then Some (fv_lost v * 100 div fv_total v) else None))"

fun remove_number :: "u32 \<Rightarrow> DataSegment list \<Rightarrow> DataSegment list option" where
  "remove_number number [] = None"
| "remove_number number (seg # segs) =
     (if Number seg > number then None
      else if Number seg = number then Some segs
      else map_option ((#) seg) (remove_number number segs))"

definition sw_Remove :: "u32 \<Rightarrow> SendingWindow \<Rightarrow> bool \<times> SendingWindow" where
  "sw_Remove number sw =
     (case remove_number number (sw_cache sw) of
        None \<Rightarrow> (False, sw)
      | Some segs \<Rightarrow>
          (True, sw\<lparr>sw_cache := segs,
                    totalInFlightSize := (if totalInFlightSize sw > 0 then totalInFlightSize sw - 1
                                          else totalInFlightSize sw)\<rparr>))"

section \<open>\<^verbatim>\<open>SendingWorker\<close>\<close>

record SendingWorker =
  window :: SendingWindow
  firstUnacknowledged :: u32
  nextNumber :: u32
  remoteNextNumber :: u32
  controlWindow :: u32
  fastResend :: u32
  windowSize :: u32
  firstUnacknowledgedUpdated :: bool
  closed :: bool

definition NewSendingWorker :: "Config \<Rightarrow> SendingWorker option" where
  "NewSendingWorker conf = do {
     cw \<leftarrow> GetSendingInFlightSize (Some conf);
     ws \<leftarrow> GetSendingBufferSize (Some conf);
     Some \<lparr>window = NewSendingWindow, firstUnacknowledged = 0, nextNumber = 0, remoteNextNumber = 32,
       controlWindow = cw, fastResend = 2, windowSize = ws, firstUnacknowledgedUpdated = False,
       closed = False\<rparr>
   }"

definition snd_Release :: "SendingWorker \<Rightarrow> SendingWorker" where
  "snd_Release w = w\<lparr>window := sw_Release (window w), closed := True\<rparr>"

definition FindFirstUnacknowledged :: "SendingWorker \<Rightarrow> SendingWorker" where
  "FindFirstUnacknowledged w =
     (let first = firstUnacknowledged w;
          w1 = w\<lparr>firstUnacknowledged :=
                 (case FirstNumber (window w) of Some n \<Rightarrow> n | None \<Rightarrow> nextNumber w)\<rparr>
      in if first \<noteq> firstUnacknowledged w1 then w1\<lparr>firstUnacknowledgedUpdated := True\<rparr> else w1)"

definition ProcessReceivingNext :: "u32 \<Rightarrow> SendingWorker \<Rightarrow> SendingWorker" where
  "ProcessReceivingNext next w = FindFirstUnacknowledged (w\<lparr>window := sw_Clear next (window w)\<rparr>)"

definition processAck :: "u32 \<Rightarrow> SendingWorker \<Rightarrow> bool \<times> SendingWorker" where
  "processAck number w =
     (if number - firstUnacknowledged w > 0x7FFFFFFF \<or> number - nextNumber w < 0x7FFFFFFF then (False, w)
      else case sw_Remove number (window w) of
             (True, sw) \<Rightarrow> (True, FindFirstUnacknowledged (w\<lparr>window := sw\<rparr>))
           | (False, sw) \<Rightarrow> (False, w\<lparr>window := sw\<rparr>))"

fun process_acks :: "u32 list \<Rightarrow> u32 \<Rightarrow> bool \<Rightarrow> SendingWorker \<Rightarrow> u32 \<times> bool \<times> SendingWorker" where
  "process_acks [] maxack maxackRemoved w = (maxack, maxackRemoved, w)"
| "process_acks (number # numbers) maxack maxackRemoved w =
     (case processAck number w of
        (removed, w') \<Rightarrow>
          if maxack < number then process_acks numbers number removed w'
          else process_acks numbers maxack maxackRemoved w')"

text \<open>\<^verbatim>\<open>ProcessSegment\<close> also updates the round trip estimate of the connection.\<close>

definition snd_ProcessSegment ::
  "u32 \<Rightarrow> AckSegment \<Rightarrow> u32 \<Rightarrow> SendingWorker \<Rightarrow> RoundTripInfo \<Rightarrow> SendingWorker \<times> RoundTripInfo" where
  "snd_ProcessSegment current seg r w info =
     (if closed w then (w, info)
      else let w1 = (if remoteNextNumber w < ReceivingWindow seg
                     then w\<lparr>remoteNextNumber := ReceivingWindow seg\<rparr> else w);
               w2 = ProcessReceivingNext (aReceivingNext seg) w1
           in if ack_IsEmpty seg then (w2, info)
              else case process_acks (NumberList seg) 0 False w2 of
                     (maxack, maxackRemoved, w3) \<Rightarrow>
                       if maxackRemoved
                       then (w3\<lparr>window := HandleFastAck maxack r (window w3)\<rparr>,
                             if current - aTimestamp seg < 10000
                             then Update (current - aTimestamp seg) current info else info)
                       else (w3, info))"

definition snd_Push :: "buffer \<Rightarrow> SendingWorker \<Rightarrow> bool \<times> SendingWorker" where
  "snd_Push b w =
     (if closed w then (False, w)
      else if sw_Len (window w) > windowSize w then (False, w)
      else (True, w\<lparr>window := sw_Push (nextNumber w) b (window w), nextNumber := nextNumber w + 1\<rparr>))"

text \<open>\<^verbatim>\<open>Write\<close>: the fields it sets; \<open>closing\<close> is \<^verbatim>\<open>conn.State() == StateReadyToClose\<close>.\<close>

definition snd_Write :: "u16 \<Rightarrow> bool \<Rightarrow> u32 \<Rightarrow> DataSegment \<Rightarrow> DataSegment" where
  "snd_Write conv closing first seg =
     seg\<lparr>dConv := conv, dSendingNext := first, dOption := (if closing then SegmentOptionClose else 0)\<rparr>"

definition OnPacketLoss :: "Config \<Rightarrow> RoundTripInfo \<Rightarrow> u32 \<Rightarrow> SendingWorker \<Rightarrow> SendingWorker option" where
  "OnPacketLoss conf info lossRate w =
     (if \<not> Congestion conf \<or> Timeout info = 0 then Some w
      else let cw = controlWindow w;
               cw1 = (if lossRate \<ge> 15 then 3 * cw div 4 else if lossRate \<le> 5 then cw + cw div 4 else cw);
               cw2 = (if cw1 < 16 then 16 else cw1)
           in map_option (\<lambda>sz. w\<lparr>controlWindow := (if cw2 > 2 * sz then 2 * sz else cw2)\<rparr>)
                (GetSendingInFlightSize (Some conf)))"

text \<open>\<^verbatim>\<open>Flush\<close>: the worker, the segments output, and whether \<^verbatim>\<open>Ping\<close> is called.\<close>

definition flush_limit :: "Config \<Rightarrow> SendingWorker \<Rightarrow> u32 option" where
  "flush_limit conf w = do {
     sz \<leftarrow> GetSendingInFlightSize (Some conf);
     let c1 = (if sz > remoteNextNumber w - firstUnacknowledged w
               then remoteNextNumber w - firstUnacknowledged w else sz);
     let c2 = (if Congestion conf \<and> c1 > controlWindow w then controlWindow w else c1);
     Some (c2 * 20)
   }"

definition snd_Flush ::
  "Config \<Rightarrow> u16 \<Rightarrow> bool \<Rightarrow> RoundTripInfo \<Rightarrow> u32 \<Rightarrow> SendingWorker \<Rightarrow>
   (SendingWorker \<times> DataSegment list \<times> bool) option" where
  "snd_Flush conf conv closing info current w =
     (if closed w then Some (w, [], False)
      else do {
        cwnd \<leftarrow> flush_limit conf w;
        (w2, out) \<leftarrow>
          (if sw_IsEmpty (window w) then Some (w, [])
           else case sw_Flush (snd_Write conv closing (firstUnacknowledged w)) current (Timeout info) cwnd (window w) of
                  (sw, segs, rate) \<Rightarrow>
                    map_option (\<lambda>w1. (w1\<lparr>firstUnacknowledgedUpdated := False\<rparr>, segs))
                      (let w' = w\<lparr>window := sw\<rparr>
                       in case rate of None \<Rightarrow> Some w' | Some l \<Rightarrow> OnPacketLoss conf info l w'));
        Some (w2\<lparr>firstUnacknowledgedUpdated := False\<rparr>, out, firstUnacknowledgedUpdated w2)
      })"

definition CloseWrite :: "SendingWorker \<Rightarrow> SendingWorker" where
  "CloseWrite w = w\<lparr>window := sw_Clear 0xFFFFFFFF (window w)\<rparr>"

definition snd_IsEmpty :: "SendingWorker \<Rightarrow> bool" where
  "snd_IsEmpty w \<longleftrightarrow> sw_IsEmpty (window w)"

definition snd_UpdateNecessary :: "SendingWorker \<Rightarrow> bool" where
  "snd_UpdateNecessary w \<longleftrightarrow> \<not> snd_IsEmpty w"

section \<open>What identifies a segment\<close>

text \<open>Number and payload, which no operation on the window changes.\<close>

definition ident :: "DataSegment \<Rightarrow> u32 \<times> buffer option" where
  "ident seg = (Number seg, payload seg)"

definition idents :: "SendingWorker \<Rightarrow> (u32 \<times> buffer option) list" where
  "idents w = map ident (sw_cache (window w))"

lemma Visit_ident:
  assumes "\<And>seg s. ident (fst (visitor seg s)) = ident seg"
  shows "map ident (fst (Visit visitor segs s)) = map ident segs"
proof (induction segs arbitrary: s)
  case (Cons seg segs)
  obtain seg' s' c where v: "visitor seg s = (seg', s', c)" by (cases "visitor seg s")
  with assms [of seg s] have "ident seg' = ident seg" by simp
  with Cons v show ?case by (cases c) (simp_all add: split_def Let_def)
qed simp

lemma snd_Write_ident [simp]: "ident (snd_Write conv closing first seg) = ident seg"
  by (simp add: snd_Write_def ident_def)

lemma fast_ack_ident: "ident (fst (fast_ack_visitor number r seg s)) = ident seg"
  by (simp add: fast_ack_visitor_def ident_def)

lemma flush_visitor_ident:
  "(\<And>seg. ident (stamp seg) = ident seg) \<Longrightarrow> ident (fst (flush_visitor stamp current r m seg v)) = ident seg"
  by (simp add: flush_visitor_def Let_def) (simp add: ident_def)

lemma HandleFastAck_ident [simp]: "map ident (sw_cache (HandleFastAck number r sw)) = map ident (sw_cache sw)"
  by (simp add: HandleFastAck_def Visit_ident fast_ack_ident)

lemma set_subseq: "subseq xs ys \<Longrightarrow> set xs \<subseteq> set ys"
  by (induction rule: list_emb.induct) auto

lemma subseq_clear_front: "subseq (clear_front una segs) segs"
  by (induction segs) auto

lemma subseq_remove_number: "remove_number n segs = Some segs' \<Longrightarrow> subseq segs' segs"
  by (induction segs arbitrary: segs') (auto split: if_splits)

lemma idents_FindFirst [simp]: "idents (FindFirstUnacknowledged w) = idents w"
  "window (FindFirstUnacknowledged w) = window w" "nextNumber (FindFirstUnacknowledged w) = nextNumber w"
  "closed (FindFirstUnacknowledged w) = closed w"
  by (simp_all add: FindFirstUnacknowledged_def idents_def Let_def)

lemma idents_ProcessReceivingNext: "subseq (idents (ProcessReceivingNext n w)) (idents w)"
  by (simp add: ProcessReceivingNext_def sw_Clear_def idents_def subseq_map subseq_clear_front)

lemma idents_processAck: "subseq (idents (snd (processAck n w))) (idents w)"
  by (auto simp: processAck_def sw_Remove_def idents_def subseq_map subseq_remove_number
      split: option.splits)

lemma idents_process_acks: "subseq (idents (snd (snd (process_acks ns m r w)))) (idents w)"
proof (induction ns m r w rule: process_acks.induct)
  case (2 n ns m r w)
  obtain removed w' where p: "processAck n w = (removed, w')" by (cases "processAck n w")
  then have "subseq (idents w') (idents w)" using idents_processAck [of n w] by simp
  then show ?case using 2 p by (auto intro: subseq_order.trans)
qed simp

lemma idents_cong: "window w = window w' \<Longrightarrow> idents w = idents w'"
  by (simp add: idents_def)

text \<open>The three stages of \<^verbatim>\<open>ProcessSegment\<close> on an open worker.\<close>

lemma snd_ProcessSegment_stages:
  assumes "\<not> closed w"
  obtains w1 m mr w3 where "window w1 = window w" "firstUnacknowledged w1 = firstUnacknowledged w"
    "nextNumber w1 = nextNumber w" "closed w1 = closed w"
    "process_acks (NumberList seg) 0 False (ProcessReceivingNext (aReceivingNext seg) w1) = (m, mr, w3)"
    "fst (snd_ProcessSegment current seg r w info) =
       (if mr then w3\<lparr>window := HandleFastAck m r (window w3)\<rparr> else w3)"
proof -
  define w1 where "w1 = (if remoteNextNumber w < ReceivingWindow seg
      then w\<lparr>remoteNextNumber := ReceivingWindow seg\<rparr> else w)"
  obtain m mr w3 where p: "process_acks (NumberList seg) 0 False (ProcessReceivingNext (aReceivingNext seg) w1) = (m, mr, w3)"
    by (cases "process_acks (NumberList seg) 0 False (ProcessReceivingNext (aReceivingNext seg) w1)")
  have "fst (snd_ProcessSegment current seg r w info) =
       (if mr then w3\<lparr>window := HandleFastAck m r (window w3)\<rparr> else w3)"
  proof (cases "ack_IsEmpty seg")
    case True
    then have "NumberList seg = []" by (simp add: ack_IsEmpty_def)
    then show ?thesis using p assms True by (simp add: snd_ProcessSegment_def Let_def w1_def)
  next
    case False
    then show ?thesis using p assms
      unfolding snd_ProcessSegment_def Let_def w1_def [symmetric] by simp
  qed
  then show ?thesis using p by (intro that [of w1 m mr w3]) (simp_all add: w1_def)
qed

lemma idents_snd_ProcessSegment: "subseq (idents (fst (snd_ProcessSegment current seg r w info))) (idents w)"
proof (cases "closed w")
  case False
  then obtain w1 m mr w3 where w: "window w1 = window w"
    "process_acks (NumberList seg) 0 False (ProcessReceivingNext (aReceivingNext seg) w1) = (m, mr, w3)"
    "fst (snd_ProcessSegment current seg r w info) =
       (if mr then w3\<lparr>window := HandleFastAck m r (window w3)\<rparr> else w3)"
    by (rule snd_ProcessSegment_stages)
  have "subseq (idents w3) (idents w1)"
    using idents_process_acks [of "NumberList seg" 0 False "ProcessReceivingNext (aReceivingNext seg) w1"] w(2)
      idents_ProcessReceivingNext [of "aReceivingNext seg" w1] by (simp add: subseq_order.trans)
  then show ?thesis using w(1,3) by (simp add: idents_def)
qed (simp add: snd_ProcessSegment_def)

lemma idents_OnPacketLoss: "OnPacketLoss conf info l w = Some w' \<Longrightarrow> idents w' = idents w"
  by (auto simp: OnPacketLoss_def Let_def idents_def split: if_splits)

lemma idents_CloseWrite: "subseq (idents (CloseWrite w)) (idents w)"
  by (simp add: CloseWrite_def sw_Clear_def idents_def subseq_map subseq_clear_front)

lemma idents_snd_Push:
  "snd_Push b w = (True, w') \<Longrightarrow> idents w' = idents w @ [(nextNumber w, Some b)] \<and> nextNumber w' = nextNumber w + 1"
  "snd_Push b w = (False, w') \<Longrightarrow> w' = w"
  by (auto simp: snd_Push_def sw_Push_def idents_def ident_def split: if_splits)

section \<open>What \<^verbatim>\<open>Flush\<close> sends\<close>

definition due :: "u32 \<Rightarrow> DataSegment \<Rightarrow> bool" where
  "due current seg \<longleftrightarrow> current - timeout seg < 0x7FFFFFFF"

definition transmitted :: "u32 \<Rightarrow> u32 \<Rightarrow> DataSegment \<Rightarrow> DataSegment" where
  "transmitted current r seg = seg\<lparr>timeout := current + r, dTimestamp := current, transmit := transmit seg + 1\<rparr>"

lemma Visit_flush_out:
  assumes "fv_inFlight v = of_nat k" "k + length segs < 2 ^ 32" "k < max 1 (unat m)"
  shows "fv_out (snd (Visit (flush_visitor stamp current r m) segs v)) =
     fv_out v @ map (stamp \<circ> transmitted current r) (take (max 1 (unat m) - k) (filter (due current) segs))"
  using assms
proof (induction segs arbitrary: v k)
  case (Cons seg segs)
  show ?case
  proof (cases "due current seg")
    case False
    then have "flush_visitor stamp current r m seg v = (seg, v, True)"
      by (simp add: flush_visitor_def due_def not_less)
    with Cons False show ?thesis by (simp add: split_def Let_def)
  next
    case True
    obtain v' where v': "flush_visitor stamp current r m seg v
        = (stamp (transmitted current r seg), v', of_nat (Suc k) < m)"
      "fv_out v' = fv_out v @ [stamp (transmitted current r seg)]" "fv_inFlight v' = of_nat (Suc k)"
      using True Cons.prems(1)
      by (auto simp: flush_visitor_def due_def not_less Let_def transmitted_def linorder_not_le[symmetric] add.commute)
    have u: "unat (of_nat (Suc k) :: u32) = Suc k"
      using Cons.prems(2) by (simp add: unat_of_nat del: of_nat_Suc)
    then have lt: "(of_nat (Suc k) < m) = (Suc k < unat m)" by (metis word_less_nat_alt)
    show ?thesis
    proof (cases "Suc k < unat m")
      case True2: True
      then have "fv_out (snd (Visit (flush_visitor stamp current r m) segs v')) =
          fv_out v' @ map (stamp \<circ> transmitted current r)
            (take (max 1 (unat m) - Suc k) (filter (due current) segs))"
        using Cons.prems(2) v'(3) by (intro Cons.IH) auto
      moreover have "max 1 (unat m) - k = Suc (max 1 (unat m) - Suc k)" using True2 by simp
      ultimately show ?thesis using v' lt True2 True by (simp add: split_def Let_def)
    next
      case False
      then have "max 1 (unat m) - k = 1" using Cons.prems(3) by auto
      then show ?thesis using v' lt False True by simp
    qed
  qed
qed simp

lemma sw_Flush_spec:
  assumes "length (sw_cache sw) < 2 ^ 32" "sw_Flush stamp current r m sw = (sw', out, rate)"
  shows "out = map (stamp \<circ> transmitted current r)
           (take (max 1 (unat m)) (filter (due current) (sw_cache sw)))"
  using assms Visit_flush_out [of _ 0 "sw_cache sw" m stamp current r]
  by (auto simp: sw_Flush_def sw_IsEmpty_def split_def Let_def split: if_splits)

lemma sw_Flush_ident:
  assumes "\<And>seg. ident (stamp seg) = ident seg" "sw_Flush stamp current r m sw = (sw', out, rate)"
  shows "map ident (sw_cache sw') = map ident (sw_cache sw)"
  using assms(2) Visit_ident [of "flush_visitor stamp current r m" "sw_cache sw"] flush_visitor_ident [OF assms(1)]
  by (auto simp: sw_Flush_def split_def Let_def split: if_splits)

lemma Visit_flush_idents:
  assumes "\<And>seg. ident (stamp seg) = ident seg"
  shows "ident ` set (fv_out (snd (Visit (flush_visitor stamp current r m) segs v))) \<subseteq>
     ident ` set (fv_out v) \<union> ident ` set segs"
proof (induction segs arbitrary: v)
  case (Cons seg segs)
  obtain seg' v' c where f: "flush_visitor stamp current r m seg v = (seg', v', c)"
    by (cases "flush_visitor stamp current r m seg v")
  then have "ident ` set (fv_out v') \<subseteq> ident ` set (fv_out v) \<union> {ident seg}"
    using assms by (auto simp: flush_visitor_def Let_def ident_def split: if_splits)
  moreover have "fv_out (snd (Visit (flush_visitor stamp current r m) (seg # segs) v)) =
      (if c then fv_out (snd (Visit (flush_visitor stamp current r m) segs v')) else fv_out v')"
    using f by (simp add: split_def Let_def)
  moreover have "ident ` set (seg # segs) = insert (ident seg) (ident ` set segs)" by simp
  moreover have "A \<subseteq> B \<union> C \<Longrightarrow> B \<subseteq> D \<union> {e} \<Longrightarrow> A \<subseteq> D \<union> insert e C" "B \<subseteq> D \<union> {e} \<Longrightarrow> B \<subseteq> D \<union> insert e C"
    for A B C D and e :: "u32 \<times> buffer option" by blast+
  ultimately show ?case using Cons [of v'] by (cases c) (simp_all only: if_True if_False)
qed simp

lemma sw_Flush_idents:
  assumes "\<And>seg. ident (stamp seg) = ident seg" "sw_Flush stamp current r m sw = (sw', out, rate)"
  shows "ident ` set out \<subseteq> ident ` set (sw_cache sw)"
  using assms(2) Visit_flush_idents [OF assms(1), of current r m "sw_cache sw"
      "\<lparr>fv_total = totalInFlightSize sw, fv_lost = 0, fv_inFlight = 0, fv_out = []\<rparr>"]
  by (auto simp: sw_Flush_def split_def Let_def split: if_splits)

section \<open>Acknowledgements\<close>

text \<open>
  The invariant of the worker while the numbers have not wrapped around: the window is sorted,
  and lies between the first unacknowledged and the next number, which are less than half the
  number space apart.
\<close>

definition snd_wf :: "SendingWorker \<Rightarrow> bool" where
  "snd_wf w \<longleftrightarrow> sorted_wrt (<) (map Number (sw_cache (window w))) \<and>
     (\<forall>seg\<in>set (sw_cache (window w)). firstUnacknowledged w \<le> Number seg \<and> Number seg < nextNumber w) \<and>
     firstUnacknowledged w \<le> nextNumber w \<and> nextNumber w - firstUnacknowledged w \<le> 0x7FFFFFFF"

lemma ack_in_range:
  fixes n first nxt :: u32
  assumes "first \<le> n" "n < nxt" "nxt - first \<le> 0x7FFFFFFF"
  shows "\<not> (n - first > 0x7FFFFFFF \<or> n - nxt < 0x7FFFFFFF)"
proof -
  have "first \<le> nxt" using assms by simp
  then have d: "unat nxt - unat first \<le> 0x7FFFFFFF"
    using assms(3) by (simp add: word_le_nat_alt unat_sub)
  have o: "unat first \<le> unat n" "unat n < unat nxt" using assms by (simp_all add: word_le_nat_alt word_less_nat_alt)
  have "unat (n - first) = unat n - unat first" using assms(1) by (simp add: unat_sub)
  then have "\<not> n - first > 0x7FFFFFFF" using d o by (simp add: word_less_nat_alt)
  moreover have "unat (n - nxt) = 2 ^ 32 - (unat nxt - unat n)" using assms(2) by (rule unat_sub_wrap)
  then have "\<not> n - nxt < 0x7FFFFFFF" using d o by (simp add: word_less_nat_alt)
  ultimately show ?thesis by simp
qed

lemma clear_front_filter:
  "sorted_wrt (<) (map Number segs) \<Longrightarrow> clear_front una segs = filter (\<lambda>seg. una \<le> Number seg) segs"
proof (induction segs)
  case (Cons seg segs)
  show ?case
  proof (cases "una \<le> Number seg")
    case True
    then have "\<forall>s\<in>set segs. una \<le> Number s" using Cons.prems by (auto intro: order.trans less_imp_le)
    then show ?thesis using True by simp
  next
    case False
    then show ?thesis using Cons by simp
  qed
qed simp

lemma remove_number_filter:
  "sorted_wrt (<) (map Number segs) \<Longrightarrow> remove_number n segs =
     (if n \<in> Number ` set segs then Some (filter (\<lambda>seg. Number seg \<noteq> n) segs) else None)"
proof (induction segs)
  case (Cons seg segs)
  consider "Number seg > n" | "Number seg = n" | "Number seg < n" by fastforce
  then show ?case
  proof cases
    case 1
    then have "n \<notin> Number ` set (seg # segs)" using Cons.prems by auto
    with 1 show ?thesis by simp
  next
    case 2
    then have "\<forall>s\<in>set segs. Number s \<noteq> n" using Cons.prems by auto
    with 2 show ?thesis by (simp add: filter_id_conv)
  next
    case 3
    then have "\<not> Number seg > n" "Number seg \<noteq> n" by auto
    with Cons show ?thesis by auto
  qed
qed simp

lemma sorted_wrt_filter_map: "sorted_wrt (<) (map f xs) \<Longrightarrow> sorted_wrt (<) (map f (filter P xs))"
  by (simp add: sorted_wrt_map sorted_wrt_filter)

lemma FindFirst_first:
  "firstUnacknowledged (FindFirstUnacknowledged w) =
     (case sw_cache (window w) of [] \<Rightarrow> nextNumber w | seg # _ \<Rightarrow> Number seg)"
  by (auto simp: FindFirstUnacknowledged_def Let_def FirstNumber_def split: list.splits)

text \<open>Dropping segments from a well-formed window and looking for the first one keeps it so.\<close>

lemma snd_wf_drop:
  assumes "snd_wf w" "sw_cache sw = filter P (sw_cache (window w))"
  shows "snd_wf (FindFirstUnacknowledged (w\<lparr>window := sw\<rparr>))"
    and "firstUnacknowledged w \<le> firstUnacknowledged (FindFirstUnacknowledged (w\<lparr>window := sw\<rparr>))"
proof -
  let ?w = "FindFirstUnacknowledged (w\<lparr>window := sw\<rparr>)"
  have srt: "sorted_wrt (<) (map Number (sw_cache sw))"
    using assms by (simp add: snd_wf_def sorted_wrt_filter_map)
  have mem: "\<forall>seg\<in>set (sw_cache sw). firstUnacknowledged w \<le> Number seg \<and> Number seg < nextNumber w"
    using assms by (auto simp: snd_wf_def)
  have range: "firstUnacknowledged w \<le> nextNumber w" "nextNumber w - firstUnacknowledged w \<le> 0x7FFFFFFF"
    using assms(1) by (simp_all add: snd_wf_def)
  have first: "firstUnacknowledged w \<le> firstUnacknowledged ?w" "firstUnacknowledged ?w \<le> nextNumber w"
    "\<forall>seg\<in>set (sw_cache sw). firstUnacknowledged ?w \<le> Number seg"
    using mem range srt by (auto simp: FindFirst_first less_imp_le split: list.splits)
  have "nextNumber w - firstUnacknowledged ?w \<le> nextNumber w - firstUnacknowledged w"
    using first(1,2) range(1) by (simp add: word_le_nat_alt unat_sub)
  then have "nextNumber w - firstUnacknowledged ?w \<le> 0x7FFFFFFF" using range(2) by (rule order.trans)
  then show "snd_wf ?w" using srt mem first by (simp add: snd_wf_def)
  show "firstUnacknowledged w \<le> firstUnacknowledged ?w" by (rule first)
qed

lemma ProcessReceivingNext_spec:
  assumes "snd_wf w"
  shows "snd_wf (ProcessReceivingNext n w)"
    and "sw_cache (window (ProcessReceivingNext n w)) = filter (\<lambda>seg. n \<le> Number seg) (sw_cache (window w))"
    and "firstUnacknowledged w \<le> firstUnacknowledged (ProcessReceivingNext n w)"
  using snd_wf_drop [OF assms, of "sw_Clear n (window w)" "\<lambda>seg. n \<le> Number seg"] assms
  by (simp_all add: ProcessReceivingNext_def sw_Clear_def clear_front_filter snd_wf_def)

lemma processAck_spec:
  assumes "snd_wf w"
  shows "snd_wf (snd (processAck n w)) \<and>
     sw_cache (window (snd (processAck n w))) = filter (\<lambda>seg. Number seg \<noteq> n) (sw_cache (window w)) \<and>
     (fst (processAck n w) \<longleftrightarrow> n \<in> Number ` set (sw_cache (window w))) \<and>
     firstUnacknowledged w \<le> firstUnacknowledged (snd (processAck n w))"
proof (cases "n \<in> Number ` set (sw_cache (window w))")
  case True
  then have "firstUnacknowledged w \<le> n" "n < nextNumber w" using assms by (auto simp: snd_wf_def)
  then have "\<not> (n - firstUnacknowledged w > 0x7FFFFFFF \<or> n - nextNumber w < 0x7FFFFFFF)"
    using assms by (intro ack_in_range) (simp_all add: snd_wf_def)
  moreover have "remove_number n (sw_cache (window w)) = Some (filter (\<lambda>seg. Number seg \<noteq> n) (sw_cache (window w)))"
    using assms True by (simp add: snd_wf_def remove_number_filter)
  ultimately show ?thesis
    using snd_wf_drop [OF assms, of _ "\<lambda>seg. Number seg \<noteq> n"] True
    by (auto simp: processAck_def sw_Remove_def)
next
  case False
  then have "remove_number n (sw_cache (window w)) = None"
    using assms by (simp add: snd_wf_def remove_number_filter)
  moreover have "filter (\<lambda>seg. Number seg \<noteq> n) (sw_cache (window w)) = sw_cache (window w)"
    using False by (auto simp: filter_id_conv)
  ultimately show ?thesis using assms False by (simp add: processAck_def sw_Remove_def)
qed

lemma process_acks_spec:
  "snd_wf w \<Longrightarrow> snd_wf (snd (snd (process_acks ns m r w))) \<and>
     sw_cache (window (snd (snd (process_acks ns m r w)))) = filter (\<lambda>seg. Number seg \<notin> set ns) (sw_cache (window w)) \<and>
     firstUnacknowledged w \<le> firstUnacknowledged (snd (snd (process_acks ns m r w)))"
proof (induction ns m r w rule: process_acks.induct)
  case (2 n ns m r w)
  obtain removed w' where p: "processAck n w = (removed, w')" by (cases "processAck n w")
  then have w': "snd_wf w'" "sw_cache (window w') = filter (\<lambda>seg. Number seg \<noteq> n) (sw_cache (window w))"
    "firstUnacknowledged w \<le> firstUnacknowledged w'"
    using processAck_spec [OF 2(3), of n] by simp_all
  have f: "filter (\<lambda>seg. Number seg \<notin> set ns) (filter (\<lambda>seg. Number seg \<noteq> n) xs)
      = filter (\<lambda>seg. Number seg \<notin> set (n # ns)) xs" for xs
    by (simp add: conj_commute)
  show ?case
  proof (cases "m < n")
    case True
    then show ?thesis using 2(1) [OF p [symmetric] True w'(1)] p w'(2,3) f by auto
  next
    case False
    then show ?thesis using 2(2) [OF p [symmetric] False w'(1)] p w'(2,3) f by auto
  qed
qed simp

lemma numbers_idents: "map Number segs = map fst (map ident segs)"
  by (simp add: ident_def)

lemma snd_wf_idents:
  "snd_wf w \<longleftrightarrow> sorted_wrt (<) (map fst (idents w)) \<and>
     (\<forall>n\<in>set (map fst (idents w)). firstUnacknowledged w \<le> n \<and> n < nextNumber w) \<and>
     firstUnacknowledged w \<le> nextNumber w \<and> nextNumber w - firstUnacknowledged w \<le> 0x7FFFFFFF"
  by (simp add: snd_wf_def idents_def ident_def comp_def)

lemma HandleFastAck_wf: "snd_wf w \<Longrightarrow> snd_wf (w\<lparr>window := HandleFastAck m r (window w)\<rparr>)"
  unfolding snd_wf_idents by (simp add: idents_def)

section \<open>Properties\<close>

text \<open>
  C7: an acknowledgement removes exactly the acknowledged segments: on a worker in good standing,
  \<^verbatim>\<open>ProcessSegment\<close> leaves in the window, in the same order and with the same payloads, the
  segments at or behind \<^verbatim>\<open>ReceivingNext\<close> that the acknowledgement does not list; it keeps the
  invariant and never moves \<^verbatim>\<open>firstUnacknowledged\<close> back.
\<close>

theorem ack_removes_exactly:
  assumes "snd_wf w" "\<not> closed w"
  shows "idents (fst (snd_ProcessSegment current seg r w info)) =
           filter (\<lambda>(n, p). aReceivingNext seg \<le> n \<and> n \<notin> set (NumberList seg)) (idents w) \<and>
         snd_wf (fst (snd_ProcessSegment current seg r w info)) \<and>
         firstUnacknowledged w \<le> firstUnacknowledged (fst (snd_ProcessSegment current seg r w info))"
proof -
  obtain w1 m mr w3 where w: "window w1 = window w" "firstUnacknowledged w1 = firstUnacknowledged w"
    "nextNumber w1 = nextNumber w"
    "process_acks (NumberList seg) 0 False (ProcessReceivingNext (aReceivingNext seg) w1) = (m, mr, w3)"
    "fst (snd_ProcessSegment current seg r w info) =
       (if mr then w3\<lparr>window := HandleFastAck m r (window w3)\<rparr> else w3)"
    by (rule snd_ProcessSegment_stages [OF assms(2)])
  have w1: "snd_wf w1" using assms(1) w by (simp add: snd_wf_def)
  have w3: "snd_wf w3" "sw_cache (window w3) = filter (\<lambda>seg'. Number seg' \<notin> set (NumberList seg))
      (filter (\<lambda>seg'. aReceivingNext seg \<le> Number seg') (sw_cache (window w)))"
    "firstUnacknowledged (ProcessReceivingNext (aReceivingNext seg) w1) \<le> firstUnacknowledged w3"
    using process_acks_spec [OF ProcessReceivingNext_spec(1) [OF w1], of "NumberList seg" 0 False "aReceivingNext seg"]
      w(1,4) ProcessReceivingNext_spec(2) [OF w1, of "aReceivingNext seg"] by simp_all
  have "idents w3 = filter (\<lambda>(n, p). aReceivingNext seg \<le> n \<and> n \<notin> set (NumberList seg)) (idents w)"
    unfolding idents_def w3(2) by (simp add: filter_map comp_def ident_def conj_commute)
  moreover have "snd_wf (w3\<lparr>window := HandleFastAck m r (window w3)\<rparr>)"
    using w3(1) HandleFastAck_wf by blast
  moreover have "firstUnacknowledged w \<le> firstUnacknowledged w3"
    using ProcessReceivingNext_spec(3) [OF w1, of "aReceivingNext seg"] w(2) w3(3) by simp
  ultimately show ?thesis using w(5) w3(1) by (simp add: idents_def)
qed

text \<open>A worker with segments 0 and 1 in its window.\<close>

definition sample_worker :: SendingWorker where
  "sample_worker = \<lparr>window = \<lparr>sw_cache = [NewDataSegment\<lparr>Number := 0, payload := Some New\<rparr>,
       NewDataSegment\<lparr>Number := 1, payload := Some New\<rparr>], totalInFlightSize = 2\<rparr>,
     firstUnacknowledged = 0, nextNumber = 2, remoteNextNumber = 32, controlWindow = 16, fastResend = 2,
     windowSize = 10, firstUnacknowledgedUpdated = False, closed = False\<rparr>"

lemma sample_worker_wf: "snd_wf sample_worker" "\<not> closed sample_worker"
  "idents sample_worker = [(0, Some New), (1, Some New)]"
  by (simp_all add: sample_worker_def snd_wf_def idents_def ident_def)

theorem ack_removes_exactly_witness:
  "idents (fst (snd_ProcessSegment 100 (NewAckSegment\<lparr>NumberList := [1]\<rparr>) 100 sample_worker
     \<lparr>variation = 0, srtt = 0, rto = 100, minRtt = 50, updatedTimestamp = 0\<rparr>)) = [(0, Some New)]"
  using ack_removes_exactly [OF sample_worker_wf(1,2), of 100 "NewAckSegment\<lparr>NumberList := [1]\<rparr>" 100
      "\<lparr>variation = 0, srtt = 0, rto = 100, minRtt = 50, updatedTimestamp = 0\<rparr>"]
  by (simp add: sample_worker_wf(3) NewAckSegment_def)

text \<open>
  C14: \<^verbatim>\<open>Push\<close> numbers segments consecutively: it refuses on a closed worker or when more than
  \<^verbatim>\<open>windowSize\<close> segments wait, and leaves the worker as it was; otherwise the payload becomes
  the last segment of the window under \<^verbatim>\<open>nextNumber\<close>, which advances by one. As long as the
  numbers do not wrap it keeps the invariant, and the window never holds more than
  \<^verbatim>\<open>windowSize\<close> + 1 segments.
\<close>

theorem Push_keeps_window:
  assumes "snd_wf w" "nextNumber w \<noteq> 0xFFFFFFFF" "nextNumber w - firstUnacknowledged w < 0x7FFFFFFF"
    and "length (sw_cache (window w)) \<le> unat (windowSize w) + 1" "windowSize w \<noteq> 0xFFFFFFFF"
  shows "(case snd_Push b w of
            (False, w') \<Rightarrow> w' = w \<and> (closed w \<or> length (sw_cache (window w)) = unat (windowSize w) + 1)
          | (True, w') \<Rightarrow> \<not> closed w \<and> idents w' = idents w @ [(nextNumber w, Some b)] \<and>
              unat (nextNumber w') = unat (nextNumber w) + 1 \<and> snd_wf w' \<and>
              length (sw_cache (window w')) \<le> unat (windowSize w') + 1)"
proof -
  let ?n = "length (sw_cache (window w))"
  have sucn: "unat (nextNumber w + 1) = unat (nextNumber w) + 1" using assms(2) by (rule unat_succ)
  have nn: "nextNumber w < nextNumber w + 1" using sucn by (simp add: word_less_nat_alt)
  have le: "firstUnacknowledged w \<le> nextNumber w" using assms(1) by (simp add: snd_wf_def)
  then have fle: "firstUnacknowledged w \<le> nextNumber w + 1" using nn by simp
  have "unat (nextNumber w + 1 - firstUnacknowledged w) = unat (nextNumber w - firstUnacknowledged w) + 1"
    using le fle sucn by (simp add: unat_sub word_le_nat_alt)
  then have d: "nextNumber w + 1 - firstUnacknowledged w \<le> 0x7FFFFFFF"
    using assms(3) by (simp add: word_le_nat_alt word_less_nat_alt)
  have accepted: "idents w' = idents w @ [(nextNumber w, Some b)] \<and> snd_wf w' \<and> unat (nextNumber w') = unat (nextNumber w) + 1"
    if "w' = w\<lparr>window := sw_Push (nextNumber w) b (window w), nextNumber := nextNumber w + 1\<rparr>" for w'
  proof -
    have i: "idents w' = idents w @ [(nextNumber w, Some b)]"
      using that by (simp add: idents_def sw_Push_def ident_def)
    moreover have "snd_wf w'"
      using assms(1) i that nn le fle d by (auto simp: snd_wf_idents sorted_wrt_append)
    ultimately show ?thesis using that sucn by simp
  qed
  show ?thesis
  proof (cases "closed w")
    case False
    show ?thesis
    proof (cases "sw_Len (window w) > windowSize w")
      case True
      have "unat (sw_Len (window w)) \<le> ?n" by (simp add: sw_Len_def unat_of_nat)
      then have "?n = unat (windowSize w) + 1" using True assms(4) by (simp add: word_less_nat_alt)
      then show ?thesis using True False by (simp add: snd_Push_def)
    next
      case full: False
      then have "?n mod 2 ^ 32 \<le> unat (windowSize w)" by (simp add: sw_Len_def not_less word_le_nat_alt unat_of_nat)
      then have "?n \<le> unat (windowSize w)"
        using assms(4) unat_succ [OF assms(5)] unat_u32 [of "windowSize w + 1"] by (cases "?n < 2 ^ 32") auto
      then show ?thesis
        using False full accepted by (simp add: snd_Push_def) (simp add: sw_Push_def)
    qed
  qed (simp add: snd_Push_def)
qed

theorem Push_keeps_window_witness:
  "idents (snd (snd_Push New sample_worker)) = [(0, Some New), (1, Some New), (2, Some New)]"
proof -
  have s: "snd_Push New sample_worker = (True, sample_worker\<lparr>window := sw_Push 2 New (window sample_worker), nextNumber := 3\<rparr>)"
    by (simp add: snd_Push_def sample_worker_def sw_Len_def)
  show ?thesis
    using Push_keeps_window [OF sample_worker_wf(1), of New]
    by (simp add: sample_worker_wf(3) s) (simp add: sample_worker_def)
qed

section \<open>\<^verbatim>\<open>Flush\<close> and the control window\<close>

lemma flush_limit_defined: "config_ok (Some conf) \<Longrightarrow> \<exists>l. flush_limit conf w = Some l"
  using in_flight_defined(1) [of "Some conf"] by (auto simp: flush_limit_def Let_def)

lemma OnPacketLoss_defined: "config_ok (Some conf) \<Longrightarrow> \<exists>w'. OnPacketLoss conf info l w = Some w'"
  using in_flight_defined(1) [of "Some conf"] by (auto simp: OnPacketLoss_def Let_def)

lemma OnPacketLoss_frame:
  "OnPacketLoss conf info l w = Some w' \<Longrightarrow> window w' = window w \<and> firstUnacknowledged w' = firstUnacknowledged w \<and>
     nextNumber w' = nextNumber w \<and> closed w' = closed w \<and> windowSize w' = windowSize w"
  by (auto simp: OnPacketLoss_def Let_def split: if_splits)

text \<open>The worker after \<^verbatim>\<open>Flush\<close>, with the window it flushed.\<close>

lemma snd_Flush_cases:
  assumes "config_ok (Some conf)" "\<not> closed w" "flush_limit conf w = Some l"
  obtains w' out rate sw ping where "snd_Flush conf conv closing info current w = Some (w', out, ping)"
    "sw_Flush (snd_Write conv closing (firstUnacknowledged w)) current (Timeout info) l (window w) = (sw, out, rate)"
    "window w' = sw" "firstUnacknowledged w' = firstUnacknowledged w" "nextNumber w' = nextNumber w"
    "closed w' = closed w"
proof -
  obtain sw segs rate where f:
    "sw_Flush (snd_Write conv closing (firstUnacknowledged w)) current (Timeout info) l (window w) = (sw, segs, rate)"
    by (cases "sw_Flush (snd_Write conv closing (firstUnacknowledged w)) current (Timeout info) l (window w)")
  show ?thesis
  proof (cases "sw_IsEmpty (window w)")
    case True
    with f have "sw = window w" "segs = []" by (auto simp: sw_Flush_def)
    with f show ?thesis
      using True assms by (intro that [of "w\<lparr>firstUnacknowledgedUpdated := False\<rparr>"]) (auto simp: snd_Flush_def)
  next
    case False
    let ?w = "w\<lparr>window := sw\<rparr>"
    have "\<exists>w1. (case rate of None \<Rightarrow> Some ?w | Some r \<Rightarrow> OnPacketLoss conf info r ?w) = Some w1"
      by (cases rate) (simp_all add: OnPacketLoss_defined [OF assms(1)])
    then obtain w1 where w1: "(case rate of None \<Rightarrow> Some ?w | Some r \<Rightarrow> OnPacketLoss conf info r ?w) = Some w1" ..
    then have "window w1 = sw \<and> firstUnacknowledged w1 = firstUnacknowledged w \<and> nextNumber w1 = nextNumber w \<and> closed w1 = closed w"
      using OnPacketLoss_frame [of conf info _ ?w w1] by (auto split: option.splits)
    then show ?thesis
      using f w1 False assms
      by (intro that [of "w1\<lparr>firstUnacknowledgedUpdated := False\<rparr>" segs False]) (auto simp: snd_Flush_def)
  qed
qed

lemma snd_Flush_facts:
  assumes "snd_Flush conf conv closing info current w = Some (w', out, ping)"
  shows "idents w' = idents w \<and> nextNumber w' = nextNumber w \<and> ident ` set out \<subseteq> set (idents w)"
proof (cases "closed w")
  case True
  then show ?thesis using assms by (simp add: snd_Flush_def)
next
  case False
  then obtain l where l: "flush_limit conf w = Some l"
    using assms by (cases "flush_limit conf w") (simp_all add: snd_Flush_def)
  then have "GetSendingInFlightSize (Some conf) \<noteq> None"
    by (cases "GetSendingInFlightSize (Some conf)") (simp_all add: flush_limit_def)
  then have ok: "config_ok (Some conf)" using in_flight_size_cases by blast
  obtain w1 out1 rate sw ping1 where f: "snd_Flush conf conv closing info current w = Some (w1, out1, ping1)"
    "sw_Flush (snd_Write conv closing (firstUnacknowledged w)) current (Timeout info) l (window w) = (sw, out1, rate)"
    "window w1 = sw" "nextNumber w1 = nextNumber w" by (rule snd_Flush_cases [OF ok False l])
  have "map ident (sw_cache sw) = map ident (sw_cache (window w))" by (rule sw_Flush_ident [OF _ f(2)]) simp
  moreover have "ident ` set out1 \<subseteq> ident ` set (sw_cache (window w))" by (rule sw_Flush_idents [OF _ f(2)]) simp
  ultimately show ?thesis using f assms by (auto simp: idents_def)
qed

text \<open>
  C13: \<^verbatim>\<open>Flush\<close> sends exactly the due segments, oldest first, up to the limit of the flow and
  congestion control (but at least one): the output is the due segments of the window, cut at the
  limit and stamped with the time, the connection and \<^verbatim>\<open>firstUnacknowledged\<close>; numbers and
  payloads in the window do not change and nothing panics.
\<close>

theorem Flush_sends_due:
  assumes "config_ok (Some conf)" "\<not> closed w" "length (sw_cache (window w)) < 2 ^ 32"
  shows "\<exists>l w' ping. flush_limit conf w = Some l \<and>
     snd_Flush conf conv closing info current w =
       Some (w', map (snd_Write conv closing (firstUnacknowledged w) \<circ> transmitted current (Timeout info))
         (take (max 1 (unat l)) (filter (due current) (sw_cache (window w)))), ping) \<and>
     idents w' = idents w"
proof -
  obtain l where l: "flush_limit conf w = Some l" using flush_limit_defined [OF assms(1)] by blast
  obtain w' out rate sw ping where w': "snd_Flush conf conv closing info current w = Some (w', out, ping)"
    "sw_Flush (snd_Write conv closing (firstUnacknowledged w)) current (Timeout info) l (window w) = (sw, out, rate)"
    "window w' = sw" by (rule snd_Flush_cases [OF assms(1,2) l])
  have "map ident (sw_cache sw) = map ident (sw_cache (window w))"
    by (rule sw_Flush_ident [OF _ w'(2)]) simp
  then show ?thesis using l w' sw_Flush_spec [OF assms(3) w'(2)] by (auto simp: idents_def)
qed

definition default_config :: Config where
  "default_config = \<lparr>Mtu = None, Tti = None, UplinkCapacity = None, DownlinkCapacity = None,
     WriteBuffer = None, ReadBuffer = None, Congestion = False\<rparr>"

lemma default_config_ok: "config_ok (Some default_config)"
  by (simp add: config_ok_def config_getter_defs default_config_def)

theorem Flush_sends_due_witness:
  "\<exists>w' ping. snd_Flush default_config 7 False
     \<lparr>variation = 0, srtt = 0, rto = 100, minRtt = 50, updatedTimestamp = 0\<rparr> 40 sample_worker =
     Some (w', [\<lparr>dConv = 7, dOption = 0, dTimestamp = 40, Number = 0, dSendingNext = 0, payload = Some New,
                 timeout = 140, transmit = 1\<rparr>,
                \<lparr>dConv = 7, dOption = 0, dTimestamp = 40, Number = 1, dSendingNext = 0, payload = Some New,
                 timeout = 140, transmit = 1\<rparr>], ping)"
proof -
  have "flush_limit default_config sample_worker = Some 640"
    by (simp add: flush_limit_def default_config_def sample_worker_def GetSendingInFlightSize_def go_div_def
        config_getter_defs)
  then show ?thesis
    using Flush_sends_due [OF default_config_ok, of sample_worker 7 False
        "\<lparr>variation = 0, srtt = 0, rto = 100, minRtt = 50, updatedTimestamp = 0\<rparr>" 40]
    by (auto simp: sample_worker_def due_def transmitted_def snd_Write_def NewDataSegment_def Timeout_def)
qed

text \<open>
  The congestion window stays in its band: whatever the loss rate and even where the
  multiplication wraps, with congestion control on and a timeout measured, \<^verbatim>\<open>OnPacketLoss\<close>
  leaves a control window between 16 and twice the in-flight size, and changes nothing else.
\<close>

theorem control_window_band:
  assumes "GetSendingInFlightSize (Some conf) = Some sz" "sz < 2 ^ 31" "Congestion conf" "Timeout info \<noteq> 0"
  shows "\<exists>cw. OnPacketLoss conf info lossRate w = Some (w\<lparr>controlWindow := cw\<rparr>) \<and> 16 \<le> cw \<and> cw \<le> 2 * sz"
proof -
  have "config_ok (Some conf)"
    using assms(1) in_flight_size_cases [of "Some conf"] by simp
  then have "8 \<le> sz" using in_flight_defined(1) [of "Some conf"] assms(1) by auto
  moreover have "unat (2 * sz) = 2 * unat sz"
    using assms(2) by (simp add: unat_word_ariths word_less_nat_alt)
  ultimately have "16 \<le> 2 * sz" by (simp add: word_le_nat_alt)
  then have clamp: "16 \<le> (if cw > 2 * sz then 2 * sz else cw) \<and> (if cw > 2 * sz then 2 * sz else cw) \<le> 2 * sz"
    if "16 \<le> cw" for cw using that by (simp add: not_less)
  define cw1 where "cw1 = (if lossRate \<ge> 15 then 3 * controlWindow w div 4
    else if lossRate \<le> 5 then controlWindow w + controlWindow w div 4 else controlWindow w)"
  define cw2 where "cw2 = (if cw1 < 16 then 16 else cw1)"
  have "16 \<le> cw2" by (simp add: cw2_def not_less)
  moreover have "OnPacketLoss conf info lossRate w = Some (w\<lparr>controlWindow := (if cw2 > 2 * sz then 2 * sz else cw2)\<rparr>)"
    using assms(1,3,4) by (simp add: OnPacketLoss_def Let_def cw1_def cw2_def)
  ultimately show ?thesis using clamp by blast
qed

theorem control_window_band_witness:
  "\<exists>cw. OnPacketLoss (default_config\<lparr>Congestion := True\<rparr>)
     \<lparr>variation = 0, srtt = 0, rto = 100, minRtt = 50, updatedTimestamp = 0\<rparr> 30 sample_worker
     = Some (sample_worker\<lparr>controlWindow := cw\<rparr>) \<and> 16 \<le> cw \<and> cw \<le> 388"
  using control_window_band [of "default_config\<lparr>Congestion := True\<rparr>" 194
      "\<lparr>variation = 0, srtt = 0, rto = 100, minRtt = 50, updatedTimestamp = 0\<rparr>" 30 sample_worker]
  by (simp add: default_config_def GetSendingInFlightSize_def go_div_def config_getter_defs Timeout_def)

text \<open>
  C31: the window does not survive the wrap-around of the numbers: \<^verbatim>\<open>Clear\<close> and
  \<^verbatim>\<open>Remove\<close> compare numbers as plain integers. With segment 0xFFFFFFFF in front of segments
  0, 1, ..., an acknowledgement whose \<^verbatim>\<open>ReceivingNext\<close> is past all of them, and which lists
  any of the segments behind the front, leaves the window as it is.
\<close>

theorem wrapped_window_ignores_acks:
  assumes "sw_cache (window w) = seg # segs" "Number seg = 0xFFFFFFFF" "n \<noteq> 0xFFFFFFFF" "una \<noteq> 0"
  shows "window (ProcessReceivingNext una w) = window w \<and> fst (processAck n w) = False \<and>
         window (snd (processAck n w)) = window w"
proof -
  have top: "x \<le> 0xFFFFFFFF" for x :: u32 using unat_u32 [of x] by (simp add: word_le_nat_alt)
  then have "\<not> Number seg < una" "n < Number seg"
    using assms(2,3) by (simp_all add: not_less order.not_eq_order_implies_strict)
  then have "sw_Clear una (window w) = window w" "remove_number n (sw_cache (window w)) = None"
    using assms(1) by (simp_all add: sw_Clear_def not_less)
  then show ?thesis by (simp add: ProcessReceivingNext_def processAck_def sw_Remove_def)
qed

theorem wrapped_window_ignores_acks_witness:
  "let w = sample_worker\<lparr>window := \<lparr>sw_cache = [NewDataSegment\<lparr>Number := 0xFFFFFFFF\<rparr>, NewDataSegment],
       totalInFlightSize = 2\<rparr>, firstUnacknowledged := 0xFFFFFFFF, nextNumber := 1\<rparr>
   in fst (processAck 0 w) = False \<and> length (sw_cache (window (ProcessReceivingNext 1 w))) = 2"
  using wrapped_window_ignores_acks [of "sample_worker\<lparr>window := \<lparr>sw_cache = [NewDataSegment\<lparr>Number := 0xFFFFFFFF\<rparr>,
        NewDataSegment], totalInFlightSize = 2\<rparr>, firstUnacknowledged := 0xFFFFFFFF, nextNumber := 1\<rparr>"
      "NewDataSegment\<lparr>Number := 0xFFFFFFFF\<rparr>" "[NewDataSegment]" 0 1]
  by (simp add: Let_def)

end
