(* ===== verification/Kcp_Receiving.thy ===== *)
theory Kcp_Receiving
  imports Kcp_Segment Kcp_Config Kcp_RoundTrip
begin

text \<open>
  Package \<^verbatim>\<open>transport/internet/kcp\<close>, file \<^verbatim>\<open>receiving.go\<close>: the window that reorders data
  segments, the list of numbers to acknowledge, and the worker that owns both. The Go map is an
  association list; what the worker takes from its connection is an argument and the segments it
  outputs are returned. A lock holder is one step.
\<close>

section \<open>\<^verbatim>\<open>ReceivingWindow\<close>\<close>

type_synonym ReceivingWindow = "(u32 \<times> DataSegment) list"

definition NewReceivingWindow :: ReceivingWindow where
  "NewReceivingWindow = []"

definition rw_Set :: "u32 \<Rightarrow> DataSegment \<Rightarrow> ReceivingWindow \<Rightarrow> bool \<times> ReceivingWindow" where
  "rw_Set i seg w = (case map_of w i of Some _ \<Rightarrow> (False, w) | None \<Rightarrow> (True, (i, seg) # w))"

definition rw_Has :: "u32 \<Rightarrow> ReceivingWindow \<Rightarrow> bool" where
  "rw_Has i w \<longleftrightarrow> map_of w i \<noteq> None"

definition rw_Remove :: "u32 \<Rightarrow> ReceivingWindow \<Rightarrow> DataSegment option \<times> ReceivingWindow" where
  "rw_Remove i w = (case map_of w i of None \<Rightarrow> (None, w) | Some seg \<Rightarrow> (Some seg, AList.delete i w))"

section \<open>\<^verbatim>\<open>AckList\<close>\<close>

text \<open>Three slices of the same length, and the candidates of the last flush (capacity 128).\<close>

record AckList =
  timestamps :: "u32 list"
  numbers :: "u32 list"
  nextFlush :: "u32 list"
  flushCandidates :: "u32 list"
  dirty :: bool

definition NewAckList :: AckList where
  "NewAckList = \<lparr>timestamps = [], numbers = [], nextFlush = [], flushCandidates = [], dirty = False\<rparr>"

definition ack_Add :: "u32 \<Rightarrow> u32 \<Rightarrow> AckList \<Rightarrow> AckList" where
  "ack_Add number timestamp l =
     l\<lparr>timestamps := timestamps l @ [timestamp], numbers := numbers l @ [number],
       nextFlush := nextFlush l @ [0], dirty := True\<rparr>"

definition ack_move :: "nat \<Rightarrow> nat \<Rightarrow> AckList \<Rightarrow> AckList" where
  "ack_move count i l =
     l\<lparr>numbers := (numbers l)[count := numbers l ! i],
       timestamps := (timestamps l)[count := timestamps l ! i],
       nextFlush := (nextFlush l)[count := nextFlush l ! i]\<rparr>"

function ack_clear_loop :: "u32 \<Rightarrow> nat \<Rightarrow> nat \<Rightarrow> AckList \<Rightarrow> nat \<times> AckList" where
  "ack_clear_loop una i count l =
     (if i < length (numbers l)
      then if numbers l ! i < una then ack_clear_loop una (i + 1) count l
           else ack_clear_loop una (i + 1) (count + 1) (if i \<noteq> count then ack_move count i l else l)
      else (count, l))"
  by pat_completeness auto
termination
  by (relation "measure (\<lambda>(una, i, count, l). length (numbers l) - i)") (auto simp: ack_move_def)

declare ack_clear_loop.simps [simp del]

definition ack_Clear :: "u32 \<Rightarrow> AckList \<Rightarrow> AckList" where
  "ack_Clear una l =
     (case ack_clear_loop una 0 0 l of
        (count, l') \<Rightarrow>
          if count < length (numbers l')
          then l'\<lparr>numbers := take count (numbers l'), timestamps := take count (timestamps l'),
                  nextFlush := take count (nextFlush l'), dirty := True\<rparr>
          else l')"

text \<open>
  \<^verbatim>\<open>Flush\<close>: the loop over the numbers (the segment being filled and the segments written are
  its variables), and the last segment with the candidates.
\<close>

function ack_flush_loop ::
  "u32 \<Rightarrow> u32 \<Rightarrow> nat \<Rightarrow> AckList \<Rightarrow> AckSegment \<Rightarrow> AckSegment list \<Rightarrow> AckList \<times> AckSegment \<times> AckSegment list" where
  "ack_flush_loop current r i l seg out =
     (if i < length (numbers l)
      then if nextFlush l ! i > current
           then ack_flush_loop current r (i + 1)
                  (if length (flushCandidates l) < 128
                   then l\<lparr>flushCandidates := flushCandidates l @ [numbers l ! i]\<rparr> else l) seg out
           else let seg1 = PutTimestamp (timestamps l ! i) (PutNumber (numbers l ! i) seg);
                    timeout = (if r div 2 < 20 then 20 else r div 2);
                    l1 = l\<lparr>nextFlush := (nextFlush l)[i := current + timeout]\<rparr>
                in if ack_IsFull seg1
                   then ack_flush_loop current r (i + 1) (l1\<lparr>dirty := False\<rparr>) NewAckSegment (out @ [seg1])
                   else ack_flush_loop current r (i + 1) l1 seg1 out
      else (l, seg, out))"
  by pat_completeness auto
termination
  by (relation "measure (\<lambda>(current, r, i, l, seg, out). length (numbers l) - i)") (auto simp: Let_def)

declare ack_flush_loop.simps [simp del]

fun put_candidates :: "u32 list \<Rightarrow> AckSegment \<Rightarrow> AckSegment" where
  "put_candidates [] seg = seg"
| "put_candidates (n # ns) seg = (if ack_IsFull seg then seg else put_candidates ns (PutNumber n seg))"

definition ack_Flush :: "u32 \<Rightarrow> u32 \<Rightarrow> AckList \<Rightarrow> AckList \<times> AckSegment list" where
  "ack_Flush current r l =
     (case ack_flush_loop current r 0 (l\<lparr>flushCandidates := []\<rparr>) NewAckSegment [] of
        (l1, seg, out) \<Rightarrow>
          if dirty l1 \<or> \<not> ack_IsEmpty seg
          then (l1\<lparr>dirty := False\<rparr>, out @ [put_candidates (flushCandidates l1) seg])
          else (l1, out))"

section \<open>\<^verbatim>\<open>ReceivingWorker\<close>\<close>

record ReceivingWorker =
  leftOver :: "MultiBuffer option"
  rwindow :: ReceivingWindow
  acklist :: AckList
  rnextNumber :: u32
  rwindowSize :: u32

definition NewReceivingWorker :: "Config \<Rightarrow> ReceivingWorker option" where
  "NewReceivingWorker conf = do {
     ws \<leftarrow> GetReceivingInFlightSize (Some conf);
     Some \<lparr>leftOver = None, rwindow = NewReceivingWindow, acklist = NewAckList, rnextNumber = 0, rwindowSize = ws\<rparr>
   }"

definition rcv_Release :: "ReceivingWorker \<Rightarrow> ReceivingWorker" where
  "rcv_Release w = w\<lparr>leftOver := None\<rparr>"

definition ProcessSendingNext :: "u32 \<Rightarrow> ReceivingWorker \<Rightarrow> ReceivingWorker" where
  "ProcessSendingNext number w = w\<lparr>acklist := ack_Clear number (acklist w)\<rparr>"

definition rcv_ProcessSegment :: "DataSegment \<Rightarrow> ReceivingWorker \<Rightarrow> ReceivingWorker" where
  "rcv_ProcessSegment seg w =
     (let number = Number seg; idx = number - rnextNumber w
      in if idx \<ge> rwindowSize w then w
         else w\<lparr>acklist := ack_Add number (dTimestamp seg) (ack_Clear (dSendingNext seg) (acklist w)),
                rwindow := snd (rw_Set (Number seg) seg (rwindow w))\<rparr>)"

text \<open>
  The loop of \<^verbatim>\<open>ReadMultiBuffer\<close>. Every segment of the parser has a payload, so
  \<^verbatim>\<open>Detach\<close> does not return nil; a nil would be an empty buffer.
\<close>

function read_loop :: "ReceivingWindow \<Rightarrow> u32 \<Rightarrow> MultiBuffer \<Rightarrow> MultiBuffer \<times> ReceivingWindow \<times> u32" where
  "read_loop win n mb =
     (case rw_Remove n win of
        (None, win') \<Rightarrow> (mb, win', n)
      | (Some seg, win') \<Rightarrow>
          read_loop win' (n + 1) (case fst (ds_Detach seg) of None \<Rightarrow> mb | Some b \<Rightarrow> mb @ [b]))"
  by pat_completeness auto
termination
  by (relation "measure (\<lambda>(win, n, mb). length win)")
     (auto simp: rw_Remove_def length_delete_less split: option.splits)

declare read_loop.simps [simp del]

definition rcv_ReadMultiBuffer :: "ReceivingWorker \<Rightarrow> MultiBuffer \<times> ReceivingWorker" where
  "rcv_ReadMultiBuffer w =
     (case leftOver w of
        Some mb \<Rightarrow> (mb, w\<lparr>leftOver := None\<rparr>)
      | None \<Rightarrow>
          (case read_loop (rwindow w) (rnextNumber w) [] of
             (mb, win, n) \<Rightarrow> (mb, w\<lparr>rwindow := win, rnextNumber := n\<rparr>)))"

text \<open>\<^verbatim>\<open>Read\<close> into a slice of \<open>k\<close> bytes.\<close>

definition rcv_Read :: "nat \<Rightarrow> ReceivingWorker \<Rightarrow> (byte list \<times> ReceivingWorker) option" where
  "rcv_Read k w =
     (case rcv_ReadMultiBuffer w of
        (mb, w1) \<Rightarrow>
          if mb_IsEmpty mb then Some ([], w1)
          else case SplitBytes mb k of
                 None \<Rightarrow> None
               | Some (mb', xs) \<Rightarrow> Some (xs, if mb_IsEmpty mb' then w1 else w1\<lparr>leftOver := Some mb'\<rparr>))"

definition IsDataAvailable :: "ReceivingWorker \<Rightarrow> bool" where
  "IsDataAvailable w \<longleftrightarrow> rw_Has (rnextNumber w) (rwindow w)"

text \<open>\<^verbatim>\<open>Write\<close>: the fields it sets on an acknowledgement.\<close>

definition rcv_Write :: "u16 \<Rightarrow> bool \<Rightarrow> ReceivingWorker \<Rightarrow> AckSegment \<Rightarrow> AckSegment" where
  "rcv_Write conv closing w seg =
     seg\<lparr>aConv := conv, aReceivingNext := rnextNumber w, ReceivingWindow := rnextNumber w + rwindowSize w,
         aOption := (if closing then SegmentOptionClose else 0)\<rparr>"

definition rcv_Flush :: "u16 \<Rightarrow> bool \<Rightarrow> RoundTripInfo \<Rightarrow> u32 \<Rightarrow> ReceivingWorker \<Rightarrow> ReceivingWorker \<times> AckSegment list" where
  "rcv_Flush conv closing info current w =
     (case ack_Flush current (Timeout info) (acklist w) of
        (l, segs) \<Rightarrow> (w\<lparr>acklist := l\<rparr>, map (rcv_Write conv closing w) segs))"

definition rcv_UpdateNecessary :: "ReceivingWorker \<Rightarrow> bool" where
  "rcv_UpdateNecessary w \<longleftrightarrow> length (numbers (acklist w)) > 0"

section \<open>The acknowledgement list\<close>

definition ack_wf :: "AckList \<Rightarrow> bool" where
  "ack_wf l \<longleftrightarrow> length (timestamps l) = length (numbers l) \<and> length (nextFlush l) = length (numbers l)"

text \<open>The list as one sequence of (number, timestamp, next flush).\<close>

definition ack_entries :: "AckList \<Rightarrow> (u32 \<times> u32 \<times> u32) list" where
  "ack_entries l = zip (numbers l) (zip (timestamps l) (nextFlush l))"

lemma ack_entries_facts:
  assumes "ack_wf l"
  shows "length (ack_entries l) = length (numbers l)" "map fst (ack_entries l) = numbers l"
    and "i < length (numbers l) \<Longrightarrow> ack_entries l ! i = (numbers l ! i, timestamps l ! i, nextFlush l ! i)"
  using assms by (simp_all add: ack_wf_def ack_entries_def)

lemma ack_Add_spec:
  "ack_wf l \<Longrightarrow> ack_wf (ack_Add n t l) \<and> ack_entries (ack_Add n t l) = ack_entries l @ [(n, t, 0)]"
  by (simp add: ack_wf_def ack_Add_def ack_entries_def)

lemma ack_move_spec:
  assumes "ack_wf l" "count < length (numbers l)" "i < length (numbers l)"
  shows "ack_wf (ack_move count i l)" "length (numbers (ack_move count i l)) = length (numbers l)"
    and "ack_entries (ack_move count i l) = (ack_entries l)[count := ack_entries l ! i]"
  using assms by (simp_all add: ack_wf_def ack_move_def ack_entries_def zip_update)

lemma ack_clear_loop_spec:
  assumes "ack_wf l" "count \<le> i" "i \<le> length (numbers l)" "ack_clear_loop una i count l = (c, l')"
  shows "ack_wf l' \<and> length (numbers l') = length (numbers l) \<and> c \<le> length (numbers l) \<and>
     take c (ack_entries l') = take count (ack_entries l) @ filter (\<lambda>e. \<not> fst e < una) (drop i (ack_entries l)) \<and>
     flushCandidates l' = flushCandidates l \<and> dirty l' = dirty l"
  using assms
proof (induction una i count l rule: ack_clear_loop.induct)
  case (1 una i count l)
  show ?case
  proof (cases "i < length (numbers l)")
    case False
    then have "c = count" "l' = l" using 1(6) ack_clear_loop.simps [of una i count l] by simp_all
    then show ?thesis using 1(3-5) False ack_entries_facts(1) [OF 1(3)] by simp
  next
    case True
    note e = ack_entries_facts [OF 1(3)]
    have d: "drop i (ack_entries l) = ack_entries l ! i # drop (Suc i) (ack_entries l)"
      using True e(1) by (simp add: Cons_nth_drop_Suc)
    show ?thesis
    proof (cases "numbers l ! i < una")
      case skip: True
      then have "ack_clear_loop una (i + 1) count l = (c, l')"
        using 1(6) True ack_clear_loop.simps [of una i count l] by simp
      then show ?thesis using 1(1) [OF True skip 1(3)] 1(4) True skip d e(3) [OF True] by simp
    next
      case keep: False
      define l1 where "l1 = (if i \<noteq> count then ack_move count i l else l)"
      have c: "count < length (numbers l)" using 1(4) True by simp
      have l1: "ack_wf l1" "length (numbers l1) = length (numbers l)"
        "ack_entries l1 = (ack_entries l)[count := ack_entries l ! i]"
        "flushCandidates l1 = flushCandidates l" "dirty l1 = dirty l"
        using ack_move_spec [OF 1(3) c True] 1(3) by (auto simp: l1_def ack_move_def)
      have "ack_clear_loop una (i + 1) (count + 1) l1 = (c, l')"
        using 1(6) True keep ack_clear_loop.simps [of una i count l] by (simp add: l1_def)
      from 1(2) [OF True keep, folded l1_def, OF l1(1) _ _ this]
      have IH: "ack_wf l' \<and> length (numbers l') = length (numbers l1) \<and> c \<le> length (numbers l1) \<and>
        take c (ack_entries l') = take (count + 1) (ack_entries l1) @
          filter (\<lambda>e. \<not> fst e < una) (drop (i + 1) (ack_entries l1)) \<and>
        flushCandidates l' = flushCandidates l1 \<and> dirty l' = dirty l1"
        using 1(4) True l1(2) by simp
      have "take (count + 1) (ack_entries l1) = take count (ack_entries l) @ [ack_entries l ! i]"
        using l1(3) c e(1) by (simp add: take_Suc_conv_app_nth)
      moreover have "drop (i + 1) (ack_entries l1) = drop (Suc i) (ack_entries l)"
        using l1(3) 1(4) by simp
      ultimately show ?thesis using IH l1 d keep e(3) [OF True] by simp
    qed
  qed
qed

lemma ack_entries_take:
  "ack_entries (l\<lparr>numbers := take c (numbers l), timestamps := take c (timestamps l),
     nextFlush := take c (nextFlush l), dirty := b\<rparr>) = take c (ack_entries l)"
  by (simp add: ack_entries_def take_zip)

text \<open>The compaction in place is a filter.\<close>

lemma ack_Clear_spec:
  assumes "ack_wf l"
  shows "ack_wf (ack_Clear una l) \<and> ack_entries (ack_Clear una l) = filter (\<lambda>e. \<not> fst e < una) (ack_entries l) \<and>
     (dirty (ack_Clear una l) \<longleftrightarrow> dirty l \<or> (\<exists>n\<in>set (numbers l). n < una))"
proof -
  obtain c l' where c: "ack_clear_loop una 0 0 l = (c, l')" by (cases "ack_clear_loop una 0 0 l")
  have l': "ack_wf l'" "length (numbers l') = length (numbers l)" "c \<le> length (numbers l)"
    "take c (ack_entries l') = filter (\<lambda>e. \<not> fst e < una) (ack_entries l)" "dirty l' = dirty l"
    using ack_clear_loop_spec [OF assms _ _ c] by simp_all
  have len: "length (filter (\<lambda>e. \<not> fst e < una) (ack_entries l)) = c"
    using l'(2,3) ack_entries_facts(1) [OF l'(1)] by (simp flip: l'(4))
  have "(\<exists>n\<in>set (numbers l). n < una) \<longleftrightarrow> (\<exists>e\<in>set (ack_entries l). \<not> (\<lambda>e. \<not> fst e < una) e)"
    by (subst ack_entries_facts(2) [OF assms, symmetric]) (auto simp: split_def)
  also have "\<dots> \<longleftrightarrow> c < length (numbers l)"
    using len ack_entries_facts(1) [OF assms] length_filter_less [of _ "ack_entries l" "\<lambda>e. \<not> fst e < una"]
      filter_id_conv [of "\<lambda>e. \<not> fst e < una" "ack_entries l"]
    by (metis less_irrefl)
  finally have "(\<exists>n\<in>set (numbers l). n < una) \<longleftrightarrow> c < length (numbers l)" .
  moreover have "c = length (numbers l) \<Longrightarrow> take c (ack_entries l') = ack_entries l'"
    using l'(2) ack_entries_facts(1) [OF l'(1)] by simp
  ultimately show ?thesis
    using c l' ack_entries_take [where l = l' and c = c and b = True]
    by (auto simp: ack_Clear_def ack_wf_def)
qed

text \<open>The numbers that \<^verbatim>\<open>Flush\<close> has to send now.\<close>

definition due_acks :: "u32 \<Rightarrow> AckList \<Rightarrow> u32 list" where
  "due_acks current l = map fst (filter (\<lambda>(n, t, f). \<not> f > current) (ack_entries l))"

lemma NumberList_Put [simp]:
  "NumberList (PutTimestamp t seg) = NumberList seg" "NumberList (PutNumber n seg) = NumberList seg @ [n]"
  "NumberList NewAckSegment = []"
  by (simp_all add: PutTimestamp_def PutNumber_def NewAckSegment_def)

lemma ack_flush_loop_spec:
  assumes "ack_wf l" "ack_flush_loop current r i l seg out = (l', seg', out')" "length (NumberList seg) < 128"
    "set (flushCandidates l) \<subseteq> set (numbers l)" "\<forall>s\<in>set out. length (NumberList s) \<le> 128"
  shows "ack_wf l' \<and> numbers l' = numbers l \<and> set (flushCandidates l') \<subseteq> set (numbers l) \<and>
     length (NumberList seg') < 128 \<and> (\<forall>s\<in>set out'. length (NumberList s) \<le> 128) \<and>
     concat (map NumberList out') @ NumberList seg' = concat (map NumberList out) @ NumberList seg @
       map fst (filter (\<lambda>(n, t, f). \<not> f > current) (drop i (ack_entries l))) \<and>
     (\<exists>o'. out' = out @ o' \<and> dirty l' = (dirty l \<and> o' = []))"
  using assms
proof (induction current r i l seg out arbitrary: l' seg' out' rule: ack_flush_loop.induct)
  case (1 current r i l seg out)
  note e = ack_entries_facts [OF 1(4)]
  note step = ack_flush_loop.simps [of current r i l seg out]
  show ?case
  proof (cases "i < length (numbers l)")
    case False
    then show ?thesis using 1(4-8) step e(1) by auto
  next
    case True
    have d: "drop i (ack_entries l) = ack_entries l ! i # drop (Suc i) (ack_entries l)"
      using True e(1) by (simp add: Cons_nth_drop_Suc)
    show ?thesis
    proof (cases "nextFlush l ! i > current")
      case later: True
      define l1 where "l1 = (if length (flushCandidates l) < 128
          then l\<lparr>flushCandidates := flushCandidates l @ [numbers l ! i]\<rparr> else l)"
      have l1: "ack_wf l1" "numbers l1 = numbers l" "ack_entries l1 = ack_entries l" "dirty l1 = dirty l"
        "set (flushCandidates l1) \<subseteq> set (numbers l1)"
        using 1(4,7) True by (auto simp: l1_def ack_wf_def ack_entries_def)
      have "ack_flush_loop current r (i + 1) l1 seg out = (l', seg', out')"
        using 1(5) step True later by (simp add: l1_def)
      from 1(1) [OF True later, folded l1_def, OF l1(1) this 1(6) l1(5) 1(8)]
      show ?thesis using l1 later d e(3) [OF True] by simp
    next
      case now: False
      define l1 where "l1 = l\<lparr>nextFlush := (nextFlush l)[i := current + (if r div 2 < 20 then 20 else r div 2)]\<rparr>"
      define seg1 where "seg1 = PutTimestamp (timestamps l ! i) (PutNumber (numbers l ! i) seg)"
      have l1: "ack_wf l1" "numbers l1 = numbers l" "drop (Suc i) (ack_entries l1) = drop (Suc i) (ack_entries l)"
        "dirty l1 = dirty l" "set (flushCandidates l1) \<subseteq> set (numbers l1)"
        using 1(4,7) by (auto simp: l1_def ack_wf_def ack_entries_def drop_zip)
      have seg1: "NumberList seg1 = NumberList seg @ [numbers l ! i]" by (simp add: seg1_def)
      show ?thesis
      proof (cases "ack_IsFull seg1")
        case full: True
        let ?l2 = "l1\<lparr>dirty := False\<rparr>"
        have l2: "ack_wf ?l2" "ack_entries ?l2 = ack_entries l1" "set (flushCandidates ?l2) \<subseteq> set (numbers ?l2)"
          using l1(1,5) by (simp_all add: ack_wf_def ack_entries_def)
        have run: "ack_flush_loop current r (i + 1) ?l2 NewAckSegment (out @ [seg1]) = (l', seg', out')"
          using 1(5) step True now full by (simp add: l1_def seg1_def Let_def)
        have small: "length (NumberList NewAckSegment) < 128" "\<forall>s\<in>set (out @ [seg1]). length (NumberList s) \<le> 128"
          using 1(6,8) seg1 by auto
        from 1(2) [OF True now seg1_def refl l1_def full, OF l2(1) run small(1) l2(3) small(2)]
        show ?thesis using l1 l2(2) seg1 now d e(3) [OF True] by auto
      next
        case room: False
        have run: "ack_flush_loop current r (i + 1) l1 seg1 out = (l', seg', out')"
          using 1(5) step True now room by (simp add: l1_def seg1_def Let_def)
        have small: "length (NumberList seg1) < 128"
          using 1(6) seg1 room by (simp add: ack_IsFull_def ackNumberLimit_def)
        from 1(3) [OF True now seg1_def refl l1_def room, OF l1(1) run small l1(5) 1(8)]
        show ?thesis using l1 seg1 now d e(3) [OF True] by auto
      qed
    qed
  qed
qed

lemma put_candidates_spec:
  "length (NumberList seg) \<le> 128 \<Longrightarrow> length (NumberList (put_candidates ns seg)) \<le> 128 \<and>
     (\<exists>k. NumberList (put_candidates ns seg) = NumberList seg @ take k ns)"
proof (induction ns seg rule: put_candidates.induct)
  case (2 n ns seg)
  show ?case
  proof (cases "ack_IsFull seg")
    case True
    then show ?thesis using 2(2) by (auto intro: exI [of _ 0])
  next
    case False
    then have "length (NumberList (PutNumber n seg)) \<le> 128"
      using 2(2) by (simp add: ack_IsFull_def ackNumberLimit_def)
    with 2(1) [OF False] obtain k where
      "length (NumberList (put_candidates ns (PutNumber n seg))) \<le> 128"
      "NumberList (put_candidates ns (PutNumber n seg)) = NumberList seg @ take (Suc k) (n # ns)" by auto
    with False show ?thesis by (auto simp del: take_Suc_Cons)
  qed
qed simp

text \<open>The loop only writes full segments.\<close>

lemma ack_flush_full:
  "ack_flush_loop current r i l seg out = (l', seg', out') \<Longrightarrow> out' \<noteq> out \<Longrightarrow>
     \<exists>s\<in>set out'. NumberList s \<noteq> []"
proof (induction current r i l seg out arbitrary: l' seg' out' rule: ack_flush_loop.induct)
  case (1 current r i l seg out)
  note step = ack_flush_loop.simps [of current r i l seg out]
  show ?case
  proof (cases "i < length (numbers l)")
    case True
    show ?thesis
    proof (cases "nextFlush l ! i > current")
      case now: False
      define l1 where "l1 = l\<lparr>nextFlush := (nextFlush l)[i := current + (if r div 2 < 20 then 20 else r div 2)]\<rparr>"
      define seg1 where "seg1 = PutTimestamp (timestamps l ! i) (PutNumber (numbers l ! i) seg)"
      show ?thesis
      proof (cases "ack_IsFull seg1")
        case full: True
        have run: "ack_flush_loop current r (i + 1) (l1\<lparr>dirty := False\<rparr>) NewAckSegment (out @ [seg1]) = (l', seg', out')"
          using 1(4) step True now full by (simp add: l1_def seg1_def Let_def)
        have "NumberList seg1 \<noteq> []" by (simp add: seg1_def)
        then show ?thesis using 1(2) [OF True now seg1_def refl l1_def full run] by (cases "out' = out @ [seg1]") auto
      next
        case room: False
        have run: "ack_flush_loop current r (i + 1) l1 seg1 out = (l', seg', out')"
          using 1(4) step True now room by (simp add: l1_def seg1_def Let_def)
        show ?thesis by (rule 1(3) [OF True now seg1_def refl l1_def room run 1(5)])
      qed
    qed (use 1 True step in simp)
  qed (use 1 step in simp)
qed

lemma ack_Flush_spec:
  assumes "ack_wf l" "ack_Flush current r l = (l', out)"
  shows "ack_wf l' \<and> numbers l' = numbers l \<and> (\<forall>s\<in>set out. length (NumberList s) \<le> 128) \<and>
     (\<exists>cs. concat (map NumberList out) = due_acks current l @ cs \<and> set cs \<subseteq> set (numbers l)) \<and>
     (out = [] \<longleftrightarrow> \<not> dirty l \<and> due_acks current l = [])"
proof -
  let ?l = "l\<lparr>flushCandidates := []\<rparr>"
  obtain l1 seg o1 where f: "ack_flush_loop current r 0 ?l NewAckSegment [] = (l1, seg, o1)"
    by (cases "ack_flush_loop current r 0 ?l NewAckSegment []")
  have "ack_wf ?l" "ack_entries ?l = ack_entries l" using assms(1) by (simp_all add: ack_wf_def ack_entries_def)
  with ack_flush_loop_spec [OF _ f] have l1: "ack_wf l1" "numbers l1 = numbers l"
    "set (flushCandidates l1) \<subseteq> set (numbers l)" "length (NumberList seg) < 128"
    "\<forall>s\<in>set o1. length (NumberList s) \<le> 128"
    "concat (map NumberList o1) @ NumberList seg = due_acks current l"
    "dirty l1 = (dirty l \<and> o1 = [])"
    by (simp_all add: due_acks_def)
  obtain k where k: "length (NumberList (put_candidates (flushCandidates l1) seg)) \<le> 128"
    "NumberList (put_candidates (flushCandidates l1) seg) = NumberList seg @ take k (flushCandidates l1)"
    using put_candidates_spec [of seg "flushCandidates l1"] l1(4) by auto
  have sub: "set (take k (flushCandidates l1)) \<subseteq> set (numbers l)"
    using l1(3) set_take_subset [of k "flushCandidates l1"] by blast
  show ?thesis
  proof (cases "dirty l1 \<or> \<not> ack_IsEmpty seg")
    case True
    then have r: "l' = l1\<lparr>dirty := False\<rparr>" "out = o1 @ [put_candidates (flushCandidates l1) seg]"
      using assms(2) f by (auto simp: ack_Flush_def)
    have "concat (map NumberList out) = due_acks current l @ take k (flushCandidates l1)"
      using r(2) k(2) l1(6) by simp
    moreover have "dirty l \<or> due_acks current l \<noteq> []" using True l1(6,7) by (auto simp: ack_IsEmpty_def)
    ultimately show ?thesis using r l1 k sub by (auto simp: ack_wf_def)
  next
    case False
    then have r: "l' = l1" "out = o1" using assms(2) f by (auto simp: ack_Flush_def)
    have "NumberList seg = []" using False by (simp add: ack_IsEmpty_def)
    moreover have "o1 = [] \<Longrightarrow> \<not> dirty l" using False l1(7) by simp
    moreover have "o1 \<noteq> [] \<Longrightarrow> dirty l \<or> due_acks current l \<noteq> []"
      using ack_flush_full [OF f] l1(6) by auto
    ultimately show ?thesis using r l1 by (auto simp: ack_wf_def)
  qed
qed

section \<open>The reordering window\<close>

text \<open>
  The invariant of the worker: every segment of the window is stored under its own number, has a
  payload, and lies less than \<^verbatim>\<open>windowSize\<close> behind \<^verbatim>\<open>nextNumber\<close>, in the
  arithmetic of the number space.
\<close>

definition rcv_wf :: "ReceivingWorker \<Rightarrow> bool" where
  "rcv_wf w \<longleftrightarrow> ack_wf (acklist w) \<and>
     (\<forall>k seg. map_of (rwindow w) k = Some seg \<longrightarrow>
        Number seg = k \<and> payload seg \<noteq> None \<and> k - rnextNumber w < rwindowSize w)"

lemma map_of_delete [simp]: "map_of (AList.delete k m) = (map_of m)(k := None)"
  by (simp add: delete_conv')

lemma offset_step: "x \<noteq> n \<Longrightarrow> x - n < ws \<Longrightarrow> x - (n + 1) < ws" for x n ws :: u32
proof -
  assume "x \<noteq> n" and lt: "x - n < ws"
  then have "1 \<le> x - n" by (simp add: word_le_nat_alt Suc_le_eq unat_gt_0)
  then have "unat (x - n - 1) \<le> unat (x - n)" by (simp add: unat_sub)
  then show ?thesis using lt by (simp add: word_less_nat_alt diff_diff_eq)
qed

lemma unat_numeral_u32_max: "unat (0xFFFFFFFF :: u32) = 0xFFFFFFFF"
  by simp

lemma offset_last: "\<not> (n + - 1) - n < ws" for n ws :: u32
proof -
  have "(- 1 :: u32) = 0xFFFFFFFF" by simp
  then have "unat (- 1 :: u32) = 0xFFFFFFFF" by (metis unat_numeral_u32_max)
  then show ?thesis using unat_u32 [of ws] by (simp add: word_less_nat_alt)
qed

definition at_offset :: "ReceivingWindow \<Rightarrow> u32 \<Rightarrow> nat \<Rightarrow> DataSegment option" where
  "at_offset win n i = map_of win (n + of_nat i)"

lemma read_loop_spec:
  assumes "\<forall>k seg. map_of win k = Some seg \<longrightarrow> payload seg \<noteq> None \<and> k - n < ws"
    and "read_loop win n mb = (mb', win', n')"
  shows "\<exists>k. n' = n + of_nat k \<and> (\<forall>i<k. at_offset win n i \<noteq> None) \<and> at_offset win n k = None \<and>
     (\<forall>x seg. map_of win' x = Some seg \<longrightarrow> map_of win x = Some seg \<and> x - n' < ws) \<and>
     map_of win' = map_of win |` (- (\<lambda>i. n + of_nat i) ` {..<k}) \<and>
     mb' = mb @ map (\<lambda>i. the (payload (the (at_offset win n i)))) [0..<k]"
  using assms
proof (induction win n mb rule: read_loop.induct)
  case (1 win n mb)
  note step = read_loop.simps [of win n mb]
  show ?case
  proof (cases "map_of win n")
    case None
    then have "mb' = mb" "win' = win" "n' = n" using 1(3) step by (auto simp: rw_Remove_def)
    then show ?thesis using None 1(2) by (intro exI [of _ 0]) (simp add: at_offset_def)
  next
    case (Some seg)
    then obtain b where b: "payload seg = Some b" using 1(2) by blast
    let ?win = "AList.delete n win"
    have rm: "rw_Remove n win = (Some seg, ?win)" using Some by (simp add: rw_Remove_def)
    have mb: "(case fst (ds_Detach seg) of None \<Rightarrow> mb | Some b \<Rightarrow> mb @ [b]) = mb @ [b]"
      using b by (simp add: ds_Detach_def)
    have run: "read_loop ?win (n + 1) (case fst (ds_Detach seg) of None \<Rightarrow> mb | Some b \<Rightarrow> mb @ [b]) = (mb', win', n')"
      using 1(3) step rm by simp
    have inv: "\<forall>k seg. map_of ?win k = Some seg \<longrightarrow> payload seg \<noteq> None \<and> k - (n + 1) < ws"
      using 1(2) offset_step by auto
    from 1(1) [OF rm [symmetric] refl inv run, unfolded mb append_assoc] obtain k where
      k: "n' = n + 1 + of_nat k" "\<forall>i<k. at_offset ?win (n + 1) i \<noteq> None" "at_offset ?win (n + 1) k = None"
        "\<forall>x seg. map_of win' x = Some seg \<longrightarrow> map_of ?win x = Some seg \<and> x - n' < ws"
        "map_of win' = map_of ?win |` (- (\<lambda>i. n + 1 + of_nat i) ` {..<k})"
        "mb' = mb @ [b] @ map (\<lambda>i. the (payload (the (at_offset ?win (n + 1) i)))) [0..<k]"
      by blast
    have nz: "(1 :: u32) + of_nat k \<noteq> 0"
    proof
      assume z: "(1 :: u32) + of_nat k = 0"
      then have m: "of_nat k = (- 1 :: u32)" by (metis add.commute add_eq_0_iff)
      then obtain j where j: "k = Suc j" by (cases k) auto
      then have "at_offset ?win (n + 1) j \<noteq> None" using k(2) by simp
      then have "map_of win (n + of_nat k) \<noteq> None"
        using j by (auto simp: at_offset_def add.assoc split: if_splits)
      then have "n + of_nat k - n < ws" using 1(2) by blast
      then show False using offset_last [of n ws] m by simp
    qed
    have off: "at_offset ?win (n + 1) i = at_offset win n (Suc i)" if "i < k" for i
      using k(2) that by (auto simp: at_offset_def add.assoc split: if_splits)
    have "\<forall>i<Suc k. at_offset win n i \<noteq> None"
      using k(2) off Some by (auto simp: less_Suc_eq_0_disj at_offset_def)
    moreover have "at_offset win n (Suc k) = None"
      using k(3) nz by (auto simp: at_offset_def add.assoc split: if_splits)
    moreover have "mb' = mb @ map (\<lambda>i. the (payload (the (at_offset win n i)))) [0..<Suc k]"
      using k(6) off Some b by (simp add: map_upt_Suc at_offset_def del: upt_Suc)
    moreover have "n' = n + of_nat (Suc k)" using k(1) by (simp add: add.assoc)
    moreover have "map_of win x = Some seg" if "map_of ?win x = Some seg" for x seg
      using that by (auto split: if_splits)
    moreover have "(\<lambda>i. n + of_nat i) ` {..<Suc k} = insert n ((\<lambda>i. n + 1 + of_nat i) ` {..<k})"
      by (simp add: lessThan_Suc_eq_insert_0 image_image add.assoc)
    then have "map_of win' = map_of win |` (- (\<lambda>i. n + of_nat i) ` {..<Suc k})"
      unfolding k(5) by (auto simp: restrict_map_def fun_eq_iff)
    ultimately show ?thesis using k(4) by (intro exI [of _ "Suc k"]) blast
  qed
qed

section \<open>The worker\<close>

lemma map_of_rw_Set:
  "map_of (snd (rw_Set i seg w)) = (if map_of w i = None then (map_of w)(i \<mapsto> seg) else map_of w)"
  by (auto simp: rw_Set_def split: option.splits)

lemma ProcessSendingNext_wf [wf_intros]: "rcv_wf w \<Longrightarrow> rcv_wf (ProcessSendingNext n w)"
  using ack_Clear_spec [of "acklist w" n] by (simp add: rcv_wf_def ProcessSendingNext_def)

lemma rcv_ProcessSegment_frame [simp]:
  "rnextNumber (rcv_ProcessSegment seg w) = rnextNumber w"
  "rwindowSize (rcv_ProcessSegment seg w) = rwindowSize w"
  "leftOver (rcv_ProcessSegment seg w) = leftOver w"
  by (simp_all add: rcv_ProcessSegment_def Let_def)

lemma rcv_ProcessSegment_window:
  "map_of (rwindow (rcv_ProcessSegment seg w)) =
     (if Number seg - rnextNumber w < rwindowSize w \<and> map_of (rwindow w) (Number seg) = None
      then (map_of (rwindow w))(Number seg \<mapsto> seg) else map_of (rwindow w))"
  by (auto simp: rcv_ProcessSegment_def Let_def map_of_rw_Set not_le)

lemma rcv_ProcessSegment_wf [wf_intros]:
  assumes "rcv_wf w" "payload seg \<noteq> None"
  shows "rcv_wf (rcv_ProcessSegment seg w)"
proof -
  have "ack_wf (acklist (rcv_ProcessSegment seg w))"
    using assms ack_Clear_spec [of "acklist w" "dSendingNext seg"]
      ack_Add_spec [of "ack_Clear (dSendingNext seg) (acklist w)" "Number seg" "dTimestamp seg"]
    by (simp add: rcv_wf_def rcv_ProcessSegment_def Let_def)
  then show ?thesis using assms by (auto simp: rcv_wf_def rcv_ProcessSegment_window split: if_splits)
qed

lemma rcv_ReadMultiBuffer_spec:
  assumes "rcv_wf w" "leftOver w = None" "rcv_ReadMultiBuffer w = (mb, w')"
  shows "\<exists>k. rnextNumber w' = rnextNumber w + of_nat k \<and>
     (\<forall>i<k. at_offset (rwindow w) (rnextNumber w) i \<noteq> None) \<and> at_offset (rwindow w) (rnextNumber w) k = None \<and>
     mb = map (\<lambda>i. the (payload (the (at_offset (rwindow w) (rnextNumber w) i)))) [0..<k] \<and>
     map_of (rwindow w') = map_of (rwindow w) |` (- (\<lambda>i. rnextNumber w + of_nat i) ` {..<k}) \<and> rcv_wf w' \<and>
     acklist w' = acklist w \<and> rwindowSize w' = rwindowSize w \<and> leftOver w' = None"
proof -
  obtain win n where r: "read_loop (rwindow w) (rnextNumber w) [] = (mb, win, n)" "w' = w\<lparr>rwindow := win, rnextNumber := n\<rparr>"
    using assms(2,3) by (auto simp: rcv_ReadMultiBuffer_def split: prod.splits)
  have "\<forall>k seg. map_of (rwindow w) k = Some seg \<longrightarrow> payload seg \<noteq> None \<and> k - rnextNumber w < rwindowSize w"
    using assms(1) by (simp add: rcv_wf_def)
  from read_loop_spec [OF this r(1), unfolded append_Nil] obtain k where k: "n = rnextNumber w + of_nat k"
    "\<forall>i<k. at_offset (rwindow w) (rnextNumber w) i \<noteq> None" "at_offset (rwindow w) (rnextNumber w) k = None"
    "\<forall>x seg. map_of win x = Some seg \<longrightarrow> map_of (rwindow w) x = Some seg \<and> x - n < rwindowSize w"
    "map_of win = map_of (rwindow w) |` (- (\<lambda>i. rnextNumber w + of_nat i) ` {..<k})"
    "mb = map (\<lambda>i. the (payload (the (at_offset (rwindow w) (rnextNumber w) i)))) [0..<k]"
    by blast
  have "Number seg = x \<and> payload seg \<noteq> None \<and> x - n < rwindowSize w" if "map_of win x = Some seg" for x seg
    using that assms(1) k(4) unfolding rcv_wf_def by blast
  then have "rcv_wf w'" using assms(1) r(2) by (simp add: rcv_wf_def)
  then show ?thesis using k r(2) assms(2) by auto
qed

section \<open>Properties\<close>

text \<open>
  C6: the receiver reorders correctly: reading returns the payloads of exactly the maximal run of
  consecutive numbers from \<^verbatim>\<open>nextNumber\<close> on, in the order of their numbers, also across the
  wrap-around of the numbers; the worker continues behind that run, keeps the segments that are
  still out of order, and keeps its invariant.
\<close>

theorem ReadMultiBuffer_in_order:
  assumes "rcv_wf w" "leftOver w = None"
  shows "\<exists>k mb w'. rcv_ReadMultiBuffer w = (mb, w') \<and> rnextNumber w' = rnextNumber w + of_nat k \<and>
     mb = map (\<lambda>i. the (payload (the (at_offset (rwindow w) (rnextNumber w) i)))) [0..<k] \<and>
     (\<forall>i<k. at_offset (rwindow w) (rnextNumber w) i \<noteq> None) \<and> at_offset (rwindow w) (rnextNumber w) k = None \<and>
     map_of (rwindow w') = map_of (rwindow w) |` (- (\<lambda>i. rnextNumber w + of_nat i) ` {..<k}) \<and> rcv_wf w'"
proof -
  obtain mb w' where r: "rcv_ReadMultiBuffer w = (mb, w')" by (cases "rcv_ReadMultiBuffer w")
  from rcv_ReadMultiBuffer_spec [OF assms r] show ?thesis using r by blast
qed

definition sample_receiver :: ReceivingWorker where
  "sample_receiver = \<lparr>leftOver = None,
     rwindow = [(0, NewDataSegment\<lparr>Number := 0, payload := Some (FromBytes [2])\<rparr>),
       (5, NewDataSegment\<lparr>Number := 5, payload := Some (FromBytes [9])\<rparr>),
       (0xFFFFFFFF, NewDataSegment\<lparr>Number := 0xFFFFFFFF, payload := Some (FromBytes [1])\<rparr>)],
     acklist = NewAckList, rnextNumber = 0xFFFFFFFF, rwindowSize = 32\<rparr>"

lemma sample_receiver_wf: "rcv_wf sample_receiver" "leftOver sample_receiver = None"
  by (auto simp: sample_receiver_def rcv_wf_def ack_wf_def NewAckList_def split: if_splits)

theorem ReadMultiBuffer_in_order_witness:
  "\<exists>w'. rcv_ReadMultiBuffer sample_receiver = ([FromBytes [1], FromBytes [2]], w') \<and> rnextNumber w' = 1"
proof -
  have o: "at_offset (rwindow sample_receiver) (rnextNumber sample_receiver) i =
      (if i = 0 then Some (NewDataSegment\<lparr>Number := 0xFFFFFFFF, payload := Some (FromBytes [1])\<rparr>)
       else if i = 1 then Some (NewDataSegment\<lparr>Number := 0, payload := Some (FromBytes [2])\<rparr>)
       else None)" if "i < 3" for i
    using that by (auto simp: sample_receiver_def at_offset_def less_Suc_eq numeral_3_eq_3)
  obtain k mb w' where k: "rcv_ReadMultiBuffer sample_receiver = (mb, w')"
    "rnextNumber w' = rnextNumber sample_receiver + of_nat k"
    "mb = map (\<lambda>i. the (payload (the (at_offset (rwindow sample_receiver) (rnextNumber sample_receiver) i)))) [0..<k]"
    "\<forall>i<k. at_offset (rwindow sample_receiver) (rnextNumber sample_receiver) i \<noteq> None"
    "at_offset (rwindow sample_receiver) (rnextNumber sample_receiver) k = None"
    using ReadMultiBuffer_in_order [OF sample_receiver_wf] by blast
  have "k = 2" using k(4,5) o [of 0] o [of 1] o [of 2] by (cases "k < 2"; cases "k = 2") (auto simp: less_Suc_eq numeral_2_eq_2)
  then show ?thesis using k(1-3) o [of 0] o [of 1] by (simp add: upt_rec) (simp add: sample_receiver_def)
qed

text \<open>
  C11: what a data segment does to the receiver: outside of the window it is ignored without an
  acknowledgement; inside, it is stored unless its number is already there (a duplicate never
  replaces data), the numbers the peer no longer waits for leave the acknowledgement list and the
  new number joins it. The invariant of the worker is kept.
\<close>

theorem ProcessSegment_window:
  assumes "rcv_wf w" "payload seg \<noteq> None"
  shows "rcv_wf (rcv_ProcessSegment seg w) \<and>
     (if Number seg - rnextNumber w < rwindowSize w
      then map_of (rwindow (rcv_ProcessSegment seg w)) =
             (case map_of (rwindow w) (Number seg) of
                None \<Rightarrow> (map_of (rwindow w))(Number seg \<mapsto> seg) | Some _ \<Rightarrow> map_of (rwindow w)) \<and>
           ack_entries (acklist (rcv_ProcessSegment seg w)) =
             filter (\<lambda>e. \<not> fst e < dSendingNext seg) (ack_entries (acklist w)) @ [(Number seg, dTimestamp seg, 0)]
      else rcv_ProcessSegment seg w = w)"
proof -
  have wf: "ack_wf (acklist w)" using assms(1) by (simp add: rcv_wf_def)
  note clear = ack_Clear_spec [OF wf, of "dSendingNext seg"]
  have "ack_entries (ack_Add (Number seg) (dTimestamp seg) (ack_Clear (dSendingNext seg) (acklist w))) =
      filter (\<lambda>e. \<not> fst e < dSendingNext seg) (ack_entries (acklist w)) @ [(Number seg, dTimestamp seg, 0)]"
    using clear ack_Add_spec [of "ack_Clear (dSendingNext seg) (acklist w)"] by simp
  then have "Number seg - rnextNumber w < rwindowSize w \<Longrightarrow>
      ack_entries (acklist (rcv_ProcessSegment seg w)) =
        filter (\<lambda>e. \<not> fst e < dSendingNext seg) (ack_entries (acklist w)) @ [(Number seg, dTimestamp seg, 0)]"
    by (simp add: rcv_ProcessSegment_def Let_def not_le [symmetric])
  moreover have "\<not> Number seg - rnextNumber w < rwindowSize w \<Longrightarrow> rcv_ProcessSegment seg w = w"
    by (simp add: rcv_ProcessSegment_def Let_def not_less)
  ultimately show ?thesis
    using rcv_ProcessSegment_wf [OF assms] by (simp add: rcv_ProcessSegment_window split: option.split)
qed

theorem ProcessSegment_window_witness:
  "map_of (rwindow (rcv_ProcessSegment (NewDataSegment\<lparr>Number := 0, payload := Some (FromBytes [7])\<rparr>) sample_receiver)) 0
     = Some (NewDataSegment\<lparr>Number := 0, payload := Some (FromBytes [2])\<rparr>)"
  using ProcessSegment_window [OF sample_receiver_wf(1), of "NewDataSegment\<lparr>Number := 0, payload := Some (FromBytes [7])\<rparr>"]
  by (simp add: sample_receiver_def)

text \<open>
  C12: acknowledgements are complete and fit their packets: \<^verbatim>\<open>Flush\<close> sends every number that
  is due, in order, adds only numbers of the list, fills no acknowledgement with more than 128
  numbers, and every acknowledgement announces the receiver's position; it is silent exactly when
  nothing is due and nothing changed.
\<close>

theorem acks_flushed:
  assumes "ack_wf (acklist w)"
  shows "case rcv_Flush conv closing info current w of (w', out) \<Rightarrow>
     (\<exists>cs. concat (map NumberList out) = due_acks current (acklist w) @ cs \<and> set cs \<subseteq> set (numbers (acklist w))) \<and>
     (\<forall>s\<in>set out. sendable (SAck s) \<and> length (NumberList s) \<le> ackNumberLimit \<and>
        aReceivingNext s = rnextNumber w \<and> ReceivingWindow s = rnextNumber w + rwindowSize w \<and> aConv s = conv) \<and>
     (out = [] \<longleftrightarrow> \<not> dirty (acklist w) \<and> due_acks current (acklist w) = []) \<and>
     ack_wf (acklist w') \<and> numbers (acklist w') = numbers (acklist w)"
proof -
  obtain l out where f: "ack_Flush current (Timeout info) (acklist w) = (l, out)"
    by (cases "ack_Flush current (Timeout info) (acklist w)")
  have n: "NumberList (rcv_Write conv closing w s) = NumberList s" for s by (simp add: rcv_Write_def)
  then have "concat (map NumberList (map (rcv_Write conv closing w) out)) = concat (map NumberList out)"
    by (simp add: comp_def)
  moreover have "length (NumberList (rcv_Write conv closing w s)) \<le> 128" if "s \<in> set out" for s
    using ack_Flush_spec [OF assms f] n that by simp
  ultimately show ?thesis
    using ack_Flush_spec [OF assms f] f
    by (auto simp: rcv_Flush_def ackNumberLimit_def less_Suc_eq_le rcv_Write_def)
qed

theorem acks_flushed_witness:
  "case rcv_Flush 7 False \<lparr>variation = 0, srtt = 0, rto = 100, minRtt = 50, updatedTimestamp = 0\<rparr> 40
     (rcv_ProcessSegment (NewDataSegment\<lparr>Number := 1, payload := Some New\<rparr>) sample_receiver) of
   (w', out) \<Rightarrow> \<exists>cs. concat (map NumberList out) = 1 # cs"
proof -
  let ?w = "rcv_ProcessSegment (NewDataSegment\<lparr>Number := 1, payload := Some New\<rparr>) sample_receiver"
  have "ack_clear_loop 0 0 0 NewAckList = (0, NewAckList)"
    by (simp add: ack_clear_loop.simps NewAckList_def)
  then have l: "acklist ?w = ack_Add 1 0 NewAckList"
    by (simp add: rcv_ProcessSegment_def sample_receiver_def NewDataSegment_def ack_Clear_def)
      (simp add: NewAckList_def)
  have "ack_wf (acklist ?w)" "due_acks 40 (acklist ?w) = [1]"
    unfolding l by (simp_all add: ack_wf_def ack_Add_def NewAckList_def due_acks_def ack_entries_def)
  then show ?thesis
    using acks_flushed [of ?w, where conv = 7 and closing = False and current = 40
        and info = "\<lparr>variation = 0, srtt = 0, rto = 100, minRtt = 50, updatedTimestamp = 0\<rparr>"]
    by (auto split: prod.splits)
qed

text \<open>
  Byte-wise reading loses nothing: \<^verbatim>\<open>Read\<close> returns the first bytes of what
  \<^verbatim>\<open>ReadMultiBuffer\<close> would have returned, and keeps exactly the others for the next call.
\<close>

theorem Read_keeps_rest:
  assumes "mb_wf (fst (rcv_ReadMultiBuffer w))"
  shows "\<exists>w'. rcv_Read k w = Some (take k (mb_content (fst (rcv_ReadMultiBuffer w))), w') \<and>
     (case leftOver w' of
        None \<Rightarrow> length (mb_content (fst (rcv_ReadMultiBuffer w))) \<le> k
      | Some mb \<Rightarrow> mb_content mb = drop k (mb_content (fst (rcv_ReadMultiBuffer w))))"
proof -
  obtain mb w1 where r: "rcv_ReadMultiBuffer w = (mb, w1)" by (cases "rcv_ReadMultiBuffer w")
  then have lo: "leftOver w1 = None" by (auto simp: rcv_ReadMultiBuffer_def split: option.splits prod.splits)
  have mb: "mb_wf mb" using assms r by simp
  obtain mb' where "SplitBytes mb k = Some (mb', take k (mb_content mb))" "mb_wf mb'"
    "mb_content mb' = drop k (mb_content mb)" using SplitBytes_spec [OF mb, of k] by blast
  then show ?thesis using r lo mb by (auto simp: rcv_Read_def)
qed

theorem Read_keeps_rest_witness:
  "\<exists>w'. rcv_Read 1 (sample_receiver\<lparr>leftOver := Some [FromBytes [1, 2]]\<rparr>) = Some ([1], w')"
proof -
  have "buf_wf (FromBytes [1, 2])" "content (FromBytes [1, 2]) = [1, 2]" using FromBytes_facts [of "[1, 2]"] by simp_all
  then show ?thesis
    using Read_keeps_rest [of "sample_receiver\<lparr>leftOver := Some [FromBytes [1, 2]]\<rparr>" 1]
    by (auto simp: rcv_ReadMultiBuffer_def mb_content_def)
qed

end
