(* ===== verification/Kcp_Connection.thy ===== *)
theory Kcp_Connection
  imports Kcp_IO Kcp_Sending Kcp_Receiving
begin

text \<open>
  Package \<^verbatim>\<open>transport/internet/kcp\<close>, file \<^verbatim>\<open>connection.go\<close>: the connection object, its
  state machine, the handler of incoming segments and the periodic flush. A handler returns the
  connection and the list of its effects: segments given to \<^verbatim>\<open>c.output.Write\<close>, wake-ups of the
  updaters, signals to blocked readers and writers, and the start of \<^verbatim>\<open>Terminate\<close>. The clock
  is part of the state: the \<open>n\<close>-th call of \<^verbatim>\<open>nowMillisec\<close> returns \<open>clock n\<close>. A handler
  is one step; the loops that block (\<^verbatim>\<open>ReadMultiBuffer\<close>, \<^verbatim>\<open>Read\<close>, the writer) are cut
  where they wait. Tests for a nil receiver, deadlines and logging are left out.
\<close>

section \<open>State\<close>

datatype State =
  StateActive | StateReadyToClose | StatePeerClosed | StateTerminating | StatePeerTerminating | StateTerminated

definition state_Is :: "State \<Rightarrow> State list \<Rightarrow> bool" where
  "state_Is s states \<longleftrightarrow> s \<in> set states"

definition ErrClosedConnection :: go_error where
  "ErrClosedConnection = ErrNew ''Connection closed.''"

datatype effect =
    Output Segment
  | WakeUpData
  | WakeUpPing
  | SignalInput
  | SignalOutput
  | PingInterval nat
  | GoTerminate
  | CloseCloser

record Connection =
  conversation :: u16
  since :: int
  clock :: "nat \<Rightarrow> int"
  ticks :: nat
  conf :: Config
  state :: State
  stateBeginTime :: u32
  lastIncomingTime :: u32
  lastPingTime :: u32
  mss :: u32
  roundTrip :: RoundTripInfo
  receivingWorker :: ReceivingWorker
  sendingWorker :: SendingWorker

definition Elapsed :: "Connection \<Rightarrow> u32 \<times> Connection" where
  "Elapsed c = (of_int (clock c (ticks c) - since c), c\<lparr>ticks := ticks c + 1\<rparr>)"

text \<open>\<open>overhead\<close> is \<^verbatim>\<open>writer.Overhead()\<close> of the packet writer.\<close>

definition NewConnection :: "u16 \<Rightarrow> int \<Rightarrow> Config \<Rightarrow> (nat \<Rightarrow> int) \<Rightarrow> (Connection \<times> effect list) option" where
  "NewConnection conv overhead config clk = do {
     rw \<leftarrow> NewReceivingWorker config;
     sw \<leftarrow> NewSendingWorker config;
     Some (\<lparr>conversation = conv, since = clk 0, clock = clk, ticks = 1, conf = config,
       state = StateActive, stateBeginTime = 0, lastIncomingTime = 0, lastPingTime = 0,
       mss = GetMTUValue (Some config) - of_int overhead - DataSegmentOverhead,
       roundTrip = \<lparr>variation = 0, srtt = 0, rto = 100, minRtt = GetTTIValue (Some config), updatedTimestamp = 0\<rparr>,
       receivingWorker = rw, sendingWorker = sw\<rparr>, [WakeUpPing])
   }"

section \<open>The state machine\<close>

definition close_write :: "Connection \<Rightarrow> Connection" where
  "close_write c = c\<lparr>sendingWorker := CloseWrite (sendingWorker c)\<rparr>"

definition SetState :: "State \<Rightarrow> Connection \<Rightarrow> Connection \<times> effect list" where
  "SetState st c =
     (let (current, c1) = Elapsed c;
          c2 = c1\<lparr>state := st, stateBeginTime := current\<rparr>
      in case st of
           StateActive \<Rightarrow> (c2, [])
         | StateReadyToClose \<Rightarrow> (c2, [])
         | StatePeerClosed \<Rightarrow> (close_write c2, [])
         | StateTerminating \<Rightarrow> (close_write c2, [PingInterval 1000])
         | StatePeerTerminating \<Rightarrow> (close_write c2, [PingInterval 1000])
         | StateTerminated \<Rightarrow> (close_write c2, [PingInterval 1000, WakeUpData, WakeUpPing, GoTerminate]))"

definition Close :: "Connection \<Rightarrow> go_error option \<times> Connection \<times> effect list" where
  "Close c =
     (let sig = [SignalInput, SignalOutput];
          enter = (\<lambda>st. case SetState st c of (c', es) \<Rightarrow> (None, c', sig @ es))
      in case state c of
           StateReadyToClose \<Rightarrow> (Some ErrClosedConnection, c, sig)
         | StateTerminating \<Rightarrow> (Some ErrClosedConnection, c, sig)
         | StateTerminated \<Rightarrow> (Some ErrClosedConnection, c, sig)
         | StateActive \<Rightarrow> enter StateReadyToClose
         | StatePeerClosed \<Rightarrow> enter StateTerminating
         | StatePeerTerminating \<Rightarrow> enter StateTerminated)"

definition Terminate :: "Connection \<Rightarrow> Connection \<times> effect list" where
  "Terminate c =
     (c\<lparr>sendingWorker := snd_Release (sendingWorker c), receivingWorker := rcv_Release (receivingWorker c)\<rparr>,
      [SignalInput, SignalOutput, CloseCloser])"

definition OnPeerClosed :: "Connection \<Rightarrow> Connection \<times> effect list" where
  "OnPeerClosed c =
     (case state c of
        StateReadyToClose \<Rightarrow> SetState StateTerminating c
      | StateActive \<Rightarrow> SetState StatePeerClosed c
      | _ \<Rightarrow> (c, []))"

definition HandleOption :: "SegmentOption \<Rightarrow> Connection \<Rightarrow> Connection \<times> effect list" where
  "HandleOption opt c = (if opt AND SegmentOptionClose = SegmentOptionClose then OnPeerClosed c else (c, []))"

section \<open>Incoming segments\<close>

definition input_data :: "DataSegment \<Rightarrow> Connection \<Rightarrow> Connection \<times> effect list" where
  "input_data seg c =
     (let (c1, es) = HandleOption (dOption seg) c;
          c2 = c1\<lparr>receivingWorker := rcv_ProcessSegment seg (receivingWorker c1)\<rparr>
      in (c2, es @ (if IsDataAvailable (receivingWorker c2) then [SignalInput] else []) @ [WakeUpData]))"

definition input_ack :: "u32 \<Rightarrow> AckSegment \<Rightarrow> Connection \<Rightarrow> Connection \<times> effect list" where
  "input_ack current seg c =
     (let (c1, es) = HandleOption (aOption seg) c;
          (w, info) = snd_ProcessSegment current seg (Timeout (roundTrip c1)) (sendingWorker c1) (roundTrip c1)
      in (c1\<lparr>sendingWorker := w, roundTrip := info\<rparr>, es @ [SignalOutput, WakeUpData]))"

definition on_terminate :: "Connection \<Rightarrow> Connection \<times> effect list" where
  "on_terminate c =
     (case state c of
        StateActive \<Rightarrow> SetState StatePeerTerminating c
      | StatePeerClosed \<Rightarrow> SetState StatePeerTerminating c
      | StateReadyToClose \<Rightarrow> SetState StateTerminating c
      | StateTerminating \<Rightarrow> SetState StateTerminated c
      | _ \<Rightarrow> (c, []))"

definition input_cmd :: "u32 \<Rightarrow> CmdOnlySegment \<Rightarrow> Connection \<Rightarrow> Connection \<times> effect list" where
  "input_cmd current seg c =
     (let (c1, es1) = HandleOption (cOption seg) c;
          (c2, es2) = (if Cmd seg = CommandTerminate then on_terminate c1 else (c1, []));
          es3 = (if cOption seg = SegmentOptionClose \<or> Cmd seg = CommandTerminate
                 then [SignalInput, SignalOutput] else [])
      in (c2\<lparr>sendingWorker := ProcessReceivingNext (cReceivingNext seg) (sendingWorker c2),
             receivingWorker := ProcessSendingNext (cSendingNext seg) (receivingWorker c2),
             roundTrip := UpdatePeerRTO (PeerRTO seg) current (roundTrip c2)\<rparr>, es1 @ es2 @ es3))"

fun input_segment :: "u32 \<Rightarrow> Segment \<Rightarrow> Connection \<Rightarrow> Connection \<times> effect list" where
  "input_segment current (SData seg) c = input_data seg c"
| "input_segment current (SAck seg) c = input_ack current seg c"
| "input_segment current (SCmd seg) c = input_cmd current seg c"

fun input_loop :: "u32 \<Rightarrow> Segment list \<Rightarrow> Connection \<Rightarrow> Connection \<times> effect list" where
  "input_loop current [] c = (c, [])"
| "input_loop current (seg # segs) c =
     (if Conversation seg \<noteq> conversation c then (c, [])
      else let (c1, es1) = input_segment current seg c;
               (c2, es2) = input_loop current segs c1
           in (c2, es1 @ es2))"

definition Input :: "Segment list \<Rightarrow> Connection \<Rightarrow> Connection \<times> effect list" where
  "Input segments c =
     (let (current, c1) = Elapsed c in input_loop current segments (c1\<lparr>lastIncomingTime := current\<rparr>))"

section \<open>The periodic flush\<close>

definition Ping :: "u32 \<Rightarrow> Command \<Rightarrow> Connection \<Rightarrow> Connection \<times> effect list" where
  "Ping current cmd c =
     (let seg = NewCmdOnlySegment\<lparr>cConv := conversation c, Cmd := cmd,
            cReceivingNext := rnextNumber (receivingWorker c),
            cSendingNext := firstUnacknowledged (sendingWorker c),
            PeerRTO := Timeout (roundTrip c),
            cOption := (if state c = StateReadyToClose then SegmentOptionClose else 0)\<rparr>
      in (c\<lparr>lastPingTime := current\<rparr>, [Output (SCmd seg)]))"

definition closing :: "Connection \<Rightarrow> bool" where
  "closing c \<longleftrightarrow> state c = StateReadyToClose"

text \<open>The timeouts of the states, before anything is sent.\<close>

definition flush_idle :: "u32 \<Rightarrow> Connection \<Rightarrow> Connection \<times> effect list" where
  "flush_idle current c =
     (if state c = StateActive \<and> current - lastIncomingTime c \<ge> 30000 then snd (Close c) else (c, []))"

definition flush_drained :: "Connection \<Rightarrow> Connection \<times> effect list" where
  "flush_drained c =
     (if state c = StateReadyToClose \<and> snd_IsEmpty (sendingWorker c) then SetState StateTerminating c else (c, []))"

definition flush_terminating :: "u32 \<Rightarrow> Connection \<Rightarrow> Connection \<times> effect list" where
  "flush_terminating current c =
     (let (c1, es1) = Ping current CommandTerminate c
      in if current - stateBeginTime c1 > 8000
         then (case SetState StateTerminated c1 of (c2, es2) \<Rightarrow> (c2, es1 @ es2))
         else (c1, es1))"

definition flush_peer_terminating :: "u32 \<Rightarrow> Connection \<Rightarrow> Connection \<times> effect list" where
  "flush_peer_terminating current c =
     (if state c = StatePeerTerminating \<and> current - stateBeginTime c > 4000
      then SetState StateTerminating c else (c, []))"

definition flush_ready_to_close :: "u32 \<Rightarrow> Connection \<Rightarrow> Connection \<times> effect list" where
  "flush_ready_to_close current c =
     (if state c = StateReadyToClose \<and> current - stateBeginTime c > 15000
      then SetState StateTerminating c else (c, []))"

definition flush_workers :: "u32 \<Rightarrow> Connection \<Rightarrow> (Connection \<times> effect list) option" where
  "flush_workers current c =
     (let (rw, acks) = rcv_Flush (conversation c) (closing c) (roundTrip c) current (receivingWorker c);
          c1 = c\<lparr>receivingWorker := rw\<rparr>
      in do {
        (sw, segs, ping) \<leftarrow> snd_Flush (conf c1) (conversation c1) (closing c1) (roundTrip c1) current (sendingWorker c1);
        let c2 = c1\<lparr>sendingWorker := sw\<rparr>;
        let es = map (Output \<circ> SAck) acks @ map (Output \<circ> SData) segs;
        let (c3, es3) = (if ping then Ping current CommandPing c2 else (c2, []));
        let (c4, es4) = (if current - lastPingTime c3 \<ge> 3000 then Ping current CommandPing c3 else (c3, []));
        Some (c4, es @ es3 @ es4)
      })"

definition flush :: "Connection \<Rightarrow> (Connection \<times> effect list) option" where
  "flush c0 =
     (let (current, c) = Elapsed c0
      in if state c = StateTerminated then Some (c, [])
         else let (c1, es1) = flush_idle current c;
                  (c2, es2) = flush_drained c1
              in if state c2 = StateTerminating
                 then let (c3, es3) = flush_terminating current c2 in Some (c3, es1 @ es2 @ es3)
                 else let (c3, es3) = flush_peer_terminating current c2;
                          (c4, es4) = flush_ready_to_close current c3
                      in map_option (\<lambda>(c5, es5). (c5, es1 @ es2 @ es3 @ es4 @ es5)) (flush_workers current c4))"

section \<open>Reading and writing\<close>

text \<open>One round of the loops of \<^verbatim>\<open>ReadMultiBuffer\<close> and \<^verbatim>\<open>Read\<close>, up to the wait.\<close>

datatype 'a read_result = ReadEOF | ReadData 'a | ReadWait

definition conn_ReadMultiBuffer :: "Connection \<Rightarrow> MultiBuffer read_result \<times> Connection \<times> effect list" where
  "conn_ReadMultiBuffer c =
     (if state_Is (state c) [StateReadyToClose, StateTerminating, StateTerminated] then (ReadEOF, c, [])
      else let (mb, rw) = rcv_ReadMultiBuffer (receivingWorker c);
               c1 = c\<lparr>receivingWorker := rw\<rparr>
           in if \<not> mb_IsEmpty mb then (ReadData mb, c1, [WakeUpData])
              else if state c1 = StatePeerTerminating then (ReadEOF, c1, [])
              else (ReadWait, c1, []))"

definition conn_Read :: "nat \<Rightarrow> Connection \<Rightarrow> (byte list read_result \<times> Connection \<times> effect list) option" where
  "conn_Read k c =
     (if state_Is (state c) [StateReadyToClose, StateTerminating, StateTerminated] then Some (ReadEOF, c, [])
      else case rcv_Read k (receivingWorker c) of
             None \<Rightarrow> None
           | Some (xs, rw) \<Rightarrow>
               let c1 = c\<lparr>receivingWorker := rw\<rparr>
               in if length xs > 0 then Some (ReadData xs, c1, [WakeUpData]) else Some (ReadWait, c1, []))"

text \<open>\<^verbatim>\<open>io.LimitReader\<close>: one \<^verbatim>\<open>Read\<close> of \<open>n\<close> bytes with \<open>limit\<close> bytes left.\<close>

definition limit_Read :: "nat \<Rightarrow> nat \<Rightarrow> reader \<Rightarrow> byte list \<times> go_error option \<times> reader" where
  "limit_Read limit n r = (if limit = 0 then ([], Some EOF, r) else reader_Read (min n limit) r)"

text \<open>
  \<^verbatim>\<open>writeMultiBufferInternal\<close> up to the point where it waits for room: all written, the
  connection is not active, or a buffer that the window did not take. The last component says
  that \<^verbatim>\<open>dataUpdater.WakeUp\<close> is due.
\<close>

datatype write_result = WriteDone | WriteClosed | WriteBlocked buffer

lemma limit_Read_progress:
  "limit_Read limit n r = (xs, None, r') \<Longrightarrow> 0 < n \<Longrightarrow>
   length (concat r') + length r' < length (concat r) + length r"
  by (cases r) (auto simp: limit_Read_def split: if_splits)

function write_loop ::
  "Connection \<Rightarrow> buffer option \<Rightarrow> reader \<Rightarrow> bool \<Rightarrow> (write_result \<times> Connection \<times> reader \<times> bool) option" where
  "write_loop c b r pending =
     (if state c \<noteq> StateActive then Some (WriteClosed, c, r, pending)
      else case b of
             Some b' \<Rightarrow>
               (case snd_Push b' (sendingWorker c) of
                  (False, sw) \<Rightarrow> Some (WriteBlocked b', c\<lparr>sendingWorker := sw\<rparr>, r, pending)
                | (True, sw) \<Rightarrow> write_loop (c\<lparr>sendingWorker := sw\<rparr>) None r True)
           | None \<Rightarrow>
               (case limit_Read (unat (mss c)) Size r of
                  (xs, Some e, r') \<Rightarrow> Some (WriteDone, c, r', pending)
                | (xs, None, r') \<Rightarrow>
                    (case ReadFrom [xs] New of
                       None \<Rightarrow> None
                     | Some (n, e, _, b') \<Rightarrow> write_loop c (Some b') r' pending)))"
  by pat_completeness auto
termination
  by (relation "measure (\<lambda>(c, b, r, pending). 2 * (length (concat r) + length r) + (if b = None then 0 else 1))")
     (auto dest!: limit_Read_progress [OF sym] simp: Size_def)

declare write_loop.simps [simp del]

definition writeMultiBufferInternal :: "reader \<Rightarrow> Connection \<Rightarrow> (write_result \<times> Connection \<times> reader \<times> effect list) option" where
  "writeMultiBufferInternal r c =
     map_option (\<lambda>(res, c', r', pending). (res, c', r', if pending then [WakeUpData] else []))
       (write_loop c None r False)"

section \<open>The state machine as a relation\<close>

inductive edge :: "State \<Rightarrow> State \<Rightarrow> bool" where
  "edge StateActive StateReadyToClose"
| "edge StateActive StatePeerClosed"
| "edge StateActive StatePeerTerminating"
| "edge StateReadyToClose StateTerminating"
| "edge StatePeerClosed StateTerminating"
| "edge StatePeerClosed StatePeerTerminating"
| "edge StatePeerTerminating StateTerminating"
| "edge StatePeerTerminating StateTerminated"
| "edge StateTerminating StateTerminated"

fun rank :: "State \<Rightarrow> nat" where
  "rank StateActive = 0"
| "rank StateReadyToClose = 1"
| "rank StatePeerClosed = 1"
| "rank StatePeerTerminating = 2"
| "rank StateTerminating = 3"
| "rank StateTerminated = 4"

inductive_simps edge_simps [simp]:
  "edge StateActive s" "edge StateReadyToClose s" "edge StatePeerClosed s"
  "edge StatePeerTerminating s" "edge StateTerminating s" "edge StateTerminated s"

lemma edge_rank: "edge s s' \<Longrightarrow> rank s < rank s'"
  by (induction rule: edge.induct) simp_all

abbreviation moves :: "State \<Rightarrow> State \<Rightarrow> bool" where
  "moves \<equiv> edge\<^sup>*\<^sup>*"

lemma moves_rank: "moves s s' \<Longrightarrow> rank s \<le> rank s'"
  by (induction rule: rtranclp_induct) (auto dest: edge_rank)

lemma moves_Terminated: "moves StateTerminated s \<longleftrightarrow> s = StateTerminated"
  by (auto elim: converse_rtranclpE)

lemma moves_trans: "moves s s' \<Longrightarrow> moves s' s'' \<Longrightarrow> moves s s''"
  by (rule rtranclp_trans)

section \<open>What the handlers keep\<close>

text \<open>
  The steps of a connection: two connections are related when the state moves along the machine,
  the sending window only loses segments, and the fixed settings stay.
\<close>

definition conn_moves :: "Connection \<Rightarrow> Connection \<Rightarrow> bool" where
  "conn_moves c c' \<longleftrightarrow> moves (state c) (state c') \<and> conversation c' = conversation c \<and> conf c' = conf c \<and>
     mss c' = mss c \<and> clock c' = clock c \<and> since c' = since c \<and>
     subseq (idents (sendingWorker c')) (idents (sendingWorker c)) \<and>
     nextNumber (sendingWorker c') = nextNumber (sendingWorker c)"

lemma conn_moves_refl [simp, intro]: "conn_moves c c"
  by (simp add: conn_moves_def)

lemma conn_moves_trans [trans]: "conn_moves c c' \<Longrightarrow> conn_moves c' c'' \<Longrightarrow> conn_moves c c''"
  unfolding conn_moves_def using moves_trans subseq_order.trans by fastforce

lemma conn_moves_same:
  "state c' = state c \<Longrightarrow> conversation c' = conversation c \<Longrightarrow> conf c' = conf c \<Longrightarrow> mss c' = mss c \<Longrightarrow>
   clock c' = clock c \<Longrightarrow> since c' = since c \<Longrightarrow> idents (sendingWorker c') = idents (sendingWorker c) \<Longrightarrow>
   nextNumber (sendingWorker c') = nextNumber (sendingWorker c) \<Longrightarrow> conn_moves c c'"
  by (simp add: conn_moves_def)

lemma SetState_facts:
  "state (fst (SetState st c)) = st" "receivingWorker (fst (SetState st c)) = receivingWorker c"
  "roundTrip (fst (SetState st c)) = roundTrip c" "lastPingTime (fst (SetState st c)) = lastPingTime c"
  "lastIncomingTime (fst (SetState st c)) = lastIncomingTime c"
  "stateBeginTime (fst (SetState st c)) = of_int (clock c (ticks c) - since c)"
  "ticks (fst (SetState st c)) = ticks c + 1"
  "conversation (fst (SetState st c)) = conversation c"
  by (cases st; simp add: SetState_def Elapsed_def close_write_def)+

lemma nextNumber_CloseWrite [simp]: "nextNumber (CloseWrite w) = nextNumber w"
  by (simp add: CloseWrite_def)

lemma SetState_moves: "edge (state c) st \<Longrightarrow> conn_moves c (fst (SetState st c))"
  by (cases st) (auto simp: SetState_def Elapsed_def close_write_def conn_moves_def idents_CloseWrite
      subseq_order.trans [OF idents_CloseWrite])

text \<open>A handler that moves the state and leaves the receiver alone.\<close>

definition sends_only :: "Connection \<Rightarrow> Connection \<Rightarrow> bool" where
  "sends_only c c' \<longleftrightarrow> conn_moves c c' \<and> receivingWorker c' = receivingWorker c"

lemma sends_only_refl [simp, intro]: "sends_only c c"
  by (simp add: sends_only_def)

lemma sends_only_trans: "sends_only c c' \<Longrightarrow> sends_only c' c'' \<Longrightarrow> sends_only c c''"
  by (auto simp: sends_only_def intro: conn_moves_trans)

lemma SetState_sends: "edge (state c) st \<Longrightarrow> sends_only c (fst (SetState st c))"
  by (simp add: sends_only_def SetState_moves SetState_facts)

lemma Close_sends: "sends_only c (fst (snd (Close c)))"
  by (cases "state c") (simp_all add: Close_def split_def SetState_sends)

lemma OnPeerClosed_sends: "sends_only c (fst (OnPeerClosed c))"
  by (cases "state c") (simp_all add: OnPeerClosed_def SetState_sends)

lemma HandleOption_sends: "sends_only c (fst (HandleOption opt c))"
  by (simp add: HandleOption_def OnPeerClosed_sends)

lemma on_terminate_sends: "sends_only c (fst (on_terminate c))"
  by (cases "state c") (simp_all add: on_terminate_def SetState_sends)

lemma Ping_sends: "sends_only c (fst (Ping current cmd c))"
  by (simp add: Ping_def sends_only_def conn_moves_def)

lemma flush_idle_sends: "sends_only c (fst (flush_idle current c))"
  using Close_sends [of c] by (simp add: flush_idle_def)

lemma flush_drained_sends: "sends_only c (fst (flush_drained c))"
  by (simp add: flush_drained_def SetState_sends)

lemma flush_peer_terminating_sends: "sends_only c (fst (flush_peer_terminating current c))"
  by (simp add: flush_peer_terminating_def SetState_sends)

lemma flush_ready_to_close_sends: "sends_only c (fst (flush_ready_to_close current c))"
  by (simp add: flush_ready_to_close_def SetState_sends)

lemma flush_terminating_sends:
  assumes "state c = StateTerminating"
  shows "sends_only c (fst (flush_terminating current c))"
proof -
  obtain c1 es where p: "Ping current CommandTerminate c = (c1, es)" by (cases "Ping current CommandTerminate c")
  then have "state c1 = StateTerminating" "sends_only c c1"
    using assms Ping_sends [of c current CommandTerminate] by (auto simp: Ping_def)
  then show ?thesis
    using p sends_only_trans [of c c1] SetState_sends [of c1 StateTerminated]
    by (simp add: flush_terminating_def split_def Let_def)
qed

lemma input_data_facts:
  "conn_moves c (fst (input_data seg c)) \<and>
   receivingWorker (fst (input_data seg c)) = rcv_ProcessSegment seg (receivingWorker c)"
  using HandleOption_sends [of c "dOption seg"]
  by (simp add: input_data_def split_def Let_def sends_only_def conn_moves_def)

lemma nextNumber_processAck: "nextNumber (snd (processAck n w)) = nextNumber w"
  by (auto simp: processAck_def split: prod.splits bool.splits)

lemma nextNumber_process_acks: "nextNumber (snd (snd (process_acks ns m r w))) = nextNumber w"
proof (induction ns m r w rule: process_acks.induct)
  case (2 n ns m r w)
  then show ?case using nextNumber_processAck [of n w] by (cases "processAck n w") auto
qed simp

lemma nextNumber_ProcessReceivingNext [simp]: "nextNumber (ProcessReceivingNext n w) = nextNumber w"
  by (simp add: ProcessReceivingNext_def)

lemma nextNumber_snd_ProcessSegment: "nextNumber (fst (snd_ProcessSegment current seg r w info)) = nextNumber w"
proof (cases "closed w")
  case False
  then obtain w1 m mr w3 where w: "nextNumber w1 = nextNumber w"
    "process_acks (NumberList seg) 0 False (ProcessReceivingNext (aReceivingNext seg) w1) = (m, mr, w3)"
    "fst (snd_ProcessSegment current seg r w info) =
       (if mr then w3\<lparr>window := HandleFastAck m r (window w3)\<rparr> else w3)"
    by (rule snd_ProcessSegment_stages)
  then show ?thesis
    using nextNumber_process_acks [of "NumberList seg" 0 False "ProcessReceivingNext (aReceivingNext seg) w1"] by simp
qed (simp add: snd_ProcessSegment_def)

lemma input_ack_facts: "sends_only c (fst (input_ack current seg c))"
proof -
  obtain c1 es where h: "HandleOption (aOption seg) c = (c1, es)" by (cases "HandleOption (aOption seg) c")
  then have "sends_only c c1" using HandleOption_sends [of c "aOption seg"] by simp
  moreover have "sends_only c1 (fst (input_ack current seg c))"
    using h idents_snd_ProcessSegment nextNumber_snd_ProcessSegment
    by (simp add: input_ack_def split_def Let_def sends_only_def conn_moves_def)
  ultimately show ?thesis by (rule sends_only_trans)
qed

lemma input_cmd_facts:
  "conn_moves c (fst (input_cmd current seg c)) \<and>
   receivingWorker (fst (input_cmd current seg c)) = ProcessSendingNext (cSendingNext seg) (receivingWorker c)"
proof -
  obtain c1 es where h: "HandleOption (cOption seg) c = (c1, es)" by (cases "HandleOption (cOption seg) c")
  obtain c2 es2 where t: "(if Cmd seg = CommandTerminate then on_terminate c1 else (c1, [])) = (c2, es2)"
    by (cases "if Cmd seg = CommandTerminate then on_terminate c1 else (c1, [])")
  have "sends_only c c1" using h HandleOption_sends [of c "cOption seg"] by simp
  moreover have "sends_only c1 c2" using t on_terminate_sends [of c1] by (simp split: if_splits)
  ultimately have c2: "sends_only c c2" by (rule sends_only_trans)
  have "conn_moves c2 (fst (input_cmd current seg c))"
    using h t idents_ProcessReceivingNext by (simp add: input_cmd_def Let_def conn_moves_def)
  then have "conn_moves c (fst (input_cmd current seg c))"
    using c2 by (auto simp: sends_only_def intro: conn_moves_trans)
  moreover have "receivingWorker (fst (input_cmd current seg c)) = ProcessSendingNext (cSendingNext seg) (receivingWorker c)"
    using h t c2 by (simp add: input_cmd_def Let_def sends_only_def)
  ultimately show ?thesis by simp
qed

lemma input_segment_moves: "conn_moves c (fst (input_segment current seg c))"
  using input_data_facts input_ack_facts input_cmd_facts by (cases seg) (simp_all add: sends_only_def)

lemma input_loop_moves: "conn_moves c (fst (input_loop current segs c))"
proof (induction segs arbitrary: c)
  case (Cons seg segs)
  obtain c1 es where i: "input_segment current seg c = (c1, es)" by (cases "input_segment current seg c")
  then have "conn_moves c c1" using input_segment_moves [of c current seg] by simp
  then show ?case using Cons [of c1] i by (auto simp: split_def Let_def intro: conn_moves_trans)
qed simp

lemma Input_moves: "conn_moves c (fst (Input segs c))"
proof -
  let ?c = "snd (Elapsed c)\<lparr>lastIncomingTime := fst (Elapsed c)\<rparr>"
  have "conn_moves c ?c" by (simp add: conn_moves_def Elapsed_def)
  then show ?thesis
    using input_loop_moves [of ?c "fst (Elapsed c)" segs] by (auto simp: Input_def split_def Let_def intro: conn_moves_trans)
qed

text \<open>
  \<^verbatim>\<open>flush\<close> after the clock: either one of the stages before the workers ends it, or the
  workers are flushed in a state that is neither terminating nor terminated.
\<close>

lemma flush_stages:
  assumes "flush c0 = Some (c', es)"
  defines "current \<equiv> fst (Elapsed c0)" and "c \<equiv> snd (Elapsed c0)"
  shows "(\<exists>es0 c4 esw. sends_only c c4 \<and> flush_workers current c4 = Some (c', esw) \<and> es = es0 @ esw \<and>
           (\<forall>seg. Output seg \<notin> set es0)) \<or>
         (sends_only c c' \<and> (\<forall>seg. Output (SData seg) \<notin> set es))"
proof (cases "state c = StateTerminated")
  case True
  then show ?thesis using assms(1) by (auto simp: flush_def split_def Let_def current_def c_def)
next
  case False
  obtain c1 e1 where 1: "flush_idle current c = (c1, e1)" by (cases "flush_idle current c")
  obtain c2 e2 where 2: "flush_drained c1 = (c2, e2)" by (cases "flush_drained c1")
  have c2: "sends_only c c2"
    using flush_idle_sends [of c current] flush_drained_sends [of c1] 1 2 sends_only_trans [of c c1 c2] by simp
  have noout: "Output seg \<notin> set (snd (SetState st x))" for seg st x
    by (cases st) (simp_all add: SetState_def Elapsed_def)
  have noout': "SetState st x = (y, e) \<Longrightarrow> Output seg \<notin> set e" for seg st x y e
    using noout [of seg st x] by simp
  have o12: "Output seg \<notin> set (e1 @ e2)" for seg
    using 1 2 noout noout' by (auto simp: flush_idle_def flush_drained_def Close_def split_def split: if_splits State.splits)
  show ?thesis
  proof (cases "state c2 = StateTerminating")
    case t: True
    obtain c3 e3 where 3: "flush_terminating current c2 = (c3, e3)" by (cases "flush_terminating current c2")
    then have r: "c' = c3" "es = e1 @ e2 @ e3"
      using assms(1) False 1 2 t by (auto simp: flush_def split_def Let_def current_def c_def)
    have "sends_only c c3" using c2 flush_terminating_sends [OF t, of current] 3 sends_only_trans [of c c2 c3] by simp
    moreover have "Output (SData seg) \<notin> set e3" for seg
      using 3 noout noout' by (auto simp: flush_terminating_def Ping_def split_def Let_def split: if_splits)
    ultimately show ?thesis using r o12 by auto
  next
    case nt: False
    obtain c3 e3 where 3: "flush_peer_terminating current c2 = (c3, e3)" by (cases "flush_peer_terminating current c2")
    obtain c4 e4 where 4: "flush_ready_to_close current c3 = (c4, e4)" by (cases "flush_ready_to_close current c3")
    obtain esw where w: "flush_workers current c4 = Some (c', esw)" "es = (e1 @ e2 @ e3 @ e4) @ esw"
      using assms(1) False 1 2 3 4 nt by (auto simp: flush_def split_def Let_def current_def c_def)
    have "sends_only c c4"
      using c2 3 4 flush_peer_terminating_sends [of c2 current] flush_ready_to_close_sends [of c3 current]
        sends_only_trans [of c c2 c3] sends_only_trans [of c c3 c4] by simp
    moreover have "Output seg \<notin> set (e3 @ e4)" for seg
      using 3 4 noout noout' by (auto simp: flush_peer_terminating_def flush_ready_to_close_def split: if_splits)
    ultimately have "sends_only c c4 \<and> flush_workers current c4 = Some (c', esw) \<and> es = (e1 @ e2 @ e3 @ e4) @ esw \<and>
        (\<forall>seg. Output seg \<notin> set (e1 @ e2 @ e3 @ e4))"
      using w o12 by simp
    then show ?thesis by blast
  qed
qed

text \<open>
  The workers: data segments that are output identify segments of the window, and the receiver
  keeps its reassembly window.
\<close>

lemma flush_workers_facts:
  assumes "flush_workers current c = Some (c', es)"
  shows "conn_moves c c' \<and> state c' = state c \<and> stateBeginTime c' = stateBeginTime c \<and> (\<forall>seg. Output (SData seg) \<in> set es \<longrightarrow> ident seg \<in> set (idents (sendingWorker c))) \<and>
     receivingWorker c' = fst (rcv_Flush (conversation c) (closing c) (roundTrip c) current (receivingWorker c))"
proof -
  obtain rw acks where r: "rcv_Flush (conversation c) (closing c) (roundTrip c) current (receivingWorker c) = (rw, acks)"
    by (cases "rcv_Flush (conversation c) (closing c) (roundTrip c) current (receivingWorker c)")
  let ?c1 = "c\<lparr>receivingWorker := rw\<rparr>"
  obtain sw segs ping where f: "snd_Flush (conf c) (conversation c) (closing ?c1) (roundTrip c) current (sendingWorker c) = Some (sw, segs, ping)"
    using assms r by (auto simp: flush_workers_def Let_def split: bind_splits)
  let ?c2 = "?c1\<lparr>sendingWorker := sw\<rparr>"
  obtain c3 e3 where 3: "(if ping then Ping current CommandPing ?c2 else (?c2, [])) = (c3, e3)"
    by (cases "if ping then Ping current CommandPing ?c2 else (?c2, [])")
  obtain c4 e4 where 4: "(if current - lastPingTime c3 \<ge> 3000 then Ping current CommandPing c3 else (c3, [])) = (c4, e4)"
    by (cases "if current - lastPingTime c3 \<ge> 3000 then Ping current CommandPing c3 else (c3, [])")
  have res: "c' = c4" "es = (map (Output \<circ> SAck) acks @ map (Output \<circ> SData) segs) @ e3 @ e4"
    using assms r f 3 4 by (auto simp: flush_workers_def Let_def)
  have "sends_only ?c2 c3" "sends_only c3 c4" and st: "state c4 = state c" "stateBeginTime c4 = stateBeginTime c"
    using 3 4 Ping_sends [of ?c2 current CommandPing] Ping_sends [of c3 current CommandPing]
    by (auto simp: Ping_def split: if_splits)
  then have c2: "sends_only ?c2 c4" by (blast intro: sends_only_trans)
  have "conn_moves c ?c2" using snd_Flush_facts [OF f] by (simp add: conn_moves_def)
  then have "conn_moves c c4" using c2 by (auto simp: sends_only_def intro: conn_moves_trans)
  moreover have "Output (SData seg) \<notin> set (e3 @ e4)" for seg
    using 3 4 by (auto simp: Ping_def split: if_splits)
  then have "\<forall>seg. Output (SData seg) \<in> set es \<longrightarrow> ident seg \<in> set (idents (sendingWorker c))"
    using snd_Flush_facts [OF f] unfolding res by auto
  ultimately show ?thesis using res(1) c2 r st by (simp add: sends_only_def)
qed

lemma flush_facts:
  assumes "flush c = Some (c', es)"
  shows "conn_moves c c'" and "Output (SData seg) \<in> set es \<Longrightarrow> ident seg \<in> set (idents (sendingWorker c))"
    and "rnextNumber (receivingWorker c') = rnextNumber (receivingWorker c)"
    and "rwindow (receivingWorker c') = rwindow (receivingWorker c)"
    and "leftOver (receivingWorker c') = leftOver (receivingWorker c)"
    and "rwindowSize (receivingWorker c') = rwindowSize (receivingWorker c)"
proof -
  let ?c = "snd (Elapsed c)"
  have el: "conn_moves c ?c" "receivingWorker ?c = receivingWorker c" "sendingWorker ?c = sendingWorker c"
    by (simp_all add: Elapsed_def conn_moves_def)
  have rf: "rnextNumber (fst (rcv_Flush conv cl info cur w)) = rnextNumber w"
    "rwindow (fst (rcv_Flush conv cl info cur w)) = rwindow w" "leftOver (fst (rcv_Flush conv cl info cur w)) = leftOver w"
    "rwindowSize (fst (rcv_Flush conv cl info cur w)) = rwindowSize w" for conv cl info cur w
    by (simp_all add: rcv_Flush_def split_def)
  from flush_stages [OF assms] have "conn_moves c c' \<and> (\<forall>seg. Output (SData seg) \<in> set es \<longrightarrow> ident seg \<in> set (idents (sendingWorker c))) \<and>
    rnextNumber (receivingWorker c') = rnextNumber (receivingWorker c) \<and> rwindow (receivingWorker c') = rwindow (receivingWorker c) \<and>
    leftOver (receivingWorker c') = leftOver (receivingWorker c) \<and> rwindowSize (receivingWorker c') = rwindowSize (receivingWorker c)"
  proof
    assume "\<exists>es0 c4 esw. sends_only ?c c4 \<and> flush_workers (fst (Elapsed c)) c4 = Some (c', esw) \<and> es = es0 @ esw \<and>
      (\<forall>seg. Output seg \<notin> set es0)"
    then obtain es0 c4 esw where w: "sends_only ?c c4" "flush_workers (fst (Elapsed c)) c4 = Some (c', esw)"
      "es = es0 @ esw" "\<forall>seg. Output seg \<notin> set es0" by blast
    note ff = flush_workers_facts [OF w(2)]
    have c4: "conn_moves ?c c4" using w(1) by (simp add: sends_only_def)
    note mv1 = conn_moves_trans [OF el(1) c4]
    note mv = mv1 conn_moves_trans [OF mv1 conjunct1 [OF ff]]
    have "subseq (idents (sendingWorker c4)) (idents (sendingWorker c))" using mv(1) by (simp add: conn_moves_def)
    then have "set (idents (sendingWorker c4)) \<subseteq> set (idents (sendingWorker c))"
      by (rule set_subseq)
    then have "\<forall>seg. Output (SData seg) \<in> set es \<longrightarrow> ident seg \<in> set (idents (sendingWorker c))"
      using ff w(3,4) by (simp only: set_append Un_iff) blast
    moreover have "receivingWorker c4 = receivingWorker c" using w(1) el(2) by (simp add: sends_only_def)
    ultimately show ?thesis using mv(2) ff rf by simp
  next
    assume "sends_only ?c c' \<and> (\<forall>seg. Output (SData seg) \<notin> set es)"
    then show ?thesis using el conn_moves_trans [OF el(1), of c'] by (simp add: sends_only_def)
  qed
  then show "conn_moves c c'" "Output (SData seg) \<in> set es \<Longrightarrow> ident seg \<in> set (idents (sendingWorker c))"
    "rnextNumber (receivingWorker c') = rnextNumber (receivingWorker c)"
    "rwindow (receivingWorker c') = rwindow (receivingWorker c)"
    "leftOver (receivingWorker c') = leftOver (receivingWorker c)"
    "rwindowSize (receivingWorker c') = rwindowSize (receivingWorker c)" by blast+
qed

section \<open>Steps of a connection\<close>

inductive conn_step :: "Connection \<Rightarrow> Connection \<Rightarrow> bool" where
  step_Input: "Input segs c = (c', es) \<Longrightarrow> conn_step c c'"
| step_flush: "flush c = Some (c', es) \<Longrightarrow> conn_step c c'"
| step_Close: "Close c = (e, c', es) \<Longrightarrow> conn_step c c'"
| step_Terminate: "Terminate c = (c', es) \<Longrightarrow> conn_step c c'"
| step_ReadMultiBuffer: "conn_ReadMultiBuffer c = (r, c', es) \<Longrightarrow> conn_step c c'"
| step_Read: "conn_Read k c = Some (res, c', es) \<Longrightarrow> conn_step c c'"
| step_Write: "writeMultiBufferInternal r c = Some (wres, c', r', es) \<Longrightarrow> conn_step c c'"

lemma conn_ReadMultiBuffer_state: "conn_ReadMultiBuffer c = (r, c', es) \<Longrightarrow> state c' = state c"
  by (auto simp: conn_ReadMultiBuffer_def split_def Let_def split: if_splits)

lemma conn_Read_state: "conn_Read k c = Some (r, c', es) \<Longrightarrow> state c' = state c"
  by (auto simp: conn_Read_def Let_def split: if_splits option.splits)

lemma write_loop_state: "write_loop c b r pending = Some (res, c', r', p) \<Longrightarrow> state c' = state c"
proof (induction c b r pending rule: write_loop.induct)
  case (1 c b r pending)
  note step = write_loop.simps [of c b r pending]
  show ?case
  proof (cases "state c = StateActive")
    case True
    show ?thesis
    proof (cases b)
      case (Some b')
      then show ?thesis
        using 1(2) [of b'] 1(3) True step by (auto split: prod.splits bool.splits)
    next
      case None
      then show ?thesis
        using 1(1) 1(3) True step by (auto split: prod.splits option.splits)
    qed
  qed (use 1 step in simp)
qed

lemma conn_step_moves: "conn_step c c' \<Longrightarrow> moves (state c) (state c')"
proof (induction rule: conn_step.induct)
  case (step_Input segs c c' es)
  then show ?case using Input_moves [of c segs] by (simp add: conn_moves_def)
next
  case (step_flush c c' es)
  then show ?case using flush_facts(1) by (simp add: conn_moves_def)
next
  case (step_Close c e c' es)
  then show ?case using Close_sends [of c] by (simp add: sends_only_def conn_moves_def)
next
  case (step_Terminate c c' es)
  then show ?case by (auto simp: Terminate_def)
next
  case (step_Write r c wres c' r' es)
  then show ?case using write_loop_state [of c None r False] by (auto simp: writeMultiBufferInternal_def)
qed (simp_all add: conn_ReadMultiBuffer_state conn_Read_state)


definition sample_connection :: Connection where
  "sample_connection = \<lparr>conversation = 7, since = 0, clock = (\<lambda>n. 40 + int n), ticks = 0, conf = default_config,
     state = StateActive, stateBeginTime = 0, lastIncomingTime = 0, lastPingTime = 0, mss = 1300,
     roundTrip = \<lparr>variation = 0, srtt = 0, rto = 100, minRtt = 50, updatedTimestamp = 0\<rparr>,
     receivingWorker = sample_receiver, sendingWorker = sample_worker\<rparr>"


section \<open>Timeouts\<close>

lemma flush_workers_total:
  assumes "config_ok (Some (conf c))"
  shows "\<exists>c' es. flush_workers current c = Some (c', es)"
proof -
  have "\<exists>r. snd_Flush (conf c) conv cl info current w = Some r" for conv cl info w
  proof (cases "closed w")
    case False
    obtain l where "flush_limit (conf c) w = Some l" using flush_limit_defined [OF assms] by blast
    from snd_Flush_cases [OF assms False this] show ?thesis by blast
  next
    case True
    then have "snd_Flush (conf c) conv cl info current w = Some (w, [], False)" by (simp add: snd_Flush_def)
    then show ?thesis by blast
  qed
  then obtain r where "snd_Flush (conf c) (conversation c) (closing c) (roundTrip c) current (sendingWorker c) = Some r"
    by blast
  then show ?thesis by (cases r) (auto simp: flush_workers_def split_def Let_def closing_def)
qed

lemma flush_total:
  assumes "config_ok (Some (conf c))"
  shows "\<exists>c' es. flush c = Some (c', es)"
proof -
  have "conf (fst (flush_idle cur x)) = conf x" "conf (fst (flush_drained x)) = conf x"
    "conf (fst (flush_peer_terminating cur x)) = conf x" "conf (fst (flush_ready_to_close cur x)) = conf x" for cur x
    using flush_idle_sends [of x cur] flush_drained_sends [of x] flush_peer_terminating_sends [of x cur]
      flush_ready_to_close_sends [of x cur] by (simp_all add: sends_only_def conn_moves_def)
  then have "\<exists>c' es. flush_workers cur (fst (flush_ready_to_close cur (fst (flush_peer_terminating cur
      (fst (flush_drained (fst (flush_idle cur (snd (Elapsed c)))))))))) = Some (c', es)" for cur
    using assms by (intro flush_workers_total) (simp add: Elapsed_def)
  then obtain c' es where "flush_workers (fst (Elapsed c)) (fst (flush_ready_to_close (fst (Elapsed c)) (fst (flush_peer_terminating
      (fst (Elapsed c)) (fst (flush_drained (fst (flush_idle (fst (Elapsed c)) (snd (Elapsed c)))))))))) = Some (c', es)"
    by blast
  then show ?thesis by (simp add: flush_def split_def Let_def)
qed

text \<open>
  A flush during which the clock stands at \<open>t\<close>: the states it goes through, by their names and
  the time they were entered.
\<close>

definition at_time :: "int \<Rightarrow> Connection \<Rightarrow> Connection" where
  "at_time t c = c\<lparr>clock := (\<lambda>_. t)\<rparr>"

definition elapsed_at :: "int \<Rightarrow> Connection \<Rightarrow> u32" where
  "elapsed_at t c = of_int (t - since c)"

lemma conf_SetState [simp]: "conf (fst (SetState st c)) = conf c" "since (fst (SetState st c)) = since c"
  "clock (fst (SetState st c)) = clock c"
  by (cases st; simp add: SetState_def Elapsed_def close_write_def)+

lemma SetState_at [simp]:
  "clock c = (\<lambda>_. t) \<Longrightarrow> stateBeginTime (fst (SetState st c)) = elapsed_at t c"
  by (simp add: SetState_facts elapsed_at_def)

lemma flush_workers_at:
  assumes "config_ok (Some (conf c))" "P (state c) (stateBeginTime c)"
  shows "\<exists>c' es. map_option f (flush_workers current c) = Some (f (c', es)) \<and> P (state c') (stateBeginTime c') \<and>
     conf c' = conf c \<and> since c' = since c"
proof -
  obtain c' es where w: "flush_workers current c = Some (c', es)" using flush_workers_total [OF assms(1)] by blast
  then show ?thesis using flush_workers_facts [OF w] assms(2) by (auto simp: conn_moves_def)
qed

definition flush_outcome :: "Connection \<Rightarrow> (State \<Rightarrow> u32 \<Rightarrow> bool) \<Rightarrow> bool" where
  "flush_outcome c P \<longleftrightarrow> (\<exists>c' es. flush c = Some (c', es) \<and> P (state c') (stateBeginTime c') \<and>
     conf c' = conf c \<and> since c' = since c)"

lemma flush_terminated:
  "state c = StateTerminated \<Longrightarrow> flush_outcome c (\<lambda>s b. s = StateTerminated)"
  by (simp add: flush_outcome_def flush_def Elapsed_def)

lemma flush_from_Terminating:
  assumes "state c = StateTerminating" "elapsed_at t c - stateBeginTime c > 8000"
  shows "flush_outcome (at_time t c) (\<lambda>s b. s = StateTerminated)"
  using assms
  by (simp add: flush_outcome_def flush_def at_time_def Elapsed_def elapsed_at_def flush_idle_def flush_drained_def
      flush_terminating_def Ping_def split_def Let_def SetState_facts)

lemma flush_from_PeerTerminating:
  assumes "state c = StatePeerTerminating" "elapsed_at t c - stateBeginTime c > 4000" "config_ok (Some (conf c))"
  shows "flush_outcome (at_time t c) (\<lambda>s b. s = StateTerminating \<and> b = elapsed_at t c)"
proof -
  let ?c = "snd (Elapsed (at_time t c))"
  let ?c1 = "fst (SetState StateTerminating ?c)"
  have c1: "state ?c1 = StateTerminating" "stateBeginTime ?c1 = elapsed_at t c" "conf ?c1 = conf c" "since ?c1 = since c"
    by (simp_all add: SetState_facts Elapsed_def at_time_def elapsed_at_def)
  obtain es where f: "flush (at_time t c) = map_option (\<lambda>(c5, es5). (c5, es @ es5)) (flush_workers (elapsed_at t c) ?c1)"
    using assms(1,2)
    by (simp add: flush_def at_time_def Elapsed_def elapsed_at_def flush_idle_def flush_drained_def
        flush_peer_terminating_def flush_ready_to_close_def split_def Let_def SetState_facts)
  show ?thesis
    unfolding flush_outcome_def f
    using flush_workers_at [of ?c1 "\<lambda>s b. s = StateTerminating \<and> b = elapsed_at t c" "\<lambda>(c5, es5). (c5, es @ es5)"
        "elapsed_at t c"] assms(3) c1 by (auto simp: at_time_def)
qed

lemma flush_from_ReadyToClose:
  assumes "state c = StateReadyToClose" "elapsed_at t c - stateBeginTime c > 15000" "config_ok (Some (conf c))"
  shows "flush_outcome (at_time t c) (\<lambda>s b. s = StateTerminating \<and> b = elapsed_at t c)"
proof -
  let ?c = "snd (Elapsed (at_time t c))"
  let ?c1 = "fst (SetState StateTerminating ?c)"
  have c1: "state ?c1 = StateTerminating" "stateBeginTime ?c1 = elapsed_at t c" "conf ?c1 = conf c" "since ?c1 = since c"
    by (simp_all add: SetState_facts Elapsed_def at_time_def elapsed_at_def)
  show ?thesis
  proof (cases "snd_IsEmpty (sendingWorker c)")
    case True
    then show ?thesis
      using assms(1)
      by (simp add: flush_outcome_def flush_def at_time_def Elapsed_def elapsed_at_def flush_idle_def flush_drained_def
          flush_terminating_def Ping_def split_def Let_def SetState_facts)
  next
    case False
    obtain es where f: "flush (at_time t c) = map_option (\<lambda>(c5, es5). (c5, es @ es5)) (flush_workers (elapsed_at t c) ?c1)"
      using assms(1,2) False
      by (simp add: flush_def at_time_def Elapsed_def elapsed_at_def flush_idle_def flush_drained_def
          flush_peer_terminating_def flush_ready_to_close_def split_def Let_def SetState_facts)
    show ?thesis
      unfolding flush_outcome_def f
      using flush_workers_at [of ?c1 "\<lambda>s b. s = StateTerminating \<and> b = elapsed_at t c" "\<lambda>(c5, es5). (c5, es @ es5)"
          "elapsed_at t c"] assms(3) c1 by (auto simp: at_time_def)
  qed
qed

lemma flush_from_Active:
  assumes "state c = StateActive" "elapsed_at t c - lastIncomingTime c \<ge> 30000" "config_ok (Some (conf c))"
  shows "flush_outcome (at_time t c)
    (\<lambda>s b. (s = StateReadyToClose \<or> s = StateTerminating) \<and> b = elapsed_at t c)"
proof -
  let ?c = "snd (Elapsed (at_time t c))"
  let ?c1 = "fst (SetState StateReadyToClose ?c)"
  have c1: "state ?c1 = StateReadyToClose" "stateBeginTime ?c1 = elapsed_at t c" "conf ?c1 = conf c" "since ?c1 = since c"
    by (simp_all add: SetState_facts Elapsed_def at_time_def elapsed_at_def)
  show ?thesis
  proof (cases "snd_IsEmpty (sendingWorker c)")
    case True
    then show ?thesis
      using assms(1,2)
      by (simp add: flush_outcome_def flush_def at_time_def Elapsed_def elapsed_at_def flush_idle_def flush_drained_def
          flush_terminating_def Ping_def Close_def SetState_def close_write_def split_def Let_def)
  next
    case False
    let ?es = "[SignalInput, SignalOutput]"
    have f: "flush (at_time t c) = map_option (\<lambda>(c5, es5). (c5, ?es @ es5)) (flush_workers (elapsed_at t c) ?c1)"
      using assms(1,2) False
      by (simp add: flush_def at_time_def Elapsed_def elapsed_at_def flush_idle_def flush_drained_def Close_def
          flush_peer_terminating_def flush_ready_to_close_def SetState_def split_def Let_def)
    show ?thesis
      unfolding flush_outcome_def f
      using flush_workers_at [of ?c1 "\<lambda>s b. (s = StateReadyToClose \<or> s = StateTerminating) \<and> b = elapsed_at t c"
          "\<lambda>(c5, es5). (c5, ?es @ es5)" "elapsed_at t c"] assms(3) c1 by (auto simp: at_time_def)
  qed
qed

text \<open>Flushes at given times, each with the clock standing still.\<close>

fun flush_run :: "int list \<Rightarrow> Connection \<Rightarrow> Connection option" where
  "flush_run [] c = Some c"
| "flush_run (t # ts) c = (case flush (at_time t c) of None \<Rightarrow> None | Some (c', es) \<Rightarrow> flush_run ts c')"

lemma flush_run_outcome:
  assumes "flush_outcome (at_time t c) P"
    and "\<And>c'. P (state c') (stateBeginTime c') \<Longrightarrow> conf c' = conf c \<Longrightarrow> since c' = since c \<Longrightarrow>
      \<exists>c''. flush_run ts c' = Some c'' \<and> Q c''"
  shows "\<exists>c''. flush_run (t # ts) c = Some c'' \<and> Q c''"
  using assms by (auto simp: flush_outcome_def at_time_def)

lemma elapsed_at_cong: "since c' = since c \<Longrightarrow> elapsed_at t c' = elapsed_at t c"
  by (simp add: elapsed_at_def)

lemma flush_run_Terminated:
  "state c = StateTerminated \<Longrightarrow> \<exists>c'. flush_run ts c = Some c' \<and> state c' = StateTerminated"
proof (induction ts arbitrary: c)
  case (Cons t ts)
  then have "flush_outcome (at_time t c) (\<lambda>s b. s = StateTerminated)" by (simp add: flush_terminated at_time_def)
  then show ?case by (rule flush_run_outcome) (use Cons.IH in blast)
qed simp

lemma flush_run_Terminating:
  assumes "state c = StateTerminating" "elapsed_at t c - stateBeginTime c > 8000"
  shows "\<exists>c'. flush_run (t # ts) c = Some c' \<and> state c' = StateTerminated"
  using flush_from_Terminating [OF assms] by (rule flush_run_outcome) (rule flush_run_Terminated)

lemma flush_run_ReadyToClose:
  assumes "state c = StateReadyToClose" "elapsed_at t c - stateBeginTime c > 15000" "config_ok (Some (conf c))"
    "elapsed_at t' c - elapsed_at t c > 8000"
  shows "\<exists>c'. flush_run (t # t' # ts) c = Some c' \<and> state c' = StateTerminated"
  using flush_from_ReadyToClose [OF assms(1-3)]
  by (rule flush_run_outcome) (use assms(4) flush_run_Terminating elapsed_at_cong in metis)

lemma flush_run_Active:
  assumes "state c = StateActive" "elapsed_at t c - lastIncomingTime c \<ge> 30000" "config_ok (Some (conf c))"
    "elapsed_at t' c - elapsed_at t c > 15000" "elapsed_at t'' c - elapsed_at t' c > 8000"
  shows "\<exists>c'. flush_run [t, t', t''] c = Some c' \<and> state c' = StateTerminated"
  using flush_from_Active [OF assms(1-3)]
proof (rule flush_run_outcome)
  fix c' :: Connection
  assume st: "(state c' = StateReadyToClose \<or> state c' = StateTerminating) \<and> stateBeginTime c' = elapsed_at t c"
    and same: "conf c' = conf c" "since c' = since c"
  note e = elapsed_at_cong [OF same(2)]
  have g: "elapsed_at t' c' - stateBeginTime c' > 15000" using st assms(4) e by simp
  then have g8: "elapsed_at t' c' - stateBeginTime c' > 8000" by (rule less_trans [rotated]) simp
  from st consider "state c' = StateReadyToClose" | "state c' = StateTerminating" by blast
  then show "\<exists>c''. flush_run [t', t''] c' = Some c'' \<and> state c'' = StateTerminated"
  proof cases
    case 1
    then show ?thesis using flush_run_ReadyToClose [OF 1 g, of t'' "[]"] assms(3,5) same e by simp
  next
    case 2
    then show ?thesis using g8 by (rule flush_run_Terminating)
  qed
qed

text \<open>
  C8: an abandoned connection ends: from any state but \<^verbatim>\<open>StatePeerClosed\<close>, when no packet
  arrives and nobody closes it, three periodic flushes terminate it, the first at least 30 seconds
  after the last packet and 15 seconds after the last change of state, the others more than 15 and
  8 seconds later; none of them panics.
\<close>

theorem abandoned_connection_terminates:
  assumes "state c \<noteq> StatePeerClosed" "config_ok (Some (conf c))"
    and "elapsed_at t c - lastIncomingTime c \<ge> 30000" "elapsed_at t c - stateBeginTime c > 15000"
    and "elapsed_at t' c - elapsed_at t c > 15000" "elapsed_at t'' c - elapsed_at t' c > 8000"
  shows "\<exists>c'. flush_run [t, t', t''] c = Some c' \<and> state c' = StateTerminated"
proof -
  have g: "x > 15000 \<Longrightarrow> x > 8000" "x > 15000 \<Longrightarrow> x > 4000" for x :: u32
    by (rule less_trans [rotated], assumption, simp)+
  show ?thesis
  proof (cases "state c")
    case StateActive
    then show ?thesis using assms by (intro flush_run_Active)
  next
    case StateReadyToClose
    then show ?thesis using assms g by (intro flush_run_ReadyToClose) auto
  next
    case StateTerminating
    then show ?thesis using assms g by (intro flush_run_Terminating) auto
  next
    case StatePeerTerminating
    have o: "flush_outcome (at_time t c) (\<lambda>s b. s = StateTerminating \<and> b = elapsed_at t c)"
      using StatePeerTerminating assms(2,4) g by (intro flush_from_PeerTerminating) auto
    have e: "elapsed_at t' c - elapsed_at t c > 8000" using assms(5) g by simp
    from o show ?thesis
      by (rule flush_run_outcome) (use e flush_run_Terminating elapsed_at_cong in metis)
  next
    case StateTerminated
    then show ?thesis by (rule flush_run_Terminated)
  qed (use assms(1) in simp)
qed

theorem abandoned_connection_terminates_witness:
  "\<exists>c'. flush_run [31000, 50000, 60000] sample_connection = Some c' \<and> state c' = StateTerminated"
  using abandoned_connection_terminates [of sample_connection 31000 50000 60000]
  by (simp add: sample_connection_def default_config_ok elapsed_at_def)

section \<open>Two places where the timeouts go wrong\<close>

lemma word_behind:
  assumes "a < b" "b - a < 2 ^ 31"
  shows "(of_int a - of_int b :: u32) > 0x7FFFFFFF"
proof -
  have "(of_int a - of_int b :: u32) = of_int (a - b)" by simp
  then have "uint (of_int a - of_int b :: u32) = (a - b) mod 2 ^ 32" by (simp only: uint_word_of_int) simp
  also have "\<dots> = (a - b + 2 ^ 32) mod 2 ^ 32" by simp
  also have "\<dots> = a - b + 2 ^ 32" using assms by (intro mod_pos_pos_trivial) simp_all
  finally show ?thesis using assms by (simp add: word_less_alt)
qed

text \<open>
  C26: the terminating state can be skipped: \<^verbatim>\<open>flush\<close> reads the clock once, then
  \<^verbatim>\<open>SetState\<close> reads it again for \<^verbatim>\<open>stateBeginTime\<close>. When a millisecond passes in
  between, the unsigned difference of the two is huge, and a connection that has drained its
  window is terminated in the same flush that enters \<^verbatim>\<open>StateTerminating\<close>, instead of
  repeating the terminate command for 8 seconds; with a clock that stands still it stays
  terminating.
\<close>

theorem terminating_skipped:
  assumes "state c = StateReadyToClose" "snd_IsEmpty (sendingWorker c)"
  shows "(clock c (ticks c) < clock c (ticks c + 1) \<and> clock c (ticks c + 1) - clock c (ticks c) < 2 ^ 31 \<longrightarrow>
            (\<exists>c' es. flush c = Some (c', es) \<and> state c' = StateTerminated)) \<and>
         (clock c (ticks c) = clock c (ticks c + 1) \<longrightarrow>
            (\<exists>c' es. flush c = Some (c', es) \<and> state c' = StateTerminating))"
proof -
  let ?cur = "of_int (clock c (ticks c) - since c) :: u32" and ?beg = "of_int (clock c (ticks c + 1) - since c) :: u32"
  have f: "flush c = (let (c3, es3) = flush_terminating ?cur (fst (SetState StateTerminating (snd (Elapsed c))))
      in Some (c3, snd (SetState StateTerminating (snd (Elapsed c))) @ es3))"
    using assms by (simp add: flush_def Elapsed_def flush_idle_def flush_drained_def split_def Let_def SetState_facts)
  have t: "state (fst (flush_terminating ?cur (fst (SetState StateTerminating (snd (Elapsed c))))))
      = (if ?cur - ?beg > 8000 then StateTerminated else StateTerminating)"
    by (simp add: flush_terminating_def Ping_def split_def Let_def SetState_facts Elapsed_def)
  have "?cur - ?beg > 8000"
    if "clock c (ticks c) < clock c (ticks c + 1) \<and> clock c (ticks c + 1) - clock c (ticks c) < 2 ^ 31"
  proof -
    have "?cur - ?beg > 0x7FFFFFFF" using that by (intro word_behind) simp_all
    then show ?thesis by (rule less_trans [rotated]) simp
  qed
  then show ?thesis unfolding f using t by (auto simp: split_def Let_def)
qed

theorem terminating_skipped_witness:
  "\<exists>c' es. flush (sample_connection\<lparr>state := StateReadyToClose, sendingWorker := sample_worker\<lparr>window := NewSendingWindow\<rparr>\<rparr>) = Some (c', es) \<and>
     state c' = StateTerminated"
  using terminating_skipped [of "sample_connection\<lparr>state := StateReadyToClose, sendingWorker := sample_worker\<lparr>window := NewSendingWindow\<rparr>\<rparr>"]
  by (simp add: sample_connection_def snd_IsEmpty_def sw_IsEmpty_def NewSendingWindow_def)

lemma flush_PeerClosed:
  assumes "state c = StatePeerClosed" "flush c = Some (c', es)"
  shows "state c' = StatePeerClosed"
proof -
  have "flush c = map_option (\<lambda>(c5, es5). (c5, es5)) (flush_workers (fst (Elapsed c)) (snd (Elapsed c)))"
    using assms(1) by (simp add: flush_def Elapsed_def flush_idle_def flush_drained_def flush_peer_terminating_def
        flush_ready_to_close_def split_def Let_def)
  then have "flush_workers (fst (Elapsed c)) (snd (Elapsed c)) = Some (c', es)"
    using assms(2) by (cases "flush_workers (fst (Elapsed c)) (snd (Elapsed c))") auto
  from flush_workers_facts [OF this] show ?thesis using assms(1) by (simp add: Elapsed_def)
qed

text \<open>
  A half-closed connection never times out: once the peer has announced its close,
  no sequence of flushes at any times leaves \<^verbatim>\<open>StatePeerClosed\<close>, and a reader without data
  waits instead of seeing the end of the stream. If the peer disappears before its terminate
  command arrives, only the local \<^verbatim>\<open>Close\<close> ends the connection.
\<close>

theorem peer_closed_never_times_out:
  assumes "state c = StatePeerClosed" "flush_run ts c = Some c'"
  shows "state c' = StatePeerClosed \<and>
         (mb_IsEmpty (fst (rcv_ReadMultiBuffer (receivingWorker c'))) \<longrightarrow> fst (conn_ReadMultiBuffer c') = ReadWait)"
proof -
  have "state c' = StatePeerClosed" using assms
  proof (induction ts arbitrary: c)
    case (Cons t ts)
    then obtain c1 es where f: "flush (at_time t c) = Some (c1, es)" "flush_run ts c1 = Some c'"
      by (auto split: option.splits)
    then show ?case using flush_PeerClosed [OF _ f(1)] Cons by (simp add: at_time_def)
  qed simp
  then show ?thesis by (simp add: conn_ReadMultiBuffer_def state_Is_def split_def Let_def)
qed

theorem peer_closed_never_times_out_witness:
  "\<exists>c'. flush_run [31000, 900000] (sample_connection\<lparr>state := StatePeerClosed\<rparr>) = Some c' \<and> state c' = StatePeerClosed"
proof -
  let ?c = "sample_connection\<lparr>state := StatePeerClosed\<rparr>"
  have "\<exists>c'. flush_run ts c = Some c'" if "config_ok (Some (conf c))" for ts c
    using that
  proof (induction ts arbitrary: c)
    case (Cons t ts)
    have "\<exists>c' es. flush (at_time t c) = Some (c', es)"
      using flush_total [of "at_time t c"] Cons.prems by (simp add: at_time_def)
    then obtain c1 es where f: "flush (at_time t c) = Some (c1, es)" by blast
    then have "conf c1 = conf c" using flush_facts(1) [OF f] by (simp add: conn_moves_def at_time_def)
    then show ?case using f Cons by simp
  qed simp
  then obtain c' where c': "flush_run [31000, 900000] ?c = Some c'"
    using default_config_ok by (metis Connection.ext_inject Connection.surjective Connection.update_convs(6) sample_connection_def)
  then show ?thesis using peer_closed_never_times_out [of ?c "[31000, 900000]" c'] by simp
qed

section \<open>Writing cuts the stream into segments\<close>

fun numbered :: "u32 \<Rightarrow> buffer list \<Rightarrow> (u32 \<times> buffer option) list" where
  "numbered n [] = []"
| "numbered n (b # bs) = (n, Some b) # numbered (n + 1) bs"

definition payload_ok :: "nat \<Rightarrow> buffer \<Rightarrow> bool" where
  "payload_ok limit b \<longleftrightarrow> buf_wf b \<and> length (content b) \<le> min Size limit"

definition blocked_bytes :: "write_result \<Rightarrow> byte list" where
  "blocked_bytes res = (case res of WriteBlocked b \<Rightarrow> content b | _ \<Rightarrow> [])"

lemma limit_Read_spec:
  "limit_Read limit n r = (xs, e, r') \<Longrightarrow>
     xs @ concat r' = concat r \<and> length xs \<le> min n limit \<and> (e \<noteq> None \<longrightarrow> limit = 0 \<or> concat r' = []) \<and>
     (e \<noteq> None \<longrightarrow> xs = [])"
  by (cases r) (auto simp: limit_Read_def split: if_splits)

lemma ReadFrom_New:
  assumes "length xs \<le> Size"
  obtains b where "ReadFrom [xs] New = Some (length xs, None, [], b)" "buf_wf b" "content b = xs"
proof -
  have "reader_Read (room New) [xs] = (xs, None, [])" using assms by simp
  then show ?thesis using ReadFrom_spec [OF New_facts(1), of "[xs]"] that by (metis New_facts(2) append_Nil)
qed

lemma write_loop_spec:
  assumes "case b of None \<Rightarrow> True | Some b' \<Rightarrow> payload_ok (unat (mss c)) b'"
  shows "\<exists>res c' r' p' bs. write_loop c b r pending = Some (res, c', r', p') \<and>
     idents (sendingWorker c') = idents (sendingWorker c) @ numbered (nextNumber (sendingWorker c)) bs \<and>
     nextNumber (sendingWorker c') = nextNumber (sendingWorker c) + of_nat (length bs) \<and>
     (\<forall>b\<in>set bs. payload_ok (unat (mss c)) b) \<and>
     (case b of None \<Rightarrow> [] | Some b' \<Rightarrow> content b') @ concat r =
       concat (map content bs) @ (if res = WriteClosed \<and> bs = [] then (case b of None \<Rightarrow> [] | Some b' \<Rightarrow> content b')
         else blocked_bytes res) @ concat r' \<and>
     (res = WriteDone \<longrightarrow> mss c = 0 \<or> concat r' = []) \<and> (res = WriteClosed \<longrightarrow> state c \<noteq> StateActive) \<and>
     receivingWorker c' = receivingWorker c \<and> conversation c' = conversation c \<and> state c' = state c"
  using assms
proof (induction c b r pending rule: write_loop.induct)
  case (1 c b r pending)
  note step = write_loop.simps [of c b r pending]
  show ?case
  proof (cases "state c = StateActive")
    case False
    then show ?thesis using step by (auto simp: blocked_bytes_def intro!: exI [of _ "[]"])
  next
    case True
    show ?thesis
    proof (cases b)
      case (Some b')
      obtain ok sw where p: "snd_Push b' (sendingWorker c) = (ok, sw)" by (cases "snd_Push b' (sendingWorker c)")
      show ?thesis
      proof (cases ok)
        case False
        then have "sw = sendingWorker c" using p idents_snd_Push(2) [of b' "sendingWorker c" sw] by simp
        then show ?thesis using step True Some p False by (auto simp: blocked_bytes_def intro!: exI [of _ "[]"])
      next
        case ok: True
        let ?c = "c\<lparr>sendingWorker := sw\<rparr>"
        have sw: "idents sw = idents (sendingWorker c) @ [(nextNumber (sendingWorker c), Some b')]"
          "nextNumber sw = nextNumber (sendingWorker c) + 1"
          using p ok idents_snd_Push(1) [of b' "sendingWorker c" sw] by simp_all
        have run: "write_loop c b r pending = write_loop ?c None r True" using step True Some p ok by simp
        have "case None :: buffer option of None \<Rightarrow> True | Some b' \<Rightarrow> payload_ok (unat (mss ?c)) b'" by simp
        from 1(2) [OF _ Some p [symmetric] _ this] True ok obtain res c' r' p' bs where
          w: "write_loop ?c None r True = Some (res, c', r', p')"
          "idents (sendingWorker c') = idents sw @ numbered (nextNumber sw) bs"
          "nextNumber (sendingWorker c') = nextNumber sw + of_nat (length bs)"
          "\<forall>b\<in>set bs. payload_ok (unat (mss c)) b"
          "concat r = concat (map content bs) @ blocked_bytes res @ concat r'"
          "res = WriteDone \<longrightarrow> mss c = 0 \<or> concat r' = []" "res = WriteClosed \<longrightarrow> state c \<noteq> StateActive"
          "receivingWorker c' = receivingWorker c" "conversation c' = conversation c" "state c' = state c"
          by (auto simp: blocked_bytes_def split: if_splits)
        show ?thesis
          using run w sw Some 1(3)
          by (intro exI [of _ res] exI [of _ c'] exI [of _ r'] exI [of _ p'] exI [of _ "b' # bs"])
             (simp add: add.assoc)
      qed
    next
      case None
      obtain xs e r1 where l: "limit_Read (unat (mss c)) Size r = (xs, e, r1)"
        by (cases "limit_Read (unat (mss c)) Size r")
      note ls = limit_Read_spec [OF l]
      show ?thesis
      proof (cases e)
        case (Some err)
        then show ?thesis
          using step True None l ls by (auto simp: blocked_bytes_def unat_eq_0 intro!: exI [of _ "[]"])
      next
        case noerr: None
        obtain b' where b': "ReadFrom [xs] New = Some (length xs, None, [], b')" "buf_wf b'" "content b' = xs"
          using ReadFrom_New [of xs] ls by auto
        have run: "write_loop c b r pending = write_loop c (Some b') r1 pending"
          using step True None l noerr b'(1) by simp
        have "case Some b' of None \<Rightarrow> True | Some b' \<Rightarrow> payload_ok (unat (mss c)) b'"
          using b' ls by (simp add: payload_ok_def)
        note IH = 1(1) [OF _ None l [symmetric] refl noerr b'(1) refl refl refl this, unfolded option.case(2) b'(3)]
        have act: "\<not> state c \<noteq> StateActive" using True by simp
        from IH [OF act] obtain res c' r' p' bs where
          w: "write_loop c (Some b') r1 pending = Some (res, c', r', p')"
          "idents (sendingWorker c') = idents (sendingWorker c) @ numbered (nextNumber (sendingWorker c)) bs"
          "nextNumber (sendingWorker c') = nextNumber (sendingWorker c) + of_nat (length bs)"
          "\<forall>b\<in>set bs. payload_ok (unat (mss c)) b"
          "xs @ concat r1 = concat (map content bs) @ (if res = WriteClosed \<and> bs = [] then xs else blocked_bytes res) @ concat r'"
          "res = WriteDone \<longrightarrow> mss c = 0 \<or> concat r' = []" "res = WriteClosed \<longrightarrow> state c \<noteq> StateActive"
          "receivingWorker c' = receivingWorker c" "conversation c' = conversation c" "state c' = state c"
          by blast
        have "res \<noteq> WriteClosed" using w(7) True by blast
        then show ?thesis
          using run None ls w by (intro exI [of _ res] exI [of _ c'] exI [of _ r'] exI [of _ p'] exI [of _ bs]) simp
      qed
    qed
  qed
qed

text \<open>
  C10: writing cuts the stream without loss: \<^verbatim>\<open>writeMultiBufferInternal\<close> returns or waits
  after finitely many rounds; the payloads it pushed have consecutive numbers, are at most
  \<^verbatim>\<open>mss\<close> bytes each, and together with the buffer it holds while it waits and the bytes it has
  not read they are exactly the input; it reports success only when all was taken (or when
  \<^verbatim>\<open>mss\<close> is 0, see the findings) and gives up only on a connection that is not active.
\<close>

theorem write_cuts_stream:
  "\<exists>res c' r' es bs. writeMultiBufferInternal r c = Some (res, c', r', es) \<and>
     idents (sendingWorker c') = idents (sendingWorker c) @ numbered (nextNumber (sendingWorker c)) bs \<and>
     (\<forall>b\<in>set bs. buf_wf b \<and> length (content b) \<le> unat (mss c)) \<and>
     concat r = concat (map content bs) @ blocked_bytes res @ concat r' \<and>
     (res = WriteDone \<longrightarrow> mss c = 0 \<or> concat r' = []) \<and> (res = WriteClosed \<longrightarrow> state c \<noteq> StateActive)"
proof -
  obtain res c' r' p' bs where w: "write_loop c None r False = Some (res, c', r', p')"
    "idents (sendingWorker c') = idents (sendingWorker c) @ numbered (nextNumber (sendingWorker c)) bs"
    "\<forall>b\<in>set bs. payload_ok (unat (mss c)) b"
    "concat r = concat (map content bs) @ (if res = WriteClosed \<and> bs = [] then [] else blocked_bytes res) @ concat r'"
    "res = WriteDone \<longrightarrow> mss c = 0 \<or> concat r' = []" "res = WriteClosed \<longrightarrow> state c \<noteq> StateActive"
    using write_loop_spec [where b = None and c = c and r = r and pending = False, unfolded option.case(1) append_Nil] by blast
  have "writeMultiBufferInternal r c = Some (res, c', r', if p' then [WakeUpData] else [])"
    using w(1) by (simp add: writeMultiBufferInternal_def)
  moreover have "concat r = concat (map content bs) @ blocked_bytes res @ concat r'"
    using w(4) by (simp add: blocked_bytes_def split: if_splits)
  moreover have "\<forall>b\<in>set bs. buf_wf b \<and> length (content b) \<le> unat (mss c)"
    using w(3) by (simp add: payload_ok_def)
  ultimately show ?thesis using w(2,5,6) by blast
qed

theorem write_cuts_stream_witness:
  "\<exists>res c' r' es bs. writeMultiBufferInternal [[1, 2, 3]] sample_connection = Some (res, c', r', es) \<and>
     [1, 2, 3] = concat (map content bs) @ blocked_bytes res @ concat r' \<and> res \<noteq> WriteClosed"
  using write_cuts_stream [of "[[1, 2, 3]]" sample_connection] by (auto simp: sample_connection_def)

end
