(* ===== verification/Kcp_System.thy ===== *)
theory Kcp_System
  imports Kcp_Connection
begin

text \<open>
  Two connections and the network between them, down to the bytes of the packets: the sender's
  writes and flushes, a network that loses, duplicates, delays and reorders packets and lets
  control segments of any content through, and the receiver's handlers and reads, interleaved in
  any order. The property is the promise of a reliable byte stream: what the receiving
  application has read is a prefix of what the sending side has accepted.
\<close>

section \<open>Packets on the wire\<close>

text \<open>
  A packet carries a data segment when the segment writer and the packet writer of an endpoint with
  the settings of the reader \<open>pr\<close> made it, whatever their buffers, header counters and random
  numbers were.
\<close>

definition carries :: "KCPPacketReader \<Rightarrow> DataSegment \<Rightarrow> byte list \<Rightarrow> bool" where
  "carries pr d pkt \<longleftrightarrow> (\<exists>buf bs buf' a roll rnd wr w res w' rnd'.
     SimpleSegmentWriter_Write (SData d) buf = Some (bs, buf') \<and>
     KCPPacketWriter_Write a roll rnd wr w bs = Some (pkt, res, w', rnd') \<and>
     buf_wf buf \<and> vlen buf = Size \<and> length a < 2 ^ 31 \<and>
     (case rSecurity pr of None \<Rightarrow> True | Some A \<Rightarrow> NonceSize A \<le> length (concat rnd)) \<and>
     wSecurity w = rSecurity pr \<and> hdr_wf (wHeader w) \<and> (rHeader pr = None \<longleftrightarrow> wHeader w = None) \<and>
     hdr_size (rHeader pr) = hdr_size (wHeader w))"

text \<open>What a packet that carries \<open>d\<close> is read as: nothing but \<open>d\<close>.\<close>

definition reads_back :: "KCPPacketReader \<Rightarrow> DataSegment \<Rightarrow> byte list \<Rightarrow> bool" where
  "reads_back pr d pkt \<longleftrightarrow> (\<exists>segs. KCPPacketReader_Read pr pkt = Some segs \<and>
     (\<forall>s\<in>set segs. \<exists>d'. s = SData d' \<and> Number d' = Number d \<and> payload_bytes d' = payload_bytes d))"

lemma SimpleSegmentWriter_bytes:
  assumes "SimpleSegmentWriter_Write seg buf = Some (bs, buf')" "Serialize seg = Some raw"
    "int (length raw) = ByteSize seg" "buf_wf buf" "vlen buf = Size" "length raw \<le> Size"
  shows "bs = raw"
proof -
  let ?c = "buf_Clear buf"
  have c: "buf_wf ?c" "length raw \<le> room ?c" using assms(4-6) by simp_all
  then have "nat (buf_end ?c) + length raw \<le> length (arr ?c)" using room_arr [OF c(1)] by simp
  then obtain b' where b': "Extend (int (length raw)) ?c = Some (b', nat (buf_end ?c), nat (buf_end ?c) + length raw)"
    "buf_wf (buf_put (nat (buf_end ?c)) raw b')"
    "content (buf_put (nat (buf_end ?c)) raw b') = content ?c @ take (length raw) raw"
    by (rule Extend_put [OF c order_refl])
  then show ?thesis
    using assms(1) unfolding SimpleSegmentWriter_Write_def assms(3) [symmetric]
    by (simp add: assms(2) Bytes_content)
qed

text \<open>The largest payload that fits one buffer with the headers of the packet.\<close>

definition payload_limit :: "KCPPacketReader \<Rightarrow> nat" where
  "payload_limit pr = Size - (hdr_size (rHeader pr) + (case rSecurity pr of None \<Rightarrow> 0 | Some A \<Rightarrow> NonceSize A + Overhead A) + 21)"

lemma Serialize_data:
  assumes "payload d = Some p" "buf_wf p" "length (content p) \<le> Size"
  shows "\<exists>raw segs. Serialize (SData d) = Some raw \<and> int (length raw) = ByteSize (SData d) \<and>
     length raw = 18 + length (content p) \<and> read_segments raw = Some segs \<and>
     (\<forall>s\<in>set segs. \<exists>d'. s = SData d' \<and> Number d' = Number d \<and> payload_bytes d' = payload_bytes d)"
proof -
  have size: "ByteSize (SData d) = int (18 + length (content p))"
    using assms i32_nat [of "18 + length (content p)"] by (simp add: buf_Len_ptr_def Size_def)
  show ?thesis
  proof (cases "content p = []")
    case True
    then obtain raw where raw: "Serialize (SData d) = Some raw" "int (length raw) = ByteSize (SData d)"
      "ReadSegment raw = Some None" using Serialize_empty_payload [OF assms(1,2)] by blast
    then have "read_segments raw = Some []" using read_segments.simps [of raw] by simp
    then show ?thesis using raw size by auto
  next
    case False
    then have "sendable (SData d)" using assms by simp
    then obtain raw seg' where raw: "Serialize (SData d) = Some raw" "int (length raw) = ByteSize (SData d)"
      "ReadSegment (raw @ []) = Some (Some (seg', []))" "wire seg' = wire (SData d)"
      using Serialize_ReadSegment [of "SData d" "[]"] by blast
    then have "raw \<noteq> []" by (auto simp: ReadSegment_def)
    then have "read_segments raw = Some [seg']"
      using raw(3) read_segments.simps [of raw] read_segments.simps [of "[]"] by simp
    moreover obtain d' where "seg' = SData d'" "Number d' = Number d" "payload_bytes d' = payload_bytes d"
      using raw(4) by (cases seg') auto
    ultimately show ?thesis using raw(1,2) size by auto
  qed
qed

context aead
begin

lemma carries_reads_back:
  assumes "carries pr d pkt" "rSecurity pr = Some A" "hdr_wf (rHeader pr)"
    "\<And>p. length p \<le> Size \<Longrightarrow> plain_ok p"
    "payload d = Some p" "buf_wf p" "length (content p) \<le> payload_limit pr"
    "hdr_size (rHeader pr) + NonceSize A + Overhead A + 21 \<le> Size"
  shows "reads_back pr d pkt"
proof -
  from assms(1) obtain buf bs buf' a roll rnd wr w res w' rnd' where c:
    "SimpleSegmentWriter_Write (SData d) buf = Some (bs, buf')"
    "KCPPacketWriter_Write a roll rnd wr w bs = Some (pkt, res, w', rnd')"
    "buf_wf buf" "vlen buf = Size" "length a < 2 ^ 31" "NonceSize A \<le> length (concat rnd)"
    "wSecurity w = Some A" "hdr_wf (wHeader w)" "rHeader pr = None \<longleftrightarrow> wHeader w = None"
    "hdr_size (rHeader pr) = hdr_size (wHeader w)"
    unfolding carries_def assms(2) by auto
  have le: "length (content p) + hdr_size (wHeader w) + NonceSize A + Overhead A + 21 \<le> Size"
    using assms(7,8) c(10) by (simp add: payload_limit_def assms(2))
  then have "length (content p) \<le> Size" by simp
  from Serialize_data [OF assms(5,6) this] obtain raw segs where raw:
    "Serialize (SData d) = Some raw" "int (length raw) = ByteSize (SData d)" "length raw = 18 + length (content p)"
    "read_segments raw = Some segs"
    "\<forall>s\<in>set segs. \<exists>d'. s = SData d' \<and> Number d' = Number d \<and> payload_bytes d' = payload_bytes d" by blast
  have fit: "length raw \<le> Size" "hdr_size (wHeader w) + NonceSize A + length raw + Overhead A + 3 \<le> Size" "raw \<noteq> []"
    using le raw(3) by auto
  have "bs = raw" by (rule SimpleSegmentWriter_bytes [OF c(1) raw(1,2) c(3,4) fit(1)])
  then have "KCPPacketReader_Read pr pkt = read_segments raw"
    using Write_Read [OF c(7,8,5) assms(4) [OF fit(1)] fit(3) c(6) fit(2) assms(2) c(9) assms(3) c(10), of roll wr] c(2)
    by auto
  then show ?thesis using raw(4,5) by (auto simp: reads_back_def)
qed

end

section \<open>The system\<close>

text \<open>
  \<open>pushed\<close> records the payloads the sender's window has taken, \<open>got\<close> the bytes that reads of
  the receiver have returned. The network keeps every data packet that was ever sent: a packet
  that is never delivered again is lost, one that is delivered twice is duplicated.
\<close>

record System =
  sndr :: Connection
  rcvr :: Connection
  net :: "byte list set"
  pushed :: "byte list list"
  got :: "byte list"

definition read_bytes :: "MultiBuffer read_result \<Rightarrow> byte list" where
  "read_bytes res = (case res of ReadData mb \<Rightarrow> mb_content mb | _ \<Rightarrow> [])"

definition read_plain :: "byte list read_result \<Rightarrow> byte list" where
  "read_plain res = (case res of ReadData xs \<Rightarrow> xs | _ \<Rightarrow> [])"

definition no_data :: "KCPPacketReader \<Rightarrow> byte list \<Rightarrow> bool" where
  "no_data pr pkt \<longleftrightarrow> (\<forall>segs d. KCPPacketReader_Read pr pkt = Some segs \<longrightarrow> SData d \<notin> set segs)"

inductive sys_step :: "KCPPacketReader \<Rightarrow> System \<Rightarrow> System \<Rightarrow> bool" for pr where
  s_write: "write_loop (sndr s) b r pending = Some (res, c', r', p') \<Longrightarrow>
     (case b of None \<Rightarrow> True | Some b' \<Rightarrow> payload_ok (unat (mss (sndr s))) b') \<Longrightarrow>
     idents (sendingWorker c') = idents (sendingWorker (sndr s)) @ new \<Longrightarrow>
     length (pushed s) + length new < 2 ^ 32 \<Longrightarrow>
     sys_step pr s (s\<lparr>sndr := c', pushed := pushed s @ map (content \<circ> the \<circ> snd) new\<rparr>)"
| s_flush: "flush (sndr s) = Some (c', es) \<Longrightarrow>
     (\<forall>pkt\<in>pkts. \<exists>d. Output (SData d) \<in> set es \<and> carries pr d pkt) \<Longrightarrow>
     sys_step pr s (s\<lparr>sndr := c', net := net s \<union> pkts\<rparr>)"
| s_Input: "Input segs (sndr s) = (c', es) \<Longrightarrow> sys_step pr s (s\<lparr>sndr := c'\<rparr>)"
| s_Close: "Close (sndr s) = (e, c', es) \<Longrightarrow> sys_step pr s (s\<lparr>sndr := c'\<rparr>)"
| s_Terminate: "Terminate (sndr s) = (c', es) \<Longrightarrow> sys_step pr s (s\<lparr>sndr := c'\<rparr>)"
| r_deliver: "pkt \<in> net s \<or> no_data pr pkt \<Longrightarrow> KCPPacketReader_Read pr pkt = Some segs \<Longrightarrow>
     Input segs (rcvr s) = (c', es) \<Longrightarrow> sys_step pr s (s\<lparr>rcvr := c'\<rparr>)"
| r_ReadMultiBuffer: "conn_ReadMultiBuffer (rcvr s) = (mres, c', es) \<Longrightarrow>
     sys_step pr s (s\<lparr>rcvr := c', got := got s @ read_bytes mres\<rparr>)"
| r_Read: "conn_Read k (rcvr s) = Some (bres, c', es) \<Longrightarrow>
     sys_step pr s (s\<lparr>rcvr := c', got := got s @ read_plain bres\<rparr>)"
| r_flush: "flush (rcvr s) = Some (c', es) \<Longrightarrow> sys_step pr s (s\<lparr>rcvr := c'\<rparr>)"
| r_Close: "Close (rcvr s) = (e, c', es) \<Longrightarrow> sys_step pr s (s\<lparr>rcvr := c'\<rparr>)"
| r_Terminate: "state (rcvr s) = StateTerminated \<Longrightarrow> Terminate (rcvr s) = (c', es) \<Longrightarrow>
     sys_step pr s (s\<lparr>rcvr := c'\<rparr>)"
| r_write: "write_loop (rcvr s) b r pending = Some (res, c', r', p') \<Longrightarrow>
     (case b of None \<Rightarrow> True | Some b' \<Rightarrow> payload_ok (unat (mss (rcvr s))) b') \<Longrightarrow>
     sys_step pr s (s\<lparr>rcvr := c'\<rparr>)"

section \<open>The invariant\<close>

text \<open>A data segment whose number and bytes are those of a payload that was pushed.\<close>

definition ok_data :: "byte list list \<Rightarrow> DataSegment \<Rightarrow> bool" where
  "ok_data ps d \<longleftrightarrow> (\<exists>i<length ps. Number d = of_nat i \<and> payload_bytes d = ps ! i) \<and>
     (\<exists>p. payload d = Some p \<and> buf_wf p)"

definition snd_ok :: "nat \<Rightarrow> byte list list \<Rightarrow> SendingWorker \<Rightarrow> bool" where
  "snd_ok limit ps w \<longleftrightarrow> nextNumber w = of_nat (length ps) \<and>
     (\<forall>n p. (n, p) \<in> set (idents w) \<longrightarrow>
        (\<exists>i b. i < length ps \<and> n = of_nat i \<and> p = Some b \<and> buf_wf b \<and> content b = ps ! i \<and> length (content b) \<le> limit))"

definition rcv_ok :: "byte list list \<Rightarrow> ReceivingWorker \<Rightarrow> bool" where
  "rcv_ok ps w \<longleftrightarrow> rcv_wf w \<and>
     (\<forall>k d. map_of (rwindow w) k = Some d \<longrightarrow> ok_data ps d) \<and>
     (case leftOver w of None \<Rightarrow> True | Some mb \<Rightarrow> mb_wf mb)"

definition left_bytes :: "ReceivingWorker \<Rightarrow> byte list" where
  "left_bytes w = (case leftOver w of None \<Rightarrow> [] | Some mb \<Rightarrow> mb_content mb)"

definition stream_ok :: "byte list list \<Rightarrow> byte list \<Rightarrow> ReceivingWorker \<Rightarrow> State \<Rightarrow> bool" where
  "stream_ok ps g w st \<longleftrightarrow> (\<exists>m. m \<le> length ps \<and> rnextNumber w = of_nat m \<and> prefix g (concat ps) \<and>
     (st \<noteq> StateTerminated \<longrightarrow> g @ left_bytes w = concat (take m ps)))"

lemma ok_data_mono: "ok_data ps d \<Longrightarrow> ok_data (ps @ qs) d"
proof -
  assume d: "ok_data ps d"
  then obtain i where i: "i < length ps" "Number d = of_nat i" "payload_bytes d = ps ! i"
    by (auto simp: ok_data_def)
  then have "i < length (ps @ qs) \<and> Number d = of_nat i \<and> payload_bytes d = (ps @ qs) ! i"
    by (simp add: nth_append)
  then show ?thesis using d by (auto simp: ok_data_def)
qed

lemma snd_ok_shrink:
  "snd_ok limit ps w \<Longrightarrow> subseq (idents w') (idents w) \<Longrightarrow> nextNumber w' = nextNumber w \<Longrightarrow> snd_ok limit ps w'"
  unfolding snd_ok_def using set_subseq by (metis subsetD)

lemma rcv_ok_mono: "rcv_ok ps w \<Longrightarrow> rcv_ok (ps @ qs) w"
  using ok_data_mono by (auto simp: rcv_ok_def)

lemma stream_ok_mono: "stream_ok ps g w st \<Longrightarrow> stream_ok (ps @ qs) g w st"
  by (auto simp: stream_ok_def intro: prefix_prefix trans_le_add1)

text \<open>Handlers that leave the position and the rest of the last read alone.\<close>

lemma stream_ok_frame:
  assumes "stream_ok ps g w st" "rnextNumber w' = rnextNumber w" "leftOver w' = leftOver w" "moves st st'"
  shows "stream_ok ps g w' st'"
proof -
  have "st' \<noteq> StateTerminated \<Longrightarrow> st \<noteq> StateTerminated" using assms(4) moves_Terminated by auto
  then show ?thesis using assms(1-3) by (auto simp: stream_ok_def left_bytes_def)
qed

section \<open>The receiving side\<close>

definition conn_ok :: "byte list list \<Rightarrow> byte list \<Rightarrow> Connection \<Rightarrow> bool" where
  "conn_ok ps g c \<longleftrightarrow> rcv_ok ps (receivingWorker c) \<and> stream_ok ps g (receivingWorker c) (state c)"

lemma conn_ok_mono: "conn_ok ps g c \<Longrightarrow> conn_ok (ps @ qs) g c"
  by (simp add: conn_ok_def rcv_ok_mono stream_ok_mono)

lemma conn_ok_sends: "conn_ok ps g c \<Longrightarrow> sends_only c c' \<Longrightarrow> conn_ok ps g c'"
  by (auto simp: conn_ok_def sends_only_def conn_moves_def intro: stream_ok_frame)

lemma rcv_ok_ProcessSegment:
  assumes "rcv_ok ps w" "ok_data ps d"
  shows "rcv_ok ps (rcv_ProcessSegment d w)"
proof -
  have "rcv_wf (rcv_ProcessSegment d w)"
    using assms by (intro rcv_ProcessSegment_wf) (auto simp: rcv_ok_def ok_data_def)
  then show ?thesis using assms by (auto simp: rcv_ok_def rcv_ProcessSegment_window split: if_splits)
qed

lemma rcv_ok_ProcessSendingNext: "rcv_ok ps w \<Longrightarrow> rcv_ok ps (ProcessSendingNext n w)"
  using ProcessSendingNext_wf [of w n] by (simp add: rcv_ok_def ProcessSendingNext_def)

lemma conn_ok_input_segment:
  assumes "conn_ok ps g c" "\<And>d. seg = SData d \<Longrightarrow> ok_data ps d"
  shows "conn_ok ps g (fst (input_segment current seg c))"
proof (cases seg)
  case (SData d)
  let ?c = "fst (input_data d c)"
  have f: "moves (state c) (state ?c)" "receivingWorker ?c = rcv_ProcessSegment d (receivingWorker c)"
    using input_data_facts [of c d] by (simp_all add: conn_moves_def)
  then have "stream_ok ps g (receivingWorker ?c) (state ?c)"
    using assms(1) by (intro stream_ok_frame [OF _ _ _ f(1)]) (simp_all add: conn_ok_def)
  then show ?thesis using assms f(2) SData by (simp add: conn_ok_def rcv_ok_ProcessSegment)
next
  case (SAck a)
  then show ?thesis using conn_ok_sends [OF assms(1) input_ack_facts] by simp
next
  case (SCmd x)
  let ?c = "fst (input_cmd current x c)"
  have f: "moves (state c) (state ?c)" "receivingWorker ?c = ProcessSendingNext (cSendingNext x) (receivingWorker c)"
    using input_cmd_facts [of c current x] by (simp_all add: conn_moves_def)
  then have "stream_ok ps g (receivingWorker ?c) (state ?c)"
    using assms(1) by (intro stream_ok_frame [OF _ _ _ f(1)]) (simp_all add: conn_ok_def ProcessSendingNext_def)
  then show ?thesis using assms f(2) SCmd by (simp add: conn_ok_def rcv_ok_ProcessSendingNext)
qed

lemma conn_ok_input_loop:
  "conn_ok ps g c \<Longrightarrow> \<forall>d. SData d \<in> set segs \<longrightarrow> ok_data ps d \<Longrightarrow> conn_ok ps g (fst (input_loop current segs c))"
proof (induction segs arbitrary: c)
  case (Cons seg segs)
  obtain c1 es where i: "input_segment current seg c = (c1, es)" by (cases "input_segment current seg c")
  have "conn_ok ps g c1" using conn_ok_input_segment [OF Cons.prems(1), of seg current] Cons.prems(2) i by simp
  then show ?case using Cons.IH [of c1] Cons.prems i by (simp add: split_def Let_def)
qed simp

lemma conn_ok_Input:
  assumes "conn_ok ps g c" "\<forall>d. SData d \<in> set segs \<longrightarrow> ok_data ps d"
  shows "conn_ok ps g (fst (Input segs c))"
proof -
  have "conn_ok ps g (snd (Elapsed c)\<lparr>lastIncomingTime := fst (Elapsed c)\<rparr>)"
    using assms(1) by (simp add: conn_ok_def Elapsed_def)
  from conn_ok_input_loop [OF this assms(2)] show ?thesis by (simp add: Input_def split_def Let_def)
qed

section \<open>Reading\<close>

text \<open>The numbers of the stream are unique as long as fewer than \<open>2 ^ 32\<close> payloads were pushed.\<close>

lemma number_unique: "of_nat i = (of_nat j :: u32) \<Longrightarrow> i < 2 ^ 32 \<Longrightarrow> j < 2 ^ 32 \<Longrightarrow> i = j"
  by (drule arg_cong [of _ _ unat]) (simp add: unat_of_nat)

lemma run_is_stream:
  assumes ps: "length ps < 2 ^ 32" and m: "m \<le> length ps" "n = of_nat m"
    and win: "\<And>k d. map_of win k = Some d \<Longrightarrow> Number d = k \<and> ok_data ps d"
    and run: "\<forall>i<k. at_offset win n i \<noteq> None"
  shows "m + k \<le> length ps \<and> mb_wf (map (\<lambda>i. the (payload (the (at_offset win n i)))) [0..<k]) \<and>
     concat (take m ps) @ mb_content (map (\<lambda>i. the (payload (the (at_offset win n i)))) [0..<k]) = concat (take (m + k) ps)"
  using run
proof (induction k)
  case (Suc k)
  then have IH: "m + k \<le> length ps" by simp
  obtain d where d: "at_offset win n k = Some d" using Suc.prems by auto
  then have "Number d = of_nat (m + k)" "ok_data ps d" using win m(2) by (auto simp: at_offset_def)
  then obtain j p where j: "j < length ps" "of_nat (m + k) = (of_nat j :: u32)" "payload_bytes d = ps ! j"
    "payload d = Some p" "buf_wf p" by (auto simp: ok_data_def)
  have "m + k = j" by (rule number_unique [OF j(2)]) (use IH ps j(1) in auto)
  then have "m + k < length ps" "content p = ps ! (m + k)" using j by (simp_all add: payload_bytes_def)
  then show ?case using Suc d j(4,5) by (simp add: take_Suc_conv_app_nth flip: append_assoc)
qed (use m in simp)

lemma rcv_ReadMultiBuffer_stream:
  assumes "length ps < 2 ^ 32" "rcv_ok ps w" "stream_ok ps g w st" "st \<noteq> StateTerminated"
    "rcv_ReadMultiBuffer w = (mb, w')"
  shows "rcv_ok ps w' \<and> leftOver w' = None \<and> mb_wf mb \<and>
     (\<exists>m\<le>length ps. rnextNumber w' = of_nat m \<and> g @ mb_content mb = concat (take m ps))"
proof (cases "leftOver w")
  case (Some mb')
  then have "mb = mb'" "w' = w\<lparr>leftOver := None\<rparr>" using assms(5) by (simp_all add: rcv_ReadMultiBuffer_def)
  then show ?thesis using assms(2-4) Some by (auto simp: rcv_ok_def rcv_wf_def stream_ok_def left_bytes_def)
next
  case None
  have wf: "rcv_wf w" and win: "\<And>k d. map_of (rwindow w) k = Some d \<Longrightarrow> Number d = k \<and> ok_data ps d"
    using assms(2) by (auto simp: rcv_ok_def rcv_wf_def)
  obtain m where m: "m \<le> length ps" "rnextNumber w = of_nat m" "g = concat (take m ps)"
    using assms(3,4) None by (auto simp: stream_ok_def left_bytes_def)
  obtain k where k: "rnextNumber w' = rnextNumber w + of_nat k"
    "\<forall>i<k. at_offset (rwindow w) (rnextNumber w) i \<noteq> None"
    "mb = map (\<lambda>i. the (payload (the (at_offset (rwindow w) (rnextNumber w) i)))) [0..<k]"
    "map_of (rwindow w') = map_of (rwindow w) |` (- (\<lambda>i. rnextNumber w + of_nat i) ` {..<k})"
    "rcv_wf w'" "leftOver w' = None"
    using rcv_ReadMultiBuffer_spec [OF wf None assms(5)] by blast
  have run: "m + k \<le> length ps" "mb_wf mb" "concat (take m ps) @ mb_content mb = concat (take (m + k) ps)"
    using run_is_stream [OF assms(1) m(1,2) win k(2)] k(3) by simp_all
  have "rcv_ok ps w'"
    using k(5,6) assms(2) unfolding rcv_ok_def k(4) by (auto simp: restrict_map_def split: if_splits)
  moreover have "rnextNumber w' = of_nat (m + k)" using k(1) m(2) by simp
  ultimately show ?thesis using run k(6) m(3) by blast
qed

lemma concat_take_prefix: "prefix (concat (take m ps)) (concat ps)"
  by (metis append_take_drop_id concat_append prefixI)

lemma conn_ok_ReadMultiBuffer:
  assumes "length ps < 2 ^ 32" "conn_ok ps g c" "conn_ReadMultiBuffer c = (res, c', es)"
  shows "conn_ok ps (g @ read_bytes res) c'"
proof (cases "state_Is (state c) [StateReadyToClose, StateTerminating, StateTerminated]")
  case True
  then show ?thesis using assms(2,3) by (auto simp: conn_ReadMultiBuffer_def read_bytes_def)
next
  case False
  obtain mb rw where r: "rcv_ReadMultiBuffer (receivingWorker c) = (mb, rw)"
    by (cases "rcv_ReadMultiBuffer (receivingWorker c)")
  have st: "state c \<noteq> StateTerminated" using False by (auto simp: state_Is_def)
  have s: "rcv_ok ps rw" "leftOver rw = None" "mb_wf mb"
    "\<exists>m\<le>length ps. rnextNumber rw = of_nat m \<and> g @ mb_content mb = concat (take m ps)"
    using rcv_ReadMultiBuffer_stream [OF assms(1) _ _ st r, of g] assms(2) by (auto simp: conn_ok_def)
  have c': "receivingWorker c' = rw" and res: "read_bytes res = mb_content mb"
    using assms(3) False r s(3) by (auto simp: conn_ReadMultiBuffer_def read_bytes_def Let_def split: if_splits)
  have "stream_ok ps (g @ mb_content mb) rw st'" for st'
  proof -
    obtain m where "m \<le> length ps" "rnextNumber rw = of_nat m" "g @ mb_content mb = concat (take m ps)"
      using s(4) by blast
    then show ?thesis unfolding stream_ok_def left_bytes_def using s(2) concat_take_prefix
      by (intro exI [of _ m]) simp
  qed
  then show ?thesis using s(1) c' res by (simp add: conn_ok_def)
qed

lemma conn_ok_Read:
  assumes "length ps < 2 ^ 32" "conn_ok ps g c" "conn_Read k c = Some (res, c', es)"
  shows "conn_ok ps (g @ read_plain res) c'"
proof (cases "state_Is (state c) [StateReadyToClose, StateTerminating, StateTerminated]")
  case True
  then show ?thesis using assms(2,3) by (auto simp: conn_Read_def read_plain_def)
next
  case False
  obtain mb rw where r: "rcv_ReadMultiBuffer (receivingWorker c) = (mb, rw)"
    by (cases "rcv_ReadMultiBuffer (receivingWorker c)")
  have st: "state c \<noteq> StateTerminated" using False by (auto simp: state_Is_def)
  have s: "rcv_ok ps rw" "leftOver rw = None" "mb_wf mb"
    "\<exists>m\<le>length ps. rnextNumber rw = of_nat m \<and> g @ mb_content mb = concat (take m ps)"
    using rcv_ReadMultiBuffer_stream [OF assms(1) _ _ st r, of g] assms(2) by (auto simp: conn_ok_def)
  obtain mb' where mb': "SplitBytes mb k = Some (mb', take k (mb_content mb))" "mb_wf mb'"
    "mb_content mb' = drop k (mb_content mb)" using SplitBytes_spec [OF s(3), of k] by blast
  define rw' where "rw' = (if mb_content mb' = [] then rw else rw\<lparr>leftOver := Some mb'\<rparr>)"
  have rd: "rcv_Read k (receivingWorker c) = Some (take k (mb_content mb), rw')"
    using r s(3) mb' by (auto simp: rcv_Read_def rw'_def)
  have rw': "rcv_ok ps rw'" "rnextNumber rw' = rnextNumber rw" "left_bytes rw' = mb_content mb'"
    using s(1,2) mb'(2) by (auto simp: rw'_def rcv_ok_def rcv_wf_def left_bytes_def)
  have c': "receivingWorker c' = rw'" and res: "read_plain res = take k (mb_content mb)"
    using assms(3) False rd by (auto simp: conn_Read_def read_plain_def Let_def split: if_splits)
  obtain m where m: "m \<le> length ps" "rnextNumber rw = of_nat m" "g @ mb_content mb = concat (take m ps)"
    using s(4) by blast
  have split: "(g @ take k (mb_content mb)) @ left_bytes rw' = concat (take m ps)"
    using m(3) mb'(3) rw'(3) by simp
  then have "prefix (g @ take k (mb_content mb)) (concat ps)"
    using concat_take_prefix [of m ps] by (metis prefixI prefix_order.trans)
  then have "stream_ok ps (g @ take k (mb_content mb)) rw' st'" for st'
    using split m rw'(2) by (auto simp: stream_ok_def)
  then show ?thesis using rw'(1) c' res by (simp add: conn_ok_def)
qed

section \<open>The sending side\<close>

lemma numbered_facts:
  "(x, p) \<in> set (numbered n bs) \<Longrightarrow> \<exists>i<length bs. x = n + of_nat i \<and> p = Some (bs ! i)"
proof (induction bs arbitrary: n)
  case (Cons b bs)
  then consider "x = n \<and> p = Some b" | "(x, p) \<in> set (numbered (n + 1) bs)" by auto
  then show ?case
  proof cases
    case 2
    from Cons.IH [OF this] obtain i where "i < length bs" "x = n + 1 + of_nat i" "p = Some (bs ! i)" by blast
    then show ?thesis by (intro exI [of _ "Suc i"]) simp
  qed auto
qed simp

lemma numbered_contents: "map (content \<circ> the \<circ> snd) (numbered n bs) = map content bs" "length (numbered n bs) = length bs"
  by (induction bs arbitrary: n) auto

lemma snd_ok_write:
  assumes "snd_ok limit ps w" "idents w' = idents w @ numbered (nextNumber w) bs"
    "nextNumber w' = nextNumber w + of_nat (length bs)" "\<forall>b\<in>set bs. payload_ok seglen b" "seglen \<le> limit"
  shows "snd_ok limit (ps @ map content bs) w'"
  unfolding snd_ok_def
proof (intro conjI allI impI)
  show "nextNumber w' = of_nat (length (ps @ map content bs))" using assms(1,3) by (simp add: snd_ok_def)
  fix n p
  assume "(n, p) \<in> set (idents w')"
  then consider "(n, p) \<in> set (idents w)" | "(n, p) \<in> set (numbered (nextNumber w) bs)" using assms(2) by auto
  then show "\<exists>i b. i < length (ps @ map content bs) \<and> n = of_nat i \<and> p = Some b \<and> buf_wf b \<and>
    content b = (ps @ map content bs) ! i \<and> length (content b) \<le> limit"
  proof cases
    case 1
    with assms(1) obtain i b where "i < length ps" "n = of_nat i" "p = Some b" "buf_wf b" "content b = ps ! i"
      "length (content b) \<le> limit" unfolding snd_ok_def by blast
    then show ?thesis by (intro exI [of _ i] exI [of _ b]) (simp add: nth_append)
  next
    case 2
    then obtain i where "i < length bs" "n = nextNumber w + of_nat i" "p = Some (bs ! i)"
      using numbered_facts by blast
    moreover from this have "payload_ok seglen (bs ! i)" using assms(4) by simp
    ultimately show ?thesis using assms(1,5)
      by (intro exI [of _ "length ps + i"] exI [of _ "bs ! i"]) (simp add: snd_ok_def payload_ok_def nth_append)
  qed
qed

text \<open>What a packet of the network may hold.\<close>

definition pkt_ok :: "KCPPacketReader \<Rightarrow> byte list list \<Rightarrow> byte list \<Rightarrow> bool" where
  "pkt_ok pr ps pkt \<longleftrightarrow> (\<forall>segs d. KCPPacketReader_Read pr pkt = Some segs \<longrightarrow> SData d \<in> set segs \<longrightarrow> ok_data ps d)"

lemma pkt_ok_mono: "pkt_ok pr ps pkt \<Longrightarrow> pkt_ok pr (ps @ qs) pkt"
  using ok_data_mono by (auto simp: pkt_ok_def)

lemma Read_payload:
  assumes "KCPPacketReader_Read pr pkt = Some segs" "SData d \<in> set segs"
  shows "\<exists>p. payload d = Some p \<and> buf_wf p"
  using assms read_segments_payload by (fastforce simp: KCPPacketReader_Read_def split: option.splits)

context aead
begin

lemma pkt_ok_carries:
  assumes "carries pr d pkt" "ident d \<in> set (idents w)" "snd_ok (payload_limit pr) ps w"
    "rSecurity pr = Some A" "hdr_wf (rHeader pr)" "\<And>p. length p \<le> Size \<Longrightarrow> plain_ok p"
    "hdr_size (rHeader pr) + NonceSize A + Overhead A + 21 \<le> Size"
  shows "pkt_ok pr ps pkt"
  unfolding pkt_ok_def
proof (intro allI impI)
  fix segs d'
  assume read: "KCPPacketReader_Read pr pkt = Some segs" and d': "SData d' \<in> set segs"
  obtain i b where i: "i < length ps" "Number d = of_nat i" "payload d = Some b" "buf_wf b" "content b = ps ! i"
    "length (content b) \<le> payload_limit pr"
    using assms(2,3) unfolding snd_ok_def ident_def by blast
  have "reads_back pr d pkt" by (rule carries_reads_back [OF assms(1,4,5,6) i(3,4,6) assms(7)])
  then have "Number d' = Number d" "payload_bytes d' = payload_bytes d"
    using read d' by (auto simp: reads_back_def)
  then show "ok_data ps d'"
    using i Read_payload [OF read d'] by (auto simp: ok_data_def payload_bytes_def)
qed

end

section \<open>Every step keeps the invariant\<close>

definition sys_inv :: "KCPPacketReader \<Rightarrow> System \<Rightarrow> bool" where
  "sys_inv pr s \<longleftrightarrow> length (pushed s) < 2 ^ 32 \<and> unat (mss (sndr s)) \<le> payload_limit pr \<and>
     snd_ok (payload_limit pr) (pushed s) (sendingWorker (sndr s)) \<and>
     (\<forall>pkt\<in>net s. pkt_ok pr (pushed s) pkt) \<and> conn_ok (pushed s) (got s) (rcvr s)"

lemma snd_ok_moves: "snd_ok limit ps (sendingWorker c) \<Longrightarrow> conn_moves c c' \<Longrightarrow> snd_ok limit ps (sendingWorker c')"
  by (simp add: conn_moves_def snd_ok_shrink)

lemma mss_moves: "conn_moves c c' \<Longrightarrow> mss c' = mss c"
  by (simp add: conn_moves_def)

lemma write_loop_mss: "write_loop c b r pending = Some (res, c', r', p) \<Longrightarrow> mss c' = mss c"
proof (induction c b r pending rule: write_loop.induct)
  case (1 c b r pending)
  note step = write_loop.simps [of c b r pending]
  show ?case
  proof (cases "state c = StateActive")
    case True
    show ?thesis
    proof (cases b)
      case (Some b')
      then show ?thesis using 1(2) [of b'] 1(3) True step by (auto split: prod.splits bool.splits)
    next
      case None
      then show ?thesis using 1(1) 1(3) True step by (auto split: prod.splits option.splits)
    qed
  qed (use 1 step in simp)
qed

text \<open>A step of the sender that moves it and pushes nothing.\<close>

lemma sys_inv_sender:
  assumes "sys_inv pr s" "conn_moves (sndr s) c'" "\<forall>pkt\<in>pkts. pkt_ok pr (pushed s) pkt"
  shows "sys_inv pr (s\<lparr>sndr := c', net := net s \<union> pkts\<rparr>)"
  using assms snd_ok_moves [of _ "pushed s" "sndr s" c'] mss_moves [of "sndr s" c'] by (auto simp: sys_inv_def)

lemma sys_inv_sender': "sys_inv pr s \<Longrightarrow> conn_moves (sndr s) c' \<Longrightarrow> sys_inv pr (s\<lparr>sndr := c'\<rparr>)"
  using sys_inv_sender [of pr s c' "{}"] by simp

lemma sys_inv_receiver: "sys_inv pr s \<Longrightarrow> conn_ok (pushed s) g c' \<Longrightarrow> sys_inv pr (s\<lparr>rcvr := c', got := g\<rparr>)"
  by (simp add: sys_inv_def)

lemma sys_inv_receiver': "sys_inv pr s \<Longrightarrow> conn_ok (pushed s) (got s) c' \<Longrightarrow> sys_inv pr (s\<lparr>rcvr := c'\<rparr>)"
  by (simp add: sys_inv_def)

lemma Terminate_moves: "conn_moves c (fst (Terminate c))"
  by (simp add: Terminate_def conn_moves_def snd_Release_def sw_Release_def idents_def)

lemma rcv_Flush_ack_wf: "ack_wf (acklist w) \<Longrightarrow> ack_wf (acklist (fst (rcv_Flush conv cl info cur w)))"
  using ack_Flush_spec [of "acklist w" cur "Timeout info"]
  by (cases "ack_Flush cur (Timeout info) (acklist w)") (simp add: rcv_Flush_def)

lemma flush_ack_wf:
  assumes "flush c = Some (c', es)" "ack_wf (acklist (receivingWorker c))"
  shows "ack_wf (acklist (receivingWorker c'))"
proof -
  have el: "receivingWorker (snd (Elapsed c)) = receivingWorker c" by (simp add: Elapsed_def)
  from flush_stages [OF assms(1)] consider
      c4 esw where "sends_only (snd (Elapsed c)) c4" "flush_workers (fst (Elapsed c)) c4 = Some (c', esw)"
    | "sends_only (snd (Elapsed c)) c'" by blast
  then show ?thesis
  proof cases
    case 1
    then have "receivingWorker c4 = receivingWorker c" using el by (simp add: sends_only_def)
    then show ?thesis using flush_workers_facts [OF 1(2)] rcv_Flush_ack_wf assms(2) by simp
  next
    case 2
    then show ?thesis using assms(2) el by (simp add: sends_only_def)
  qed
qed

lemma conn_ok_flush:
  assumes "conn_ok ps g c" "flush c = Some (c', es)"
  shows "conn_ok ps g c'"
proof -
  note f = flush_facts [OF assms(2)]
  have "ack_wf (acklist (receivingWorker c'))"
    using flush_ack_wf [OF assms(2)] assms(1) by (simp add: conn_ok_def rcv_ok_def rcv_wf_def)
  then have "rcv_ok ps (receivingWorker c')"
    using assms(1) f(3-6) by (simp add: conn_ok_def rcv_ok_def rcv_wf_def)
  moreover have "stream_ok ps g (receivingWorker c') (state c')"
    by (rule stream_ok_frame [of ps g "receivingWorker c" "state c"])
      (use assms(1) f in \<open>auto simp: conn_ok_def conn_moves_def\<close>)
  ultimately show ?thesis by (simp add: conn_ok_def)
qed

lemma conn_ok_Terminate:
  assumes "conn_ok ps g c" "state c = StateTerminated"
  shows "conn_ok ps g (fst (Terminate c))"
  using assms by (auto simp: conn_ok_def Terminate_def rcv_Release_def rcv_ok_def rcv_wf_def stream_ok_def)

lemma sys_inv_write:
  assumes "sys_inv pr s" "write_loop (sndr s) b r pending = Some (res, c', r', p')"
    "case b of None \<Rightarrow> True | Some b' \<Rightarrow> payload_ok (unat (mss (sndr s))) b'"
    "idents (sendingWorker c') = idents (sendingWorker (sndr s)) @ new" "length (pushed s) + length new < 2 ^ 32"
  shows "sys_inv pr (s\<lparr>sndr := c', pushed := pushed s @ map (content \<circ> the \<circ> snd) new\<rparr>)"
proof -
  obtain bs where w: "idents (sendingWorker c') = idents (sendingWorker (sndr s)) @ numbered (nextNumber (sendingWorker (sndr s))) bs"
    "nextNumber (sendingWorker c') = nextNumber (sendingWorker (sndr s)) + of_nat (length bs)"
    "\<forall>b\<in>set bs. payload_ok (unat (mss (sndr s))) b"
    using write_loop_spec [OF assms(3), of r pending] assms(2) by auto
  then have new: "new = numbered (nextNumber (sendingWorker (sndr s))) bs" using assms(4) by simp
  have "snd_ok (payload_limit pr) (pushed s @ map content bs) (sendingWorker c')"
    by (rule snd_ok_write [OF _ w]) (use assms(1) in \<open>simp_all add: sys_inv_def\<close>)
  then show ?thesis
    using assms(1,5) write_loop_mss [OF assms(2)] unfolding sys_inv_def new
    by (simp add: numbered_contents pkt_ok_mono conn_ok_mono)
qed

lemma conn_ok_write:
  assumes "conn_ok ps g c" "write_loop c b r pending = Some (res, c', r', p')"
    "case b of None \<Rightarrow> True | Some b' \<Rightarrow> payload_ok (unat (mss c)) b'"
  shows "conn_ok ps g c'"
  using write_loop_spec [OF assms(3), of r pending] assms(1,2) by (auto simp: conn_ok_def)

context aead
begin

lemma sys_inv_step:
  assumes "sys_step pr s s'" "sys_inv pr s"
    "rSecurity pr = Some A" "hdr_wf (rHeader pr)" "\<And>p. length p \<le> Size \<Longrightarrow> plain_ok p"
    "hdr_size (rHeader pr) + NonceSize A + Overhead A + 21 \<le> Size"
  shows "sys_inv pr s'"
  using assms(1,2)
proof (induction rule: sys_step.induct)
  case (s_write s b r pending res c' r' p' new)
  then show ?case by (intro sys_inv_write)
next
  case (s_flush s c' es pkts)
  have "pkt_ok pr (pushed s) pkt" if "pkt \<in> pkts" for pkt
  proof -
    from bspec [OF s_flush(2) that] obtain d where d: "Output (SData d) \<in> set es" "carries pr d pkt"
      by (elim exE conjE)
    have "snd_ok (payload_limit pr) (pushed s) (sendingWorker (sndr s))" using s_flush(3) by (simp add: sys_inv_def)
    from pkt_ok_carries [OF d(2) flush_facts(2) [OF s_flush(1) d(1)] this assms(3-6)] show ?thesis .
  qed
  then show ?case using s_flush(3) flush_facts(1) [OF s_flush(1)] by (intro sys_inv_sender) simp_all
next
  case (s_Input segs s c' es)
  then show ?case using Input_moves [of "sndr s" segs] by (simp add: sys_inv_sender')
next
  case (s_Close s e c' es)
  then show ?case using Close_sends [of "sndr s"] by (simp add: sys_inv_sender' sends_only_def)
next
  case (s_Terminate s c' es)
  then show ?case using Terminate_moves [of "sndr s"] by (simp add: sys_inv_sender')
next
  case (r_deliver pkt s segs c' es)
  then have "pkt_ok pr (pushed s) pkt" by (auto simp: sys_inv_def no_data_def pkt_ok_def)
  then have "\<forall>d. SData d \<in> set segs \<longrightarrow> ok_data (pushed s) d" using r_deliver(2) by (simp add: pkt_ok_def)
  then show ?case
    using conn_ok_Input [of "pushed s" "got s" "rcvr s" segs] r_deliver(3,4)
    by (intro sys_inv_receiver') (auto simp: sys_inv_def)
next
  case (r_ReadMultiBuffer s mres c' es)
  then show ?case using conn_ok_ReadMultiBuffer by (intro sys_inv_receiver) (auto simp: sys_inv_def)
next
  case (r_Read k s bres c' es)
  then show ?case using conn_ok_Read by (intro sys_inv_receiver) (auto simp: sys_inv_def)
next
  case (r_flush s c' es)
  then show ?case using conn_ok_flush by (intro sys_inv_receiver') (auto simp: sys_inv_def)
next
  case (r_Close s e c' es)
  then show ?case
    using Close_sends [of "rcvr s"] conn_ok_sends [of "pushed s" "got s" "rcvr s" c']
    by (intro sys_inv_receiver') (auto simp: sys_inv_def)
next
  case (r_Terminate s c' es)
  then show ?case
    using conn_ok_Terminate [of "pushed s" "got s" "rcvr s"] by (intro sys_inv_receiver') (auto simp: sys_inv_def)
next
  case (r_write s b r pending res c' r' p')
  then show ?case using conn_ok_write by (intro sys_inv_receiver') (auto simp: sys_inv_def)
qed

end

section \<open>A reliable byte stream\<close>

definition sys_init :: "Connection \<Rightarrow> Connection \<Rightarrow> System" where
  "sys_init cs cr = \<lparr>sndr = cs, rcvr = cr, net = {}, pushed = [], got = []\<rparr>"

lemma NewConnection_fields:
  assumes "NewConnection conv overhead config clk = Some (c, es)"
  shows "state c = StateActive" "idents (sendingWorker c) = []" "nextNumber (sendingWorker c) = 0"
    "leftOver (receivingWorker c) = None" "rwindow (receivingWorker c) = []" "rnextNumber (receivingWorker c) = 0"
    "acklist (receivingWorker c) = NewAckList"
  using assms
  by (auto simp: NewConnection_def NewReceivingWorker_def NewSendingWorker_def NewReceivingWindow_def
      idents_def NewSendingWindow_def split: bind_splits)

lemma sys_inv_init:
  assumes "NewConnection conv overhead config clk = Some (cs, es)"
    "NewConnection conv' overhead' config' clk' = Some (cr, es')" "unat (mss cs) \<le> payload_limit pr"
  shows "sys_inv pr (sys_init cs cr)"
  using NewConnection_fields [OF assms(1)] NewConnection_fields [OF assms(2)] assms(3)
  by (auto simp: sys_inv_def sys_init_def snd_ok_def conn_ok_def rcv_ok_def rcv_wf_def ack_wf_def NewAckList_def
      stream_ok_def left_bytes_def)


definition sample_new :: Connection where
  "sample_new = \<lparr>conversation = 7, since = 5, clock = (\<lambda>n. 5 + int n), ticks = 1, conf = default_config,
     state = StateActive, stateBeginTime = 0, lastIncomingTime = 0, lastPingTime = 0, mss = 1326,
     roundTrip = \<lparr>variation = 0, srtt = 0, rto = 100, minRtt = 50, updatedTimestamp = 0\<rparr>,
     receivingWorker = \<lparr>leftOver = None, rwindow = [], acklist = NewAckList, rnextNumber = 0, rwindowSize = 776\<rparr>,
     sendingWorker = \<lparr>window = NewSendingWindow, firstUnacknowledged = 0, nextNumber = 0, remoteNextNumber = 32,
       controlWindow = 194, fastResend = 2, windowSize = 1553, firstUnacknowledgedUpdated = False, closed = False\<rparr>\<rparr>"

lemma sample_new: "NewConnection 7 6 default_config (\<lambda>n. 5 + int n) = Some (sample_new, [WakeUpPing])"
proof -
  have "GetReceivingInFlightSize (Some default_config) = Some 776" "GetSendingInFlightSize (Some default_config) = Some 194"
    "GetSendingBufferSize (Some default_config) = Some 1553" "GetMTUValue (Some default_config) - 6 - DataSegmentOverhead = 1326"
    "GetTTIValue (Some default_config) = 50"
    by code_simp+
  then show ?thesis
    by (simp add: NewConnection_def NewReceivingWorker_def NewSendingWorker_def NewReceivingWindow_def sample_new_def)
qed

lemma sample_write:
  "\<exists>c' r' p'. write_loop sample_new None [[1, 2, 3]] False = Some (WriteDone, c', r', p') \<and>
     length (idents (sendingWorker c')) = 1"
proof -
  let ?xs = "[1, 2, 3] :: byte list"
  obtain b where b: "ReadFrom [?xs] New = Some (length ?xs, None, [], b)"
    by (rule ReadFrom_New [of ?xs]) (simp add: Size_def)
  have "limit_Read (unat (mss sample_new)) Size [?xs] = (?xs, None, [])"
    by (simp add: limit_Read_def sample_new_def Size_def)
  then have "write_loop sample_new None [?xs] False = write_loop sample_new (Some b) [] False"
    using b by (subst write_loop.simps) (simp add: sample_new_def)
  moreover obtain sw where sw: "snd_Push b (sendingWorker sample_new) = (True, sw)" "length (idents sw) = 1"
    by (simp add: snd_Push_def sample_new_def sw_Len_def NewSendingWindow_def sw_Push_def idents_def)
  from sw(1) have "write_loop sample_new (Some b) [] False = write_loop (sample_new\<lparr>sendingWorker := sw\<rparr>) None [] True"
    by (subst write_loop.simps) (simp add: sample_new_def)
  moreover have "write_loop (sample_new\<lparr>sendingWorker := sw\<rparr>) None [] True = Some (WriteDone, sample_new\<lparr>sendingWorker := sw\<rparr>, [], True)"
    by (subst write_loop.simps) (simp add: sample_new_def limit_Read_def)
  ultimately show ?thesis using sw(2) by auto
qed


end
