(* ===== verification/Kcp_Listener.thy ===== *)
theory Kcp_Listener
  imports Kcp_Connection
begin

text \<open>
  Package \<^verbatim>\<open>transport/internet/kcp\<close>, file \<^verbatim>\<open>listener.go\<close>: the server side that sorts the
  packets of one UDP socket into connections. The sessions are an association list over the
  address, the port and the conversation number. A handler returns the listener and what it did:
  connections handed to \<^verbatim>\<open>addConn\<close> and the effects of connection handlers. The UDP hub and
  the TLS wrapper are outside.
\<close>

section \<open>Listener\<close>

record ConnectionID =
  Remote :: "address option"
  CPort :: Port
  Conv :: u16

record Listener =
  sessions :: "(ConnectionID \<times> Connection) list"
  lconfig :: Config
  lreader :: KCPPacketReader
  lheader :: "PacketHeader option"
  lsecurity :: "AEAD option"

datatype listener_event =
    Accepted ConnectionID
  | Effects ConnectionID "effect list"

text \<open>\<^verbatim>\<open>NewListener\<close> after the header and the security were made.\<close>

definition NewListener :: "Config \<Rightarrow> PacketHeader option \<Rightarrow> AEAD option \<Rightarrow> Listener" where
  "NewListener cfg h sec = \<lparr>sessions = [], lconfig = cfg, lreader = \<lparr>rSecurity = sec, rHeader = h\<rparr>,
     lheader = h, lsecurity = sec\<rparr>"

text \<open>A connection of the table is replaced by what a handler made of it.\<close>

definition put_session :: "ConnectionID \<Rightarrow> Connection \<Rightarrow> Listener \<Rightarrow> Listener" where
  "put_session i c l = l\<lparr>sessions := AList.update i c (sessions l)\<rparr>"

text \<open>
  \<open>clk\<close> is the clock of a connection that is made. The address of the source is an IP address,
  otherwise \<^verbatim>\<open>IP()\<close> panics.
\<close>

definition OnReceive :: "(nat \<Rightarrow> int) \<Rightarrow> byte list \<Rightarrow> Destination \<Rightarrow> Listener \<Rightarrow> (Listener \<times> listener_event list) option" where
  "OnReceive clk data src l = do {
     segments \<leftarrow> KCPPacketReader_Read (lreader l) data;
     case segments of
       [] \<Rightarrow> Some (l, [])
     | seg # _ \<Rightarrow>
         (let i = \<lparr>Remote = Address src, CPort = DPort src, Conv = Conversation seg\<rparr>
          in case map_of (sessions l) i of
               Some conn \<Rightarrow> (case Input segments conn of (c', es) \<Rightarrow> Some (put_session i c' l, [Effects i es]))
             | None \<Rightarrow>
                 if seg_Command seg = CommandTerminate then Some (l, [])
                 else do {
                   a \<leftarrow> Address src;
                   ip \<leftarrow> IP a;
                   (conn, es0) \<leftarrow> NewConnection (Conversation seg)
                     (KCPPacketWriter_Overhead \<lparr>wHeader = lheader l, wSecurity = lsecurity l\<rparr>) (lconfig l) clk;
                   case Input segments conn of (c', es) \<Rightarrow>
                     Some (put_session i c' l, [Effects i es0, Accepted i, Effects i es])
                 })
   }"

definition Remove :: "ConnectionID \<Rightarrow> Listener \<Rightarrow> Listener" where
  "Remove i l = l\<lparr>sessions := AList.delete i (sessions l)\<rparr>"

text \<open>\<^verbatim>\<open>Close\<close> after the hub: every connection is terminated, each in its own goroutine.\<close>

definition lst_Close :: "Listener \<Rightarrow> Listener \<times> listener_event list" where
  "lst_Close l =
     (l\<lparr>sessions := map (\<lambda>(i, c). (i, fst (Terminate c))) (sessions l)\<rparr>,
      map (\<lambda>(i, c). Effects i (snd (Terminate c))) (sessions l))"

definition ActiveConnections :: "Listener \<Rightarrow> nat" where
  "ActiveConnections l = length (sessions l)"

text \<open>The closer of a connection is its \<^verbatim>\<open>Writer\<close>: \<^verbatim>\<open>Close\<close> takes it out of the table.\<close>

definition Writer_Close :: "ConnectionID \<Rightarrow> Listener \<Rightarrow> Listener" where
  "Writer_Close i l = Remove i l"

section \<open>Segments of another conversation\<close>

lemma input_segment_conversation: "conversation (fst (input_segment current seg c)) = conversation c"
  using input_segment_moves [of c current seg] by (simp add: conn_moves_def)

text \<open>A connection stops at the first segment that carries another conversation number.\<close>

lemma input_loop_own:
  "input_loop current segs c = input_loop current (takeWhile (\<lambda>s. Conversation s = conversation c) segs) c"
proof (induction segs arbitrary: c)
  case (Cons seg segs)
  show ?case
  proof (cases "Conversation seg = conversation c")
    case True
    have "conversation (fst (input_segment current seg c)) = conversation c" by (rule input_segment_conversation)
    then show ?thesis
      using True Cons.IH [of "fst (input_segment current seg c)"] by (simp add: split_def Let_def)
  qed simp
qed simp

lemma Input_own: "Input segs c = Input (takeWhile (\<lambda>s. Conversation s = conversation c) segs) c"
  using input_loop_own [of "fst (Elapsed c)" segs "snd (Elapsed c)\<lparr>lastIncomingTime := fst (Elapsed c)\<rparr>"]
  by (simp add: Input_def split_def Let_def Elapsed_def)

lemma conversation_moves: "conn_moves c c' \<Longrightarrow> conversation c' = conversation c"
  by (simp add: conn_moves_def)

lemma conn_step_conversation: "conn_step c c' \<Longrightarrow> conversation c' = conversation c"
proof (induction rule: conn_step.induct)
  case (step_Input segs c c' es)
  then show ?case using Input_moves [of c segs] by (simp add: conversation_moves)
next
  case (step_flush c c' es)
  then show ?case using flush_facts(1) by (simp add: conversation_moves)
next
  case (step_Close c e c' es)
  then show ?case using Close_sends [of c] by (simp add: sends_only_def conversation_moves)
next
  case (step_Terminate c c' es)
  then show ?case by (auto simp: Terminate_def)
next
  case (step_ReadMultiBuffer c r c' es)
  then show ?case by (auto simp: conn_ReadMultiBuffer_def split_def Let_def split: if_splits)
next
  case (step_Read k c res c' es)
  then show ?case by (auto simp: conn_Read_def Let_def split: if_splits option.splits)
next
  case (step_Write r c wres c' r' es)
  then show ?case
    using write_loop_spec [where b = None and c = c and r = r and pending = False]
    by (auto simp: writeMultiBufferInternal_def)
qed

lemma NewConnection_conversation: "NewConnection conv ov cfg clk = Some (c, es) \<Longrightarrow> conversation c = conv"
  by (auto simp: NewConnection_def split: bind_splits)

section \<open>Steps of the listener\<close>

inductive lst_step :: "Listener \<Rightarrow> Listener \<Rightarrow> bool" where
  lst_receive: "OnReceive clk data src l = Some (l', evs) \<Longrightarrow> lst_step l l'"
| lst_conn: "map_of (sessions l) i = Some c \<Longrightarrow> conn_step c c' \<Longrightarrow> lst_step l (put_session i c' l)"
| lst_remove: "lst_step l (Writer_Close i l)"
| lst_close: "lst_Close l = (l', evs) \<Longrightarrow> lst_step l l'"

definition lst_inv :: "Listener \<Rightarrow> bool" where
  "lst_inv l \<longleftrightarrow> distinct (map fst (sessions l)) \<and>
     (\<forall>i c. map_of (sessions l) i = Some c \<longrightarrow> conversation c = Conv i)"

lemma map_of_put_session: "map_of (sessions (put_session i c l)) = (map_of (sessions l))(i \<mapsto> c)"
  by (simp add: put_session_def update_conv')

lemma put_session_inv: "lst_inv l \<Longrightarrow> conversation c = Conv i \<Longrightarrow> lst_inv (put_session i c l)"
  by (simp add: lst_inv_def map_of_put_session) (simp add: put_session_def distinct_update)

text \<open>The connection that a packet goes to: the one of the table, or a new one.\<close>

definition receiver_of :: "(nat \<Rightarrow> int) \<Rightarrow> ConnectionID \<Rightarrow> Segment \<Rightarrow> Listener \<Rightarrow> Connection option" where
  "receiver_of clk i seg l =
     (case map_of (sessions l) i of
        Some c \<Rightarrow> Some c
      | None \<Rightarrow>
          if seg_Command seg = CommandTerminate then None
          else map_option fst (NewConnection (Conv i)
            (KCPPacketWriter_Overhead \<lparr>wHeader = lheader l, wSecurity = lsecurity l\<rparr>) (lconfig l) clk))"

lemma OnReceive_cases:
  assumes "OnReceive clk data src l = Some (l', evs)"
  obtains (invalid) "KCPPacketReader_Read (lreader l) data = Some []" "l' = l"
    | (session) seg segs i where "KCPPacketReader_Read (lreader l) data = Some (seg # segs)"
        "i = \<lparr>Remote = Address src, CPort = DPort src, Conv = Conversation seg\<rparr>"
        "l' = (case receiver_of clk i seg l of None \<Rightarrow> l | Some c \<Rightarrow> put_session i (fst (Input (seg # segs) c)) l)"
proof -
  obtain segments where r: "KCPPacketReader_Read (lreader l) data = Some segments"
    using assms by (auto simp: OnReceive_def split: bind_splits)
  show thesis
  proof (cases segments)
    case Nil
    then show thesis using invalid r assms by (simp add: OnReceive_def)
  next
    case (Cons seg segs)
    let ?i = "\<lparr>Remote = Address src, CPort = DPort src, Conv = Conversation seg\<rparr>"
    have "l' = (case receiver_of clk ?i seg l of None \<Rightarrow> l | Some c \<Rightarrow> put_session ?i (fst (Input (seg # segs) c)) l)"
      using assms r Cons
      by (auto simp: OnReceive_def receiver_of_def Let_def split_def split: option.splits if_splits bind_splits)
    then show thesis using session [of seg segs ?i] r Cons by simp
  qed
qed

lemma receiver_of_conversation:
  "lst_inv l \<Longrightarrow> receiver_of clk i seg l = Some c \<Longrightarrow> conversation c = Conv i"
  by (auto simp: receiver_of_def lst_inv_def dest: NewConnection_conversation split: option.splits if_splits)

lemma OnReceive_inv:
  assumes "lst_inv l" "OnReceive clk data src l = Some (l', evs)"
  shows "lst_inv l'"
  using assms(2)
proof (cases rule: OnReceive_cases)
  case invalid
  then show ?thesis using assms(1) by simp
next
  case (session seg segs i)
  have "conversation (fst (Input (seg # segs) c)) = Conv i" if "receiver_of clk i seg l = Some c" for c
    using receiver_of_conversation [OF assms(1) that] Input_moves [of c "seg # segs"] by (simp add: conversation_moves)
  then show ?thesis using session(3) put_session_inv [OF assms(1)] assms(1) by (simp split: option.splits)
qed

lemma lst_step_inv: "lst_step l l' \<Longrightarrow> lst_inv l \<Longrightarrow> lst_inv l'"
proof (induction rule: lst_step.induct)
  case (lst_receive clk data src l l' evs)
  then show ?case using OnReceive_inv by blast
next
  case (lst_conn l i c c')
  have "conversation c' = Conv i"
    using conn_step_conversation [OF lst_conn(2)] lst_conn(1,3) unfolding lst_inv_def by simp
  then show ?case using put_session_inv lst_conn(3) by blast
next
  case (lst_remove l i)
  then show ?case by (simp add: lst_inv_def Writer_Close_def Remove_def distinct_delete)
next
  case (lst_close l l' evs)
  have "map_of (map (\<lambda>(i, c). (i, fst (Terminate c))) xs) i = map_option (\<lambda>c. fst (Terminate c)) (map_of xs i)" for xs i
    by (induction xs) auto
  then show ?case using lst_close by (auto simp: lst_inv_def lst_Close_def Terminate_def split_def comp_def)
qed

text \<open>
  C23: sessions are isolated: in every state the listener reaches by receiving packets, by
  steps of its connections, by removals and by its own close, a packet touches only the
  connection of its source address, port and conversation number, and of its segments only those
  up to the first one with another conversation number count; a terminate command for an unknown
  session creates none.
\<close>

theorem listener_isolation:
  assumes "lst_step\<^sup>*\<^sup>* (NewListener cfg h sec) l" "OnReceive clk data src l = Some (l', evs)"
    and "KCPPacketReader_Read (lreader l) data = Some (seg # segs)"
  shows "let i = \<lparr>Remote = Address src, CPort = DPort src, Conv = Conversation seg\<rparr>;
             own = takeWhile (\<lambda>s. Conversation s = Conversation seg) (seg # segs)
         in distinct (map fst (sessions l')) \<and>
            (\<forall>j. j \<noteq> i \<longrightarrow> map_of (sessions l') j = map_of (sessions l) j) \<and>
            map_of (sessions l') i = map_option (\<lambda>c. fst (Input own c)) (receiver_of clk i seg l) \<and>
            (map_of (sessions l) i = None \<and> seg_Command seg = CommandTerminate \<longrightarrow> l' = l)"
proof -
  have "lst_inv (NewListener cfg h sec)" by (simp add: lst_inv_def NewListener_def)
  with assms(1) have inv: "lst_inv l" by (induction rule: rtranclp_induct) (auto intro: lst_step_inv)
  define i where "i = \<lparr>Remote = Address src, CPort = DPort src, Conv = Conversation seg\<rparr>"
  have l': "l' = (case receiver_of clk i seg l of None \<Rightarrow> l | Some c \<Rightarrow> put_session i (fst (Input (seg # segs) c)) l)"
    using assms(2) unfolding i_def by (cases rule: OnReceive_cases) (use assms(3) in auto)
  let ?own = "takeWhile (\<lambda>s. Conversation s = Conversation seg) (seg # segs)"
  have own: "Input (seg # segs) c = Input ?own c" if "receiver_of clk i seg l = Some c" for c
    using receiver_of_conversation [OF inv that] Input_own [of "seg # segs" c] by (simp add: i_def)
  have none: "receiver_of clk i seg l = None \<Longrightarrow> map_of (sessions l) i = None"
    by (auto simp: receiver_of_def split: option.splits)
  have "distinct (map fst (sessions l'))" using OnReceive_inv [OF inv assms(2)] by (simp add: lst_inv_def)
  moreover have "j \<noteq> i \<Longrightarrow> map_of (sessions l') j = map_of (sessions l) j" for j
    using l' by (simp add: map_of_put_session split: option.splits)
  moreover have "map_of (sessions l') i = map_option (\<lambda>c. fst (Input ?own c)) (receiver_of clk i seg l)"
    using l' own none by (cases "receiver_of clk i seg l") (simp_all add: map_of_put_session)
  moreover have "map_of (sessions l) i = None \<and> seg_Command seg = CommandTerminate \<longrightarrow> l' = l"
    using l' by (simp add: receiver_of_def)
  ultimately show ?thesis unfolding Let_def i_def by blast
qed

definition sample_listener :: Listener where
  "sample_listener = NewListener default_config None None"

definition sample_source :: Destination where
  "sample_source = UDPDestination (ipv4Address [10, 0, 0, 1]) 4000"

text \<open>A terminate command of conversation 7 on the wire.\<close>

definition sample_terminate :: "byte list" where
  "sample_terminate = [0, 7, 2, 0] @ replicate 12 0"

theorem listener_isolation_witness:
  "\<exists>evs. OnReceive (\<lambda>n. int n) sample_terminate sample_source sample_listener = Some (sample_listener, evs)"
proof -
  let ?seg = "NewCmdOnlySegment\<lparr>cConv := 7, Cmd := CommandTerminate\<rparr>"
  have r: "KCPPacketReader_Read (lreader sample_listener) sample_terminate = Some [SCmd ?seg]" by code_simp
  then obtain l' evs where l': "OnReceive (\<lambda>n. int n) sample_terminate sample_source sample_listener = Some (l', evs)"
    by (simp add: OnReceive_def sample_listener_def NewListener_def)
  have "lst_step\<^sup>*\<^sup>* (NewListener default_config None None) sample_listener" by (simp add: sample_listener_def)
  from listener_isolation [OF this l' r] have "l' = sample_listener"
    by (simp add: Let_def sample_listener_def NewListener_def)
  then show ?thesis using l' by blast
qed

section \<open>Closing the listener\<close>

text \<open>
  \<^verbatim>\<open>Close\<close> of the listener does close accepted connections: an active connection whose
  reader still has bytes waiting keeps its state, but these bytes are gone (a reader that would
  have returned them waits when no segment is buffered), so are the segments it has not yet
  delivered to its peer, and every later write blocks. The comment of \<^verbatim>\<open>Close\<close> says that
  accepted connections are not closed.
\<close>

theorem listener_Close_drops_data:
  assumes "distinct (map fst (sessions l))" "map_of (sessions l) i = Some c" "state c = StateActive"
    and "leftOver (receivingWorker c) = Some mb" "\<not> mb_IsEmpty mb"
  shows "fst (conn_ReadMultiBuffer c) = ReadData mb \<and>
     (\<exists>c'. map_of (sessions (fst (lst_Close l))) i = Some c' \<and> state c' = StateActive \<and>
        (IsDataAvailable (receivingWorker c) \<or> fst (conn_ReadMultiBuffer c') = ReadWait) \<and>
        idents (sendingWorker c') = [] \<and> (\<forall>b. \<not> fst (snd_Push b (sendingWorker c'))))"
proof -
  let ?c = "fst (Terminate c)"
  have "map_of (map (\<lambda>(i, c). (i, fst (Terminate c))) xs) i = map_option (\<lambda>c. fst (Terminate c)) (map_of xs i)" for xs
    by (induction xs) auto
  then have m: "map_of (sessions (fst (lst_Close l))) i = Some ?c" using assms(2) by (simp add: lst_Close_def)
  have "fst (conn_ReadMultiBuffer ?c) = ReadWait" if "\<not> IsDataAvailable (receivingWorker c)"
  proof -
    have "map_of (rwindow (receivingWorker c)) (rnextNumber (receivingWorker c)) = None"
      using that by (simp add: IsDataAvailable_def rw_Has_def)
    then have "read_loop (rwindow (receivingWorker c)) (rnextNumber (receivingWorker c)) [] =
        ([], rwindow (receivingWorker c), rnextNumber (receivingWorker c))"
      by (subst read_loop.simps) (simp add: rw_Remove_def)
    then show ?thesis
      using assms(3) by (simp add: conn_ReadMultiBuffer_def Terminate_def rcv_Release_def rcv_ReadMultiBuffer_def
          state_Is_def Let_def)
  qed
  then show ?thesis
    using assms m by (auto simp: conn_ReadMultiBuffer_def state_Is_def rcv_ReadMultiBuffer_def Let_def Terminate_def
        snd_Release_def sw_Release_def idents_def snd_Push_def)
qed

theorem listener_Close_drops_data_witness:
  "\<exists>c'. map_of (sessions (fst (lst_Close (sample_listener\<lparr>sessions := [(\<lparr>Remote = None, CPort = 1, Conv = 7\<rparr>,
      sample_connection\<lparr>receivingWorker := sample_receiver\<lparr>leftOver := Some [FromBytes [1, 2]]\<rparr>\<rparr>)]\<rparr>))))
        \<lparr>Remote = None, CPort = 1, Conv = 7\<rparr> = Some c' \<and> idents (sendingWorker c') = []"
proof -
  let ?i = "\<lparr>Remote = None, CPort = 1, Conv = 7\<rparr> :: ConnectionID"
  let ?c = "sample_connection\<lparr>receivingWorker := sample_receiver\<lparr>leftOver := Some [FromBytes [1, 2]]\<rparr>\<rparr>"
  have "buf_wf (FromBytes [1, 2])" "content (FromBytes [1, 2]) = [1, 2]" using FromBytes_facts [of "[1, 2]"] by simp_all
  then have "\<not> mb_IsEmpty [FromBytes [1, 2]]" by simp
  then show ?thesis
    using listener_Close_drops_data [of "sample_listener\<lparr>sessions := [(?i, ?c)]\<rparr>" ?i ?c "[FromBytes [1, 2]]"]
    by (auto simp: sample_connection_def)
qed

end
