(* ===== verification/Protocol_Address.thy ===== *)
theory Protocol_Address
  imports Buffer
begin

text \<open>
  Package \<^verbatim>\<open>common/protocol\<close>, file \<^verbatim>\<open>address.go\<close>: the address and port codec that the
  mux frames, XUDP, Trojan, VLESS and Socks share. Reading goes through a buffer and an
  \<^verbatim>\<open>io.Reader\<close>; a result is \<open>None\<close> for a panic, \<open>Inl\<close> for an error. A writer is a
  function on its state; the contract of a writer that takes all its bytes is the locale
  \<open>io_writer\<close>.
\<close>

section \<open>Reading through a buffer\<close>

type_synonym 'a parsed = "((go_error + 'a) \<times> buffer \<times> reader) option"

text \<open>\<^verbatim>\<open>if _, err := b.ReadFullFrom(reader, n); err != nil { return err }\<close> and what follows.\<close>

definition read_full_then :: "int \<Rightarrow> (buffer \<Rightarrow> reader \<Rightarrow> 'a parsed) \<Rightarrow> buffer \<Rightarrow> reader \<Rightarrow> 'a parsed" where
  "read_full_then n k b r =
     (case ReadFullFrom r n b of
        None \<Rightarrow> None
      | Some (_, Some e, r', b') \<Rightarrow> Some (Inl e, b', r')
      | Some (_, None, r', b') \<Rightarrow> k b' r')"

text \<open>The call of another parser, whose error is returned.\<close>

definition parse_then :: "'a parsed \<Rightarrow> ('a \<Rightarrow> buffer \<Rightarrow> reader \<Rightarrow> 'b parsed) \<Rightarrow> 'b parsed" where
  "parse_then m k =
     (case m of
        None \<Rightarrow> None
      | Some (Inl e, b, r) \<Rightarrow> Some (Inl e, b, r)
      | Some (Inr x, b, r) \<Rightarrow> k x b r)"

section \<open>Writing\<close>

type_synonym 'w written = "(go_error option \<times> 'w) option"

definition write_then :: "'w written \<Rightarrow> ('w \<Rightarrow> 'w written) \<Rightarrow> 'w written" where
  "write_then m k =
     (case m of
        None \<Rightarrow> None
      | Some (Some e, w) \<Rightarrow> Some (Some e, w)
      | Some (None, w) \<Rightarrow> k w)"

text \<open>A buffer as a writer: \<^verbatim>\<open>Write\<close> copies what fits and never reports an error.\<close>

definition buf_writer :: "byte list \<Rightarrow> buffer \<Rightarrow> buffer written" where
  "buf_writer xs b = map_option (\<lambda>(n, b'). (None, b')) (buf_Write xs b)"

definition byte_writer :: "byte \<Rightarrow> buffer \<Rightarrow> buffer written" where
  "byte_writer x b = map_option (\<lambda>(res, b'). (case res of Inl e \<Rightarrow> Some e | Inr _ \<Rightarrow> None, b')) (WriteByte x b)"

section \<open>The codec\<close>

definition afInvalid :: byte where
  "afInvalid = 255"

record AddressOptions =
  addrTypeMap :: "AddressFamily list"
  addrByteMap :: "byte list"
  portFirst :: bool
  typeParser :: "(byte \<Rightarrow> byte) option"

type_synonym AddressOption = "AddressOptions \<Rightarrow> AddressOptions option"

definition PortThenAddress :: AddressOption where
  "PortThenAddress p = Some (p\<lparr>portFirst := True\<rparr>)"

text \<open>Making the option panics on a byte of 16 or more, applying it on such a family.\<close>

definition AddressFamilyByte :: "byte \<Rightarrow> AddressFamily \<Rightarrow> AddressOption option" where
  "AddressFamilyByte b f =
     (if b \<ge> 16 then None
      else Some (\<lambda>p. if f \<ge> 16 then None
                     else Some (p\<lparr>addrTypeMap := (addrTypeMap p)[unat b := f],
                                  addrByteMap := (addrByteMap p)[unat f := b]\<rparr>)))"

definition WithAddressTypeParser :: "(byte \<Rightarrow> byte) \<Rightarrow> AddressOption" where
  "WithAddressTypeParser atp p = Some (p\<lparr>typeParser := Some atp\<rparr>)"

fun apply_options :: "AddressOption list \<Rightarrow> AddressOptions \<Rightarrow> AddressOptions option" where
  "apply_options [] o' = Some o'"
| "apply_options (opt # opts) o' = Option.bind (opt o') (apply_options opts)"

record addressParser =
  apTypeMap :: "AddressFamily list"
  apByteMap :: "byte list"
  apTypeParser :: "(byte \<Rightarrow> byte) option"

datatype AddressSerializer = portFirstAddressParser addressParser | portLastAddressParser addressParser

definition NewAddressParser :: "AddressOption list \<Rightarrow> AddressSerializer option" where
  "NewAddressParser options =
     map_option (\<lambda>o'.
       let ap = \<lparr>apTypeMap = addrTypeMap o', apByteMap = addrByteMap o', apTypeParser = typeParser o'\<rparr>
       in if portFirst o' then portFirstAddressParser ap else portLastAddressParser ap)
     (apply_options options
       \<lparr>addrTypeMap = replicate 16 afInvalid, addrByteMap = replicate 16 afInvalid,
        portFirst = False, typeParser = None\<rparr>)"

definition readPort :: "buffer \<Rightarrow> reader \<Rightarrow> Port parsed" where
  "readPort = read_full_then 2 (\<lambda>b r. do {
     xs \<leftarrow> BytesFrom (- 2) b;
     p \<leftarrow> PortFromBytes xs;
     Some (Inr p, b, r)
   })"

definition writePort :: "(byte list \<Rightarrow> 'w \<Rightarrow> 'w written) \<Rightarrow> Port \<Rightarrow> 'w \<Rightarrow> 'w written" where
  "writePort wr port w = wr (PutUint16 port) w"

definition maybeIPPrefix :: "byte \<Rightarrow> bool" where
  "maybeIPPrefix b \<longleftrightarrow> b = 91 \<or> (48 \<le> b \<and> b \<le> 57)"

text \<open>The loop is over runes; a byte of 128 or more belongs to a rune that is not allowed.\<close>

definition valid_domain_char :: "byte \<Rightarrow> bool" where
  "valid_domain_char c \<longleftrightarrow> (48 \<le> c \<and> c \<le> 57) \<or> (97 \<le> c \<and> c \<le> 122) \<or> (65 \<le> c \<and> c \<le> 90) \<or>
     c = 45 \<or> c = 46 \<or> c = 95"

definition isValidDomain :: "byte list \<Rightarrow> bool" where
  "isValidDomain d \<longleftrightarrow> list_all valid_domain_char d"

definition isDomainTooLong :: "byte list \<Rightarrow> bool" where
  "isDomainTooLong domain \<longleftrightarrow> length domain > 256"

text \<open>The end of \<^verbatim>\<open>readAddress\<close>: the string that was read as a domain.\<close>

definition parse_domain :: "byte list \<Rightarrow> (go_error + address) option" where
  "parse_domain domain = do {
     c \<leftarrow> index_expr domain (int (length domain)) 0;
     ip \<leftarrow> (if maybeIPPrefix c
           then map_option (\<lambda>a. if IsIP (Family a) then Some a else None) (ParseAddress domain)
           else Some None);
     Some (case ip of
             Some a \<Rightarrow> Inr a
           | None \<Rightarrow> if \<not> isValidDomain domain then Inl (ErrNew ''invalid domain name: '')
                     else Inr (DomainAddress domain))
   }"

definition read_ip :: "nat \<Rightarrow> buffer \<Rightarrow> reader \<Rightarrow> address parsed" where
  "read_ip n = read_full_then (int n) (\<lambda>b r. do {
     xs \<leftarrow> BytesFrom (- int n) b;
     a \<leftarrow> IPAddress xs;
     Some (Inr a, b, r)
   })"

definition read_domain :: "buffer \<Rightarrow> reader \<Rightarrow> address parsed" where
  "read_domain = read_full_then 1 (\<lambda>b r. do {
     l \<leftarrow> Byte (i32 (buf_Len b - 1)) b;
     read_full_then (uint l) (\<lambda>b r. do {
       domain \<leftarrow> BytesFrom (- uint l) b;
       res \<leftarrow> parse_domain domain;
       Some (res, b, r)
     }) b r
   })"

text \<open>The switch of \<^verbatim>\<open>readAddress\<close> on the type byte.\<close>

definition read_typed :: "addressParser \<Rightarrow> byte \<Rightarrow> buffer \<Rightarrow> reader \<Rightarrow> address parsed" where
  "read_typed p t b r =
     (let addrType = (case apTypeParser p of None \<Rightarrow> t | Some f \<Rightarrow> f t)
      in if addrType \<ge> 16 then Some (Inl (ErrNew ''unknown address type: ''), b, r)
         else let addrFamily = apTypeMap p ! unat addrType
              in if addrFamily = afInvalid then Some (Inl (ErrNew ''unknown address type: ''), b, r)
                 else if addrFamily = AddressFamilyIPv4 then read_ip 4 b r
                 else if addrFamily = AddressFamilyIPv6 then read_ip 16 b r
                 else if addrFamily = AddressFamilyDomain then read_domain b r
                 else None)"

definition readAddress :: "addressParser \<Rightarrow> buffer \<Rightarrow> reader \<Rightarrow> address parsed" where
  "readAddress p = read_full_then 1 (\<lambda>b r. do {
     t \<leftarrow> Byte (i32 (buf_Len b - 1)) b;
     read_typed p t b r
   })"

text \<open>A nil address panics at its first method call.\<close>

definition writeAddress ::
  "(byte list \<Rightarrow> 'w \<Rightarrow> 'w written) \<Rightarrow> addressParser \<Rightarrow> address option \<Rightarrow> 'w \<Rightarrow> 'w written" where
  "writeAddress wr p addr w = do {
     a \<leftarrow> addr;
     let tb = apByteMap p ! unat (Family a);
     if tb = afInvalid then Some (Some (ErrNew ''unknown address family''), w)
     else if Family a = AddressFamilyIPv4 \<or> Family a = AddressFamilyIPv6
     then do { ip \<leftarrow> IP a; write_then (wr [tb] w) (wr ip) }
     else do {
       domain \<leftarrow> Domain a;
       if isDomainTooLong domain then Some (Some (ErrNew ''Super long domain is not supported: ''), w)
       else write_then (wr [tb, of_nat (length domain)] w) (wr domain)
     }
   }"

fun ReadAddressPort :: "AddressSerializer \<Rightarrow> buffer option \<Rightarrow> reader \<Rightarrow> (address \<times> Port) parsed" where
  "ReadAddressPort (portFirstAddressParser ap) buffer input =
     parse_then (readPort (case buffer of None \<Rightarrow> New | Some b \<Rightarrow> b) input) (\<lambda>port b r.
       parse_then (readAddress ap b r) (\<lambda>addr b r. Some (Inr (addr, port), b, r)))"
| "ReadAddressPort (portLastAddressParser ap) buffer input =
     parse_then (readAddress ap (case buffer of None \<Rightarrow> New | Some b \<Rightarrow> b) input) (\<lambda>addr b r.
       parse_then (readPort b r) (\<lambda>port b r. Some (Inr (addr, port), b, r)))"

fun WriteAddressPort ::
  "(byte list \<Rightarrow> 'w \<Rightarrow> 'w written) \<Rightarrow> AddressSerializer \<Rightarrow> address option \<Rightarrow> Port \<Rightarrow> 'w \<Rightarrow> 'w written" where
  "WriteAddressPort wr (portFirstAddressParser ap) addr port w =
     write_then (writePort wr port w) (writeAddress wr ap addr)"
| "WriteAddressPort wr (portLastAddressParser ap) addr port w =
     write_then (writeAddress wr ap addr w) (writePort wr port)"

section \<open>A buffer as the reader\<close>

text \<open>
  A buffer hands out its content in one run and then \<^verbatim>\<open>io.EOF\<close>; \<^verbatim>\<open>Read\<close> clears it
  once it is empty. \<open>k\<close> is the number of bytes left.
\<close>

definition buf_after :: "nat \<Rightarrow> buffer \<Rightarrow> buffer" where
  "buf_after k b = (if k = 0 then buf_Clear b else b\<lparr>buf_start := i32 (buf_end b - int k)\<rparr>)"

definition ReadAddressPort_buf :: "AddressSerializer \<Rightarrow> buffer \<Rightarrow> ((go_error + address \<times> Port) \<times> buffer) option" where
  "ReadAddressPort_buf s b = do {
     bs \<leftarrow> Bytes b;
     (res, _, r) \<leftarrow> ReadAddressPort s None (if bs = [] then [] else [bs]);
     Some (res, buf_after (length (concat r)) b)
   }"

section \<open>Protocols on a connection\<close>

text \<open>\<^verbatim>\<open>if _, err := io.ReadFull(r, x[:]); err != nil { return errors.New(msg) }\<close> and what follows.\<close>

type_synonym 'a received = "((go_error + 'a) \<times> reader) option"

definition full_then :: "nat \<Rightarrow> string \<Rightarrow> (byte list \<Rightarrow> reader \<Rightarrow> 'a received) \<Rightarrow> reader \<Rightarrow> 'a received" where
  "full_then n msg k r =
     (case ReadFull n r of
        (xs, Some e, r') \<Rightarrow> Some (Inl (ErrNew msg), r')
      | (xs, None, r') \<Rightarrow> k xs r')"

text \<open>The same for an address and port read without a buffer of the caller.\<close>

definition addr_then ::
  "AddressSerializer \<Rightarrow> string \<Rightarrow> (address \<Rightarrow> Port \<Rightarrow> reader \<Rightarrow> 'a received) \<Rightarrow> reader \<Rightarrow> 'a received" where
  "addr_then s msg k r =
     (case ReadAddressPort s None r of
        None \<Rightarrow> None
      | Some (Inl e, _, r') \<Rightarrow> Some (Inl (ErrNew msg), r')
      | Some (Inr (addr, port), _, r') \<Rightarrow> k addr port r')"

section \<open>Rules for reading\<close>

lemma read_full_cases:
  assumes "buf_wf b" "vlen b \<le> Size" "n < 2 ^ 30"
    and err: "\<And>e b' r'. buf_wf b' \<Longrightarrow> vlen b' = vlen b \<Longrightarrow> Q (Some (Inl e, b', r'))"
    and ok: "\<And>xs b' r'. buf_wf b' \<Longrightarrow> vlen b' = vlen b \<Longrightarrow> content b' = content b @ xs \<Longrightarrow> length xs = n \<Longrightarrow>
       concat r = xs @ concat r' \<Longrightarrow> Q (k b' r')"
  shows "Q (read_full_then (int n) k b r)"
proof (cases "n \<le> room b")
  case True
  obtain xs e r' where f: "ReadFull n r = (xs, e, r')" by (cases "ReadFull n r") auto
  obtain b' where b': "ReadFullFrom r (int n) b = Some (length xs, e, r', b')" "buf_wf b'"
    "content b' = content b @ xs" "vlen b' = vlen b" by (rule ReadFullFrom_spec [OF assms(1) True f])
  show ?thesis
  proof (cases e)
    case None
    then have "length xs = n" "concat r = xs @ concat r'" using ReadFull_ok [of n r xs r'] f by auto
    then show ?thesis using ok [OF b'(2,4,3)] b'(1) None by (simp add: read_full_then_def)
  next
    case (Some x)
    then show ?thesis using err [OF b'(2,4)] b'(1) by (simp add: read_full_then_def)
  qed
next
  case False
  have "nat (buf_end b) + n < 2 ^ 31" using assms(1-3) by (auto simp: buf_wf_def Size_def)
  then have "ReadFullFrom r (int n) b = Some (0, Some (ErrNew ''out of bound: ''), r, b)"
    using ReadFullFrom_out_of_bound [OF assms(1)] False by simp
  then show ?thesis using err [OF assms(1)] by (simp add: read_full_then_def)
qed

lemma read_full_ok:
  assumes "buf_wf b" "length xs \<le> room b" "concat r = xs @ rest"
  obtains b' r' where "read_full_then (int (length xs)) k b r = k b' r'" "buf_wf b'" "content b' = content b @ xs"
    "room b' = room b - length xs" "concat r' = rest"
proof -
  obtain r' where f: "ReadFull (length xs) r = (xs, None, r')" "concat r' = rest"
    using ReadFull_enough [of "length xs" r] assms(3) by auto
  obtain b' where "ReadFullFrom r (int (length xs)) b = Some (length xs, None, r', b')" "buf_wf b'"
    "content b' = content b @ xs" "room b' = room b - length xs"
    by (rule ReadFullFrom_spec [OF assms(1,2) f(1)])
  then show ?thesis using f(2) by (intro that [of b' r']) (simp_all add: read_full_then_def)
qed

lemma last_bytes: "buf_wf b \<Longrightarrow> content b = ys @ xs \<Longrightarrow> xs \<noteq> [] \<Longrightarrow> BytesFrom (- int (length xs)) b = Some xs"
  using BytesFrom_neg [of b "length xs"] by simp

lemma last_byte:
  assumes "buf_wf b" "content b = ys @ [x]"
  shows "Byte (i32 (buf_Len b - 1)) b = Some x"
proof -
  have "length ys < 2 ^ 31" using content_length_room [OF assms(1)] assms by (auto simp: buf_wf_def)
  then have "i32 (buf_Len b - 1) = int (length ys)" using assms by simp
  then show ?thesis using Byte_nat [OF assms(1), of "length ys"] assms(2) by simp
qed

section \<open>Well-formed parsers\<close>

text \<open>
  The two tables of a parser agree: the byte of each family that it writes is read as that
  family (by the type parser too, when there is one), and no other families occur.
\<close>

definition family_ok :: "addressParser \<Rightarrow> AddressFamily \<Rightarrow> bool" where
  "family_ok p f \<longleftrightarrow>
     (let tb = apByteMap p ! unat f
      in tb = afInvalid \<or>
         (let t = (case apTypeParser p of None \<Rightarrow> tb | Some g \<Rightarrow> g tb)
          in t < 16 \<and> apTypeMap p ! unat t = f))"

definition parser_ok :: "addressParser \<Rightarrow> bool" where
  "parser_ok p \<longleftrightarrow> length (apTypeMap p) = 16 \<and> length (apByteMap p) = 16 \<and>
     list_all (\<lambda>f. f \<in> {AddressFamilyIPv4, AddressFamilyIPv6, AddressFamilyDomain, afInvalid}) (apTypeMap p) \<and>
     family_ok p AddressFamilyIPv4 \<and> family_ok p AddressFamilyIPv6 \<and> family_ok p AddressFamilyDomain"

fun serializer_ok :: "AddressSerializer \<Rightarrow> bool" where
  "serializer_ok (portFirstAddressParser ap) = parser_ok ap"
| "serializer_ok (portLastAddressParser ap) = parser_ok ap"

fun parser_of :: "AddressSerializer \<Rightarrow> addressParser" where
  "parser_of (portFirstAddressParser ap) = ap"
| "parser_of (portLastAddressParser ap) = ap"

text \<open>The addresses that survive: a domain must fit its length byte and not read as an IP.\<close>

definition addr_writable :: "addressParser \<Rightarrow> address \<Rightarrow> bool" where
  "addr_writable p a \<longleftrightarrow> address_wf a \<and> apByteMap p ! unat (Family a) \<noteq> afInvalid \<and>
     (case a of domainAddress d \<Rightarrow> length d \<le> 255 \<and> parse_domain d = Some (Inr a) | _ \<Rightarrow> True)"

text \<open>The same for a parser with a byte for every family.\<close>

definition wire_addr :: "address \<Rightarrow> bool" where
  "wire_addr a \<longleftrightarrow> address_wf a \<and>
     (case a of domainAddress d \<Rightarrow> length d \<le> 255 \<and> parse_domain d = Some (Inr a) | _ \<Rightarrow> True)"

lemma addr_writable_wire:
  "addr_writable p a \<longleftrightarrow> wire_addr a \<and> apByteMap p ! unat (Family a) \<noteq> afInvalid"
  by (auto simp: addr_writable_def wire_addr_def)

definition enc_address :: "addressParser \<Rightarrow> address \<Rightarrow> byte list" where
  "enc_address p a = apByteMap p ! unat (Family a) #
     (case a of ipv4Address ip \<Rightarrow> ip | ipv6Address ip \<Rightarrow> ip | domainAddress d \<Rightarrow> of_nat (length d) # d)"

fun enc_addr_port :: "AddressSerializer \<Rightarrow> address \<Rightarrow> Port \<Rightarrow> byte list" where
  "enc_addr_port (portFirstAddressParser ap) a port = PutUint16 port @ enc_address ap a"
| "enc_addr_port (portLastAddressParser ap) a port = enc_address ap a @ PutUint16 port"

lemma enc_address_length: "addr_writable p a \<Longrightarrow> length (enc_address p a) \<le> 257"
  by (cases a) (auto simp: enc_address_def addr_writable_def)

lemma enc_addr_port_length: "addr_writable (parser_of s) a \<Longrightarrow> length (enc_addr_port s a port) \<le> 259"
  using enc_address_length [of "parser_of s" a] by (cases s) auto

section \<open>Writers that take their bytes\<close>

text \<open>
  \<open>ok n w\<close> says that \<open>w\<close> takes \<open>n\<close> more bytes, \<open>out\<close> is what it has taken and
  \<open>keep\<close> what a write does not touch.
\<close>

locale io_writer =
  fixes wr :: "byte list \<Rightarrow> 'w \<Rightarrow> 'w written" and out :: "'w \<Rightarrow> byte list" and ok :: "nat \<Rightarrow> 'w \<Rightarrow> bool"
    and keep :: "'w \<Rightarrow> 'k"
  assumes wr_ok: "ok (length xs + n) w \<Longrightarrow>
    \<exists>w'. wr xs w = Some (None, w') \<and> out w' = out w @ xs \<and> ok n w' \<and> keep w' = keep w"
begin

definition emits :: "'w written \<Rightarrow> byte list \<Rightarrow> nat \<Rightarrow> 'w \<Rightarrow> bool" where
  "emits m xs n w \<longleftrightarrow> (\<exists>w'. m = Some (None, w') \<and> out w' = out w @ xs \<and> ok n w' \<and> keep w' = keep w)"

lemma emits_wr: "ok (length xs + n) w \<Longrightarrow> emits (wr xs w) xs n w"
  using wr_ok by (simp add: emits_def)

lemma emits_then:
  assumes "emits m xs (k + n) w" "\<And>w'. ok (k + n) w' \<Longrightarrow> emits (f w') ys n w'"
  shows "emits (write_then m f) (xs @ ys) n w"
proof -
  obtain w' where w': "m = Some (None, w')" "out w' = out w @ xs" "ok (k + n) w'" "keep w' = keep w"
    using assms(1) by (auto simp: emits_def)
  then show ?thesis using assms(2) [OF w'(3)] by (auto simp: emits_def write_then_def)
qed

lemma writePort_emits: "ok (2 + n) w \<Longrightarrow> emits (writePort wr port w) (PutUint16 port) n w"
  unfolding writePort_def by (rule emits_wr) simp

lemma writeAddress_emits:
  assumes "addr_writable p a" "ok (length (enc_address p a) + n) w"
  shows "emits (writeAddress wr p (Some a) w) (enc_address p a) n w"
proof -
  let ?tb = "apByteMap p ! unat (Family a)"
  have two: "emits (write_then (wr xs w) (wr ys)) (xs @ ys) n w" if "ok (length xs + (length ys + n)) w" for xs ys
    by (rule emits_then [OF emits_wr [OF that] emits_wr])
  show ?thesis
  proof (cases "\<exists>d. a = domainAddress d")
    case True
    then obtain d where d: "a = domainAddress d" "length d \<le> 255" "?tb \<noteq> afInvalid"
      using assms(1) by (auto simp: addr_writable_def)
    then have "writeAddress wr p (Some a) w = write_then (wr [?tb, of_nat (length d)] w) (wr d)"
      by (simp add: writeAddress_def family_defs isDomainTooLong_def)
    then show ?thesis using two [of "[?tb, of_nat (length d)]" d] assms(2) d(1) by (simp add: enc_address_def)
  next
    case False
    then obtain ip where ip: "IP a = Some ip" "enc_address p a = [?tb] @ ip"
      by (cases a) (auto simp: enc_address_def)
    then have "writeAddress wr p (Some a) w = write_then (wr [?tb] w) (wr ip)"
      using assms(1) False by (cases a) (auto simp: writeAddress_def family_defs addr_writable_def)
    then show ?thesis using two [of "[?tb]" ip] assms(2) ip(2) by simp
  qed
qed

lemma WriteAddressPort_emits:
  assumes "addr_writable (parser_of s) a" "ok (length (enc_addr_port s a port) + n) w"
  shows "emits (WriteAddressPort wr s (Some a) port w) (enc_addr_port s a port) n w"
proof (cases s)
  case (portFirstAddressParser ap)
  have "emits (writePort wr port w) (PutUint16 port) (length (enc_address ap a) + n) w"
    by (rule writePort_emits) (use assms(2) portFirstAddressParser in simp)
  from emits_then [OF this writeAddress_emits] show ?thesis using assms(1) portFirstAddressParser by simp
next
  case (portLastAddressParser ap)
  have "emits (writeAddress wr ap (Some a) w) (enc_address ap a) (2 + n) w"
    by (rule writeAddress_emits) (use assms portLastAddressParser in simp_all)
  from emits_then [OF this writePort_emits] show ?thesis using portLastAddressParser by simp
qed

text \<open>A step that appends fixed bytes wherever there is room, and sequences of such steps.\<close>

definition puts :: "('w \<Rightarrow> 'w written) \<Rightarrow> byte list \<Rightarrow> bool" where
  "puts f xs \<longleftrightarrow> (\<forall>n w. ok (length xs + n) w \<longrightarrow> emits (f w) xs n w)"

lemma putsD: "puts f xs \<Longrightarrow> ok (length xs + n) w \<Longrightarrow> emits (f w) xs n w"
  by (simp add: puts_def)

lemma puts_wr [intro]: "puts (wr xs) xs"
  by (simp add: puts_def emits_wr)

lemma puts_then [intro]:
  assumes "puts f xs" "puts g ys"
  shows "puts (\<lambda>w. write_then (f w) g) (xs @ ys)"
  unfolding puts_def
proof (intro allI impI)
  fix n w
  assume "ok (length (xs @ ys) + n) w"
  then have "emits (f w) xs (length ys + n) w" using assms(1) by (simp add: puts_def add.assoc)
  then show "emits (write_then (f w) g) (xs @ ys) n w"
    by (rule emits_then) (use assms(2) in \<open>simp add: puts_def\<close>)
qed

lemma puts_WriteAddressPort [intro]:
  "addr_writable (parser_of s) a \<Longrightarrow> puts (WriteAddressPort wr s (Some a) port) (enc_addr_port s a port)"
  by (simp add: puts_def WriteAddressPort_emits)

lemma puts_emits: "puts f xs \<Longrightarrow> ok (length xs) w \<Longrightarrow> emits (f w) xs 0 w"
  unfolding puts_def by (metis add.right_neutral)

end

interpretation buf_out: io_writer buf_writer content "\<lambda>n b. buf_wf b \<and> n \<le> room b" "\<lambda>b. (UDP b, vlen b, length (content b) + room b, buf_start b)"
proof
  fix xs :: "byte list" and n and b
  assume b: "buf_wf b \<and> length xs + n \<le> room b"
  then obtain b' where "buf_Write xs b = Some (min (room b) (length xs), b')" "buf_wf b'"
    "content b' = content b @ take (room b) xs" "room b' = room b - length xs" "UDP b' = UDP b" "vlen b' = vlen b"
    "buf_start b' = buf_start b" using buf_Write_spec [of b xs] by blast
  then show "\<exists>b'. buf_writer xs b = Some (None, b') \<and> content b' = content b @ xs \<and>
    (buf_wf b' \<and> n \<le> room b') \<and> (UDP b', vlen b', length (content b') + room b', buf_start b') =
      (UDP b, vlen b, length (content b) + room b, buf_start b)"
    using b by (auto simp: buf_writer_def)
qed

lemma byte_writer_emits:
  assumes "buf_wf b \<and> 1 + n \<le> room b"
  shows "buf_out.emits (byte_writer x b) [x] n b"
proof -
  have b: "buf_wf b" "0 < room b" using assms by auto
  obtain b' where "WriteByte x b = Some (Inr (), b')" "buf_wf b'" "content b' = content b @ [x]" "room b' = room b - 1"
    "UDP b' = UDP b" "vlen b' = vlen b" "buf_start b' = buf_start b" by (rule WriteByte_spec [OF b])
  then show ?thesis using assms by (auto simp: byte_writer_def buf_out.emits_def)
qed

lemma puts_byte_writer [intro]: "buf_out.puts (byte_writer x) [x]"
  by (simp add: buf_out.puts_def byte_writer_emits)

text \<open>A writer that takes everything, such as \<^verbatim>\<open>bytes.Buffer\<close>, as the list of its bytes.\<close>

definition list_writer :: "byte list \<Rightarrow> byte list \<Rightarrow> byte list written" where
  "list_writer xs w = Some (None, w @ xs)"

interpretation list_out: io_writer list_writer "\<lambda>w. w" "\<lambda>n w. True" "\<lambda>w. ()"
  by unfold_locales (simp add: list_writer_def)

section \<open>Reading back\<close>

lemma readPort_ok:
  assumes "buf_wf b" "2 \<le> room b" "concat r = PutUint16 port @ rest"
  obtains b' r' where "readPort b r = Some (Inr port, b', r')" "buf_wf b'" "content b' = content b @ PutUint16 port"
    "room b' = room b - 2" "concat r' = rest"
proof -
  have "length (PutUint16 port) \<le> room b" using assms(2) by simp
  then obtain b' r' where b': "buf_wf b'" "content b' = content b @ PutUint16 port" "room b' = room b - 2" "concat r' = rest"
    and r: "readPort b r = (do { xs \<leftarrow> BytesFrom (- 2) b'; p \<leftarrow> PortFromBytes xs; Some (Inr p, b', r') })"
    unfolding readPort_def by (rule read_full_ok [OF assms(1) _ assms(3), where k = "\<lambda>b r. do { xs \<leftarrow> BytesFrom (- 2) b;
      p \<leftarrow> PortFromBytes xs; Some (Inr p, b, r) }"]) simp
  have "PutUint16 port \<noteq> []" by (simp add: PutUint16_def)
  then have "BytesFrom (- 2) b' = Some (PutUint16 port)" using last_bytes [OF b'(1,2)] by simp
  moreover have "PortFromBytes (PutUint16 port) = Some port"
    using Uint16_PutUint16 [of port "[]"] by (simp add: PortFromBytes_def)
  ultimately show ?thesis using that b' r by simp
qed

lemma read_ip_ok:
  assumes "buf_wf b" "length ip \<le> room b" "concat r = ip @ rest" "IPAddress ip = Some a" "ip \<noteq> []"
  obtains b' r' where "read_ip (length ip) b r = Some (Inr a, b', r')" "buf_wf b'" "content b' = content b @ ip"
    "room b' = room b - length ip" "concat r' = rest"
proof -
  obtain b' r' where b': "buf_wf b'" "content b' = content b @ ip" "room b' = room b - length ip" "concat r' = rest"
    and r: "read_ip (length ip) b r = (do { xs \<leftarrow> BytesFrom (- int (length ip)) b'; a \<leftarrow> IPAddress xs; Some (Inr a, b', r') })"
    unfolding read_ip_def by (rule read_full_ok [OF assms(1-3), where k = "\<lambda>b r. do { xs \<leftarrow> BytesFrom (- int (length ip)) b;
      a \<leftarrow> IPAddress xs; Some (Inr a, b, r) }"])
  then show ?thesis using that last_bytes [OF b'(1,2) assms(5)] assms(4) by simp
qed

lemma read_domain_ok:
  assumes "buf_wf b" "length d + 1 \<le> room b" "concat r = of_nat (length d) # d @ rest" "length d \<le> 255"
    "parse_domain d = Some (Inr a)"
  obtains b' r' where "read_domain b r = Some (Inr a, b', r')" "buf_wf b'" "content b' = content b @ of_nat (length d) # d"
    "room b' = room b - (length d + 1)" "concat r' = rest"
proof -
  let ?l = "of_nat (length d) :: byte"
  let ?k2 = "\<lambda>l b r. do { domain \<leftarrow> BytesFrom (- uint l) b; res \<leftarrow> parse_domain domain; Some (res, b, r) }"
  let ?k1 = "\<lambda>b r. do { l \<leftarrow> Byte (i32 (buf_Len b - 1)) b; read_full_then (uint l) (?k2 l) b r }"
  have l: "uint ?l = int (length d)" using assms(4) by (simp add: uint_nat unat_of_nat)
  have d: "d \<noteq> []" using assms(5) by (auto simp: parse_domain_def index_expr_def)
  have "length [?l] \<le> room b" "concat r = [?l] @ d @ rest" using assms(2,3) by auto
  then obtain b1 r1 where b1: "buf_wf b1" "content b1 = content b @ [?l]" "room b1 = room b - 1" "concat r1 = d @ rest"
    and s1: "read_domain b r = ?k1 b1 r1"
    unfolding read_domain_def by (rule read_full_ok [OF assms(1), where k = ?k1]) simp
  have "length d \<le> room b1" using assms(2) b1(3) by simp
  then obtain b2 r2 where b2: "buf_wf b2" "content b2 = content b1 @ d" "room b2 = room b1 - length d" "concat r2 = rest"
    and s2: "read_full_then (int (length d)) (?k2 ?l) b1 r1 = ?k2 ?l b2 r2"
    by (rule read_full_ok [OF b1(1) _ b1(4), where k = "?k2 ?l"])
  have "read_domain b r = Some (Inr a, b2, r2)"
    unfolding s1 using last_byte [OF b1(1,2)] s2 last_bytes [OF b2(1,2) d] assms(5) by (simp add: l)
  then show ?thesis using that b1 b2 by simp
qed

text \<open>The type byte selects the family it was written for.\<close>

lemma readAddress_step:
  assumes "buf_wf b" "1 \<le> room b" "concat r = apByteMap p ! unat f # rest" "family_ok p f"
    "apByteMap p ! unat f \<noteq> afInvalid" "f \<noteq> afInvalid"
  obtains b1 r1 where "buf_wf b1" "content b1 = content b @ [apByteMap p ! unat f]" "room b1 = room b - 1" "concat r1 = rest"
    "readAddress p b r = (if f = AddressFamilyIPv4 then read_ip 4 b1 r1
             else if f = AddressFamilyIPv6 then read_ip 16 b1 r1
             else if f = AddressFamilyDomain then read_domain b1 r1 else None)"
proof -
  let ?tb = "apByteMap p ! unat f" and ?ty = "case apTypeParser p of None \<Rightarrow> apByteMap p ! unat f | Some g \<Rightarrow> g (apByteMap p ! unat f)"
  have "?ty < 16" "apTypeMap p ! unat ?ty = f" using assms(4,5) by (simp_all add: family_ok_def Let_def)
  then obtain t where t: "?ty = t" "\<not> 16 \<le> t" "apTypeMap p ! unat t = f" by (auto simp: not_le)
  have "length [?tb] \<le> room b" "concat r = [?tb] @ rest" using assms(2,3) by auto
  then obtain b1 r1 where b1: "buf_wf b1" "content b1 = content b @ [?tb]" "room b1 = room b - 1" "concat r1 = rest"
    and s: "readAddress p b r = (do { t \<leftarrow> Byte (i32 (buf_Len b1 - 1)) b1; read_typed p t b1 r1 })"
    unfolding readAddress_def
    by (rule read_full_ok [OF assms(1), where k = "\<lambda>b r. do { t \<leftarrow> Byte (i32 (buf_Len b - 1)) b; read_typed p t b r }"]) simp
  have "read_typed p ?tb b1 r1 = (if f = AddressFamilyIPv4 then read_ip 4 b1 r1
             else if f = AddressFamilyIPv6 then read_ip 16 b1 r1
             else if f = AddressFamilyDomain then read_domain b1 r1 else None)"
    unfolding read_typed_def Let_def t(1) using t(2,3) assms(6) by simp
  then show ?thesis using that b1 last_byte [OF b1(1,2)] s by simp
qed

lemma Family_facts: "parser_ok p \<Longrightarrow> family_ok p (Family a)" "Family a \<noteq> afInvalid"
  by (cases a; simp add: parser_ok_def family_defs afInvalid_def)+

lemma readAddress_ok:
  assumes "buf_wf b" "length (enc_address p a) \<le> room b" "concat r = enc_address p a @ rest"
    "parser_ok p" "addr_writable p a"
  obtains b' r' where "readAddress p b r = Some (Inr a, b', r')" "buf_wf b'" "content b' = content b @ enc_address p a"
    "room b' = room b - length (enc_address p a)" "concat r' = rest"
proof -
  let ?tb = "apByteMap p ! unat (Family a)"
  have tb: "?tb \<noteq> afInvalid" using assms(5) by (simp add: addr_writable_def)
  obtain body where body: "enc_address p a = ?tb # body" by (simp add: enc_address_def)
  have "1 \<le> room b" "concat r = ?tb # body @ rest" using assms(2,3) body by auto
  then obtain b1 r1 where b1: "buf_wf b1" "content b1 = content b @ [?tb]" "room b1 = room b - 1" "concat r1 = body @ rest"
    and s1: "readAddress p b r = (if Family a = AddressFamilyIPv4 then read_ip 4 b1 r1
             else if Family a = AddressFamilyIPv6 then read_ip 16 b1 r1
             else if Family a = AddressFamilyDomain then read_domain b1 r1 else None)"
    by (rule readAddress_step [OF assms(1) _ _ Family_facts(1) [OF assms(4)] tb Family_facts(2)])
  have room: "length body \<le> room b1" using assms(2) b1(3) body by simp
  have fin: thesis if "readAddress p b r = Some (Inr a, b2, r2)" "buf_wf b2" "content b2 = content b1 @ body"
    "room b2 = room b1 - length body" "concat r2 = rest" for b2 r2
    by (rule \<open>\<And>r' b'. readAddress p b r = Some (Inr a, b', r') \<Longrightarrow> buf_wf b' \<Longrightarrow> content b' = content b @ enc_address p a \<Longrightarrow>
      room b' = room b - length (enc_address p a) \<Longrightarrow> concat r' = rest \<Longrightarrow> thesis\<close>)
      (use that b1 body in simp_all)
  show ?thesis
  proof (cases a)
    case (ipv4Address ip)
    then have "length body = 4" "IPAddress body = Some a" "body \<noteq> []"
      using assms(5) body by (auto simp: enc_address_def addr_writable_def IPAddress_def)
    then show ?thesis using read_ip_ok [OF b1(1) room b1(4)] fin s1 ipv4Address by (metis Family.simps(1))
  next
    case (ipv6Address ip)
    then have "length body = 16" "IPAddress body = Some a" "body \<noteq> []"
      using assms(5) body by (auto simp: enc_address_def addr_writable_def IPAddress_def)
    then show ?thesis using read_ip_ok [OF b1(1) room b1(4)] fin s1 ipv6Address by (simp add: family_defs) metis
  next
    case (domainAddress d)
    then have "body = of_nat (length d) # d" "length d \<le> 255" "parse_domain d = Some (Inr a)"
      using assms(5) body by (auto simp: enc_address_def addr_writable_def)
    then show ?thesis using read_domain_ok [OF b1(1), of d r1 rest a] room b1(4) fin s1 domainAddress
      by (simp add: family_defs) metis
  qed
qed

lemma ReadAddressPort_ok:
  assumes "serializer_ok s" "addr_writable (parser_of s) a" "concat r = enc_addr_port s a port @ rest"
    "case buf of None \<Rightarrow> True | Some b \<Rightarrow> buf_wf b \<and> 259 \<le> room b"
  obtains b' r' where "ReadAddressPort s buf r = Some (Inr (a, port), b', r')" "buf_wf b'"
    "content b' = (case buf of None \<Rightarrow> [] | Some b \<Rightarrow> content b) @ enc_addr_port s a port" "concat r' = rest"
proof -
  define b where "b = (case buf of None \<Rightarrow> New | Some b \<Rightarrow> b)"
  have b: "buf_wf b" "259 \<le> room b" "content b = (case buf of None \<Rightarrow> [] | Some b \<Rightarrow> content b)"
    using assms(4) by (auto simp: b_def Size_def split: option.splits)
  have len: "length (enc_address (parser_of s) a) \<le> 257" using assms(2) by (rule enc_address_length)
  show ?thesis
  proof (cases s)
    case (portFirstAddressParser ap)
    have b2: "2 \<le> room b" using b(2) by simp
    have "concat r = PutUint16 port @ enc_address ap a @ rest" using assms(3) portFirstAddressParser by simp
    then obtain b1 r1 where b1: "readPort b r = Some (Inr port, b1, r1)" "buf_wf b1" "content b1 = content b @ PutUint16 port"
      "room b1 = room b - 2" "concat r1 = enc_address ap a @ rest" by (rule readPort_ok [OF b(1) b2])
    have "length (enc_address ap a) \<le> room b1" using len b(2) b1(4) portFirstAddressParser by simp
    then obtain b2 r2 where b2: "readAddress ap b1 r1 = Some (Inr a, b2, r2)" "buf_wf b2" "content b2 = content b1 @ enc_address ap a"
      "concat r2 = rest"
      by (rule readAddress_ok [OF b1(2) _ b1(5)]) (use assms(1,2) portFirstAddressParser in simp_all)
    then show ?thesis using that b1 b portFirstAddressParser by (simp add: parse_then_def b_def)
  next
    case (portLastAddressParser ap)
    have "length (enc_address ap a) \<le> room b" using len b(2) portLastAddressParser by simp
    moreover have "concat r = enc_address ap a @ PutUint16 port @ rest" using assms(3) portLastAddressParser by simp
    ultimately obtain b1 r1 where b1: "readAddress ap b r = Some (Inr a, b1, r1)" "buf_wf b1" "content b1 = content b @ enc_address ap a"
      "room b1 = room b - length (enc_address ap a)" "concat r1 = PutUint16 port @ rest"
      by (rule readAddress_ok [OF b(1)]) (use assms(1,2) portLastAddressParser in simp_all)
    have "2 \<le> room b1" using len b(2) b1(4) portLastAddressParser by simp
    then obtain b2 r2 where b2: "readPort b1 r1 = Some (Inr port, b2, r2)" "buf_wf b2" "content b2 = content b1 @ PutUint16 port"
      "concat r2 = rest" by (rule readPort_ok [OF b1(2) _ b1(5)])
    then show ?thesis using that b1 b portLastAddressParser by (simp add: parse_then_def b_def)
  qed
qed

lemma buf_after_facts:
  assumes "buf_wf b" "content b = xs @ ys"
  shows "buf_wf (buf_after (length ys) b)" "content (buf_after (length ys) b) = ys" "vlen (buf_after (length ys) b) = vlen b"
proof -
  have "buf_wf (buf_after (length ys) b) \<and> content (buf_after (length ys) b) = ys"
  proof (cases "ys = []")
    case True
    then show ?thesis using assms(1) by (simp add: buf_after_def)
  next
    case False
    have le: "length xs \<le> length (content b)" using assms(2) by simp
    have "buf_end b - int (length ys) = buf_start b + int (length xs)"
      using content_offset(2) [OF assms(1) le] assms(2) by simp
    then have "buf_after (length ys) b = b\<lparr>buf_start := i32 (buf_start b + int (length xs))\<rparr>"
      using False by (simp add: buf_after_def)
    then show ?thesis using buf_advance [OF assms(1) le] assms(2) by simp
  qed
  then show "buf_wf (buf_after (length ys) b)" "content (buf_after (length ys) b) = ys" by simp_all
  show "vlen (buf_after (length ys) b) = vlen b" by (simp add: buf_after_def)
qed

lemma ReadAddressPort_buf_ok:
  assumes "buf_wf b" "content b = enc_addr_port s a port @ rest" "serializer_ok s" "addr_writable (parser_of s) a"
  obtains b' where "ReadAddressPort_buf s b = Some (Inr (a, port), b')" "buf_wf b'" "content b' = rest"
proof -
  have c: "concat (if content b = [] then [] else [content b]) = enc_addr_port s a port @ rest" using assms(2) by simp
  obtain b1 r1 where r1: "ReadAddressPort s None (if content b = [] then [] else [content b]) = Some (Inr (a, port), b1, r1)"
    "concat r1 = rest" by (rule ReadAddressPort_ok [OF assms(3,4) c, of None]) simp
  have "ReadAddressPort_buf s b = Some (Inr (a, port), buf_after (length rest) b)"
    using r1 Bytes_content [OF assms(1)] by (simp add: ReadAddressPort_buf_def)
  then show thesis using that buf_after_facts [OF assms(1,2)] by blast
qed

text \<open>Receiving: the value and what is left unread.\<close>

definition yields :: "'a received \<Rightarrow> 'a \<Rightarrow> byte list \<Rightarrow> bool" where
  "yields m x rest \<longleftrightarrow> (\<exists>r'. m = Some (Inr x, r') \<and> concat r' = rest)"

lemma yields_full:
  assumes "concat r = xs @ rest" "length xs = n" "\<And>r'. concat r' = rest \<Longrightarrow> yields (k xs r') x fin"
  shows "yields (full_then n msg k r) x fin"
proof -
  obtain r' where "ReadFull n r = (xs, None, r')" "concat r' = rest"
    using ReadFull_enough [of n r] assms(1,2) by auto
  then show ?thesis using assms(3) by (simp add: full_then_def)
qed

lemma yields_addr:
  assumes "concat r = enc_addr_port s a port @ rest" "serializer_ok s" "addr_writable (parser_of s) a"
    "\<And>r'. concat r' = rest \<Longrightarrow> yields (k a port r') x fin"
  shows "yields (addr_then s msg k r) x fin"
proof -
  obtain b' r' where "ReadAddressPort s None r = Some (Inr (a, port), b', r')" "concat r' = rest"
    by (rule ReadAddressPort_ok [OF assms(2,3,1), of None]) simp
  then show ?thesis using assms(4) by (simp add: addr_then_def)
qed

lemma full_then_short:
  assumes "length (concat r) < n"
  shows "\<exists>r'. full_then n msg k r = Some (Inl (ErrNew msg), r')"
  using ReadFull_short [OF assms] by (auto simp: full_then_def)

section \<open>Reading never panics\<close>

text \<open>What every parser of this file guarantees of its result.\<close>

definition parsed_ok :: "buffer \<Rightarrow> ('a \<Rightarrow> bool) \<Rightarrow> 'a parsed \<Rightarrow> bool" where
  "parsed_ok b P m \<longleftrightarrow> (\<exists>res b' r'. m = Some (res, b', r') \<and> buf_wf b' \<and> vlen b' = vlen b \<and>
     (case res of Inl e \<Rightarrow> True | Inr x \<Rightarrow> P x))"

lemma parsed_ok_error: "buf_wf b' \<Longrightarrow> vlen b' = vlen b \<Longrightarrow> parsed_ok b P (Some (Inl e, b', r))"
  by (simp add: parsed_ok_def)

lemma parsed_ok_frame: "parsed_ok b' P m \<Longrightarrow> vlen b' = vlen b \<Longrightarrow> parsed_ok b P m"
  by (auto simp: parsed_ok_def)

lemma parsed_ok_then:
  assumes "parsed_ok b P m" "\<And>x b' r'. P x \<Longrightarrow> buf_wf b' \<Longrightarrow> vlen b' = vlen b \<Longrightarrow> parsed_ok b' Q (k x b' r')"
  shows "parsed_ok b Q (parse_then m k)"
proof -
  obtain res b' r' where m: "m = Some (res, b', r')" "buf_wf b'" "vlen b' = vlen b"
    "case res of Inl e \<Rightarrow> True | Inr x \<Rightarrow> P x" using assms(1) by (auto simp: parsed_ok_def)
  then show ?thesis
    using assms(2) [of _ b' r'] by (cases res) (auto simp: parse_then_def parsed_ok_def)
qed

lemma readPort_total:
  assumes "buf_wf b" "vlen b \<le> Size"
  shows "parsed_ok b (\<lambda>_. True) (readPort b r)"
proof -
  have "parsed_ok b (\<lambda>_. True) (read_full_then (int 2) (\<lambda>b r. do { xs \<leftarrow> BytesFrom (- 2) b; p \<leftarrow> PortFromBytes xs; Some (Inr p, b, r) }) b r)"
  proof (rule read_full_cases [OF assms])
    fix xs b' r'
    assume b': "buf_wf b'" "vlen b' = vlen b" "content b' = content b @ xs" "length xs = 2"
    then have "xs \<noteq> []" by auto
    then have "BytesFrom (- 2) b' = Some xs" using last_bytes [OF b'(1,3)] b'(4) by simp
    moreover obtain p where "PortFromBytes xs = Some p" using Uint16_Some [of xs] b'(4) by (auto simp: PortFromBytes_def)
    ultimately show "parsed_ok b (\<lambda>_. True) (do { xs \<leftarrow> BytesFrom (- 2) b'; p \<leftarrow> PortFromBytes xs; Some (Inr p, b', r') })"
      using b' by (simp add: parsed_ok_def)
  qed (simp_all add: parsed_ok_error)
  then show ?thesis by (simp add: readPort_def)
qed

lemma read_ip_total:
  assumes "buf_wf b" "vlen b \<le> Size" "n = 4 \<or> n = 16"
  shows "parsed_ok b address_wf (read_ip n b r)"
  unfolding read_ip_def
proof (rule read_full_cases [OF assms(1,2)])
  fix xs b' r'
  assume b': "buf_wf b'" "vlen b' = vlen b" "content b' = content b @ xs" "length xs = n"
  then have "xs \<noteq> []" using assms(3) by auto
  then have "BytesFrom (- int n) b' = Some xs" using last_bytes [OF b'(1,3)] b'(4) by simp
  moreover obtain a where "IPAddress xs = Some a" using b'(4) assms(3) IPAddress_some [of xs] by blast
  ultimately show "parsed_ok b address_wf (do { xs \<leftarrow> BytesFrom (- int n) b'; a \<leftarrow> IPAddress xs; Some (Inr a, b', r') })"
    using b' IPAddress_wf by (simp add: parsed_ok_def)
qed (use assms(3) in \<open>auto simp: parsed_ok_error\<close>)

lemma parse_domain_total:
  assumes "d \<noteq> []"
  shows "\<exists>res. parse_domain d = Some res \<and> (case res of Inl e \<Rightarrow> True | Inr a \<Rightarrow> address_wf a)"
proof -
  obtain a where a: "ParseAddress d = Some a" "address_wf a" using ParseAddress_some by blast
  have "index_expr d (int (length d)) 0 = Some (d ! 0)" using assms by (simp add: index_expr_def)
  then show ?thesis
    using a by (cases "maybeIPPrefix (d ! 0)"; cases "IsIP (Family a)"; cases "isValidDomain d")
      (simp_all add: parse_domain_def DomainAddress_def)
qed

lemma unat_byte: "unat l < 2 ^ 30" for l :: byte
proof -
  have "unat l < 2 ^ LENGTH(8)" by (rule unsigned_less)
  then show ?thesis by simp
qed

lemma read_domain_total:
  assumes "buf_wf b" "vlen b \<le> Size"
  shows "parsed_ok b address_wf (read_domain b r)"
proof -
  let ?k2 = "\<lambda>l b r. do { domain \<leftarrow> BytesFrom (- uint l) b; res \<leftarrow> parse_domain domain; Some (res, b, r) }"
  let ?k1 = "\<lambda>b r. do { l \<leftarrow> Byte (i32 (buf_Len b - 1)) b; read_full_then (uint l) (?k2 l) b r }"
  have "parsed_ok b address_wf (read_full_then (int 1) ?k1 b r)"
  proof (rule read_full_cases [OF assms])
    fix xs b1 r1
    assume b1: "buf_wf b1" "vlen b1 = vlen b" "content b1 = content b @ xs" "length xs = 1"
    then obtain l where l: "xs = [l]" by (auto simp: length_Suc_conv)
    have "parsed_ok b1 address_wf (read_full_then (int (unat l)) (?k2 l) b1 r1)"
    proof (rule read_full_cases [OF b1(1) _ unat_byte])
      fix ys b2 r2
      assume b2: "buf_wf b2" "vlen b2 = vlen b1" "content b2 = content b1 @ ys" "length ys = unat l"
      have "\<exists>d. BytesFrom (- uint l) b2 = Some d \<and> d \<noteq> []"
      proof (cases "ys = []")
        case True
        then have "l = 0" using b2(4) by (simp add: unat_eq_0)
        then show ?thesis using BytesFrom_0 [OF b2(1)] b2(3) b1(3) l by auto
      next
        case False
        then show ?thesis using last_bytes [OF b2(1,3)] b2(4) by simp
      qed
      then obtain d where "BytesFrom (- uint l) b2 = Some d" "d \<noteq> []" by blast
      moreover from this(2) obtain res where "parse_domain d = Some res" "case res of Inl e \<Rightarrow> True | Inr a \<Rightarrow> address_wf a"
        using parse_domain_total by blast
      ultimately show "parsed_ok b1 address_wf (?k2 l b2 r2)"
        using b2 by (simp add: parsed_ok_def)
    qed (use b1 assms in \<open>simp_all add: parsed_ok_error\<close>)
    from parsed_ok_frame [OF this b1(2)] show "parsed_ok b address_wf (?k1 b1 r1)"
      using last_byte [OF b1(1), of "content b" l] b1(3) l by simp
  qed (simp_all add: parsed_ok_error)
  then show ?thesis by (simp add: read_domain_def)
qed

lemma readAddress_total:
  assumes "buf_wf b" "vlen b \<le> Size" "parser_ok p"
  shows "parsed_ok b address_wf (readAddress p b r)"
proof -
  let ?k = "\<lambda>b r. do { t \<leftarrow> Byte (i32 (buf_Len b - 1)) b; read_typed p t b r }"
  have "parsed_ok b address_wf (read_full_then (int 1) ?k b r)"
  proof (rule read_full_cases [OF assms(1,2)])
    fix xs b1 r1
    assume b1: "buf_wf b1" "vlen b1 = vlen b" "content b1 = content b @ xs" "length xs = 1"
    then obtain t where t: "xs = [t]" by (auto simp: length_Suc_conv)
    define ty where "ty = (case apTypeParser p of None \<Rightarrow> t | Some f \<Rightarrow> f t)"
    have "parsed_ok b1 address_wf (read_typed p t b1 r1)"
    proof (cases "ty \<ge> 16")
      case True
      then show ?thesis using b1(1) by (simp add: read_typed_def ty_def Let_def parsed_ok_error)
    next
      case False
      have "unat ty < length (apTypeMap p)" using False assms(3) by (simp add: parser_ok_def not_le word_less_nat_alt)
      then have "apTypeMap p ! unat ty \<in> {AddressFamilyIPv4, AddressFamilyIPv6, AddressFamilyDomain, afInvalid}"
        using assms(3) by (simp add: parser_ok_def list_all_length)
      moreover have "vlen b1 \<le> Size" using b1(2) assms(2) by simp
      ultimately show ?thesis
        unfolding read_typed_def Let_def ty_def [symmetric]
        using False b1(1) read_ip_total [OF b1(1)] read_domain_total [OF b1(1)] by (auto simp: parsed_ok_error)
    qed
    from parsed_ok_frame [OF this b1(2)] show "parsed_ok b address_wf (?k b1 r1)"
      using last_byte [OF b1(1), of "content b" t] b1(3) t by simp
  qed (simp_all add: parsed_ok_error)
  then show ?thesis by (simp add: readAddress_def)
qed

lemma ReadAddressPort_total:
  assumes "serializer_ok s" "case buf of None \<Rightarrow> True | Some b \<Rightarrow> buf_wf b \<and> vlen b \<le> Size"
  shows "parsed_ok (case buf of None \<Rightarrow> New | Some b \<Rightarrow> b) (\<lambda>(a, port). address_wf a) (ReadAddressPort s buf r)"
proof -
  define b where "b = (case buf of None \<Rightarrow> New | Some b \<Rightarrow> b)"
  have b: "buf_wf b" "vlen b \<le> Size"
    using assms(2) by (auto simp: b_def New_def buf_New_def buf_of_def buf_wf_def Size_def split: option.splits)
  have fin: "address_wf a \<Longrightarrow> buf_wf b' \<Longrightarrow> parsed_ok b' (\<lambda>(a, port). address_wf a) (Some (Inr (a, port), b', r'))"
    for a port b' r' by (simp add: parsed_ok_def)
  show ?thesis
  proof (cases s)
    case (portFirstAddressParser ap)
    have ap: "parser_ok ap" using assms(1) portFirstAddressParser by simp
    show ?thesis
      unfolding b_def [symmetric] ReadAddressPort.simps portFirstAddressParser
    proof (rule parsed_ok_then [OF readPort_total [OF b]])
      fix port b1 r1
      assume b1: "buf_wf b1" "vlen b1 = vlen b"
      then have "vlen b1 \<le> Size" using b(2) by simp
      then show "parsed_ok b1 (\<lambda>(a, port). address_wf a) (parse_then (readAddress ap b1 r1) (\<lambda>addr b r. Some (Inr (addr, port), b, r)))"
        by (rule parsed_ok_then [OF readAddress_total [OF b1(1) _ ap] fin])
    qed
  next
    case (portLastAddressParser ap)
    have ap: "parser_ok ap" using assms(1) portLastAddressParser by simp
    show ?thesis
      unfolding b_def [symmetric] ReadAddressPort.simps portLastAddressParser
    proof (rule parsed_ok_then [OF readAddress_total [OF b ap]])
      fix a b1 r1
      assume a: "address_wf a" and b1: "buf_wf b1" "vlen b1 = vlen b"
      then have "vlen b1 \<le> Size" using b(2) by simp
      then show "parsed_ok b1 (\<lambda>(a, port). address_wf a) (parse_then (readPort b1 r1) (\<lambda>port b r. Some (Inr (a, port), b, r)))"
        by (rule parsed_ok_then [OF readPort_total [OF b1(1)] fin]) (use a in simp_all)
    qed
  qed
qed

text \<open>
  C22: addresses survive the wire: what \<^verbatim>\<open>WriteAddressPort\<close> puts into a buffer with room for
  259 bytes is read by \<^verbatim>\<open>ReadAddressPort\<close>, with or without a buffer of the caller and however
  the bytes arrive, as the same address and port, and nothing behind them is consumed; for every
  parser whose tables agree and every address it can write: an IP address that is not IPv4-mapped,
  or a domain of at most 255 bytes that is a valid name and not an IP literal.
\<close>

theorem address_roundtrip:
  assumes "serializer_ok s" "addr_writable (parser_of s) a" "buf_wf b" "259 \<le> room b"
    and "case buf of None \<Rightarrow> True | Some b0 \<Rightarrow> buf_wf b0 \<and> 259 \<le> room b0"
  shows "\<exists>b' bs. WriteAddressPort buf_writer s (Some a) port b = Some (None, b') \<and> content b' = content b @ bs \<and>
     (\<forall>r rest. concat r = bs @ rest \<longrightarrow>
        (\<exists>b'' r'. ReadAddressPort s buf r = Some (Inr (a, port), b'', r') \<and> concat r' = rest))"
proof -
  let ?bs = "enc_addr_port s a port"
  have "buf_wf b \<and> length ?bs + 0 \<le> room b" using assms(3,4) enc_addr_port_length [OF assms(2), of port] by simp
  from buf_out.WriteAddressPort_emits [OF assms(2) this] obtain b' where
    "WriteAddressPort buf_writer s (Some a) port b = Some (None, b')" "content b' = content b @ ?bs"
    by (auto simp: buf_out.emits_def)
  moreover have "\<exists>b'' r'. ReadAddressPort s buf r = Some (Inr (a, port), b'', r') \<and> concat r' = rest"
    if "concat r = ?bs @ rest" for r rest
    using ReadAddressPort_ok [OF assms(1,2) that assms(5)] by metis
  ultimately show ?thesis by blast
qed

definition sample_parser :: AddressSerializer where
  "sample_parser = portFirstAddressParser \<lparr>apTypeMap = [255, 0, 2, 1] @ replicate 12 255,
     apByteMap = [1, 3, 2] @ replicate 13 255, apTypeParser = None\<rparr>"

lemma sample_parser_ok: "serializer_ok sample_parser"
  by (simp add: sample_parser_def parser_ok_def family_ok_def family_defs afInvalid_def list.pred_set)

theorem address_roundtrip_witness:
  "\<exists>b' bs. WriteAddressPort buf_writer sample_parser (Some (domainAddress [97, 46, 98])) 443 New = Some (None, b') \<and> content b' = bs \<and>
     (\<forall>r rest. concat r = bs @ rest \<longrightarrow>
        (\<exists>b'' r'. ReadAddressPort sample_parser None r = Some (Inr (domainAddress [97, 46, 98], 443), b'', r') \<and> concat r' = rest))"
proof -
  have "addr_writable (parser_of sample_parser) (domainAddress [97, 46, 98])"
    by (simp add: addr_writable_def sample_parser_def family_defs afInvalid_def parse_domain_def index_expr_def
        maybeIPPrefix_def isValidDomain_def valid_domain_char_def DomainAddress_def)
  from address_roundtrip [OF sample_parser_ok this New_facts(1), of None 443] show ?thesis
    by (simp add: Size_def)
qed

text \<open>
  Reading an address never panics: for every parser whose tables agree, every reader and
  every buffer of at most the standard size, \<^verbatim>\<open>ReadAddressPort\<close> returns an error or an address
  that is well-formed, and leaves the buffer well-formed.
\<close>

theorem address_reader_total:
  assumes "serializer_ok s" "case buf of None \<Rightarrow> True | Some b \<Rightarrow> buf_wf b \<and> vlen b \<le> Size"
  shows "\<exists>res b' r'. ReadAddressPort s buf r = Some (res, b', r') \<and> buf_wf b' \<and>
     (case res of Inl e \<Rightarrow> True | Inr (a, port) \<Rightarrow> address_wf a)"
  using ReadAddressPort_total [OF assms, of r] unfolding parsed_ok_def by blast

theorem address_reader_total_witness:
  "\<exists>res b' r'. ReadAddressPort sample_parser None [[1, 187], [2, 0, 9]] = Some (res, b', r') \<and> buf_wf b'"
  using address_reader_total [OF sample_parser_ok, of None "[[1, 187], [2, 0, 9]]"] by auto

section \<open>A domain of 256 bytes\<close>

lemma trim_left_keeps: "\<forall>r\<in>set rs. c \<notin> set r \<Longrightarrow> c \<in> set s \<Longrightarrow> c \<in> set (trim_left rs s)"
proof (induction rs s rule: trim_left.induct)
  case (1 rs s)
  show ?case
  proof (cases "s = [] \<or> space_prefix rs s = 0")
    case True
    then show ?thesis using 1 by (simp add: trim_left.simps [of rs s])
  next
    case False
    then obtain r where r: "find (\<lambda>r. take (length r) s = r) rs = Some r" "space_prefix rs s = length r"
      by (auto simp: space_prefix_def split: option.splits)
    then have "take (length r) s = r" "r \<in> set rs" by (auto simp: find_Some_iff)
    then have "c \<notin> set (take (length r) s)" using 1(2) by simp
    then have "c \<in> set (drop (length r) s)" using 1(3) by (metis UnE append_take_drop_id set_append)
    then show ?thesis using 1(1,2) False r(2) by (simp add: trim_left.simps [of rs s])
  qed
qed

lemma TrimSpace_keeps_0: "0 \<in> set s \<Longrightarrow> 0 \<in> set (TrimSpace s)"
  unfolding TrimSpace_def by (auto intro!: trim_left_keeps simp: space_runes_def)

lemma ParseAddress_0:
  assumes "0 \<in> set s" "last s = 0"
  shows "\<exists>t. ParseAddress s = Some (domainAddress t)"
proof -
  have "ParseIP t = None" if "0 \<in> set t" for t
  proof (rule ccontr)
    assume "ParseIP t \<noteq> None"
    then obtain ip where "ParseIP t = Some ip" by blast
    from ParseIP_bytes [OF this] have "ip_byte 0" using that by (auto simp: list_all_iff)
    then show False by (simp add: ip_byte_def hex_value_def)
  qed
  then show ?thesis using assms TrimSpace_keeps_0 by (simp add: ParseAddress_def DomainAddress_def Let_def)
qed

text \<open>A string that ends in a zero byte is neither a valid name nor an IP address.\<close>

lemma parse_domain_0: "d = ys @ [0] \<Longrightarrow> parse_domain d = Some (Inl (ErrNew ''invalid domain name: ''))"
proof -
  assume d: "d = ys @ [0]"
  then obtain t where t: "ParseAddress d = Some (domainAddress t)" using ParseAddress_0 [of d] by auto
  have "\<not> isValidDomain d" using d by (simp add: isValidDomain_def valid_domain_char_def)
  moreover have "index_expr d (int (length d)) 0 = Some (d ! 0)" using d by (simp add: index_expr_def)
  ultimately show ?thesis
    using t by (cases "maybeIPPrefix (d ! 0)") (simp_all add: parse_domain_def IsIP_def family_defs)
qed

lemma read_domain_empty:
  assumes "buf_wf b" "1 \<le> room b" "concat r = 0 # rest"
  shows "\<exists>b' r'. read_domain b r = Some (Inl (ErrNew ''invalid domain name: ''), b', r')"
proof -
  let ?k2 = "\<lambda>l b r. do { domain \<leftarrow> BytesFrom (- uint l) b; res \<leftarrow> parse_domain domain; Some (res, b, r) }"
  let ?k1 = "\<lambda>b r. do { l \<leftarrow> Byte (i32 (buf_Len b - 1)) b; read_full_then (uint l) (?k2 l) b r }"
  have "length [0 :: byte] \<le> room b" "concat r = [0] @ rest" using assms(2,3) by auto
  then obtain b1 r1 where b1: "buf_wf b1" "content b1 = content b @ [0]" and s1: "read_domain b r = ?k1 b1 r1"
    unfolding read_domain_def by (rule read_full_ok [OF assms(1), where k = ?k1]) simp
  have "length ([] :: byte list) \<le> room b1" "concat r1 = [] @ concat r1" by simp_all
  then obtain b2 r2 where b2: "buf_wf b2" "content b2 = content b1 @ []"
    and s2: "read_full_then (int 0) (?k2 0) b1 r1 = ?k2 0 b2 r2"
    by (rule read_full_ok [OF b1(1), where k = "?k2 0"]) simp
  have "BytesFrom 0 b2 = Some (content b @ [0])" using BytesFrom_0 [OF b2(1)] b2(2) b1(2) by simp
  then show ?thesis
    using s1 s2 last_byte [OF b1] parse_domain_0 [of "content b @ [0]" "content b"] by simp
qed

lemma readAddress_empty_domain:
  assumes "buf_wf b" "2 \<le> room b" "concat r = apByteMap p ! unat AddressFamilyDomain # 0 # rest"
    "parser_ok p" "apByteMap p ! unat AddressFamilyDomain \<noteq> afInvalid"
  shows "\<exists>b' r'. readAddress p b r = Some (Inl (ErrNew ''invalid domain name: ''), b', r')"
proof -
  have f: "family_ok p AddressFamilyDomain" "AddressFamilyDomain \<noteq> afInvalid"
    using Family_facts(1) [of p "domainAddress []"] Family_facts(2) [of "domainAddress []"] assms(4) by simp_all
  have "1 \<le> room b" using assms(2) by simp
  then obtain b1 r1 where b1: "buf_wf b1" "room b1 = room b - 1" "concat r1 = 0 # rest" "readAddress p b r = read_domain b1 r1"
    by (rule readAddress_step [OF assms(1) _ assms(3) f(1) assms(5) f(2)]) (simp add: family_defs)
  have "1 \<le> room b1" using assms(2) b1(2) by simp
  from read_domain_empty [OF b1(1) this b1(3)] show ?thesis using b1(4) by simp
qed



end
