(* ===== verification/Trojan_Protocol.thy ===== *)
theory Trojan_Protocol
  imports Protocol_Address Multi_Buffer
begin

text \<open>
  Package \<^verbatim>\<open>proxy/trojan\<close>, file \<^verbatim>\<open>protocol.go\<close>: the request header of a Trojan connection
  and the framing of its UDP packets. The underlying connection is a writer function on the
  writing side and a list of chunks on the reading side; the array behind each stack buffer is an
  argument.
\<close>

section \<open>The writing side\<close>

definition crlf :: "byte list" where
  "crlf = [13, 10]"

definition commandTCP :: byte where "commandTCP = 1"
definition commandUDP :: byte where "commandUDP = 3"
definition maxLength :: nat where "maxLength = 8192"

definition trojan_addrParser :: AddressSerializer where
  "trojan_addrParser = the (do {
     o1 \<leftarrow> AddressFamilyByte 0x01 AddressFamilyIPv4;
     o2 \<leftarrow> AddressFamilyByte 0x04 AddressFamilyIPv6;
     o3 \<leftarrow> AddressFamilyByte 0x03 AddressFamilyDomain;
     NewAddressParser [o1, o2, o3]
   })"

record ConnWriter =
  cwTarget :: Destination
  accountKey :: "byte list"
  headerSent :: bool

text \<open>The header in its buffer.\<close>

definition trojan_header :: "byte list \<Rightarrow> ConnWriter \<Rightarrow> buffer written" where
  "trojan_header a c =
     (let command = (if DNetwork (cwTarget c) = Network_UDP then commandUDP else commandTCP)
      in write_then (buf_writer (accountKey c) (StackNew a)) (\<lambda>b.
         write_then (buf_writer crlf b) (\<lambda>b.
         write_then (byte_writer command b) (\<lambda>b.
         write_then (WriteAddressPort buf_writer trojan_addrParser (Address (cwTarget c)) (DPort (cwTarget c)) b) (\<lambda>b.
         buf_writer crlf b)))))"

definition writeHeader ::
  "byte list \<Rightarrow> (byte list \<Rightarrow> 'w \<Rightarrow> 'w written) \<Rightarrow> ConnWriter \<times> 'w \<Rightarrow> (ConnWriter \<times> 'w) written" where
  "writeHeader a wr s =
     (case s of (c, w) \<Rightarrow>
        (case trojan_header a c of
           None \<Rightarrow> None
         | Some (Some e, b) \<Rightarrow> Some (Some e, (c, w))
         | Some (None, b) \<Rightarrow> do {
             bs \<leftarrow> Bytes b;
             (err, w') \<leftarrow> wr bs w;
             Some (err, (if err = None then c\<lparr>headerSent := True\<rparr> else c, w'))
           }))"

definition ConnWriter_Write ::
  "byte list \<Rightarrow> (byte list \<Rightarrow> 'w \<Rightarrow> 'w written) \<Rightarrow> byte list \<Rightarrow> ConnWriter \<times> 'w \<Rightarrow> (ConnWriter \<times> 'w) written" where
  "ConnWriter_Write a wr p s =
     (let send = (\<lambda>(c, w). map_option (\<lambda>(err, w'). (err, (c, w'))) (wr p w))
      in if \<not> headerSent (fst s)
         then (case writeHeader a wr s of
                 None \<Rightarrow> None
               | Some (Some e, s') \<Rightarrow> Some (Some (ErrNew ''failed to write request header''), s')
               | Some (None, s') \<Rightarrow> send s')
         else send s)"

fun ConnWriter_WriteMultiBuffer ::
  "byte list \<Rightarrow> (byte list \<Rightarrow> 'w \<Rightarrow> 'w written) \<Rightarrow> MultiBuffer \<Rightarrow> ConnWriter \<times> 'w \<Rightarrow> (ConnWriter \<times> 'w) written" where
  "ConnWriter_WriteMultiBuffer a wr [] s = Some (None, s)"
| "ConnWriter_WriteMultiBuffer a wr (b # mb) s =
     (if \<not> buf_IsEmpty b
      then do { bs \<leftarrow> Bytes b; write_then (ConnWriter_Write a wr bs s) (ConnWriter_WriteMultiBuffer a wr mb) }
      else ConnWriter_WriteMultiBuffer a wr mb s)"

text \<open>A packet in its buffer: \<^verbatim>\<open>Write\<close> drops what does not fit.\<close>

definition trojan_packet :: "byte list \<Rightarrow> byte list \<Rightarrow> Destination \<Rightarrow> buffer written" where
  "trojan_packet a pl dest =
     write_then (WriteAddressPort buf_writer trojan_addrParser (Address dest) (DPort dest) (StackNew a)) (\<lambda>b.
     write_then (buf_writer (PutUint16 (of_nat (length pl))) b) (\<lambda>b.
     write_then (buf_writer crlf b) (\<lambda>b.
     buf_writer pl b)))"

definition writePacket ::
  "byte list \<Rightarrow> (byte list \<Rightarrow> 'w \<Rightarrow> 'w written) \<Rightarrow> byte list \<Rightarrow> Destination \<Rightarrow> 'w \<Rightarrow> 'w written" where
  "writePacket a wr pl dest w =
     (case trojan_packet a pl dest of
        None \<Rightarrow> None
      | Some (Some e, b) \<Rightarrow> Some (Some e, w)
      | Some (None, b) \<Rightarrow> do { bs \<leftarrow> Bytes b; wr bs w })"

fun PacketWriter_WriteMultiBuffer ::
  "byte list \<Rightarrow> (byte list \<Rightarrow> 'w \<Rightarrow> 'w written) \<Rightarrow> Destination \<Rightarrow> MultiBuffer \<Rightarrow> 'w \<Rightarrow> 'w written" where
  "PacketWriter_WriteMultiBuffer a wr target [] w = Some (None, w)"
| "PacketWriter_WriteMultiBuffer a wr target (b # mb) w = do {
     bs \<leftarrow> Bytes b;
     write_then (writePacket a wr bs (case UDP b of None \<Rightarrow> target | Some d \<Rightarrow> d) w)
       (PacketWriter_WriteMultiBuffer a wr target mb)
   }"

section \<open>The reading side\<close>

record ConnReader =
  crTarget :: Destination
  headerParsed :: bool

definition ParseHeader :: "ConnReader \<Rightarrow> reader \<Rightarrow> ((go_error + ConnReader) \<times> reader) option" where
  "ParseHeader c =
     full_then 56 ''failed to read user hash'' (\<lambda>hash.
     full_then 2 ''failed to read crlf'' (\<lambda>_.
     full_then 1 ''failed to read command'' (\<lambda>command.
     addr_then trojan_addrParser ''failed to read address and port'' (\<lambda>addr port.
     full_then 2 ''failed to read crlf'' (\<lambda>_ r.
       Some (Inr (c\<lparr>crTarget := \<lparr>Address = Some addr, DPort = port,
                      DNetwork = (if command ! 0 = commandUDP then Network_UDP else Network_TCP)\<rparr>,
                    headerParsed := True\<rparr>), r))))))"

text \<open>\<^verbatim>\<open>Read\<close> into a slice of \<open>n\<close> bytes: the bytes, the error, the reader.\<close>

definition ConnReader_Read ::
  "nat \<Rightarrow> ConnReader \<Rightarrow> reader \<Rightarrow> (byte list \<times> go_error option \<times> ConnReader \<times> reader) option" where
  "ConnReader_Read n c r =
     (if headerParsed c
      then (case reader_Read n r of (xs, e, r') \<Rightarrow> Some (xs, e, c, r'))
      else (case ParseHeader c r of
              None \<Rightarrow> None
            | Some (Inl e, r') \<Rightarrow> Some ([], Some e, c, r')
            | Some (Inr c', r') \<Rightarrow> (case reader_Read n r' of (xs, e, r'') \<Rightarrow> Some (xs, e, c', r''))))"

definition ConnReader_ReadMultiBuffer ::
  "ConnReader \<Rightarrow> reader \<Rightarrow> (MultiBuffer \<times> go_error option \<times> ConnReader \<times> reader) option" where
  "ConnReader_ReadMultiBuffer c r = do {
     (xs, e, c', r') \<leftarrow> ConnReader_Read (vlen New) c r;
     (n, b) \<leftarrow> buf_Write xs New;
     Some ([b], e, c', r')
   }"

text \<open>The loop of \<^verbatim>\<open>PacketReader.ReadMultiBuffer\<close>: every buffer is filled before the next.\<close>

function packet_loop :: "Destination \<Rightarrow> nat \<Rightarrow> MultiBuffer \<Rightarrow> reader \<Rightarrow> ((go_error + MultiBuffer) \<times> reader) option" where
  "packet_loop dest remain mb r =
     (if remain > 0
      then (case ReadFullFrom r (int (min Size remain)) (New\<lparr>UDP := Some dest\<rparr>) of
              None \<Rightarrow> None
            | Some (n, Some e, r', b) \<Rightarrow> Some (Inl (ErrNew ''failed to read payload''), r')
            | Some (n, None, r', b) \<Rightarrow> packet_loop dest (remain - n) (mb @ [b]) r')
      else Some (Inr mb, r))"
  by pat_completeness auto
termination
proof (relation "measure (\<lambda>(dest, remain, mb, r). remain)", goal_cases)
  case (2 dest remain mb r q n q' err q'' r' b)
  let ?n = "min Size remain"
  have w: "buf_wf (New\<lparr>UDP := Some dest\<rparr>)" "room (New\<lparr>UDP := Some dest\<rparr>) = Size"
    using New_facts by (simp_all add: buf_wf_def room_def)
  obtain xs e r1 where f: "ReadFull ?n r = (xs, e, r1)" by (cases "ReadFull ?n r") auto
  have le: "?n \<le> room (New\<lparr>UDP := Some dest\<rparr>)" using w by simp
  obtain b' where "ReadFullFrom r (int ?n) (New\<lparr>UDP := Some dest\<rparr>) = Some (length xs, e, r1, b')"
    by (rule ReadFullFrom_spec [OF w(1) le f])
  with 2 f have "ReadFull ?n r = (xs, None, r')" "n = length xs" by auto
  then have "n = ?n" by (auto dest!: ReadFull_ok)
  then show ?case using 2 by (simp add: Size_def)
qed simp

declare packet_loop.simps [simp del]

definition PacketReader_ReadMultiBuffer :: "reader \<Rightarrow> ((go_error + MultiBuffer) \<times> reader) option" where
  "PacketReader_ReadMultiBuffer =
     addr_then trojan_addrParser ''failed to read address and port'' (\<lambda>addr port.
     full_then 2 ''failed to read payload length'' (\<lambda>lengthBuf r. do {
       l \<leftarrow> Uint16 lengthBuf;
       let remain = unat l;
       if remain > maxLength then Some (Inl (ErrNew ''oversize payload''), r)
       else full_then 2 ''failed to read crlf'' (\<lambda>_. packet_loop (UDPDestination addr port) remain []) r
     }))"

section \<open>The address parser\<close>

lemma trojan_addrParser_eq:
  "trojan_addrParser = portLastAddressParser \<lparr>apTypeMap = [255, 0, 255, 2, 1] @ replicate 11 255,
     apByteMap = [1, 4, 3] @ replicate 13 255, apTypeParser = None\<rparr>"
  by code_simp

lemma trojan_parser_ok: "serializer_ok trojan_addrParser"
  by (simp add: trojan_addrParser_eq parser_ok_def family_ok_def family_defs afInvalid_def list.pred_set)

lemma trojan_writable: "addr_writable (parser_of trojan_addrParser) a \<longleftrightarrow> wire_addr a"
  by (cases a) (simp_all add: addr_writable_wire trojan_addrParser_eq family_defs afInvalid_def)

abbreviation trojan_enc :: "address \<Rightarrow> Port \<Rightarrow> byte list" where
  "trojan_enc \<equiv> enc_addr_port trojan_addrParser"

lemma trojan_enc_length: "wire_addr a \<Longrightarrow> length (trojan_enc a port) \<le> 259"
  using enc_addr_port_length [of trojan_addrParser a port] by (simp add: trojan_writable)

section \<open>The header\<close>

definition header_bytes :: "byte list \<Rightarrow> Network \<Rightarrow> address \<Rightarrow> Port \<Rightarrow> byte list" where
  "header_bytes key net addr port =
     key @ crlf @ [if net = Network_UDP then commandUDP else commandTCP] @ trojan_enc addr port @ crlf"

lemma trojan_header_ok:
  assumes "length (accountKey c) = 56" "Address (cwTarget c) = Some addr" "wire_addr addr" "length a < 2 ^ 31"
  shows "\<exists>b. trojan_header a c = Some (None, b) \<and> buf_wf b \<and>
    content b = header_bytes (accountKey c) (DNetwork (cwTarget c)) addr (DPort (cwTarget c))"
proof -
  let ?cmd = "if DNetwork (cwTarget c) = Network_UDP then commandUDP else commandTCP"
  let ?enc = "trojan_enc addr (DPort (cwTarget c))"
  have enc: "length ?enc \<le> 259" using assms(3) by (rule trojan_enc_length)
  have w: "addr_writable (parser_of trojan_addrParser) addr" using assms(3) by (simp add: trojan_writable)
  have "buf_out.puts (\<lambda>b. write_then (buf_writer (accountKey c) b) (\<lambda>b. write_then (buf_writer crlf b) (\<lambda>b.
      write_then (byte_writer ?cmd b) (\<lambda>b. write_then (WriteAddressPort buf_writer trojan_addrParser (Some addr)
        (DPort (cwTarget c)) b) (buf_writer crlf)))))
      (accountKey c @ crlf @ [?cmd] @ ?enc @ crlf)"
    by (intro buf_out.puts_then buf_out.puts_wr puts_byte_writer buf_out.puts_WriteAddressPort w)
  from buf_out.puts_emits [OF this, of "StackNew a"]
  have "buf_out.emits (trojan_header a c) (accountKey c @ crlf @ [?cmd] @ ?enc @ crlf) 0 (StackNew a)"
    using enc assms(1,4) by (simp add: trojan_header_def assms(2) crlf_def Size_def)
  then show ?thesis by (auto simp: buf_out.emits_def header_bytes_def)
qed

lemma ParseHeader_ok:
  assumes "concat r = header_bytes key net addr port @ rest" "length key = 56" "wire_addr addr"
    "net = Network_TCP \<or> net = Network_UDP"
  shows "yields (ParseHeader c r) (c\<lparr>crTarget := \<lparr>Address = Some addr, DPort = port, DNetwork = net\<rparr>,
      headerParsed := True\<rparr>) rest"
proof -
  let ?cmd = "if net = Network_UDP then commandUDP else commandTCP"
  have r: "concat r = key @ crlf @ [?cmd] @ trojan_enc addr port @ crlf @ rest"
    using assms(1) by (simp add: header_bytes_def)
  have w: "addr_writable (parser_of trojan_addrParser) addr" using assms(3) by (simp add: trojan_writable)
  have l: "length crlf = 2" "length [?cmd] = 1" by (simp_all add: crlf_def)
  show ?thesis
    unfolding ParseHeader_def
    apply (rule yields_full [OF r assms(2)])
    apply (erule yields_full [OF _ l(1)])
    apply (erule yields_full [OF _ l(2)])
    apply (erule yields_addr [OF _ trojan_parser_ok w])
    apply (erule yields_full [OF _ l(1)])
    using assms(4) by (auto simp: yields_def commandUDP_def commandTCP_def)
qed

lemma ConnWriter_sent:
  "mb_wf mb \<Longrightarrow> headerSent c \<Longrightarrow>
   ConnWriter_WriteMultiBuffer a list_writer mb (c, w) = Some (None, (c, w @ mb_content mb))"
  by (induction mb arbitrary: w) (auto simp: Bytes_content ConnWriter_Write_def list_writer_def write_then_def)

lemma ConnWriter_first:
  assumes "length (accountKey c) = 56" "Address (cwTarget c) = Some addr" "wire_addr addr" "length a < 2 ^ 31"
    "\<not> headerSent c"
  shows "mb_wf mb \<Longrightarrow> mb_content mb \<noteq> [] \<Longrightarrow> ConnWriter_WriteMultiBuffer a list_writer mb (c, w) =
    Some (None, (c\<lparr>headerSent := True\<rparr>, w @ header_bytes (accountKey c) (DNetwork (cwTarget c)) addr (DPort (cwTarget c)) @ mb_content mb))"
proof (induction mb)
  case (Cons b mb)
  obtain hb where hb: "trojan_header a c = Some (None, hb)" "buf_wf hb"
    "content hb = header_bytes (accountKey c) (DNetwork (cwTarget c)) addr (DPort (cwTarget c))"
    using trojan_header_ok [OF assms(1-4)] by blast
  show ?case
  proof (cases "content b = []")
    case True
    then show ?thesis using Cons by simp
  next
    case False
    have "ConnWriter_Write a list_writer (content b) (c, w) =
        Some (None, (c\<lparr>headerSent := True\<rparr>, w @ content hb @ content b))"
      using hb assms(5) by (simp add: ConnWriter_Write_def writeHeader_def Bytes_content list_writer_def Let_def)
    then show ?thesis
      using Cons.prems False hb(3) ConnWriter_sent [of mb "c\<lparr>headerSent := True\<rparr>"]
      by (simp add: Bytes_content write_then_def)
  qed
qed simp



section \<open>Packets\<close>

definition packet_head :: "address \<Rightarrow> Port \<Rightarrow> nat \<Rightarrow> byte list" where
  "packet_head addr port n = trojan_enc addr port @ PutUint16 (of_nat n) @ crlf"

lemma packet_head_length: "wire_addr addr \<Longrightarrow> length (packet_head addr port n) \<le> 263"
  using trojan_enc_length [of addr port] by (simp add: packet_head_def crlf_def)

text \<open>The packet is cut where the buffer ends.\<close>

lemma writePacket_bytes:
  assumes "Address dest = Some addr" "wire_addr addr" "length a < 2 ^ 31"
  shows "writePacket a list_writer pl dest w =
    Some (None, w @ packet_head addr (DPort dest) (length pl) @ take (Size - length (packet_head addr (DPort dest) (length pl))) pl)"
proof -
  let ?h = "packet_head addr (DPort dest) (length pl)"
  have w: "addr_writable (parser_of trojan_addrParser) addr" using assms(2) by (simp add: trojan_writable)
  have h: "length ?h \<le> 263" using assms(2) by (rule packet_head_length)
  have "buf_out.puts (\<lambda>b. write_then (WriteAddressPort buf_writer trojan_addrParser (Some addr) (DPort dest) b)
      (\<lambda>b. write_then (buf_writer (PutUint16 (of_nat (length pl))) b) (buf_writer crlf))) ?h"
    unfolding packet_head_def
    by (intro buf_out.puts_then buf_out.puts_wr buf_out.puts_WriteAddressPort w)
  from buf_out.puts_emits [OF this, of "StackNew a"] obtain b where b: "buf_wf b" "content b = ?h"
    and m: "write_then (WriteAddressPort buf_writer trojan_addrParser (Some addr) (DPort dest) (StackNew a))
      (\<lambda>b. write_then (buf_writer (PutUint16 (of_nat (length pl))) b) (buf_writer crlf)) = Some (None, b)"
    and v: "length (content b) + room b = Size"
    using h assms(3) by (auto simp: buf_out.emits_def Size_def)
  obtain b' where b': "buf_Write pl b = Some (min (room b) (length pl), b')" "buf_wf b'"
    "content b' = content b @ take (room b) pl" by (rule buf_Write_spec [OF b(1)])
  have "trojan_packet a pl dest = write_then (Some (None, b)) (buf_writer pl)"
    unfolding trojan_packet_def assms(1) m [symmetric]
    by (auto simp: write_then_def split: option.split prod.split)
  then have "trojan_packet a pl dest = Some (None, b')" using b'(1) by (simp add: write_then_def buf_writer_def)
  moreover have "room b = Size - length ?h" using v b(2) by simp
  ultimately show ?thesis using b' b(2) by (simp add: writePacket_def Bytes_content list_writer_def)
qed

lemma packet_loop_ok:
  assumes "concat r = xs @ rest" "length xs = remain"
  shows "\<exists>mbs r'. packet_loop dest remain mb r = Some (Inr (mb @ mbs), r') \<and> concat r' = rest \<and> mb_wf mbs \<and>
    mb_content mbs = xs \<and> (\<forall>b\<in>set mbs. UDP b = Some dest)"
  using assms
proof (induction dest remain mb r arbitrary: xs rule: packet_loop.induct)
  case (1 dest remain mb r)
  show ?case
  proof (cases "remain > 0")
    case False
    then show ?thesis using 1(2,3) by (intro exI [of _ "[]"] exI [of _ r]) (simp add: packet_loop.simps)
  next
    case True
    let ?n = "min Size remain" and ?b = "New\<lparr>UDP := Some dest\<rparr>"
    have w: "buf_wf ?b" "room ?b = Size" "content ?b = []"
      using New_facts by (simp_all add: buf_wf_def room_def content_def)
    have n0: "?n \<le> length xs" using 1(3) by simp
    then obtain r1 where f: "ReadFull ?n r = (take ?n xs, None, r1)" "concat r1 = drop ?n xs @ rest"
      using ReadFull_enough [of ?n r] 1(2) by auto
    have le: "?n \<le> room ?b" using w by simp
    obtain b where b: "ReadFullFrom r (int ?n) ?b = Some (length (take ?n xs), None, r1, b)" "buf_wf b"
      "content b = take ?n xs" "UDP b = Some dest" using ReadFullFrom_spec [OF w(1) le f(1)] w(3) by auto
    have n: "length (take ?n xs) = ?n" "length (drop ?n xs) = remain - ?n" using 1(3) by simp_all
    have step: "packet_loop dest remain mb r = packet_loop dest (remain - ?n) (mb @ [b]) r1"
      using True b(1) n(1) by (simp add: packet_loop.simps [of dest remain mb r])
    obtain mbs r' where "packet_loop dest (remain - ?n) (mb @ [b]) r1 = Some (Inr ((mb @ [b]) @ mbs), r')" "concat r' = rest"
      "mb_wf mbs" "mb_content mbs = drop ?n xs" "\<forall>b\<in>set mbs. UDP b = Some dest"
      using "1.IH" [OF True b(1) refl refl refl refl, of "drop ?n xs"] f(2) n by auto
    then show ?thesis using step b by (intro exI [of _ "b # mbs"] exI [of _ r']) simp
  qed
qed

text \<open>What the reader makes of a packet head, whatever follows it.\<close>

lemma PacketReader_head:
  assumes "concat r = packet_head addr port n @ rest" "wire_addr addr" "n \<le> maxLength"
  obtains r' where "PacketReader_ReadMultiBuffer r = packet_loop (UDPDestination addr port) n [] r'" "concat r' = rest"
proof -
  have w: "addr_writable (parser_of trojan_addrParser) addr" using assms(2) by (simp add: trojan_writable)
  have r: "concat r = trojan_enc addr port @ PutUint16 (of_nat n) @ crlf @ rest"
    using assms(1) by (simp add: packet_head_def)
  have u: "Uint16 (PutUint16 (of_nat n)) = Some (of_nat n)" using Uint16_PutUint16 [of "of_nat n" "[]"] by simp
  have n: "unat (of_nat n :: u16) = n" using assms(3) by (simp add: maxLength_def unat_of_nat)
  obtain b1 r1 where 1: "ReadAddressPort trojan_addrParser None r = Some (Inr (addr, port), b1, r1)"
    "concat r1 = PutUint16 (of_nat n) @ crlf @ rest"
    by (rule ReadAddressPort_ok [OF trojan_parser_ok w r, of None]) simp
  obtain r2 where 2: "ReadFull 2 r1 = (PutUint16 (of_nat n), None, r2)" "concat r2 = crlf @ rest"
    using ReadFull_enough [of 2 r1] 1(2) by auto
  obtain r3 where 3: "ReadFull 2 r2 = (crlf, None, r3)" "concat r3 = rest"
    using ReadFull_enough [of 2 r2] 2(2) by (auto simp: crlf_def)
  have "PacketReader_ReadMultiBuffer r = packet_loop (UDPDestination addr port) n [] r3"
    using 1(1) 2(1) 3(1) u n assms(3) by (simp add: PacketReader_ReadMultiBuffer_def addr_then_def full_then_def)
  then show thesis using that 3(2) by blast
qed



text \<open>
  A large UDP packet corrupts the stream: when head and payload together exceed the buffer,
  \<^verbatim>\<open>writePacket\<close> still reports success, but it sends only \<^verbatim>\<open>buf.Size\<close> bytes under the full
  length: the reader fills the packet up with the first bytes of whatever follows (the head of
  the next packet), and fails when the connection ends there.
\<close>

theorem trojan_packet_truncated:
  assumes "Address dest = Some addr" "wire_addr addr" "length a < 2 ^ 31" "length pl \<le> maxLength"
    and "Size < length (packet_head addr (DPort dest) (length pl)) + length pl"
  shows "\<exists>bs sent. writePacket a list_writer pl dest w = Some (None, w @ bs) \<and> length bs = Size \<and>
     sent < length pl \<and>
     (\<forall>r rest. concat r = bs @ rest \<longrightarrow> length pl - sent \<le> length rest \<longrightarrow>
        (\<exists>mb r'. PacketReader_ReadMultiBuffer r = Some (Inr mb, r') \<and>
           mb_content mb = take sent pl @ take (length pl - sent) rest \<and> concat r' = drop (length pl - sent) rest))"
proof -
  let ?h = "packet_head addr (DPort dest) (length pl)"
  let ?s = "Size - length ?h"
  have h: "length ?h \<le> Size" using packet_head_length [OF assms(2), of "DPort dest" "length pl"] by (simp add: Size_def)
  have "\<exists>mb r'. PacketReader_ReadMultiBuffer r = Some (Inr mb, r') \<and>
      mb_content mb = take ?s pl @ take (length pl - ?s) rest \<and> concat r' = drop (length pl - ?s) rest"
    if "concat r = (?h @ take ?s pl) @ rest" "length pl - ?s \<le> length rest" for r rest
  proof -
    have "concat r = ?h @ take ?s pl @ rest" using that(1) by simp
    then obtain r1 where r1: "PacketReader_ReadMultiBuffer r = packet_loop (UDPDestination addr (DPort dest)) (length pl) [] r1"
      "concat r1 = take ?s pl @ rest" by (rule PacketReader_head [OF _ assms(2,4)])
    have "concat r1 = (take ?s pl @ take (length pl - ?s) rest) @ drop (length pl - ?s) rest"
      "length (take ?s pl @ take (length pl - ?s) rest) = length pl" using r1(2) that(2) assms(5) h by auto
    from packet_loop_ok [OF this, of "UDPDestination addr (DPort dest)" "[]"] show ?thesis unfolding r1(1) by auto
  qed
  then show ?thesis
    using writePacket_bytes [OF assms(1-3), of pl w] assms(5) h
    by (intro exI [of _ "?h @ take ?s pl"] exI [of _ ?s]) auto
qed

theorem trojan_packet_truncated_witness:
  "\<exists>bs. writePacket [] list_writer (replicate 8192 1) (UDPDestination (ipv4Address [8, 8, 8, 8]) 53) [] = Some (None, bs) \<and>
     length bs = Size"
proof -
  let ?d = "UDPDestination (ipv4Address [8, 8, 8, 8]) 53" and ?pl = "replicate 8192 1 :: byte list"
  have w: "Address ?d = Some (ipv4Address [8, 8, 8, 8])" "wire_addr (ipv4Address [8, 8, 8, 8])"
    by (simp_all add: UDPDestination_def wire_addr_def)
  have "Size < length (packet_head (ipv4Address [8, 8, 8, 8]) (DPort ?d) (length ?pl)) + length ?pl"
    by (simp add: packet_head_def crlf_def Size_def)
  from trojan_packet_truncated [OF w _ _ this, of "[]" "[]"] show ?thesis by (auto simp: maxLength_def)
qed

end
