(* ===== verification/Mux_Frame.thy ===== *)
theory Mux_Frame
  imports Protocol_Address Multi_Buffer
begin

text \<open>
  Package \<^verbatim>\<open>common/mux\<close>, files \<^verbatim>\<open>frame.go\<close>, \<^verbatim>\<open>writer.go\<close> and \<^verbatim>\<open>reader.go\<close>: the
  frames that carry many sessions over one connection. The connection below a writer is a
  function that takes a multi-buffer.
\<close>

section \<open>Frame metadata (\<^verbatim>\<open>frame.go\<close>)\<close>

type_synonym SessionStatus = byte

definition SessionStatusNew :: SessionStatus where "SessionStatusNew = 0x01"
definition SessionStatusKeep :: SessionStatus where "SessionStatusKeep = 0x02"
definition SessionStatusEnd :: SessionStatus where "SessionStatusEnd = 0x03"
definition SessionStatusKeepAlive :: SessionStatus where "SessionStatusKeepAlive = 0x04"
definition OptionData :: byte where "OptionData = 0x01"
definition OptionError :: byte where "OptionError = 0x02"
definition TargetNetworkTCP :: byte where "TargetNetworkTCP = 0x01"
definition TargetNetworkUDP :: byte where "TargetNetworkUDP = 0x02"

lemmas mux_consts = SessionStatusNew_def SessionStatusKeep_def SessionStatusEnd_def SessionStatusKeepAlive_def
  OptionData_def OptionError_def TargetNetworkTCP_def TargetNetworkUDP_def

text \<open>The constants of \<^verbatim>\<open>protocol.AddressType\<close> are 1, 2 and 3.\<close>

definition mux_addrParser :: AddressSerializer where
  "mux_addrParser = the (do {
     o1 \<leftarrow> AddressFamilyByte 1 AddressFamilyIPv4;
     o2 \<leftarrow> AddressFamilyByte 2 AddressFamilyDomain;
     o3 \<leftarrow> AddressFamilyByte 3 AddressFamilyIPv6;
     NewAddressParser [o1, o2, o3, PortThenAddress]
   })"

record FrameMetadata =
  Target :: Destination
  SessionID :: u16
  FOption :: byte
  FStatus :: SessionStatus
  GlobalID :: "byte list"

definition zero_FrameMetadata :: FrameMetadata where
  "zero_FrameMetadata = \<lparr>Target = zero_Destination, SessionID = 0, FOption = 0, FStatus = 0, GlobalID = replicate 8 0\<rparr>"

text \<open>\<^verbatim>\<open>common.Must\<close> panics on the error; a call whose error is ignored goes on.\<close>

definition must_then :: "'w written \<Rightarrow> ('w \<Rightarrow> 'v option) \<Rightarrow> 'v option" where
  "must_then m k = (case m of Some (None, w) \<Rightarrow> k w | _ \<Rightarrow> None)"

definition ignore_then :: "'w written \<Rightarrow> ('w \<Rightarrow> 'v option) \<Rightarrow> 'v option" where
  "ignore_then m k = (case m of Some (_, w) \<Rightarrow> k w | None \<Rightarrow> None)"

text \<open>The target of a frame.\<close>

definition write_target :: "FrameMetadata \<Rightarrow> buffer \<Rightarrow> buffer written" where
  "write_target f b =
     (if FStatus f = SessionStatusNew
      then do {
        b1 \<leftarrow> (case DNetwork (Target f) of
                 Network_TCP \<Rightarrow> must_then (byte_writer TargetNetworkTCP b) Some
               | Network_UDP \<Rightarrow> must_then (byte_writer TargetNetworkUDP b) Some
               | _ \<Rightarrow> Some b);
        write_then (WriteAddressPort buf_writer mux_addrParser (Address (Target f)) (DPort (Target f)) b1)
          (\<lambda>b2. if UDP b2 \<noteq> None then ignore_then (buf_writer (GlobalID f) b2) (\<lambda>b3. Some (None, b3)) else Some (None, b2))
      }
      else case UDP b of
             Some d \<Rightarrow> ignore_then (byte_writer TargetNetworkUDP b) (\<lambda>b1.
               ignore_then (WriteAddressPort buf_writer mux_addrParser (Address d) (DPort d) b1) (\<lambda>b2. Some (None, b2)))
           | None \<Rightarrow> Some (None, b))"

definition WriteTo :: "FrameMetadata \<Rightarrow> buffer \<Rightarrow> buffer written" where
  "WriteTo f b = do {
     (b1, lo, hi) \<leftarrow> Extend 2 b;
     let len0 = buf_Len b1;
     (b2, slo, shi) \<leftarrow> Extend 2 b1;
     let b3 = buf_put slo (PutUint16 (SessionID f)) b2;
     must_then (byte_writer (FStatus f) b3) (\<lambda>b4.
     must_then (byte_writer (FOption f) b4) (\<lambda>b5.
     write_then (write_target f b5) (\<lambda>b6.
       let len1 = buf_Len b6
       in Some (None, buf_put lo (PutUint16 (of_int (i32 (len1 - len0)))) b6))))
   }"

text \<open>The address of \<^verbatim>\<open>UnmarshalFromBuffer\<close>: the metadata and the buffer behind it.\<close>

definition read_target :: "FrameMetadata \<Rightarrow> buffer \<Rightarrow> (go_error + FrameMetadata \<times> buffer) option" where
  "read_target f b =
     (if buf_Len b < 8 then Some (Inl (ErrNew ''insufficient buffer: ''))
      else do {
        network \<leftarrow> Byte 4 b;
        (res, b') \<leftarrow> ReadAddressPort_buf mux_addrParser (Advance 5 b);
        Some (case res of
                Inl e \<Rightarrow> Inl (ErrNew ''failed to parse address and port'')
              | Inr (addr, port) \<Rightarrow>
                  if network = TargetNetworkTCP then Inr (f\<lparr>Target := TCPDestination addr port\<rparr>, b')
                  else if network = TargetNetworkUDP then Inr (f\<lparr>Target := UDPDestination addr port\<rparr>, b')
                  else Inl (ErrNew ''unknown network type: ''))
      })"

definition UnmarshalFromBuffer :: "FrameMetadata \<Rightarrow> buffer \<Rightarrow> (go_error + FrameMetadata) option" where
  "UnmarshalFromBuffer f0 b =
     (if buf_Len b < 4 then Some (Inl (ErrNew ''insufficient buffer: ''))
      else do {
        idBytes \<leftarrow> BytesTo 2 b;
        i \<leftarrow> Uint16 idBytes;
        st \<leftarrow> Byte 2 b;
        opt \<leftarrow> Byte 3 b;
        let f = f0\<lparr>SessionID := i, FStatus := st, FOption := opt,
                   Target := (Target f0)\<lparr>DNetwork := Network_Unknown\<rparr>\<rparr>;
        res \<leftarrow> (if st = SessionStatusNew \<or>
                   (st = SessionStatusKeep \<and> buf_Len b > 4 \<and> Byte 4 b = Some TargetNetworkUDP)
                then read_target f b else Some (Inr (f, b)));
        case res of
          Inl e \<Rightarrow> Some (Inl e)
        | Inr (f', b') \<Rightarrow>
            if FStatus f' = SessionStatusNew \<and> mask_Has (FOption f') OptionData \<and>
               DNetwork (Target f') = Network_UDP \<and> buf_Len b' \<ge> 8
            then map_option (\<lambda>bs. Inr (f'\<lparr>GlobalID := take 8 bs\<rparr>)) (Bytes b')
            else Some (Inr f')
      })"

definition Unmarshal :: "FrameMetadata \<Rightarrow> reader \<Rightarrow> FrameMetadata received" where
  "Unmarshal f r =
     (case ReadUint16 r of
        (Inl e, r1) \<Rightarrow> Some (Inl e, r1)
      | (Inr metaLen, r1) \<Rightarrow>
          if metaLen > 512 then Some (Inl (ErrNew ''invalid metalen ''), r1)
          else (case ReadFullFrom r1 (uint metaLen) New of
                  None \<Rightarrow> None
                | Some (_, Some e, r2, b) \<Rightarrow> Some (Inl e, r2)
                | Some (_, None, r2, b) \<Rightarrow> map_option (\<lambda>res. (res, r2)) (UnmarshalFromBuffer f b)))"

section \<open>The writer (\<^verbatim>\<open>writer.go\<close>)\<close>

datatype TransferType = TransferTypeStream | TransferTypePacket

record Writer =
  dest :: Destination
  wid :: u16
  followup :: bool
  hasError :: bool
  transferType :: TransferType
  globalID :: "byte list"

definition NewWriter :: "u16 \<Rightarrow> Destination \<Rightarrow> TransferType \<Rightarrow> byte list \<Rightarrow> Writer" where
  "NewWriter i d tt gid = \<lparr>dest = d, wid = i, followup = False, hasError = False, transferType = tt, globalID = gid\<rparr>"

definition NewResponseWriter :: "u16 \<Rightarrow> TransferType \<Rightarrow> Writer" where
  "NewResponseWriter i tt = \<lparr>dest = zero_Destination, wid = i, followup = True, hasError = False, transferType = tt,
     globalID = replicate 8 0\<rparr>"

definition getNextFrameMeta :: "Writer \<Rightarrow> FrameMetadata \<times> Writer" where
  "getNextFrameMeta w =
     (let meta = \<lparr>Target = dest w, SessionID = wid w, FOption = 0,
                   FStatus = (if followup w then SessionStatusKeep else SessionStatusNew), GlobalID = globalID w\<rparr>
      in (meta, w\<lparr>followup := True\<rparr>))"

text \<open>\<open>wm\<close> is \<^verbatim>\<open>WriteMultiBuffer\<close> of the writer below.\<close>

definition writeMetaOnly :: "(MultiBuffer \<Rightarrow> 'w \<Rightarrow> 'w written) \<Rightarrow> Writer \<times> 'w \<Rightarrow> (Writer \<times> 'w) written" where
  "writeMetaOnly wm s =
     (case s of (w, u) \<Rightarrow>
        case getNextFrameMeta w of (meta, w') \<Rightarrow>
          (case WriteTo meta New of
             None \<Rightarrow> None
           | Some (Some e, b) \<Rightarrow> Some (Some e, (w', u))
           | Some (None, b) \<Rightarrow> map_option (\<lambda>(e, u'). (e, (w', u'))) (wm [b] u)))"

definition writeMetaWithFrame ::
  "(MultiBuffer \<Rightarrow> 'w \<Rightarrow> 'w written) \<Rightarrow> FrameMetadata \<Rightarrow> MultiBuffer \<Rightarrow> 'w \<Rightarrow> 'w written" where
  "writeMetaWithFrame wm meta data u =
     (let frame = (case data of [d] \<Rightarrow> New\<lparr>UDP := UDP d\<rparr> | _ \<Rightarrow> New)
      in case write_then (WriteTo meta frame) (buf_writer (PutUint16 (of_int (mb_Len data)))) of
           None \<Rightarrow> None
         | Some (Some e, b) \<Rightarrow> Some (Some e, u)
         | Some (None, b) \<Rightarrow> wm (b # data) u)"

definition writeData :: "(MultiBuffer \<Rightarrow> 'w \<Rightarrow> 'w written) \<Rightarrow> MultiBuffer \<Rightarrow> Writer \<times> 'w \<Rightarrow> (Writer \<times> 'w) written" where
  "writeData wm mb s =
     (case s of (w, u) \<Rightarrow>
        case getNextFrameMeta w of (meta, w') \<Rightarrow>
          map_option (\<lambda>(e, u'). (e, (w', u')))
            (writeMetaWithFrame wm (meta\<lparr>FOption := mask_Set (FOption meta) OptionData\<rparr>) mb u))"

text \<open>The next chunk of the loop: at most 8 KiB of a stream, one packet otherwise.\<close>

definition next_chunk :: "TransferType \<Rightarrow> MultiBuffer \<Rightarrow> (MultiBuffer \<times> MultiBuffer) option" where
  "next_chunk tt mb =
     (case tt of
        TransferTypeStream \<Rightarrow> SplitSize mb (8 * 1024)
      | TransferTypePacket \<Rightarrow> (case SplitFirst mb of (mb2, Some b) \<Rightarrow> Some (mb2, [b]) | (mb2, None) \<Rightarrow> None))"

partial_function (option) write_chunks ::
  "(MultiBuffer \<Rightarrow> 'w \<Rightarrow> 'w written) \<Rightarrow> MultiBuffer \<Rightarrow> Writer \<times> 'w \<Rightarrow> (Writer \<times> 'w) written" where
  "write_chunks wm mb s =
     (if mb_IsEmpty mb then Some (None, s)
      else Option.bind (next_chunk (transferType (fst s)) mb) (\<lambda>(mb', chunk).
        Option.bind (writeData wm chunk s) (\<lambda>(e, s'). if e \<noteq> None then Some (e, s') else write_chunks wm mb' s')))"

definition Writer_WriteMultiBuffer ::
  "(MultiBuffer \<Rightarrow> 'w \<Rightarrow> 'w written) \<Rightarrow> MultiBuffer \<Rightarrow> Writer \<times> 'w \<Rightarrow> (Writer \<times> 'w) written" where
  "Writer_WriteMultiBuffer wm mb s = (if mb_IsEmpty mb then writeMetaOnly wm s else write_chunks wm mb s)"

definition Writer_Close :: "(MultiBuffer \<Rightarrow> 'w \<Rightarrow> 'w written) \<Rightarrow> Writer \<Rightarrow> 'w \<Rightarrow> 'w option" where
  "Writer_Close wm w u =
     (let meta = zero_FrameMetadata\<lparr>SessionID := wid w, FStatus := SessionStatusEnd,
                   FOption := (if hasError w then mask_Set 0 OptionError else 0)\<rparr>
      in must_then (WriteTo meta New) (\<lambda>frame. map_option snd (wm [frame] u)))"

section \<open>The packet reader (\<^verbatim>\<open>reader.go\<close>)\<close>

record PacketReader =
  eof :: bool
  pdest :: "Destination option"

definition NewPacketReader :: "Destination option \<Rightarrow> PacketReader" where
  "NewPacketReader d = \<lparr>eof = False, pdest = d\<rparr>"

definition PacketReader_ReadMultiBuffer :: "PacketReader \<Rightarrow> reader \<Rightarrow> ((go_error + MultiBuffer) \<times> PacketReader \<times> reader) option" where
  "PacketReader_ReadMultiBuffer p r =
     (if eof p then Some (Inl EOF, p, r)
      else case ReadUint16 r of
             (Inl e, r1) \<Rightarrow> Some (Inl e, p, r1)
           | (Inr sz, r1) \<Rightarrow>
               if unat sz > Size then Some (Inl (ErrNew ''packet size too large: ''), p, r1)
               else (case ReadFullFrom r1 (uint sz) New of
                       None \<Rightarrow> None
                     | Some (_, Some e, r2, b) \<Rightarrow> Some (Inl e, p, r2)
                     | Some (_, None, r2, b) \<Rightarrow>
                         let b' = (case pdest p of
                                     Some d \<Rightarrow> if DNetwork d = Network_UDP then b\<lparr>UDP := Some d\<rparr> else b
                                   | None \<Rightarrow> b)
                         in Some (Inr [b'], p\<lparr>eof := True\<rparr>, r2)))"

section \<open>What a frame is on the wire\<close>

lemma mux_addrParser_eq:
  "mux_addrParser = portFirstAddressParser \<lparr>apTypeMap = [255, 0, 2, 1] @ replicate 12 255,
     apByteMap = [1, 3, 2] @ replicate 13 255, apTypeParser = None\<rparr>"
  by code_simp

lemma mux_parser_ok: "serializer_ok mux_addrParser"
  by (simp add: mux_addrParser_eq parser_ok_def family_ok_def family_defs afInvalid_def list.pred_set)

lemma mux_writable: "addr_writable (parser_of mux_addrParser) a \<longleftrightarrow> wire_addr a"
  by (cases a) (simp_all add: addr_writable_wire mux_addrParser_eq family_defs afInvalid_def)

abbreviation mux_enc :: "address \<Rightarrow> Port \<Rightarrow> byte list" where
  "mux_enc \<equiv> enc_addr_port mux_addrParser"

lemma mux_enc_length: "wire_addr a \<Longrightarrow> length (mux_enc a port) \<le> 259"
  using enc_addr_port_length [of mux_addrParser a port] by (simp add: mux_writable)

lemma mux_enc_min: "wire_addr a \<Longrightarrow> 3 < length (mux_enc a port)"
  by (cases a) (auto simp: mux_addrParser_eq enc_address_def wire_addr_def parse_domain_def index_expr_def)

definition dest_wire :: "Destination \<Rightarrow> bool" where
  "dest_wire d \<longleftrightarrow> (case Address d of None \<Rightarrow> False | Some a \<Rightarrow> wire_addr a)"

definition dest_enc :: "Destination \<Rightarrow> byte list" where
  "dest_enc d = mux_enc (the (Address d)) (DPort d)"

definition net_byte :: "Network \<Rightarrow> byte" where
  "net_byte n = (if n = Network_UDP then TargetNetworkUDP else TargetNetworkTCP)"

text \<open>The frames that can be told apart by a reader: \<open>u\<close> is the UDP address of the buffer.\<close>

definition frame_ok :: "FrameMetadata \<Rightarrow> Destination option \<Rightarrow> bool" where
  "frame_ok f u \<longleftrightarrow> length (GlobalID f) = 8 \<and>
     (if FStatus f = SessionStatusNew
      then dest_wire (Target f) \<and> (DNetwork (Target f) = Network_TCP \<or> DNetwork (Target f) = Network_UDP)
      else case u of None \<Rightarrow> True | Some d \<Rightarrow> FStatus f = SessionStatusKeep \<and> dest_wire d)"

definition target_bytes :: "FrameMetadata \<Rightarrow> Destination option \<Rightarrow> byte list" where
  "target_bytes f u =
     (if FStatus f = SessionStatusNew
      then [net_byte (DNetwork (Target f))] @ dest_enc (Target f) @ (if u = None then [] else GlobalID f)
      else case u of None \<Rightarrow> [] | Some d \<Rightarrow> [TargetNetworkUDP] @ dest_enc d)"

definition meta_bytes :: "FrameMetadata \<Rightarrow> Destination option \<Rightarrow> byte list" where
  "meta_bytes f u = PutUint16 (SessionID f) @ [FStatus f] @ [FOption f] @ target_bytes f u"

lemma meta_bytes_length: "frame_ok f u \<Longrightarrow> length (meta_bytes f u) \<le> 272"
proof -
  assume f: "frame_ok f u"
  have l: "dest_wire d \<Longrightarrow> length (dest_enc d) \<le> 259" for d
    using mux_enc_length by (auto simp: dest_wire_def dest_enc_def split: option.splits)
  show ?thesis
    using f l [of "Target f"] l [of "the u"]
    by (auto simp: meta_bytes_def target_bytes_def frame_ok_def split: option.splits if_splits)
qed

lemma write_target_puts:
  assumes "frame_ok f u" "buf_wf b" "UDP b = u" "length (target_bytes f u) \<le> room b"
  shows "buf_out.emits (write_target f b) (target_bytes f u) 0 b"
proof -
  let ?a = "\<lambda>d. WriteAddressPort buf_writer mux_addrParser (Address d) (DPort d)"
  have enc: "buf_out.puts (?a d) (dest_enc d)" if "dest_wire d" for d
    using that buf_out.puts_WriteAddressPort [of mux_addrParser "the (Address d)" "DPort d"]
    by (auto simp: dest_wire_def dest_enc_def mux_writable split: option.splits)
  show ?thesis
  proof (cases "FStatus f = SessionStatusNew")
    case True
    let ?n = "net_byte (DNetwork (Target f))" and ?gid = "if u = None then [] else GlobalID f"
    have d: "dest_wire (Target f)" using assms(1) True by (simp add: frame_ok_def)
    have ok: "buf_wf b \<and> 1 + (length (dest_enc (Target f)) + length ?gid) \<le> room b"
      using assms(2,4) True by (simp add: target_bytes_def)
    from byte_writer_emits [OF this, of ?n] obtain b1 where b1: "byte_writer ?n b = Some (None, b1)" "content b1 = content b @ [?n]"
      "buf_wf b1" "length (dest_enc (Target f)) + length ?gid \<le> room b1"
      "(UDP b1, vlen b1, length (content b1) + room b1, buf_start b1) = (UDP b, vlen b, length (content b) + room b, buf_start b)"
      by (auto simp: buf_out.emits_def)
    from buf_out.putsD [OF enc [OF d], of b1 "length ?gid"] b1(3,4)
    obtain b2 where b2: "?a (Target f) b1 = Some (None, b2)" "content b2 = content b1 @ dest_enc (Target f)" "buf_wf b2" "length ?gid \<le> room b2"
      "(UDP b2, vlen b2, length (content b2) + room b2, buf_start b2) = (UDP b1, vlen b1, length (content b1) + room b1, buf_start b1)"
      by (auto simp: buf_out.emits_def)
    have net: "(case DNetwork (Target f) of
                 Network_TCP \<Rightarrow> must_then (byte_writer TargetNetworkTCP b) Some
               | Network_UDP \<Rightarrow> must_then (byte_writer TargetNetworkUDP b) Some
               | _ \<Rightarrow> Some b) = Some b1"
      using assms(1) True b1(1) by (auto simp: frame_ok_def net_byte_def must_then_def)
    show ?thesis
    proof (cases "u = None")
      case None: True
      then have "write_target f b = Some (None, b2)"
        using True net b2 b1(5) assms(3) by (simp add: write_target_def write_then_def)
      then show ?thesis using None True b1 b2 by (simp add: buf_out.emits_def target_bytes_def)
    next
      case u: False
      have "buf_wf b2 \<and> length (GlobalID f) + 0 \<le> room b2" using b2(3,4) u by simp
      from buf_out.emits_wr [OF this] obtain b3 where b3: "buf_writer (GlobalID f) b2 = Some (None, b3)"
        "content b3 = content b2 @ GlobalID f" "buf_wf b3"
        "(UDP b3, vlen b3, length (content b3) + room b3, buf_start b3) = (UDP b2, vlen b2, length (content b2) + room b2, buf_start b2)"
        by (auto simp: buf_out.emits_def)
      then have "write_target f b = Some (None, b3)"
        using True net b2 b1(5) assms(3) u by (auto simp: write_target_def write_then_def ignore_then_def)
      then show ?thesis using u True b1 b2 b3 by (auto simp: buf_out.emits_def target_bytes_def)
    qed
  next
    case False
    show ?thesis
    proof (cases u)
      case None
      then show ?thesis using False assms(2,3) by (simp add: write_target_def target_bytes_def buf_out.emits_def)
    next
      case (Some d)
      have d: "dest_wire d" using assms(1) False Some by (simp add: frame_ok_def)
      have "buf_out.puts (\<lambda>b. write_then (byte_writer TargetNetworkUDP b) (?a d)) ([TargetNetworkUDP] @ dest_enc d)"
        by (intro buf_out.puts_then puts_byte_writer enc d)
      from buf_out.puts_emits [OF this, of b] have e: "buf_out.emits (write_then (byte_writer TargetNetworkUDP b) (?a d)) ([TargetNetworkUDP] @ dest_enc d) 0 b"
        using assms(2,4) False Some by (simp add: target_bytes_def)
      then have "write_target f b = write_then (byte_writer TargetNetworkUDP b) (?a d)"
        using False Some assms(3)
        by (auto simp: write_target_def buf_out.emits_def write_then_def ignore_then_def split: option.splits prod.splits)
      then show ?thesis using e False Some by (simp add: target_bytes_def)
    qed
  qed
qed

lemma WriteTo_ok:
  assumes "frame_ok f u"
  obtains b where "WriteTo f (New\<lparr>UDP := u\<rparr>) = Some (None, b)" "buf_wf b"
    "content b = PutUint16 (of_nat (length (meta_bytes f u))) @ meta_bytes f u" "Size - 274 \<le> room b" "UDP b = u"
proof -
  let ?b = "New\<lparr>UDP := u\<rparr>" and ?t = "target_bytes f u"
  have n: "buf_wf ?b" "room ?b = Size" "content ?b = []" "buf_start ?b = 0" "buf_end ?b = 0"
    using New_facts by (simp_all add: buf_wf_def room_def content_def New_def buf_New_def buf_of_def)
  have len: "length (meta_bytes f u) \<le> 272" using assms by (rule meta_bytes_length)
  then have tl: "4 + length ?t \<le> 272" by (simp add: meta_bytes_def)
  have "(2::nat) \<le> room ?b" using n by (simp add: Size_def)
  then obtain b1 where b1: "Extend (int 2) ?b = Some (b1, nat (buf_end ?b), nat (buf_end ?b) + 2)"
    "b1 = ?b\<lparr>buf_end := buf_end ?b + int 2\<rparr>" "buf_wf b1" "room b1 = room ?b - 2" "length (content b1) = length (content ?b) + 2"
    by (rule Extend_spec [OF n(1)])
  have r1: "2 \<le> room b1" "2 \<le> length (PutUint16 (SessionID f))" "nat (buf_end b1) + length (PutUint16 (SessionID f)) \<le> length (arr b1)"
    using b1(4) n room_arr [OF b1(3)] by (simp_all add: Size_def)
  obtain b2 where b2: "Extend (int 2) b1 = Some (b2, nat (buf_end b1), nat (buf_end b1) + 2)"
    "buf_wf (buf_put (nat (buf_end b1)) (PutUint16 (SessionID f)) b2)"
    "content (buf_put (nat (buf_end b1)) (PutUint16 (SessionID f)) b2) = content b1 @ take 2 (PutUint16 (SessionID f))"
    "room (buf_put (nat (buf_end b1)) (PutUint16 (SessionID f)) b2) = room b1 - 2"
    "b2 = b1\<lparr>buf_end := buf_end b1 + int 2\<rparr>"
    by (rule Extend_put [OF b1(3) r1])
  define b3 where "b3 = buf_put (nat (buf_end b1)) (PutUint16 (SessionID f)) b2"
  have b3: "buf_wf b3" "content b3 = content b1 @ PutUint16 (SessionID f)" "room b3 = Size - 4" "UDP b3 = u" "buf_start b3 = 0"
    using b2 b1(2,4) n by (simp_all add: b3_def buf_put_def)
  have "buf_out.puts (\<lambda>b. write_then (byte_writer (FStatus f) b) (byte_writer (FOption f))) ([FStatus f] @ [FOption f])"
    by (intro buf_out.puts_then puts_byte_writer)
  from buf_out.putsD [OF this, of b3 "length ?t"] have
    "buf_out.emits (write_then (byte_writer (FStatus f) b3) (byte_writer (FOption f))) [FStatus f, FOption f] (length ?t) b3"
    using b3(1,3) tl by (simp add: Size_def)
  then obtain b5 where w5: "write_then (byte_writer (FStatus f) b3) (byte_writer (FOption f)) = Some (None, b5)"
    and b5: "buf_wf b5" "length ?t \<le> room b5" "content b5 = content b3 @ [FStatus f, FOption f]"
      "UDP b5 = UDP b3" "buf_start b5 = buf_start b3" "length (content b5) + room b5 = length (content b3) + room b3"
    unfolding buf_out.emits_def prod.inject by blast
  have "buf_out.emits (write_target f b5) ?t 0 b5"
    using write_target_puts [OF assms b5(1) _ b5(2)] b5(4) b3(4) by simp
  then obtain b6 where b6: "write_target f b5 = Some (None, b6)" "buf_wf b6" "content b6 = content b5 @ ?t"
    "UDP b6 = UDP b5" "buf_start b6 = buf_start b5" "length (content b6) + room b6 = length (content b5) + room b5"
    unfolding buf_out.emits_def prod.inject by blast
  let ?m = "meta_bytes f u"
  have c6: "content b6 = content b1 @ ?m" using b6(3) b5(3) b3(2) by (simp add: meta_bytes_def)
  then have l6: "length (content b6) = 2 + length ?m" using b1(5) n(3) by simp
  have ilen: "i32 (buf_Len b6 - buf_Len b1) = int (length ?m)"
    using l6 b6(2) b1(3,5) n(3) len i32_nat [of "length ?m"] by simp
  define out where "out = buf_put (nat (buf_start b6)) (PutUint16 (of_nat (length ?m))) b6"
  have lo: "nat (buf_end ?b) = nat (buf_start b6)" using n(5) b6(5) b5(5) b3(5) by simp
  have two: "length (PutUint16 (of_nat (length ?m))) \<le> length (content b6)" using l6 by simp
  have "WriteTo f ?b = Some (None, out)"
    using b1(1) b2(1) w5 b6(1) lo ilen
    by (auto simp: WriteTo_def b3_def [symmetric] must_then_def write_then_def Let_def out_def split: option.splits prod.splits)
  moreover have "content out = PutUint16 (of_nat (length ?m)) @ ?m"
    using buf_put_front(3) [OF b6(2) two] c6 b1(5) n(3) by (simp add: out_def)
  moreover have "buf_wf out" "room out = room b6" using buf_put_front(1,2) [OF b6(2) two] by (simp_all add: out_def)
  moreover have "Size - 274 \<le> room b6" using b6(6) b5(6) b3(3) l6 b3(2) b1(5) n(3) len by (simp add: Size_def)
  moreover have "UDP out = u" using b6(4) b5(4) b3(4) by (simp add: out_def buf_put_def)
  ultimately show thesis using that by simp
qed

section \<open>Reading a frame\<close>

definition received_meta :: "FrameMetadata \<Rightarrow> Destination option \<Rightarrow> FrameMetadata" where
  "received_meta f u = f\<lparr>
     Target := (if FStatus f = SessionStatusNew then Target f
                else case u of None \<Rightarrow> zero_Destination | Some d \<Rightarrow> UDPDestination (the (Address d)) (DPort d)),
     GlobalID := (if FStatus f = SessionStatusNew \<and> mask_Has (FOption f) OptionData \<and>
                     DNetwork (Target f) = Network_UDP \<and> u \<noteq> None then GlobalID f else replicate 8 0)\<rparr>"

text \<open>The same when the metadata still has the fields \<open>f0\<close> of an earlier frame.\<close>

definition received_from :: "FrameMetadata \<Rightarrow> FrameMetadata \<Rightarrow> Destination option \<Rightarrow> FrameMetadata" where
  "received_from f0 f u = f\<lparr>
     Target := (if FStatus f = SessionStatusNew then Target f
                else case u of None \<Rightarrow> (Target f0)\<lparr>DNetwork := Network_Unknown\<rparr> | Some d \<Rightarrow> UDPDestination (the (Address d)) (DPort d)),
     GlobalID := (if FStatus f = SessionStatusNew \<and> mask_Has (FOption f) OptionData \<and>
                     DNetwork (Target f) = Network_UDP \<and> u \<noteq> None then GlobalID f else GlobalID f0)\<rparr>"

lemma read_target_ok:
  assumes "buf_wf b" "content b = hd4 @ [nb] @ mux_enc a port @ rest" "length hd4 = 4" "wire_addr a"
    "nb = TargetNetworkTCP \<or> nb = TargetNetworkUDP"
  obtains b' where "buf_wf b'" "content b' = rest"
    "read_target f b = Some (Inr (f\<lparr>Target := (if nb = TargetNetworkTCP then TCPDestination a port else UDPDestination a port)\<rparr>, b'))"
proof -
  have "8 \<le> buf_Len b" using assms(1-3) mux_enc_min [OF assms(4), of port] by simp
  moreover have "4 < length (content b)" "content b ! 4 = nb" using assms(2,3) by (simp_all add: nth_append)
  then have "Byte 4 b = Some nb" using Byte_nat [OF assms(1), of 4] by simp
  moreover have a: "buf_wf (Advance (int 5) b)" "content (Advance (int 5) b) = mux_enc a port @ rest"
    using Advance_spec [OF assms(1), of 5] assms(2,3) by simp_all
  obtain b' where "ReadAddressPort_buf mux_addrParser (Advance (int 5) b) = Some (Inr (a, port), b')" "buf_wf b'" "content b' = rest"
    by (rule ReadAddressPort_buf_ok [OF a mux_parser_ok]) (simp add: mux_writable assms(4))
  ultimately show thesis using that assms(5) by (auto simp: read_target_def mux_consts)
qed

lemma UnmarshalFromBuffer_from:
  assumes "buf_wf b" "content b = meta_bytes f u" "frame_ok f u"
  shows "UnmarshalFromBuffer f0 b = Some (Inr (received_from f0 f u))"
proof -
  let ?hd = "PutUint16 (SessionID f) @ [FStatus f, FOption f]" and ?t = "target_bytes f u"
  let ?f = "f0\<lparr>SessionID := SessionID f, FStatus := FStatus f, FOption := FOption f,
     Target := (Target f0)\<lparr>DNetwork := Network_Unknown\<rparr>\<rparr>"
  have c: "content b = ?hd @ ?t" using assms(2) by (simp add: meta_bytes_def)
  have len: "buf_Len b = int (4 + length ?t)" using assms(1) c by simp
  have "BytesTo 2 b = Some (PutUint16 (SessionID f))" using BytesTo_nat [OF assms(1), of 2] c by simp
  moreover have "Uint16 (PutUint16 (SessionID f)) = Some (SessionID f)" using Uint16_PutUint16 [of "SessionID f" "[]"] by simp
  moreover have "content b ! 2 = FStatus f" "content b ! 3 = FOption f" unfolding c by (simp_all add: nth_append)
  then have "Byte 2 b = Some (FStatus f)" "Byte 3 b = Some (FOption f)"
    using Byte_nat [OF assms(1), of 2] Byte_nat [OF assms(1), of 3] c by simp_all
  ultimately have step: "UnmarshalFromBuffer f0 b = Option.bind
      (if FStatus f = SessionStatusNew \<or> (FStatus f = SessionStatusKeep \<and> buf_Len b > 4 \<and> Byte 4 b = Some TargetNetworkUDP)
       then read_target ?f b else Some (Inr (?f, b)))
      (\<lambda>res. case res of Inl e \<Rightarrow> Some (Inl e) | Inr (f', b') \<Rightarrow>
            if FStatus f' = SessionStatusNew \<and> mask_Has (FOption f') OptionData \<and>
               DNetwork (Target f') = Network_UDP \<and> buf_Len b' \<ge> 8
            then map_option (\<lambda>bs. Inr (f'\<lparr>GlobalID := take 8 bs\<rparr>)) (Bytes b')
            else Some (Inr f'))"
    using len by (simp add: UnmarshalFromBuffer_def Let_def)
  show ?thesis
  proof (cases "FStatus f = SessionStatusNew")
    case True
    let ?gid = "if u = None then [] else GlobalID f"
    obtain a where a: "Address (Target f) = Some a" "wire_addr a"
      using assms(3) True by (auto simp: frame_ok_def dest_wire_def split: option.splits)
    have t: "content b = ?hd @ [net_byte (DNetwork (Target f))] @ mux_enc a (DPort (Target f)) @ ?gid"
      using c True a(1) by (simp add: target_bytes_def dest_enc_def)
    have nb: "net_byte (DNetwork (Target f)) = TargetNetworkTCP \<or> net_byte (DNetwork (Target f)) = TargetNetworkUDP"
      by (simp add: net_byte_def)
    have "length ?hd = 4" by simp
    then obtain b' where b': "buf_wf b'" "content b' = ?gid" "read_target ?f b = Some (Inr (?f\<lparr>Target :=
        (if net_byte (DNetwork (Target f)) = TargetNetworkTCP then TCPDestination a (DPort (Target f)) else UDPDestination a (DPort (Target f)))\<rparr>, b'))"
      by (rule read_target_ok [OF assms(1) t _ a(2) nb])
    have tgt: "(if net_byte (DNetwork (Target f)) = TargetNetworkTCP then TCPDestination a (DPort (Target f)) else UDPDestination a (DPort (Target f))) = Target f"
      using assms(3) True a(1) by (auto simp: frame_ok_def net_byte_def mux_consts TCPDestination_def UDPDestination_def)
    show ?thesis
      unfolding step using True b' tgt assms(3)
      by (auto simp: Bytes_content received_from_def frame_ok_def)
  next
    case False
    show ?thesis
    proof (cases u)
      case None
      then have "buf_Len b = 4" using len False by (simp add: target_bytes_def)
      then show ?thesis
        unfolding step using False None by (simp add: received_from_def)
    next
      case (Some d)
      obtain a where a: "Address d = Some a" "wire_addr a" "FStatus f = SessionStatusKeep"
        using assms(3) False Some by (auto simp: frame_ok_def dest_wire_def split: option.splits)
      have t: "content b = ?hd @ [TargetNetworkUDP] @ mux_enc a (DPort d) @ []"
        using c False Some a(1) by (simp add: target_bytes_def dest_enc_def)
      have "length ?hd = 4" by simp
      then obtain b' where b': "buf_wf b'" "content b' = []" "read_target ?f b = Some (Inr (?f\<lparr>Target :=
          (if TargetNetworkUDP = TargetNetworkTCP then TCPDestination a (DPort d) else UDPDestination a (DPort d))\<rparr>, b'))"
        by (rule read_target_ok [OF assms(1) t _ a(2)]) simp
      have "content b ! 4 = TargetNetworkUDP" "4 < length (content b)" unfolding t by (simp_all add: nth_append)
      then have "Byte 4 b = Some TargetNetworkUDP" "buf_Len b > 4" using Byte_nat [OF assms(1), of 4] assms(1) by simp_all
      then show ?thesis
        unfolding step using False Some b' a
        by (simp add: received_from_def mux_consts)
    qed
  qed
qed

lemma Unmarshal_from:
  assumes "concat r = PutUint16 (of_nat (length (meta_bytes f u))) @ meta_bytes f u @ rest" "frame_ok f u"
  shows "yields (Unmarshal f0 r) (received_from f0 f u) rest"
proof -
  let ?m = "meta_bytes f u" and ?l = "of_nat (length (meta_bytes f u)) :: u16"
  have len: "length ?m \<le> 272" using assms(2) by (rule meta_bytes_length)
  then have l: "unat ?l = length ?m" "\<not> 512 < ?l" by (simp_all add: unat_of_nat word_less_nat_alt)
  obtain r1 where r1: "ReadUint16 r = (Inr ?l, r1)" "concat r1 = ?m @ rest"
    using ReadUint16_PutUint16 [OF assms(1)] by blast
  obtain r2 where r2: "ReadFull (length ?m) r1 = (?m, None, r2)" "concat r2 = rest"
    using ReadFull_enough [of "length ?m" r1] r1(2) by auto
  have "length ?m \<le> room New" using len by (simp add: Size_def)
  then obtain b where b: "ReadFullFrom r1 (int (length ?m)) New = Some (length ?m, None, r2, b)" "buf_wf b" "content b = content New @ ?m"
    by (rule ReadFullFrom_spec [OF New_facts(1) _ r2(1)])
  have "uint ?l = int (length ?m)" using l(1) by (metis uint_nat)
  then have "Unmarshal f0 r = map_option (\<lambda>res. (res, r2)) (UnmarshalFromBuffer f0 b)"
    using r1(1) b(1) l(2) by (simp add: Unmarshal_def)
  then show ?thesis
    using UnmarshalFromBuffer_from [OF b(2) _ assms(2)] b(3) r2(2) by (simp add: yields_def)
qed

lemma received_meta_from: "received_from zero_FrameMetadata f u = received_meta f u"
  by (cases u) (simp_all add: received_from_def received_meta_def zero_FrameMetadata_def zero_Destination_def)

lemmas Unmarshal_ok = Unmarshal_from [where ?f0.0 = zero_FrameMetadata, unfolded received_meta_from]

text \<open>
  A frame survives the wire: what \<^verbatim>\<open>WriteTo\<close> puts into a new buffer (which may carry the
  UDP address of a packet) is read by \<^verbatim>\<open>Unmarshal\<close> as the same session, status and option,
  with the target of a new session, the packet's address of a kept one, and the global id where
  the reader asks for it; the data behind it is left.
\<close>

theorem frame_roundtrip:
  assumes "frame_ok f u"
  shows "\<exists>b. WriteTo f (New\<lparr>UDP := u\<rparr>) = Some (None, b) \<and>
     (\<forall>r rest. concat r = content b @ rest \<longrightarrow>
        (\<exists>r'. Unmarshal zero_FrameMetadata r = Some (Inr (received_meta f u), r') \<and> concat r' = rest))"
proof -
  obtain b where b: "WriteTo f (New\<lparr>UDP := u\<rparr>) = Some (None, b)"
    "content b = PutUint16 (of_nat (length (meta_bytes f u))) @ meta_bytes f u" by (rule WriteTo_ok [OF assms])
  have "\<exists>r'. Unmarshal zero_FrameMetadata r = Some (Inr (received_meta f u), r') \<and> concat r' = rest"
    if "concat r = content b @ rest" for r rest
    using Unmarshal_ok [OF _ assms, of r rest] that b(2) by (simp add: yields_def)
  then show ?thesis using b(1) by blast
qed

definition sample_frame :: FrameMetadata where
  "sample_frame = \<lparr>Target = UDPDestination (ipv4Address [8, 8, 8, 8]) 53, SessionID = 9, FOption = OptionData,
     FStatus = SessionStatusNew, GlobalID = [1, 2, 3, 4, 5, 6, 7, 8]\<rparr>"

theorem frame_roundtrip_witness:
  "\<exists>b r'. WriteTo sample_frame (New\<lparr>UDP := Some zero_Destination\<rparr>) = Some (None, b) \<and>
     Unmarshal zero_FrameMetadata [content b @ [7]] = Some (Inr sample_frame, r') \<and> concat r' = [7]"
proof -
  let ?u = "Some zero_Destination"
  have "frame_ok sample_frame ?u"
    by (simp add: frame_ok_def sample_frame_def dest_wire_def wire_addr_def UDPDestination_def)
  moreover have "received_meta sample_frame ?u = sample_frame"
    by (simp add: received_meta_def sample_frame_def mask_Has_def mux_consts UDPDestination_def)
  moreover have "concat [content b @ [7]] = content b @ [7]" for b by simp
  ultimately show ?thesis using frame_roundtrip [of sample_frame ?u] by metis
qed

section \<open>Writing chunks\<close>

definition udp_ok :: "buffer \<Rightarrow> bool" where
  "udp_ok b \<longleftrightarrow> (case UDP b of None \<Rightarrow> True | Some d \<Rightarrow> dest_wire d)"

definition packets_ok :: "MultiBuffer \<Rightarrow> bool" where
  "packets_ok mb \<longleftrightarrow> (\<forall>b\<in>set mb. buf_wf b \<and> length (content b) \<le> Size \<and> udp_ok b)"

lemma packets_ok_simps [simp]:
  "packets_ok []" "packets_ok (b # mb) \<longleftrightarrow> (buf_wf b \<and> length (content b) \<le> Size \<and> udp_ok b) \<and> packets_ok mb"
  "packets_ok (xs @ ys) \<longleftrightarrow> packets_ok xs \<and> packets_ok ys"
  by (auto simp: packets_ok_def)

lemma packets_ok_wf: "packets_ok mb \<Longrightarrow> mb_wf mb"
  by (simp add: packets_ok_def mb_wf_def list_all_iff)

text \<open>A cut makes progress and keeps the bytes in order.\<close>

definition chunk_step :: "MultiBuffer \<Rightarrow> MultiBuffer \<Rightarrow> MultiBuffer \<Rightarrow> bool" where
  "chunk_step mb rest chunk \<longleftrightarrow> packets_ok rest \<and> packets_ok chunk \<and> mb_content chunk @ mb_content rest = mb_content mb \<and>
     length (mb_content chunk) \<le> Size \<and>
     length (mb_content rest) + length rest < length (mb_content mb) + length mb"

lemma SplitSize_step:
  assumes "packets_ok mb" "mb \<noteq> []" "length (mb_content mb) < 2 ^ 31"
  shows "\<exists>rest chunk. SplitSize mb (8 * 1024) = Some (rest, chunk) \<and> chunk_step mb rest chunk"
proof -
  obtain b0 bs where mb: "mb = b0 # bs" using assms(2) by (cases mb) auto
  then have b0: "buf_wf b0" "length (content b0) \<le> Size" using assms(1) by simp_all
  obtain rest r where l: "split_size_loop 0 (8 * 1024) mb = (rest, r)" by force
  have "SplitSize mb (8 * 1024) = Some (rest, r)" using mb l b0 by (simp add: SplitSize_def Size_def)
  moreover have s: "mb = r @ rest" "int (length (mb_content r)) \<le> 8 * 1024"
    using split_size_loop_spec [OF packets_ok_wf [OF assms(1)] _ _ _ l] assms(3) by simp_all
  moreover have "r \<noteq> []"
    using l mb b0 i32_nat [of "length (content b0)"] by (auto simp: Size_def split: if_splits prod.splits)
  then have "length rest < length mb" using s(1) by simp
  moreover have "packets_ok r" "packets_ok rest" using assms(1) s(1) by simp_all
  ultimately show ?thesis by (auto simp: chunk_step_def Size_def)
qed

lemma next_chunk_step:
  assumes "packets_ok mb" "mb \<noteq> []" "length (mb_content mb) < 2 ^ 31"
  shows "\<exists>rest chunk. next_chunk tt mb = Some (rest, chunk) \<and> chunk_step mb rest chunk"
proof (cases tt)
  case TransferTypeStream
  then show ?thesis using SplitSize_step [OF assms] by (simp add: next_chunk_def)
next
  case TransferTypePacket
  obtain b bs where "mb = b # bs" using assms(2) by (cases mb) auto
  then show ?thesis using assms(1) TransferTypePacket by (auto simp: next_chunk_def SplitFirst_def chunk_step_def)
qed

text \<open>The units that go to the connection, one per call of the writer below.\<close>

definition mb_writer :: "MultiBuffer \<Rightarrow> byte list list \<Rightarrow> byte list list written" where
  "mb_writer mb out = Some (None, out @ [mb_content mb])"

type_synonym frame = "FrameMetadata \<times> Destination option \<times> byte list option"

definition frame_bytes :: "frame \<Rightarrow> byte list" where
  "frame_bytes fr = (case fr of (f, u, data) \<Rightarrow>
     PutUint16 (of_nat (length (meta_bytes f u))) @ meta_bytes f u @
     (case data of None \<Rightarrow> [] | Some d \<Rightarrow> PutUint16 (of_nat (length d)) @ d))"

definition wire_frame :: "frame \<Rightarrow> bool" where
  "wire_frame fr \<longleftrightarrow> (case fr of (f, u, data) \<Rightarrow> frame_ok f u \<and>
     (case data of None \<Rightarrow> \<not> mask_Has (FOption f) OptionData | Some d \<Rightarrow> mask_Has (FOption f) OptionData \<and> length d \<le> Size))"

definition frame_data :: "frame \<Rightarrow> byte list" where
  "frame_data fr = (case fr of (f, u, data) \<Rightarrow> case data of None \<Rightarrow> [] | Some d \<Rightarrow> d)"

definition writer_ok :: "Writer \<Rightarrow> bool" where
  "writer_ok w \<longleftrightarrow> length (globalID w) = 8 \<and> (followup w \<or>
     dest_wire (dest w) \<and> (DNetwork (dest w) = Network_TCP \<or> DNetwork (dest w) = Network_UDP))"

lemma writer_ok_followup [simp]: "writer_ok w \<Longrightarrow> writer_ok (w\<lparr>followup := True\<rparr>)"
  by (simp add: writer_ok_def)

lemma writeMetaWithFrame_ok:
  assumes "frame_ok meta (case data of [d] \<Rightarrow> UDP d | _ \<Rightarrow> None)" "mb_wf data" "length (mb_content data) \<le> Size"
  shows "writeMetaWithFrame mb_writer meta data out =
    Some (None, out @ [frame_bytes (meta, case data of [d] \<Rightarrow> UDP d | _ \<Rightarrow> None, Some (mb_content data))])"
proof -
  define u where "u = (case data of [d] \<Rightarrow> UDP d | _ \<Rightarrow> None)"
  have frame: "(case data of [d] \<Rightarrow> New\<lparr>UDP := UDP d\<rparr> | _ \<Rightarrow> New) = New\<lparr>UDP := u\<rparr>"
    by (auto simp: u_def New_def buf_New_def buf_of_def split: list.split)
  obtain b where b: "WriteTo meta (New\<lparr>UDP := u\<rparr>) = Some (None, b)" "buf_wf b"
    "content b = PutUint16 (of_nat (length (meta_bytes meta u))) @ meta_bytes meta u" "Size - 274 \<le> room b"
    by (rule WriteTo_ok [OF assms(1), folded u_def])
  have len: "mb_Len data = int (length (mb_content data))"
    using mb_Len_content [OF assms(2)] assms(3) by (simp add: Size_def)
  have "buf_wf b \<and> length (PutUint16 (of_int (mb_Len data))) + 0 \<le> room b" using b(2,4) by (simp add: Size_def)
  from buf_out.emits_wr [OF this] obtain b' where b': "buf_writer (PutUint16 (of_int (mb_Len data))) b = Some (None, b')"
    "content b' = content b @ PutUint16 (of_int (mb_Len data))" by (auto simp: buf_out.emits_def)
  then show ?thesis
    unfolding writeMetaWithFrame_def frame u_def [symmetric]
    using b(1,3) by (simp add: write_then_def mb_writer_def frame_bytes_def len)
qed

lemma mask_Set_Has: "mask_Has (mask_Set 0 OptionData) OptionData" "\<not> mask_Has 0 OptionData"
    "\<not> mask_Has (mask_Set 0 OptionError) OptionData"
  by (simp_all add: mask_Has_def mask_Set_def OptionData_def OptionError_def)

text \<open>The metadata of the next frame, and the frame of the next chunk.\<close>

definition next_meta :: "Writer \<Rightarrow> byte \<Rightarrow> FrameMetadata" where
  "next_meta w opt = \<lparr>Target = dest w, SessionID = wid w, FOption = opt,
     FStatus = (if followup w then SessionStatusKeep else SessionStatusNew), GlobalID = globalID w\<rparr>"

definition next_frame :: "Writer \<Rightarrow> MultiBuffer \<Rightarrow> frame" where
  "next_frame w chunk = (next_meta w (mask_Set 0 OptionData), case chunk of [d] \<Rightarrow> UDP d | _ \<Rightarrow> None, Some (mb_content chunk))"

lemma next_meta_ok:
  assumes "writer_ok w" "case u of None \<Rightarrow> True | Some d \<Rightarrow> dest_wire d"
  shows "frame_ok (next_meta w opt) u"
  using assms by (auto simp: frame_ok_def next_meta_def writer_ok_def mux_consts split: option.splits)

lemma writeData_ok:
  assumes "writer_ok w" "packets_ok chunk" "length (mb_content chunk) \<le> Size"
  shows "writeData mb_writer chunk (w, out) = Some (None, (w\<lparr>followup := True\<rparr>, out @ [frame_bytes (next_frame w chunk)]))"
    and "wire_frame (next_frame w chunk)"
proof -
  have "case (case chunk of [d] \<Rightarrow> UDP d | _ \<Rightarrow> None) of None \<Rightarrow> True | Some d \<Rightarrow> dest_wire d"
    using assms(2) by (auto simp: udp_ok_def split: list.split option.splits)
  then have ok: "frame_ok (next_meta w (mask_Set 0 OptionData)) (case chunk of [d] \<Rightarrow> UDP d | _ \<Rightarrow> None)"
    by (rule next_meta_ok [OF assms(1)])
  then show "wire_frame (next_frame w chunk)"
    using assms(3) mask_Set_Has by (simp add: wire_frame_def next_frame_def next_meta_def)
  show "writeData mb_writer chunk (w, out) = Some (None, (w\<lparr>followup := True\<rparr>, out @ [frame_bytes (next_frame w chunk)]))"
    using writeMetaWithFrame_ok [OF ok packets_ok_wf [OF assms(2)] assms(3), of out]
    by (simp add: writeData_def getNextFrameMeta_def next_frame_def next_meta_def)
qed

definition no_end :: "frame list \<Rightarrow> bool" where
  "no_end frs \<longleftrightarrow> list_all (\<lambda>fr. FStatus (fst fr) \<noteq> SessionStatusEnd) frs"

lemma no_end_simps [simp]: "no_end []" "no_end (fr # frs) \<longleftrightarrow> FStatus (fst fr) \<noteq> SessionStatusEnd \<and> no_end frs"
  by (simp_all add: no_end_def)

lemma next_meta_no_end [simp]: "FStatus (next_meta w opt) \<noteq> SessionStatusEnd" "FStatus (fst (next_frame w chunk)) \<noteq> SessionStatusEnd"
  by (simp_all add: next_frame_def next_meta_def mux_consts)

text \<open>
  What a writer adds to the connection: frames of its session, the first one of a new session
  carrying its target.
\<close>

fun statuses_ok :: "bool \<Rightarrow> SessionStatus list \<Rightarrow> bool" where
  "statuses_ok old [] \<longleftrightarrow> True"
| "statuses_ok old (s # ss) \<longleftrightarrow> s = (if old then SessionStatusKeep else SessionStatusNew) \<and> statuses_ok True ss"

lemma statuses_ok_append: "statuses_ok old (xs @ ys) \<longleftrightarrow> statuses_ok old xs \<and> statuses_ok (old \<or> xs \<noteq> []) ys"
  by (induction xs arbitrary: old) auto

definition live :: "FrameMetadata list \<Rightarrow> SessionStatus list" where
  "live ms = filter (\<lambda>s. s \<noteq> SessionStatusEnd) (map FStatus ms)"

lemma live_append [simp]: "live (xs @ ys) = live xs @ live ys"
  by (simp add: live_def)

definition emitted :: "Writer \<Rightarrow> frame list \<Rightarrow> byte list \<Rightarrow> Writer \<Rightarrow> bool" where
  "emitted w frs data w' \<longleftrightarrow> list_all wire_frame frs \<and> list_all (\<lambda>fr. SessionID (fst fr) = wid w \<and> Target (fst fr) = dest w \<or>
      SessionID (fst fr) = wid w \<and> FStatus (fst fr) = SessionStatusEnd) frs \<and>
     list_all (\<lambda>fr. GlobalID (fst fr) = globalID w \<or> GlobalID (fst fr) = replicate 8 0) frs \<and>
     concat (map frame_data frs) = data \<and> statuses_ok (followup w) (live (map fst frs)) \<and>
     writer_ok w' \<and> w' = w\<lparr>followup := followup w \<or> live (map fst frs) \<noteq> []\<rparr>"

lemma live_next [simp]: "live [next_meta w opt] = [if followup w then SessionStatusKeep else SessionStatusNew]"
  by (simp add: live_def next_meta_def mux_consts)

lemma emitted_next:
  assumes "writer_ok w" "wire_frame (next_meta w opt, u, d)"
  shows "emitted w [(next_meta w opt, u, d)] (frame_data (next_meta w opt, u, d)) (w\<lparr>followup := True\<rparr>)"
  using assms by (simp add: emitted_def next_meta_def [of w]) (simp add: live_def mux_consts)

lemma emitted_append:
  "emitted w xs d w1 \<Longrightarrow> emitted w1 ys e w2 \<Longrightarrow> emitted w (xs @ ys) (d @ e) w2"
  by (auto simp: emitted_def statuses_ok_append disj_assoc)

lemma write_chunks_ok:
  assumes "writer_ok w" "packets_ok mb" "length (mb_content mb) < 2 ^ 31"
  shows "\<exists>frs w'. write_chunks mb_writer mb (w, out) = Some (None, (w', out @ map frame_bytes frs)) \<and>
     emitted w frs (mb_content mb) w' \<and> (mb_content mb \<noteq> [] \<longrightarrow> frs \<noteq> []) \<and> no_end frs"
  using assms
proof (induction "length (mb_content mb) + length mb" arbitrary: mb w out rule: less_induct)
  case less
  note wf = packets_ok_wf [OF less.prems(2)]
  show ?case
  proof (cases "mb_content mb = []")
    case True
    then show ?thesis using wf less.prems(1)
      by (intro exI [of _ "[]"] exI [of _ w]) (simp add: write_chunks.simps [of mb_writer mb] emitted_def live_def)
  next
    case False
    then have "mb \<noteq> []" by auto
    then obtain rest chunk where c: "next_chunk (transferType w) mb = Some (rest, chunk)" "chunk_step mb rest chunk"
      using next_chunk_step less.prems(2,3) by blast
    then have s: "packets_ok rest" "packets_ok chunk" "length (mb_content chunk) \<le> Size"
      "mb_content chunk @ mb_content rest = mb_content mb"
      "length (mb_content rest) + length rest < length (mb_content mb) + length mb"
      by (simp_all add: chunk_step_def)
    note d = writeData_ok [OF less.prems(1) s(2,3)]
    let ?w = "w\<lparr>followup := True\<rparr>" and ?fr = "next_frame w chunk"
    have "length (mb_content rest) \<le> length (mb_content mb)" using s(4) by (metis le_add2 length_append)
    then have "length (mb_content rest) < 2 ^ 31" using less.prems(3) by linarith
    from less.hyps [OF s(5) writer_ok_followup [OF less.prems(1)] s(1) this, of "out @ [frame_bytes ?fr]"] obtain frs w' where
      f: "write_chunks mb_writer rest (?w, out @ [frame_bytes ?fr]) = Some (None, (w', (out @ [frame_bytes ?fr]) @ map frame_bytes frs))"
      "emitted ?w frs (mb_content rest) w'" "no_end frs" by blast
    have "emitted w [?fr] (mb_content chunk) ?w"
      using emitted_next [OF less.prems(1) d(2) [unfolded next_frame_def]] by (simp add: next_frame_def frame_data_def)
    from emitted_append [OF this f(2)] have "emitted w (?fr # frs) (mb_content mb) w'" using s(4) by simp
    moreover have "write_chunks mb_writer mb (w, out) = write_chunks mb_writer rest (?w, out @ [frame_bytes ?fr])"
      using False wf c(1) d(1) [of out] by (simp add: write_chunks.simps [of mb_writer mb])
    ultimately show ?thesis using f(1,3) by (intro exI [of _ "?fr # frs"] exI [of _ w']) simp
  qed
qed

lemma frame_meta_only:
  assumes "frame_ok f None"
  obtains b where "WriteTo f New = Some (None, b)" "buf_wf b" "content b = frame_bytes (f, None, None)"
proof -
  have "New\<lparr>UDP := None\<rparr> = New" by (simp add: New_def buf_New_def buf_of_def)
  then obtain b where "WriteTo f New = Some (None, b)" "buf_wf b"
    "content b = PutUint16 (of_nat (length (meta_bytes f None))) @ meta_bytes f None"
    using WriteTo_ok [OF assms] by metis
  then show thesis using that by (simp add: frame_bytes_def)
qed

lemma Writer_WriteMultiBuffer_ok:
  assumes "writer_ok w" "packets_ok mb" "length (mb_content mb) < 2 ^ 31"
  shows "\<exists>frs w'. Writer_WriteMultiBuffer mb_writer mb (w, out) = Some (None, (w', out @ map frame_bytes frs)) \<and>
     emitted w frs (mb_content mb) w' \<and> frs \<noteq> [] \<and> no_end frs"
proof (cases "mb_IsEmpty mb")
  case False
  then have "mb_content mb \<noteq> []" using packets_ok_wf [OF assms(2)] by simp
  then show ?thesis using False write_chunks_ok [OF assms] by (simp add: Writer_WriteMultiBuffer_def)
next
  case True
  then have e: "mb_content mb = []" using packets_ok_wf [OF assms(2)] by simp
  have ok: "frame_ok (next_meta w 0) None" by (rule next_meta_ok [OF assms(1)]) simp
  then obtain b where b: "WriteTo (next_meta w 0) New = Some (None, b)" "content b = frame_bytes (next_meta w 0, None, None)"
    by (rule frame_meta_only)
  have "wire_frame (next_meta w 0, None, None)" using ok mask_Set_Has by (simp add: wire_frame_def next_meta_def)
  from emitted_next [OF assms(1) this] have "emitted w [(next_meta w 0, None, None)] (mb_content mb) (w\<lparr>followup := True\<rparr>)"
    using e by (simp add: frame_data_def)
  moreover have "Writer_WriteMultiBuffer mb_writer mb (w, out) = Some (None, (w\<lparr>followup := True\<rparr>, out @ [content b]))"
    using True b(1) by (simp add: Writer_WriteMultiBuffer_def writeMetaOnly_def getNextFrameMeta_def next_meta_def mb_writer_def)
  ultimately show ?thesis using b(2) by (intro exI [of _ "[(next_meta w 0, None, None)]"] exI [of _ "w\<lparr>followup := True\<rparr>"]) simp
qed

lemma Writer_Close_ok:
  assumes "writer_ok w"
  shows "\<exists>fr. Writer_Close mb_writer w out = Some (out @ [frame_bytes fr]) \<and> emitted w [fr] [] w \<and> FStatus (fst fr) = SessionStatusEnd"
proof -
  let ?f = "zero_FrameMetadata\<lparr>SessionID := wid w, FStatus := SessionStatusEnd,
    FOption := (if hasError w then mask_Set 0 OptionError else 0)\<rparr>"
  have ok: "frame_ok ?f None" by (simp add: frame_ok_def zero_FrameMetadata_def mux_consts)
  then obtain b where b: "WriteTo ?f New = Some (None, b)" "content b = frame_bytes (?f, None, None)"
    by (rule frame_meta_only)
  then have "Writer_Close mb_writer w out = Some (out @ [frame_bytes (?f, None, None)])"
    by (simp add: Writer_Close_def must_then_def mb_writer_def)
  moreover have "emitted w [(?f, None, None)] [] w"
    using assms ok mask_Set_Has by (simp add: emitted_def zero_FrameMetadata_def wire_frame_def frame_data_def live_def)
  ultimately show ?thesis by (intro exI [of _ "(?f, None, None)"]) simp
qed

section \<open>Sessions that share a connection\<close>

text \<open>
  The far end takes frames from the connection: the metadata, and with \<^verbatim>\<open>OptionData\<close> the
  payload behind it. \<open>recv_all\<close> goes on until the first error.
\<close>

definition recv_frame :: "reader \<Rightarrow> (FrameMetadata \<times> MultiBuffer) received" where
  "recv_frame r =
     (case Unmarshal zero_FrameMetadata r of
        None \<Rightarrow> None
      | Some (Inl e, r1) \<Rightarrow> Some (Inl e, r1)
      | Some (Inr meta, r1) \<Rightarrow>
          if mask_Has (FOption meta) OptionData
          then (case PacketReader_ReadMultiBuffer (NewPacketReader (Some (Target meta))) r1 of
                  None \<Rightarrow> None
                | Some (Inl e, p, r2) \<Rightarrow> Some (Inl e, r2)
                | Some (Inr mb, p, r2) \<Rightarrow> Some (Inr (meta, mb), r2))
          else Some (Inr (meta, []), r1))"

partial_function (option) recv_all :: "reader \<Rightarrow> (go_error \<times> (FrameMetadata \<times> MultiBuffer) list) option" where
  "recv_all r = Option.bind (recv_frame r) (\<lambda>(res, r').
     case res of
       Inl e \<Rightarrow> Some (e, [])
     | Inr x \<Rightarrow> Option.bind (recv_all r') (\<lambda>(e, xs). Some (e, x # xs)))"

definition received_as :: "frame \<Rightarrow> FrameMetadata \<times> MultiBuffer \<Rightarrow> bool" where
  "received_as fr x \<longleftrightarrow> fst x = received_meta (fst fr) (fst (snd fr)) \<and> mb_wf (snd x) \<and> mb_content (snd x) = frame_data fr"

lemma PacketReader_ok:
  assumes "concat r = PutUint16 (of_nat (length d)) @ d @ rest" "length d \<le> Size"
  obtains mb p r' where "PacketReader_ReadMultiBuffer (NewPacketReader t) r = Some (Inr mb, p, r')" "mb_wf mb"
    "mb_content mb = d" "concat r' = rest"
proof -
  have u: "unat (of_nat (length d) :: u16) = length d" using assms(2) by (simp add: unat_of_nat Size_def)
  obtain r1 where r1: "ReadUint16 r = (Inr (of_nat (length d)), r1)" "concat r1 = d @ rest"
    using ReadUint16_PutUint16 [OF assms(1)] by blast
  obtain r2 where r2: "ReadFull (length d) r1 = (d, None, r2)" "concat r2 = rest"
    using ReadFull_enough [of "length d" r1] r1(2) by auto
  have "length d \<le> room New" using assms(2) by (simp add: Size_def)
  then obtain b where b: "ReadFullFrom r1 (int (length d)) New = Some (length d, None, r2, b)" "buf_wf b" "content b = content New @ d"
    by (rule ReadFullFrom_spec [OF New_facts(1) _ r2(1)])
  have "uint (of_nat (length d) :: u16) = int (length d)" using u by (metis uint_nat)
  moreover have "buf_wf (b\<lparr>UDP := x\<rparr>)" "content (b\<lparr>UDP := x\<rparr>) = d" for x
    using b(2,3) New_facts by (simp_all add: buf_wf_def content_def)
  ultimately show thesis
    using that [OF _ _ _ r2(2)] r1(1) b u assms(2)
    by (auto simp: PacketReader_ReadMultiBuffer_def NewPacketReader_def Let_def mb_wf_def mb_content_def split: option.split)
qed

lemma recv_frame_ok:
  assumes "wire_frame fr" "concat r = frame_bytes fr @ rest"
  obtains x r' where "recv_frame r = Some (Inr x, r')" "received_as fr x" "concat r' = rest"
proof -
  obtain f u d where fr: "fr = (f, u, d)" by (cases fr)
  let ?rest = "(case d of None \<Rightarrow> [] | Some x \<Rightarrow> PutUint16 (of_nat (length x)) @ x) @ rest"
  have ok: "frame_ok f u" using assms(1) fr by (simp add: wire_frame_def)
  have "concat r = PutUint16 (of_nat (length (meta_bytes f u))) @ meta_bytes f u @ ?rest"
    using assms(2) fr by (simp add: frame_bytes_def)
  then obtain r1 where r1: "Unmarshal zero_FrameMetadata r = Some (Inr (received_meta f u), r1)" "concat r1 = ?rest"
    using Unmarshal_ok [OF _ ok] by (auto simp: yields_def)
  have opt: "FOption (received_meta f u) = FOption f" by (simp add: received_meta_def)
  show thesis
  proof (cases d)
    case None
    then show thesis using that [of "(received_meta f u, [])" r1] r1 opt assms(1) fr
      by (simp add: recv_frame_def received_as_def wire_frame_def frame_data_def mb_wf_def mb_content_def)
  next
    case (Some x)
    then have "concat r1 = PutUint16 (of_nat (length x)) @ x @ rest" "length x \<le> Size"
      using r1(2) assms(1) fr by (simp_all add: wire_frame_def)
    then obtain mb p r2 where
      "PacketReader_ReadMultiBuffer (NewPacketReader (Some (Target (received_meta f u)))) r1 = Some (Inr mb, p, r2)" "mb_wf mb"
      "mb_content mb = x" "concat r2 = rest" by (rule PacketReader_ok)
    then show thesis using that [of "(received_meta f u, mb)" r2] r1 opt assms(1) fr Some
      by (simp add: recv_frame_def received_as_def wire_frame_def frame_data_def)
  qed
qed

lemma ReadUint16_end: "concat r = [] \<Longrightarrow> \<exists>r'. ReadUint16 r = (Inl EOF, r')"
  using ReadFull_short [of r 2] by (auto simp del: concat_eq_Nil_conv simp: ReadUint16_def)

lemma recv_all_ok:
  "list_all wire_frame frs \<Longrightarrow> concat r = concat (map frame_bytes frs) \<Longrightarrow>
   \<exists>xs. recv_all r = Some (EOF, xs) \<and> list_all2 received_as frs xs"
proof (induction frs arbitrary: r)
  case Nil
  then obtain r' where "ReadUint16 r = (Inl EOF, r')" using ReadUint16_end by auto
  then show ?case by (simp add: recv_all.simps [of r] recv_frame_def Unmarshal_def)
next
  case (Cons fr frs)
  have fr: "wire_frame fr" "concat r = frame_bytes fr @ concat (map frame_bytes frs)" using Cons.prems by simp_all
  obtain x r' where x: "recv_frame r = Some (Inr x, r')" "received_as fr x" "concat r' = concat (map frame_bytes frs)"
    by (rule recv_frame_ok [OF fr])
  then obtain xs where "recv_all r' = Some (EOF, xs)" "list_all2 received_as frs xs" using Cons by auto
  then show ?case using x by (simp add: recv_all.simps [of r])
qed

text \<open>
  Many writers on one connection, indexed by their session ids: any sequence of writes and closes
  of the sessions.
\<close>

datatype mux_op = MWrite u16 MultiBuffer | MClose u16

fun mux_run :: "mux_op list \<Rightarrow> (u16 \<Rightarrow> Writer) \<times> byte list list \<Rightarrow> ((u16 \<Rightarrow> Writer) \<times> byte list list) written" where
  "mux_run [] s = Some (None, s)"
| "mux_run (MWrite i mb # ops) (ws, out) =
     (case Writer_WriteMultiBuffer mb_writer mb (ws i, out) of
        None \<Rightarrow> None
      | Some (Some e, (w, out')) \<Rightarrow> Some (Some e, (ws(i := w), out'))
      | Some (None, (w, out')) \<Rightarrow> mux_run ops (ws(i := w), out'))"
| "mux_run (MClose i # ops) (ws, out) =
     (case Writer_Close mb_writer (ws i) out of None \<Rightarrow> None | Some out' \<Rightarrow> mux_run ops (ws, out'))"

definition mux_op_ok :: "(u16 \<Rightarrow> Writer) \<Rightarrow> mux_op \<Rightarrow> bool" where
  "mux_op_ok ws op \<longleftrightarrow> (case op of
     MWrite i mb \<Rightarrow> writer_ok (ws i) \<and> packets_ok mb \<and> length (mb_content mb) < 2 ^ 31
   | MClose i \<Rightarrow> writer_ok (ws i))"

fun op_data :: "u16 \<Rightarrow> mux_op \<Rightarrow> byte list" where
  "op_data k (MWrite i mb) = (if i = k then mb_content mb else [])"
| "op_data k (MClose i) = []"

text \<open>
  What the far end gets of a session, whose writer was \<open>w\<close> at the start: its data in order, a
  first frame that opens it at its target when the writer is a new one, and later frames that
  keep it.
\<close>

definition session_received :: "Writer \<Rightarrow> byte list \<Rightarrow> (FrameMetadata \<times> byte list) list \<Rightarrow> bool" where
  "session_received w data xs \<longleftrightarrow> concat (map snd xs) = data \<and> statuses_ok (followup w) (live (map fst xs)) \<and>
     list_all (\<lambda>x. FStatus (fst x) = SessionStatusNew \<longrightarrow> Target (fst x) = dest w) xs"

lemma session_received_Nil [simp]: "session_received w [] []"
  by (simp add: session_received_def live_def)

text \<open>The frame as it is delivered.\<close>

definition delivered :: "frame \<Rightarrow> FrameMetadata \<times> byte list" where
  "delivered fr = (received_meta (fst fr) (fst (snd fr)), frame_data fr)"

definition of_session :: "u16 \<Rightarrow> (FrameMetadata \<times> 'd) list \<Rightarrow> (FrameMetadata \<times> 'd) list" where
  "of_session k xs = filter (\<lambda>x. SessionID (fst x) = k) xs"

lemma of_session_append [simp]: "of_session k (xs @ ys) = of_session k xs @ of_session k ys" "of_session k [] = []"
  by (simp_all add: of_session_def)

lemma received_meta_sel [simp]: "SessionID (received_meta f u) = SessionID f" "FStatus (received_meta f u) = FStatus f"
    "FStatus f = SessionStatusNew \<Longrightarrow> Target (received_meta f u) = Target f"
  by (simp_all add: received_meta_def)

lemma of_session_emitted:
  assumes "emitted w frs d w'"
  shows "of_session k (map delivered frs) = (if wid w = k then map delivered frs else [])"
proof -
  have "\<forall>fr\<in>set frs. SessionID (fst (delivered fr)) = wid w"
    using assms by (auto simp: emitted_def list_all_iff delivered_def)
  then show ?thesis by (auto simp: of_session_def filter_empty_conv intro!: filter_True)
qed

lemma live_delivered [simp]: "live (map (fst \<circ> delivered) frs) = live (map fst frs)"
  by (simp add: live_def delivered_def comp_def)

lemma session_received_emitted:
  assumes "emitted w frs d w'" "session_received w' e xs"
  shows "session_received w (d @ e) (map delivered frs @ xs)"
  using assms by (auto simp: session_received_def emitted_def statuses_ok_append list_all_iff delivered_def mux_consts comp_def live_def)

lemma mux_run_ok:
  assumes "list_all (mux_op_ok ws) ops" "\<forall>i. wid (ws i) = i"
  shows "\<exists>ws' frs. mux_run ops (ws, out) = Some (None, (ws', out @ map frame_bytes frs)) \<and> list_all wire_frame frs \<and>
     (\<forall>k. session_received (ws k) (concat (map (op_data k) ops)) (of_session k (map delivered frs)))"
  using assms
proof (induction ops arbitrary: ws out)
  case Nil
  then show ?case by (intro exI [of _ ws] exI [of _ "[]"]) simp
next
  case (Cons op ops)
  have step: ?case if e: "emitted (ws i) frs d w'" "mux_run (op # ops) (ws, out) = mux_run ops (ws(i := w'), out @ map frame_bytes frs)"
    "\<And>k. op_data k op = (if i = k then d else [])" for i frs d w'
  proof -
    let ?ws = "ws(i := w')"
    have w': "wid w' = i" "writer_ok w'" using e(1) Cons.prems(2) by (auto simp: emitted_def)
    have "list_all (mux_op_ok ?ws) ops" using Cons.prems(1) w' by (auto simp: mux_op_ok_def list_all_iff split: mux_op.splits)
    moreover have "\<forall>k. wid (?ws k) = k" using Cons.prems(2) w'(1) by simp
    ultimately obtain ws' frs' where r: "mux_run ops (?ws, out @ map frame_bytes frs) =
        Some (None, (ws', (out @ map frame_bytes frs) @ map frame_bytes frs'))" "list_all wire_frame frs'"
      "\<forall>k. session_received (?ws k) (concat (map (op_data k) ops)) (of_session k (map delivered frs'))"
      using Cons.IH [of ?ws "out @ map frame_bytes frs"] by blast
    have "session_received (ws k) (concat (map (op_data k) (op # ops))) (of_session k (map delivered (frs @ frs')))" for k
      using session_received_emitted [OF e(1), of "concat (map (op_data i) ops)" "of_session i (map delivered frs')"]
        r(3) [rule_format, of k] of_session_emitted [OF e(1), of k] e(3) [of k] Cons.prems(2)
      by (cases "k = i") auto
    moreover have "list_all wire_frame frs" using e(1) by (simp add: emitted_def)
    ultimately show ?case using e(2) r(1,2) by (intro exI [of _ ws'] exI [of _ "frs @ frs'"]) simp
  qed
  show ?case
  proof (cases op)
    case (MWrite i mb)
    then have ok: "writer_ok (ws i)" "packets_ok mb" "length (mb_content mb) < 2 ^ 31"
      using Cons.prems(1) by (simp_all add: mux_op_ok_def)
    obtain frs w' where "Writer_WriteMultiBuffer mb_writer mb (ws i, out) = Some (None, (w', out @ map frame_bytes frs))"
      "emitted (ws i) frs (mb_content mb) w'" using Writer_WriteMultiBuffer_ok [OF ok] by blast
    then show ?thesis using MWrite by (intro step [of i frs "mb_content mb" w']) auto
  next
    case (MClose i)
    then have "writer_ok (ws i)" using Cons.prems(1) by (simp add: mux_op_ok_def)
    then obtain fr where "Writer_Close mb_writer (ws i) out = Some (out @ [frame_bytes fr])" "emitted (ws i) [fr] [] (ws i)"
      using Writer_Close_ok by blast
    then show ?thesis using MClose by (intro step [of i "[fr]" "[]" "ws i"]) auto
  qed
qed

lemma received_as_delivered: "list_all2 received_as frs xs \<Longrightarrow> map (map_prod id mb_content) xs = map delivered frs"
  by (induction rule: list_all2_induct) (auto simp: received_as_def delivered_def map_prod_def)

text \<open>
  C3: sessions that share a connection do not disturb each other: whatever writes and closes the
  sessions' writers make in whatever order, and however the connection cuts the bytes, the far
  end reads frames until the end of the connection without any other error, and of every session
  it gets exactly the written data in order, behind a first frame that opens the session at the
  writer's destination.
\<close>

theorem mux_sessions:
  assumes "list_all (mux_op_ok ws) ops" "\<forall>i. wid (ws i) = i"
  shows "\<exists>ws' out. mux_run ops (ws, []) = Some (None, (ws', out)) \<and>
     (\<forall>r. concat r = concat out \<longrightarrow> (\<exists>xs. recv_all r = Some (EOF, xs) \<and>
        (\<forall>k. session_received (ws k) (concat (map (op_data k) ops)) (of_session k (map (map_prod id mb_content) xs)))))"
proof -
  obtain ws' frs where r: "mux_run ops (ws, []) = Some (None, (ws', [] @ map frame_bytes frs))" "list_all wire_frame frs"
    "\<forall>k. session_received (ws k) (concat (map (op_data k) ops)) (of_session k (map delivered frs))"
    using mux_run_ok [OF assms, of "[]"] by blast
  have "\<exists>xs. recv_all r = Some (EOF, xs) \<and> map (map_prod id mb_content) xs = map delivered frs"
    if "concat r = concat (map frame_bytes frs)" for r
    using recv_all_ok [OF r(2) that] received_as_delivered by blast
  then have "\<forall>r. concat r = concat (map frame_bytes frs) \<longrightarrow> (\<exists>xs. recv_all r = Some (EOF, xs) \<and>
        (\<forall>k. session_received (ws k) (concat (map (op_data k) ops)) (of_session k (map (map_prod id mb_content) xs))))"
    using r(3) by metis
  then show ?thesis using r(1) by (intro exI [of _ ws'] exI [of _ "map frame_bytes frs"]) simp
qed

definition sample_writers :: "u16 \<Rightarrow> Writer" where
  "sample_writers i = NewWriter i (TCPDestination (ipv4Address [8, 8, 8, 8]) 53) TransferTypeStream (replicate 8 0)"

definition sample_ops :: "mux_op list" where
  "sample_ops = [MWrite 1 [FromBytes [10, 11]], MWrite 2 [FromBytes [20]], MWrite 1 [], MClose 2, MWrite 1 [FromBytes [12]], MClose 1]"

theorem mux_sessions_witness:
  "\<exists>ws' out xs. mux_run sample_ops (sample_writers, []) = Some (None, (ws', out)) \<and>
     recv_all [concat out] = Some (EOF, xs) \<and>
     session_received (sample_writers 1) [10, 11, 12] (of_session 1 (map (map_prod id mb_content) xs)) \<and>
     session_received (sample_writers 2) [20] (of_session 2 (map (map_prod id mb_content) xs))"
proof -
  have fb: "buf_wf (FromBytes bs)" "content (FromBytes bs) = bs" "UDP (FromBytes bs) = None" if "length bs < 3" for bs
    using that by (simp_all add: FromBytes_def buf_wf_def content_def buf_of_def range_of_def)
  have data: "concat (map (op_data 1) sample_ops) = [10, 11, 12]" "concat (map (op_data 2) sample_ops) = [20]"
    by (simp_all add: sample_ops_def mb_content_def fb)
  have "list_all (mux_op_ok sample_writers) sample_ops"
    by (simp add: sample_ops_def mux_op_ok_def sample_writers_def NewWriter_def writer_ok_def dest_wire_def TCPDestination_def
      wire_addr_def packets_ok_def udp_ok_def fb mb_content_def Size_def)
  moreover have "\<forall>i. wid (sample_writers i) = i" by (simp add: sample_writers_def NewWriter_def)
  ultimately obtain ws' out where o: "mux_run sample_ops (sample_writers, []) = Some (None, (ws', out))"
    "\<forall>r. concat r = concat out \<longrightarrow> (\<exists>xs. recv_all r = Some (EOF, xs) \<and>
        (\<forall>k. session_received (sample_writers k) (concat (map (op_data k) sample_ops)) (of_session k (map (map_prod id mb_content) xs))))"
    using mux_sessions [of sample_writers sample_ops] by metis
  have "concat [concat out] = concat out" by simp
  then obtain xs where "recv_all [concat out] = Some (EOF, xs)"
    "\<forall>k. session_received (sample_writers k) (concat (map (op_data k) sample_ops)) (of_session k (map (map_prod id mb_content) xs))"
    using o(2) by metis
  then show ?thesis using o(1) data by metis
qed

end
