(* ===== verification/Validator.thy ===== *)
theory Validator
  imports Prelude Go_Std "HOL-Library.AList"
begin

text \<open>
  The user tables: \<^verbatim>\<open>proxy/vless/validator.go\<close> and \<^verbatim>\<open>proxy/trojan/validator.go\<close>, which are the
  same code over different keys, with the account types they store. A \<^verbatim>\<open>sync.Map\<close> is an
  association list with distinct keys, whose order is the order of \<^verbatim>\<open>Range\<close>.
  \<^verbatim>\<open>strings.ToLower\<close> depends on the Unicode tables and is the argument \<open>lower\<close>; nothing is
  assumed of it.
\<close>

section \<open>Users and accounts\<close>

record 'a MemoryUser =
  Account :: 'a
  Email :: "byte list"
  Level :: u32

record ID =
  uuid :: "byte list"
  cmdKey :: "byte list"

definition ID_Equals :: "ID \<Rightarrow> ID \<Rightarrow> bool" where
  "ID_Equals i j \<longleftrightarrow> uuid i = uuid j"

text \<open>\<open>md5\<close> is the hash of \<^verbatim>\<open>crypto/md5\<close>; the salt is the constant of \<^verbatim>\<open>NewID\<close>.\<close>

definition NewID :: "(byte list \<Rightarrow> byte list) \<Rightarrow> byte list \<Rightarrow> ID" where
  "NewID md5 u = \<lparr>uuid = u, cmdKey = take 16 (md5 (u @ bytes_of ''c48619fe-8f02-49e0-b9e9-edf763e17e21''))\<rparr>"

record VlessAccount =
  AccountID :: ID
  Flow :: "byte list"
  Encryption :: "byte list"

definition VlessAccount_Equals :: "VlessAccount \<Rightarrow> VlessAccount \<Rightarrow> bool" where
  "VlessAccount_Equals a b = ID_Equals (AccountID a) (AccountID b)"

record TrojanAccount =
  Password :: "byte list"
  Key :: "byte list"

definition TrojanAccount_Equals :: "TrojanAccount \<Rightarrow> TrojanAccount \<Rightarrow> bool" where
  "TrojanAccount_Equals a b \<longleftrightarrow> Password a = Password b"

definition hex_digit :: "nat \<Rightarrow> byte" where
  "hex_digit n = of_nat (if n < 10 then 48 + n else 87 + n)"

definition hex_byte :: "byte \<Rightarrow> byte list" where
  "hex_byte v = [hex_digit (unat v div 16), hex_digit (unat v mod 16)]"

definition hexString :: "byte list \<Rightarrow> byte list" where
  "hexString data = concat (map hex_byte data)"

text \<open>\<open>sha224\<close> is the hash of \<^verbatim>\<open>sha256.New224\<close>, 28 bytes; \<^verbatim>\<open>hex.Encode\<close> fills 56.\<close>

definition hexSha224 :: "(byte list \<Rightarrow> byte list) \<Rightarrow> byte list \<Rightarrow> byte list" where
  "hexSha224 sha224 password = hexString (sha224 password)"

definition TrojanAccount_AsAccount :: "(byte list \<Rightarrow> byte list) \<Rightarrow> byte list \<Rightarrow> TrojanAccount" where
  "TrojanAccount_AsAccount sha224 password = \<lparr>Password = password, Key = hexSha224 sha224 password\<rparr>"

section \<open>The table\<close>

record ('k, 'a) Validator =
  vemail :: "(byte list \<times> 'a MemoryUser) list"
  vusers :: "('k \<times> 'a MemoryUser) list"

definition NewValidator :: "('k, 'a) Validator" where
  "NewValidator = \<lparr>vemail = [], vusers = []\<rparr>"

definition LoadOrStore :: "'k \<Rightarrow> 'v \<Rightarrow> ('k \<times> 'v) list \<Rightarrow> ('v \<times> bool) \<times> ('k \<times> 'v) list" where
  "LoadOrStore k x m = (case map_of m k of Some y \<Rightarrow> ((y, True), m) | None \<Rightarrow> ((x, False), AList.update k x m))"

text \<open>\<open>key\<close> is the key of a user in the second map.\<close>

definition Validator_Add ::
  "(byte list \<Rightarrow> byte list) \<Rightarrow> ('a MemoryUser \<Rightarrow> 'k) \<Rightarrow> 'a MemoryUser \<Rightarrow> ('k, 'a) Validator \<Rightarrow> go_error option \<times> ('k, 'a) Validator" where
  "Validator_Add lower key u v =
     (let (loaded, emails) = (if Email u \<noteq> [] then case LoadOrStore (lower (Email u)) u (vemail v) of ((_, l), m) \<Rightarrow> (l, m)
                              else (False, vemail v))
      in if loaded then (Some (ErrNew ''User already exists.''), v\<lparr>vemail := emails\<rparr>)
         else (None, v\<lparr>vemail := emails, vusers := AList.update (key u) u (vusers v)\<rparr>))"

definition Validator_Del ::
  "(byte list \<Rightarrow> byte list) \<Rightarrow> ('a MemoryUser \<Rightarrow> 'k) \<Rightarrow> byte list \<Rightarrow> ('k, 'a) Validator \<Rightarrow> go_error option \<times> ('k, 'a) Validator" where
  "Validator_Del lower key e v =
     (if e = [] then (Some (ErrNew ''Email must not be empty.''), v)
      else let le = lower e
           in case map_of (vemail v) le of
                None \<Rightarrow> (Some (ErrNew ''User not found.''), v)
              | Some u \<Rightarrow> (None, v\<lparr>vemail := AList.delete le (vemail v), vusers := AList.delete (key u) (vusers v)\<rparr>))"

definition Validator_Get :: "'k \<Rightarrow> ('k, 'a) Validator \<Rightarrow> 'a MemoryUser option" where
  "Validator_Get k v = map_of (vusers v) k"

definition GetByEmail :: "byte list \<Rightarrow> ('k, 'a) Validator \<Rightarrow> 'a MemoryUser option" where
  "GetByEmail e v = map_of (vemail v) e"

definition GetAll :: "('k, 'a) Validator \<Rightarrow> 'a MemoryUser list" where
  "GetAll v = map snd (vemail v)"

definition GetCount :: "('k, 'a) Validator \<Rightarrow> nat" where
  "GetCount v = length (vemail v)"

text \<open>The keys of the two protocols.\<close>

definition vless_key :: "VlessAccount MemoryUser \<Rightarrow> byte list" where
  "vless_key u = uuid (AccountID (Account u))"

definition trojan_key :: "TrojanAccount MemoryUser \<Rightarrow> byte list" where
  "trojan_key u = hexString (Key (Account u))"

section \<open>A list of users as the specification\<close>

definition same_email :: "(byte list \<Rightarrow> byte list) \<Rightarrow> byte list \<Rightarrow> 'a MemoryUser \<Rightarrow> bool" where
  "same_email lower e u \<longleftrightarrow> Email u \<noteq> [] \<and> lower (Email u) = lower e"

datatype 'a user_op = AddUser "'a MemoryUser" | DelUser "byte list"

fun spec_step :: "(byte list \<Rightarrow> byte list) \<Rightarrow> 'a user_op \<Rightarrow> 'a MemoryUser list \<Rightarrow> bool \<times> 'a MemoryUser list" where
  "spec_step lower (AddUser u) us =
     (if Email u \<noteq> [] \<and> list_ex (same_email lower (Email u)) us then (False, us) else (True, List.insert u us))"
| "spec_step lower (DelUser e) us =
     (if e \<noteq> [] \<and> list_ex (same_email lower e) us then (True, filter (\<lambda>u. \<not> same_email lower e u) us) else (False, us))"

fun table_step :: "(byte list \<Rightarrow> byte list) \<Rightarrow> ('a MemoryUser \<Rightarrow> 'k) \<Rightarrow> 'a user_op \<Rightarrow> ('k, 'a) Validator \<Rightarrow> bool \<times> ('k, 'a) Validator" where
  "table_step lower key (AddUser u) v = map_prod (\<lambda>e. e = None) id (Validator_Add lower key u v)"
| "table_step lower key (DelUser e) v = map_prod (\<lambda>e. e = None) id (Validator_Del lower key e v)"

primrec run_steps :: "('o \<Rightarrow> 's \<Rightarrow> bool \<times> 's) \<Rightarrow> 'o list \<Rightarrow> 's \<Rightarrow> bool list \<times> 's" where
  "run_steps f [] s = ([], s)"
| "run_steps f (p # ps) s = (case f p s of (r, s') \<Rightarrow> case run_steps f ps s' of (rs, s'') \<Rightarrow> (r # rs, s''))"

definition table_rel :: "(byte list \<Rightarrow> byte list) \<Rightarrow> ('a MemoryUser \<Rightarrow> 'k) \<Rightarrow> ('k, 'a) Validator \<Rightarrow> 'a MemoryUser list \<Rightarrow> bool" where
  "table_rel lower key v us \<longleftrightarrow> distinct us \<and> distinct (map fst (vemail v)) \<and>
     (\<forall>e u. map_of (vemail v) e = Some u \<longleftrightarrow> u \<in> set us \<and> Email u \<noteq> [] \<and> lower (Email u) = e) \<and>
     (\<forall>k u. map_of (vusers v) k = Some u \<longleftrightarrow> u \<in> set us \<and> key u = k)"

lemma table_rel_emails:
  assumes "table_rel lower key v us"
  shows "map_of (vemail v) (lower e) = None \<longleftrightarrow> \<not> list_ex (same_email lower e) us"
proof -
  have "map_of (vemail v) (lower e) = Some u \<longleftrightarrow> u \<in> set us \<and> same_email lower e u" for u
    using assms by (simp add: table_rel_def same_email_def)
  then show ?thesis unfolding list_ex_iff by (metis not_None_eq)
qed

lemma Add_sim:
  assumes "table_rel lower key v us" "inj_on key (insert u (set us))"
  shows "\<exists>r v' us'. table_step lower key (AddUser u) v = (r, v') \<and> spec_step lower (AddUser u) us = (r, us') \<and>
    table_rel lower key v' us' \<and> set us' \<subseteq> insert u (set us)"
proof (cases "Email u \<noteq> [] \<and> list_ex (same_email lower (Email u)) us")
  case True
  then obtain w where "map_of (vemail v) (lower (Email u)) = Some w" using table_rel_emails [OF assms(1)] by fastforce
  then show ?thesis using True assms(1) by (auto simp: Validator_Add_def LoadOrStore_def)
next
  case False
  let ?em = "if Email u = [] then vemail v else AList.update (lower (Email u)) u (vemail v)"
  let ?v = "v\<lparr>vemail := ?em, vusers := AList.update (key u) u (vusers v)\<rparr>"
  have none: "Email u \<noteq> [] \<Longrightarrow> map_of (vemail v) (lower (Email u)) = None"
    using False table_rel_emails [OF assms(1)] by blast
  then have v: "Validator_Add lower key u v = (None, ?v)" by (auto simp: Validator_Add_def LoadOrStore_def)
  have inj: "key w = key u \<Longrightarrow> w \<in> set us \<Longrightarrow> w = u" for w using assms(2) by (auto simp: inj_on_def)
  note rel = assms(1) [unfolded table_rel_def]
  have "map_of (vusers ?v) k = Some w \<longleftrightarrow> w \<in> set (List.insert u us) \<and> key w = k" for k w
    using rel inj by (auto simp: update_conv')
  moreover have "map_of (vemail ?v) e = Some w \<longleftrightarrow> w \<in> set (List.insert u us) \<and> Email w \<noteq> [] \<and> lower (Email w) = e" for e w
    using rel none by (auto simp: update_conv')
  moreover have "distinct (map fst (vemail ?v))" using rel by (simp add: distinct_update)
  ultimately have "table_rel lower key ?v (List.insert u us)" using rel by (auto simp: table_rel_def)
  then show ?thesis using v False by auto
qed

lemma Del_sim:
  assumes "table_rel lower key v us" "inj_on key (set us)"
  shows "\<exists>r v' us'. table_step lower key (DelUser e) v = (r, v') \<and> spec_step lower (DelUser e) us = (r, us') \<and>
    table_rel lower key v' us' \<and> set us' \<subseteq> set us"
proof (cases "e \<noteq> [] \<and> list_ex (same_email lower e) us")
  case False
  then have "e = [] \<or> map_of (vemail v) (lower e) = None" using table_rel_emails [OF assms(1), of e] by auto
  then show ?thesis using False assms(1) by (auto simp: Validator_Del_def)
next
  case True
  then obtain u where u: "map_of (vemail v) (lower e) = Some u" using table_rel_emails [OF assms(1)] by fastforce
  let ?v = "v\<lparr>vemail := AList.delete (lower e) (vemail v), vusers := AList.delete (key u) (vusers v)\<rparr>"
  let ?us = "filter (\<lambda>u. \<not> same_email lower e u) us"
  note rel = assms(1) [unfolded table_rel_def]
  have iff: "map_of (vemail v) (lower e) = Some w \<longleftrightarrow> w \<in> set us \<and> same_email lower e w" for w
    using rel by (auto simp: same_email_def)
  have in_us: "u \<in> set us" "same_email lower e u" using iff [of u] u by simp_all
  have only: "same_email lower e w \<longleftrightarrow> w = u" if "w \<in> set us" for w using iff [of w] u in_us that by auto
  have "map_of (vusers ?v) k = Some w \<longleftrightarrow> w \<in> set ?us \<and> key w = k" for k w
    using rel only in_us assms(2) by (auto simp: delete_conv' inj_on_def)
  moreover have "map_of (vemail ?v) x = Some w \<longleftrightarrow> w \<in> set ?us \<and> Email w \<noteq> [] \<and> lower (Email w) = x" for x w
    using rel by (auto simp: delete_conv' same_email_def)
  moreover have "distinct (map fst (vemail ?v))" using rel by (simp add: distinct_delete)
  ultimately have "table_rel lower key ?v ?us" using rel by (auto simp: table_rel_def)
  then show ?thesis using u True by (auto simp: Validator_Del_def Let_def)
qed

fun op_users :: "'a user_op \<Rightarrow> 'a MemoryUser set" where
  "op_users (AddUser u) = {u}"
| "op_users (DelUser e) = {}"

lemma table_steps_sim:
  assumes "table_rel lower key v us" "inj_on key (set us \<union> \<Union> (set (map op_users ops)))"
  shows "\<exists>rs v' us'. run_steps (table_step lower key) ops v = (rs, v') \<and> run_steps (spec_step lower) ops us = (rs, us') \<and>
    table_rel lower key v' us'"
  using assms
proof (induction ops arbitrary: v us)
  case (Cons p ps)
  have "\<exists>r v' us'. table_step lower key p v = (r, v') \<and> spec_step lower p us = (r, us') \<and> table_rel lower key v' us' \<and>
      set us' \<subseteq> set us \<union> op_users p"
  proof (cases p)
    case (AddUser u)
    have "inj_on key (insert u (set us))" by (rule inj_on_subset [OF Cons.prems(2)]) (auto simp: AddUser)
    from Add_sim [OF Cons.prems(1) this] AddUser show ?thesis by auto
  next
    case (DelUser e)
    have "inj_on key (set us)" by (rule inj_on_subset [OF Cons.prems(2)]) auto
    from Del_sim [OF Cons.prems(1) this, of e] DelUser show ?thesis by auto
  qed
  then obtain r v1 us1 where s: "table_step lower key p v = (r, v1)" "spec_step lower p us = (r, us1)" "table_rel lower key v1 us1"
    "set us1 \<subseteq> set us \<union> op_users p" by blast
  have "inj_on key (set us1 \<union> \<Union> (set (map op_users ps)))" by (rule inj_on_subset [OF Cons.prems(2)]) (use s(4) in auto)
  from Cons.IH [OF s(3) this] s(1,2) show ?case by auto
qed auto


definition sample_user :: "byte \<Rightarrow> byte list \<Rightarrow> VlessAccount MemoryUser" where
  "sample_user i e = \<lparr>Account = \<lparr>AccountID = \<lparr>uuid = replicate 16 i, cmdKey = []\<rparr>, Flow = [], Encryption = []\<rparr>, Email = e, Level = 0\<rparr>"

text \<open>The lower case of ASCII letters.\<close>

definition ascii_lower :: "byte list \<Rightarrow> byte list" where
  "ascii_lower = map (\<lambda>c. if 65 \<le> c \<and> c \<le> 90 then c + 32 else c)"


text \<open>
  The table does not check the key: when a second user with another email but the key of the
  first is added, the call succeeds and the key finds the second one; removing the first user
  by its email then removes the key of the second, who is still listed but refused.
\<close>

theorem validator_duplicate_key:
  assumes "key u = key w" "Email u \<noteq> []" "Email w \<noteq> []" "lower (Email u) \<noteq> lower (Email w)"
  shows "\<exists>v. run_steps (table_step lower key) [AddUser u, AddUser w, DelUser (Email u)] NewValidator = ([True, True, True], v) \<and>
     GetByEmail (lower (Email w)) v = Some w \<and> GetAll v = [w] \<and> Validator_Get (key w) v = None"
  using assms
  by (simp add: Validator_Add_def Validator_Del_def LoadOrStore_def NewValidator_def GetByEmail_def GetAll_def Validator_Get_def
      delete_conv' update_conv' AList.delete_eq)

theorem validator_duplicate_key_witness:
  "\<exists>v. run_steps (table_step ascii_lower vless_key) [AddUser (sample_user 1 [97]), AddUser (sample_user 1 [98]), DelUser [97]] NewValidator =
       ([True, True, True], v) \<and>
     GetByEmail [98] v = Some (sample_user 1 [98]) \<and> GetAll v = [sample_user 1 [98]] \<and> Validator_Get (replicate 16 1) v = None"
  using validator_duplicate_key [of vless_key "sample_user 1 [97]" "sample_user 1 [98]" ascii_lower]
  by (simp add: vless_key_def sample_user_def ascii_lower_def)

text \<open>
  \<^verbatim>\<open>GetByEmail\<close> does not convert the email: a user whose email has upper-case letters is not
  found under the email it was added with, although \<^verbatim>\<open>Del\<close> finds it.
\<close>

theorem GetByEmail_case_sensitive:
  assumes "Email u \<noteq> []" "lower (Email u) \<noteq> Email u"
  shows "\<exists>v v'. Validator_Add lower key u NewValidator = (None, v) \<and> GetByEmail (Email u) v = None \<and>
     Validator_Del lower key (Email u) v = (None, v')"
  using assms by (simp add: Validator_Add_def Validator_Del_def LoadOrStore_def NewValidator_def GetByEmail_def)

theorem GetByEmail_case_sensitive_witness:
  "\<exists>v v'. Validator_Add ascii_lower vless_key (sample_user 1 [65]) NewValidator = (None, v) \<and> GetByEmail [65] v = None \<and>
     Validator_Del ascii_lower vless_key [65] v = (None, v')"
  using GetByEmail_case_sensitive [of "sample_user 1 [65]" ascii_lower vless_key] by (simp add: sample_user_def ascii_lower_def)

end
