(* ===== verification/Vless_Protocol.thy ===== *)
theory Vless_Protocol
  imports Mux_Frame Validator
begin

text \<open>
  The VLESS wire protocol: \<^verbatim>\<open>proxy/vless/encoding/encoding.go\<close> (request and response headers) and
  \<^verbatim>\<open>proxy/vless/encoding/addons.go\<close> (addons and the framing of packets), with the request header
  of \<^verbatim>\<open>common/protocol/headers.go\<close>. The protobuf codec of the addons is a pair of arguments; the
  array behind a stack buffer and the connection below are arguments too.
\<close>

section \<open>Requests\<close>

definition RequestCommandTCP :: byte where "RequestCommandTCP = 0x01"
definition RequestCommandUDP :: byte where "RequestCommandUDP = 0x02"
definition RequestCommandMux :: byte where "RequestCommandMux = 0x03"

lemmas command_defs = RequestCommandTCP_def RequestCommandUDP_def RequestCommandMux_def

definition RequestCommand_TransferType :: "byte \<Rightarrow> TransferType" where
  "RequestCommand_TransferType c =
     (if c = RequestCommandTCP \<or> c = RequestCommandMux then TransferTypeStream
      else if c = RequestCommandUDP then TransferTypePacket else TransferTypeStream)"

record RequestHeader =
  Version :: byte
  Command :: byte
  RPort :: Port
  RAddress :: "address option"
  RUser :: "VlessAccount MemoryUser option"

definition Request_Destination :: "RequestHeader \<Rightarrow> Destination" where
  "Request_Destination h =
     (if Command h = RequestCommandUDP then \<lparr>Address = RAddress h, DPort = RPort h, DNetwork = Network_UDP\<rparr>
      else \<lparr>Address = RAddress h, DPort = RPort h, DNetwork = Network_TCP\<rparr>)"

record Addons =
  AFlow :: "byte list"
  Seed :: "byte list"

definition zero_Addons :: Addons where
  "zero_Addons = \<lparr>AFlow = [], Seed = []\<rparr>"

definition XRV :: "byte list" where
  "XRV = bytes_of ''xtls-rprx-vision''"

definition vless_addrParser :: AddressSerializer where
  "vless_addrParser = the (do {
     o1 \<leftarrow> AddressFamilyByte 1 AddressFamilyIPv4;
     o2 \<leftarrow> AddressFamilyByte 2 AddressFamilyDomain;
     o3 \<leftarrow> AddressFamilyByte 3 AddressFamilyIPv6;
     NewAddressParser [o1, o2, o3, PortThenAddress]
   })"

section \<open>Writing\<close>

text \<open>\<^verbatim>\<open>if err := m; err != nil { return errors.New(msg).Base(err) }\<close>\<close>

definition or_fail :: "string \<Rightarrow> 'w written \<Rightarrow> 'w written" where
  "or_fail msg m = map_option (\<lambda>(e, w). (map_option (\<lambda>_. ErrNew msg) e, w)) m"

definition EncodeHeaderAddons :: "(Addons \<Rightarrow> go_error + byte list) \<Rightarrow> Addons \<Rightarrow> buffer \<Rightarrow> buffer written" where
  "EncodeHeaderAddons marshal addons b =
     (if AFlow addons = XRV
      then (case marshal addons of
              Inl e \<Rightarrow> Some (Some (ErrNew ''failed to marshal addons protobuf value''), b)
            | Inr bytes \<Rightarrow>
                write_then (or_fail ''failed to write addons protobuf length'' (byte_writer (of_nat (length bytes)) b)) (\<lambda>b.
                or_fail ''failed to write addons protobuf value'' (buf_writer bytes b)))
      else or_fail ''failed to write addons protobuf length'' (byte_writer 0 b))"

text \<open>The request in its buffer; a request without user panics.\<close>

definition request_buffer :: "(Addons \<Rightarrow> go_error + byte list) \<Rightarrow> byte list \<Rightarrow> RequestHeader \<Rightarrow> Addons \<Rightarrow> buffer written" where
  "request_buffer marshal a request addons = do {
     u \<leftarrow> RUser request;
     write_then (or_fail ''failed to write request version'' (byte_writer (Version request) (StackNew a))) (\<lambda>b.
     write_then (or_fail ''failed to write request user id'' (buf_writer (uuid (AccountID (Account u))) b)) (\<lambda>b.
     write_then (or_fail ''failed to encode request header addons'' (EncodeHeaderAddons marshal addons b)) (\<lambda>b.
     write_then (or_fail ''failed to write request command'' (byte_writer (Command request) b)) (\<lambda>b.
     if Command request \<noteq> RequestCommandMux
     then or_fail ''failed to write request address and port''
            (WriteAddressPort buf_writer vless_addrParser (RAddress request) (RPort request) b)
     else Some (None, b)))))
   }"

text \<open>A buffer to the connection: its bytes, or its error.\<close>

definition send_buffer :: "string \<Rightarrow> (byte list \<Rightarrow> 'w \<Rightarrow> 'w written) \<Rightarrow> buffer written \<Rightarrow> 'w \<Rightarrow> 'w written" where
  "send_buffer msg wr m w =
     (case m of
        None \<Rightarrow> None
      | Some (Some e, b) \<Rightarrow> Some (Some e, w)
      | Some (None, b) \<Rightarrow> do { bs \<leftarrow> Bytes b; or_fail msg (wr bs w) })"

definition EncodeRequestHeader ::
  "(Addons \<Rightarrow> go_error + byte list) \<Rightarrow> byte list \<Rightarrow> (byte list \<Rightarrow> 'w \<Rightarrow> 'w written) \<Rightarrow> RequestHeader \<Rightarrow> Addons \<Rightarrow> 'w \<Rightarrow> 'w written" where
  "EncodeRequestHeader marshal a wr request addons =
     send_buffer ''failed to write request header'' wr (request_buffer marshal a request addons)"

definition EncodeResponseHeader ::
  "(Addons \<Rightarrow> go_error + byte list) \<Rightarrow> byte list \<Rightarrow> (byte list \<Rightarrow> 'w \<Rightarrow> 'w written) \<Rightarrow> RequestHeader \<Rightarrow> Addons \<Rightarrow> 'w \<Rightarrow> 'w written" where
  "EncodeResponseHeader marshal a wr request addons =
     send_buffer ''failed to write response header'' wr
       (write_then (or_fail ''failed to write response version'' (byte_writer (Version request) (StackNew a)))
         (\<lambda>b. or_fail ''failed to encode response header addons'' (EncodeHeaderAddons marshal addons b)))"

section \<open>Reading\<close>

text \<open>\<^verbatim>\<open>buffer.Clear()\<close>, then \<^verbatim>\<open>ReadFullFrom\<close> with its error replaced.\<close>

definition clear_read_then :: "string \<Rightarrow> int \<Rightarrow> (buffer \<Rightarrow> reader \<Rightarrow> 'a parsed) \<Rightarrow> buffer \<Rightarrow> reader \<Rightarrow> 'a parsed" where
  "clear_read_then msg n k b r =
     (case ReadFullFrom r n (buf_Clear b) of
        None \<Rightarrow> None
      | Some (_, Some e, r', b') \<Rightarrow> Some (Inl (ErrNew msg), b', r')
      | Some (_, None, r', b') \<Rightarrow> k b' r')"

definition DecodeHeaderAddons :: "(byte list \<Rightarrow> go_error + Addons) \<Rightarrow> buffer \<Rightarrow> reader \<Rightarrow> Addons parsed" where
  "DecodeHeaderAddons unmarshal =
     clear_read_then ''failed to read addons protobuf length'' 1 (\<lambda>b r. do {
       l \<leftarrow> Byte 0 b;
       if l \<noteq> 0
       then clear_read_then ''failed to read addons protobuf value'' (uint l) (\<lambda>b r. do {
              bs \<leftarrow> Bytes b;
              case unmarshal bs of
                Inl e \<Rightarrow> Some (Inl (ErrNew ''failed to unmarshal addons protobuf value''), b, r)
              | Inr addons \<Rightarrow> Some (Inr addons, b, r)
            }) b r
       else Some (Inr zero_Addons, b, r)
     })"

definition mux_cool :: "byte list" where
  "mux_cool = bytes_of ''v1.mux.cool''"

text \<open>The command and the address; what follows the addons.\<close>

definition read_command :: "RequestHeader \<Rightarrow> Addons \<Rightarrow> buffer \<Rightarrow> reader \<Rightarrow> (RequestHeader \<times> Addons) parsed" where
  "read_command request addons =
     clear_read_then ''failed to read request command'' 1 (\<lambda>b r. do {
       cmd \<leftarrow> Byte 0 b;
       let request = request\<lparr>Command := cmd\<rparr>;
       (request, b, r) \<leftarrow>
         (if cmd = RequestCommandMux then Some (request\<lparr>RAddress := Some (domainAddress mux_cool), RPort := 0\<rparr>, b, r)
          else if cmd = RequestCommandTCP \<or> cmd = RequestCommandUDP
          then (case ReadAddressPort vless_addrParser (Some b) r of
                  None \<Rightarrow> None
                | Some (Inl e, b', r') \<Rightarrow> Some (request, b', r')
                | Some (Inr (addr, port), b', r') \<Rightarrow> Some (request\<lparr>RAddress := Some addr, RPort := port\<rparr>, b', r'))
          else Some (request, b, r));
       Some (if RAddress request = None then Inl (ErrNew ''invalid request address'') else Inr (request, addons), b, r)
     })"

text \<open>The third result of \<^verbatim>\<open>DecodeRequestHeader\<close> tells whether the connection may fall back.\<close>

definition decode_rest ::
  "(byte list \<Rightarrow> go_error + Addons) \<Rightarrow> RequestHeader \<Rightarrow> buffer \<Rightarrow> reader \<Rightarrow> (((go_error + RequestHeader \<times> Addons) \<times> bool) \<times> reader) option" where
  "decode_rest unmarshal request b r =
     (case DecodeHeaderAddons unmarshal b r of
        None \<Rightarrow> None
      | Some (Inl e, b', r') \<Rightarrow> Some ((Inl (ErrNew ''failed to decode request header addons''), False), r')
      | Some (Inr addons, b', r') \<Rightarrow> map_option (\<lambda>(res, _, r''). ((res, False), r'')) (read_command request addons b' r'))"

definition zero_RequestHeader :: RequestHeader where
  "zero_RequestHeader = \<lparr>Version = 0, Command = 0, RPort = 0, RAddress = None, RUser = None\<rparr>"

text \<open>
  With \<^verbatim>\<open>isfb\<close> the reader starts with the buffer \<^verbatim>\<open>first\<close> itself, so that \<^verbatim>\<open>first.Advance\<close>
  moves the reader; \<open>fb\<close> is that buffer and \<open>r\<close> the connection behind it. \<open>get\<close> is the
  validator.
\<close>

definition DecodeRequestHeader ::
  "(byte list \<Rightarrow> go_error + Addons) \<Rightarrow> byte list \<Rightarrow> buffer option \<Rightarrow> (byte list \<Rightarrow> VlessAccount MemoryUser option) \<Rightarrow> reader \<Rightarrow>
   (((go_error + RequestHeader \<times> Addons) \<times> bool) \<times> reader) option" where
  "DecodeRequestHeader unmarshal a fb get r =
     (case fb of
        Some first \<Rightarrow> do {
          v \<leftarrow> Byte 0 first;
          all \<leftarrow> Bytes first;
          if v \<noteq> 0 then Some ((Inl (ErrNew ''invalid request version''), True), all # r)
          else do {
            i \<leftarrow> BytesRange 1 17 first;
            case get i of
              None \<Rightarrow> Some ((Inl (ErrNew ''invalid request user id''), True), all # r)
            | Some u \<Rightarrow> do {
                bs \<leftarrow> Bytes (Advance 17 first);
                decode_rest unmarshal (zero_RequestHeader\<lparr>Version := v, RUser := Some u\<rparr>) (StackNew a) (if bs = [] then r else bs # r)
              }
          }
        }
      | None \<Rightarrow>
          (case ReadFullFrom r 1 (StackNew a) of
             None \<Rightarrow> None
           | Some (_, Some e, r', b) \<Rightarrow> Some ((Inl (ErrNew ''failed to read request version''), False), r')
           | Some (_, None, r', b) \<Rightarrow> do {
               v \<leftarrow> Byte 0 b;
               if v \<noteq> 0 then Some ((Inl (ErrNew ''invalid request version''), False), r')
               else (case ReadFullFrom r' 16 (buf_Clear b) of
                       None \<Rightarrow> None
                     | Some (_, Some e, r'', b') \<Rightarrow> Some ((Inl (ErrNew ''failed to read request user id''), False), r'')
                     | Some (_, None, r'', b') \<Rightarrow> do {
                         i \<leftarrow> Bytes b';
                         case get i of
                           None \<Rightarrow> Some ((Inl (ErrNew ''invalid request user id''), False), r'')
                         | Some u \<Rightarrow> decode_rest unmarshal (zero_RequestHeader\<lparr>Version := v, RUser := Some u\<rparr>) b' r''
                       })
             }))"

definition DecodeResponseHeader ::
  "(byte list \<Rightarrow> go_error + Addons) \<Rightarrow> byte list \<Rightarrow> RequestHeader \<Rightarrow> reader \<Rightarrow> Addons received" where
  "DecodeResponseHeader unmarshal a request r =
     (case ReadFullFrom r 1 (StackNew a) of
        None \<Rightarrow> None
      | Some (_, Some e, r', b) \<Rightarrow> Some (Inl (ErrNew ''failed to read response version''), r')
      | Some (_, None, r', b) \<Rightarrow> do {
          v \<leftarrow> Byte 0 b;
          if v \<noteq> Version request then Some (Inl (ErrNew ''unexpected response version. Expecting ''), r')
          else (case DecodeHeaderAddons unmarshal b r' of
                  None \<Rightarrow> None
                | Some (Inl e, b', r'') \<Rightarrow> Some (Inl (ErrNew ''failed to decode response header addons''), r'')
                | Some (Inr addons, b', r'') \<Rightarrow> Some (Inr addons, r''))
        })"

section \<open>Packets over the stream\<close>

text \<open>\<open>wm\<close> is \<^verbatim>\<open>WriteMultiBuffer\<close> of the writer below. A buffer that cannot take its frame is skipped.\<close>

definition length_frame :: "buffer \<Rightarrow> buffer written" where
  "length_frame b =
     (let l = buf_Len b
      in write_then (byte_writer (of_int (l div 256)) New) (\<lambda>eb.
         write_then (byte_writer (of_int l) eb) (\<lambda>eb. do { bs \<leftarrow> Bytes b; buf_writer bs eb })))"

fun length_frames :: "MultiBuffer \<Rightarrow> MultiBuffer option" where
  "length_frames [] = Some []"
| "length_frames (b # mb) =
     (if buf_Len b = 0 \<or> i32 (buf_Len b + 2) > int Size then length_frames mb
      else (case length_frame b of
              None \<Rightarrow> None
            | Some (Some e, eb) \<Rightarrow> length_frames mb
            | Some (None, eb) \<Rightarrow> map_option ((#) eb) (length_frames mb)))"

definition MultiLengthPacketWriter_WriteMultiBuffer :: "(MultiBuffer \<Rightarrow> 'w \<Rightarrow> 'w written) \<Rightarrow> MultiBuffer \<Rightarrow> 'w \<Rightarrow> 'w written" where
  "MultiLengthPacketWriter_WriteMultiBuffer wm mb w = do {
     mb2 \<leftarrow> length_frames mb;
     if mb_IsEmpty mb2 then Some (None, w) else wm mb2 w
   }"

fun mb_bytes :: "MultiBuffer \<Rightarrow> byte list option" where
  "mb_bytes [] = Some []"
| "mb_bytes (b # mb) = do { bs \<leftarrow> Bytes b; rest \<leftarrow> mb_bytes mb; Some (bs @ rest) }"

definition LengthPacketWriter_WriteMultiBuffer ::
  "(byte list \<Rightarrow> 'w \<Rightarrow> 'w written) \<Rightarrow> MultiBuffer \<Rightarrow> 'w \<Rightarrow> 'w written" where
  "LengthPacketWriter_WriteMultiBuffer wr mb w =
     (let l = mb_Len mb
      in if l = 0 then Some (None, w)
         else do { bs \<leftarrow> mb_bytes mb;
                   or_fail ''failed to write a packet'' (wr ([of_int (l div 256), of_int l] @ bs) w) })"

function length_loop :: "nat \<Rightarrow> MultiBuffer \<Rightarrow> reader \<Rightarrow> MultiBuffer received" where
  "length_loop l mb r =
     (if l > 0
      then let sz = min Size l
           in case ReadFullFrom r (int sz) New of
                None \<Rightarrow> None
              | Some (_, Some e, r', b) \<Rightarrow> Some (Inl (ErrNew ''failed to read packet payload''), r')
              | Some (_, None, r', b) \<Rightarrow> length_loop (l - sz) (mb @ [b]) r'
      else Some (Inr mb, r))"
  by pat_completeness auto
termination
  by (relation "measure (\<lambda>(l, mb, r). l)") (auto simp: Size_def)

declare length_loop.simps [simp del]

definition LengthPacketReader_ReadMultiBuffer :: "reader \<Rightarrow> MultiBuffer received" where
  "LengthPacketReader_ReadMultiBuffer =
     full_then 2 ''failed to read packet length'' (\<lambda>cache r. do { l \<leftarrow> Uint16 cache; length_loop (unat l) [] r })"

section \<open>Rules\<close>

lemma vless_addrParser_eq: "vless_addrParser = mux_addrParser"
  unfolding vless_addrParser_def mux_addrParser_def ..

lemma puts_or_fail [intro]: "buf_out.puts f xs \<Longrightarrow> buf_out.puts (\<lambda>b. or_fail msg (f b)) xs"
  by (fastforce simp: buf_out.puts_def buf_out.emits_def or_fail_def)

lemma clear_read_ok:
  assumes "buf_wf b" "vlen b = Size" "concat r = xs @ rest" "length xs = n" "n \<le> Size"
  obtains b' r' where "clear_read_then msg (int n) k b r = k b' r'" "buf_wf b'" "vlen b' = Size" "content b' = xs" "concat r' = rest"
    "room b' = Size - n"
proof -
  have c: "buf_wf (buf_Clear b)" "content (buf_Clear b) = []" "n \<le> room (buf_Clear b)" "vlen (buf_Clear b) = Size"
    using assms by (simp_all add: buf_Clear_def room_def buf_wf_def content_def)
  obtain r' where r': "ReadFull n r = (xs, None, r')" "concat r' = rest"
    using ReadFull_enough [of n r] assms(3,4) by auto
  obtain b' where "ReadFullFrom r (int n) (buf_Clear b) = Some (length xs, None, r', b')" "buf_wf b'"
    "content b' = content (buf_Clear b) @ xs" "vlen b' = vlen (buf_Clear b)" "room b' = room (buf_Clear b) - length xs"
    by (rule ReadFullFrom_spec [OF c(1,3) r'(1)])
  then show thesis using that r'(2) c assms(2,4) by (simp add: clear_read_then_def)
qed

lemma clear_read_byte:
  assumes "buf_wf b" "vlen b = Size" "concat r = x # rest"
  obtains b' r' where "clear_read_then msg 1 k b r = k b' r'" "buf_wf b'" "vlen b' = Size" "content b' = [x]" "Byte 0 b' = Some x"
    "concat r' = rest" "room b' = Size - 1"
proof -
  have r: "concat r = [x] @ rest" "length [x] = 1" "1 \<le> Size" using assms(3) by (simp_all add: Size_def)
  obtain b' r' where b': "clear_read_then msg (int 1) k b r = k b' r'" "buf_wf b'" "vlen b' = Size" "content b' = [x]" "concat r' = rest"
    "room b' = Size - 1" by (rule clear_read_ok [OF assms(1,2) r])
  moreover have "Byte 0 b' = Some x" using Byte_nat [OF b'(2), of 0] b'(4) by simp
  ultimately show thesis using that by simp
qed

lemma StackNew_read_ok:
  assumes "length a < 2 ^ 31" "concat r = xs @ rest" "length xs \<le> Size"
  obtains b' r' where "ReadFullFrom r (int (length xs)) (StackNew a) = Some (length xs, None, r', b')" "buf_wf b'" "vlen b' = Size"
    "content b' = xs" "concat r' = rest"
proof -
  obtain r' where r': "ReadFull (length xs) r = (xs, None, r')" "concat r' = rest"
    using ReadFull_enough [of "length xs" r] assms(2) by auto
  have s: "buf_wf (StackNew a)" "length xs \<le> room (StackNew a)" using assms(1,3) by simp_all
  have "vlen (StackNew a) = Size" by (simp add: StackNew_def buf_of_def)
  moreover obtain b' where "ReadFullFrom r (int (length xs)) (StackNew a) = Some (length xs, None, r', b')" "buf_wf b'"
    "content b' = content (StackNew a) @ xs" "vlen b' = vlen (StackNew a)" by (rule ReadFullFrom_spec [OF s r'(1)])
  ultimately show thesis using that r'(2) by simp
qed

text \<open>What the addons are on the wire, and what the other side gets of them.\<close>

definition codec_ok :: "(Addons \<Rightarrow> go_error + byte list) \<Rightarrow> (byte list \<Rightarrow> go_error + Addons) \<Rightarrow> Addons \<Rightarrow> bool" where
  "codec_ok marshal unmarshal addons \<longleftrightarrow>
     (case marshal addons of Inl e \<Rightarrow> False | Inr bs \<Rightarrow> unmarshal bs = Inr addons \<and> 0 < length bs \<and> length bs < 256)"

definition addons_bytes :: "(Addons \<Rightarrow> go_error + byte list) \<Rightarrow> Addons \<Rightarrow> byte list" where
  "addons_bytes marshal addons =
     (if AFlow addons = XRV then case marshal addons of Inl e \<Rightarrow> [] | Inr bs \<Rightarrow> [of_nat (length bs)] @ bs else [0])"

definition addons_received :: "Addons \<Rightarrow> Addons" where
  "addons_received addons = (if AFlow addons = XRV then addons else zero_Addons)"

lemma EncodeHeaderAddons_puts:
  assumes "AFlow addons = XRV \<longrightarrow> codec_ok marshal unmarshal addons"
  shows "buf_out.puts (EncodeHeaderAddons marshal addons) (addons_bytes marshal addons)" "length (addons_bytes marshal addons) \<le> 256"
proof -
  show "buf_out.puts (EncodeHeaderAddons marshal addons) (addons_bytes marshal addons)"
  proof (cases "AFlow addons = XRV")
    case True
    then obtain bs where bs: "marshal addons = Inr bs" using assms by (auto simp: codec_ok_def split: sum.splits)
    have "buf_out.puts (\<lambda>b. write_then (or_fail ''failed to write addons protobuf length'' (byte_writer (of_nat (length bs)) b)) (\<lambda>b.
        or_fail ''failed to write addons protobuf value'' (buf_writer bs b))) ([of_nat (length bs)] @ bs)"
      by (intro buf_out.puts_then puts_or_fail puts_byte_writer buf_out.puts_wr)
    then show ?thesis using True bs by (simp add: EncodeHeaderAddons_def [abs_def] addons_bytes_def)
  next
    case False
    have "buf_out.puts (\<lambda>b. or_fail ''failed to write addons protobuf length'' (byte_writer 0 b)) [0]"
      by (intro puts_or_fail puts_byte_writer)
    then show ?thesis using False by (simp add: EncodeHeaderAddons_def [abs_def] addons_bytes_def)
  qed
  show "length (addons_bytes marshal addons) \<le> 256"
    using assms by (auto simp: addons_bytes_def codec_ok_def split: sum.splits)
qed

lemma DecodeHeaderAddons_ok:
  assumes "AFlow addons = XRV \<longrightarrow> codec_ok marshal unmarshal addons" "buf_wf b" "vlen b = Size"
    "concat r = addons_bytes marshal addons @ rest"
  obtains b' r' where "DecodeHeaderAddons unmarshal b r = Some (Inr (addons_received addons), b', r')" "buf_wf b'" "vlen b' = Size"
    "concat r' = rest"
proof -
  define g where "g = (\<lambda>b (r :: reader). do {
              bs \<leftarrow> Bytes b;
              case unmarshal bs of
                Inl e \<Rightarrow> Some (Inl (ErrNew ''failed to unmarshal addons protobuf value''), b, r)
              | Inr addons \<Rightarrow> Some (Inr addons, b, r)
            })"
  define k where "k = (\<lambda>b r. do {
       l \<leftarrow> Byte 0 b;
       if l \<noteq> 0 then clear_read_then ''failed to read addons protobuf value'' (uint l) g b r
       else Some (Inr zero_Addons, b, r)
     })"
  have def: "DecodeHeaderAddons unmarshal = clear_read_then ''failed to read addons protobuf length'' 1 k"
    unfolding DecodeHeaderAddons_def k_def g_def by simp
  show thesis
  proof (cases "AFlow addons = XRV")
    case True
    then obtain bs where bs: "marshal addons = Inr bs" "unmarshal bs = Inr addons" "0 < length bs" "length bs < 256"
      using assms(1) by (auto simp: codec_ok_def split: sum.splits)
    let ?l = "of_nat (length bs) :: byte"
    have u: "unat ?l = length bs" using bs(4) by (simp add: unat_of_nat)
    then have l: "?l \<noteq> 0" "uint ?l = int (length bs)" using bs(3) by (fastforce, metis uint_nat)
    have r: "concat r = ?l # bs @ rest" using assms(4) True bs(1) by (simp add: addons_bytes_def)
    obtain b1 r1 where b1: "DecodeHeaderAddons unmarshal b r = k b1 r1" "buf_wf b1" "vlen b1 = Size" "Byte 0 b1 = Some ?l" "concat r1 = bs @ rest"
      unfolding def by (rule clear_read_byte [OF assms(2,3) r])
    then have "k b1 r1 = clear_read_then ''failed to read addons protobuf value'' (int (length bs)) g b1 r1"
      using l by (simp add: k_def g_def)
    moreover have "length bs \<le> Size" using bs(4) by (simp add: Size_def)
    then obtain b2 r2 where b2: "clear_read_then ''failed to read addons protobuf value'' (int (length bs)) g b1 r1 = g b2 r2"
      "buf_wf b2" "vlen b2 = Size" "content b2 = bs" "concat r2 = rest" by (rule clear_read_ok [OF b1(2,3,5) refl])
    moreover have "g b2 r2 = Some (Inr addons, b2, r2)" using b2 bs(2) by (simp add: g_def Bytes_content)
    ultimately show thesis using that [of b2 r2] b1(1) True by (simp add: addons_received_def)
  next
    case False
    then have r: "concat r = 0 # rest" using assms(4) by (simp add: addons_bytes_def)
    obtain b1 r1 where b1: "DecodeHeaderAddons unmarshal b r = k b1 r1" "buf_wf b1" "vlen b1 = Size" "Byte 0 b1 = Some 0" "concat r1 = rest"
      unfolding def by (rule clear_read_byte [OF assms(2,3) r])
    then show thesis using that [of b1 r1] b1 False by (simp add: k_def addons_received_def)
  qed
qed

section \<open>Headers survive the wire\<close>

definition request_ok :: "RequestHeader \<Rightarrow> bool" where
  "request_ok req \<longleftrightarrow> Version req = 0 \<and>
     (case RUser req of None \<Rightarrow> False | Some u \<Rightarrow> length (uuid (AccountID (Account u))) = 16) \<and>
     (Command req = RequestCommandMux \<or>
      (Command req = RequestCommandTCP \<or> Command req = RequestCommandUDP) \<and>
      (case RAddress req of None \<Rightarrow> False | Some a \<Rightarrow> wire_addr a))"

definition request_id :: "RequestHeader \<Rightarrow> byte list" where
  "request_id req = uuid (AccountID (Account (the (RUser req))))"

definition target_enc :: "RequestHeader \<Rightarrow> byte list" where
  "target_enc req = (if Command req = RequestCommandMux then [] else mux_enc (the (RAddress req)) (RPort req))"

definition request_bytes :: "(Addons \<Rightarrow> go_error + byte list) \<Rightarrow> RequestHeader \<Rightarrow> Addons \<Rightarrow> byte list" where
  "request_bytes marshal req addons = [Version req] @ request_id req @ addons_bytes marshal addons @ [Command req] @ target_enc req"

text \<open>A request for the multiplexer has no address on the wire; the reader fills in its name.\<close>

definition request_received :: "RequestHeader \<Rightarrow> RequestHeader" where
  "request_received req =
     (if Command req = RequestCommandMux then req\<lparr>RAddress := Some (domainAddress mux_cool), RPort := 0\<rparr> else req)"

lemma puts_None: "buf_out.puts (\<lambda>b. Some (None, b)) []"
  by (simp add: buf_out.puts_def buf_out.emits_def)

lemma request_buffer_ok:
  assumes "request_ok req" "AFlow addons = XRV \<longrightarrow> codec_ok marshal unmarshal addons" "length a < 2 ^ 31"
  obtains b where "request_buffer marshal a req addons = Some (None, b)" "buf_wf b" "content b = request_bytes marshal req addons"
proof -
  obtain u where u: "RUser req = Some u" "length (uuid (AccountID (Account u))) = 16"
    using assms(1) by (auto simp: request_ok_def split: option.splits)
  let ?wt = "\<lambda>b. if Command req \<noteq> RequestCommandMux
     then or_fail ''failed to write request address and port'' (WriteAddressPort buf_writer vless_addrParser (RAddress req) (RPort req) b)
     else Some (None, b)"
  have target: "buf_out.puts ?wt (target_enc req) \<and> length (target_enc req) \<le> 259"
  proof (cases "Command req = RequestCommandMux")
    case True
    then show ?thesis using puts_None by (simp add: target_enc_def)
  next
    case False
    then obtain x where x: "RAddress req = Some x" "wire_addr x" using assms(1) by (auto simp: request_ok_def split: option.splits)
    have "buf_out.puts (\<lambda>b. or_fail msg (WriteAddressPort buf_writer mux_addrParser (Some x) (RPort req) b)) (mux_enc x (RPort req))" for msg
      by (intro puts_or_fail buf_out.puts_WriteAddressPort) (simp add: mux_writable x(2))
    then show ?thesis using False x mux_enc_length by (simp add: target_enc_def vless_addrParser_eq)
  qed
  have "buf_out.puts (\<lambda>b. write_then (or_fail ''failed to write request version'' (byte_writer (Version req) b)) (\<lambda>b.
     write_then (or_fail ''failed to write request user id'' (buf_writer (request_id req) b)) (\<lambda>b.
     write_then (or_fail ''failed to encode request header addons'' (EncodeHeaderAddons marshal addons b)) (\<lambda>b.
     write_then (or_fail ''failed to write request command'' (byte_writer (Command req) b)) ?wt)))) (request_bytes marshal req addons)"
    unfolding request_bytes_def
    by (intro buf_out.puts_then puts_or_fail puts_byte_writer buf_out.puts_wr EncodeHeaderAddons_puts(1) [OF assms(2)] conjunct1 [OF target])
  from buf_out.puts_emits [OF this, of "StackNew a"]
  have "buf_out.emits (request_buffer marshal a req addons) (request_bytes marshal req addons) 0 (StackNew a)"
    using target EncodeHeaderAddons_puts(2) [OF assms(2)] u assms(3)
    by (simp add: request_buffer_def request_id_def request_bytes_def Size_def)
  then show thesis using that by (auto simp: buf_out.emits_def)
qed

lemma read_command_ok:
  assumes "request_ok req" "buf_wf b" "vlen b = Size" "concat r = Command req # target_enc req @ rest"
    "req0 = req\<lparr>Command := 0, RPort := 0, RAddress := None\<rparr>"
  obtains b' r' where "read_command req0 addons b r = Some (Inr (request_received req, addons), b', r')" "concat r' = rest"
proof -
  obtain b1 r1 where b1: "read_command req0 addons b r = do {
       cmd \<leftarrow> Byte 0 b1;
       let request = req0\<lparr>Command := cmd\<rparr>;
       (request, b, r) \<leftarrow>
         (if cmd = RequestCommandMux then Some (request\<lparr>RAddress := Some (domainAddress mux_cool), RPort := 0\<rparr>, b1, r1)
          else if cmd = RequestCommandTCP \<or> cmd = RequestCommandUDP
          then (case ReadAddressPort vless_addrParser (Some b1) r1 of
                  None \<Rightarrow> None
                | Some (Inl e, b', r') \<Rightarrow> Some (request, b', r')
                | Some (Inr (addr, port), b', r') \<Rightarrow> Some (request\<lparr>RAddress := Some addr, RPort := port\<rparr>, b', r'))
          else Some (request, b1, r1));
       Some (if RAddress request = None then Inl (ErrNew ''invalid request address'') else Inr (request, addons), b, r)
     }" "buf_wf b1" "vlen b1 = Size" "content b1 = [Command req]" "Byte 0 b1 = Some (Command req)" "concat r1 = target_enc req @ rest"
     "room b1 = Size - 1" unfolding read_command_def by (rule clear_read_byte [OF assms(2-4)])
  show thesis
  proof (cases "Command req = RequestCommandMux")
    case True
    then show thesis using that [of b1 r1] b1 assms(5) by (simp add: request_received_def target_enc_def)
  next
    case False
    then obtain x where x: "RAddress req = Some x" "wire_addr x" "Command req = RequestCommandTCP \<or> Command req = RequestCommandUDP"
      using assms(1) by (auto simp: request_ok_def split: option.splits)
    then have t: "concat r1 = mux_enc x (RPort req) @ rest" using b1(6) False by (simp add: target_enc_def)
    obtain b2 r2 where b2: "ReadAddressPort mux_addrParser (Some b1) r1 = Some (Inr (x, RPort req), b2, r2)" "concat r2 = rest"
      by (rule ReadAddressPort_ok [OF mux_parser_ok _ t, of "Some b1"]) (use x(2) b1(2,7) in \<open>simp_all add: mux_writable Size_def\<close>)
    then show thesis using that [of b2 r2] b1(1,5) assms(5) False x by (auto simp: request_received_def vless_addrParser_eq)
  qed
qed

lemma decode_rest_ok:
  assumes "request_ok req" "AFlow addons = XRV \<longrightarrow> codec_ok marshal unmarshal addons" "buf_wf b" "vlen b = Size"
    "concat r = addons_bytes marshal addons @ [Command req] @ target_enc req @ rest"
  obtains r' where "decode_rest unmarshal (zero_RequestHeader\<lparr>Version := 0, RUser := RUser req\<rparr>) b r =
      Some ((Inr (request_received req, addons_received addons), False), r')" "concat r' = rest"
proof -
  obtain b1 r1 where b1: "DecodeHeaderAddons unmarshal b r = Some (Inr (addons_received addons), b1, r1)" "buf_wf b1" "vlen b1 = Size"
    "concat r1 = [Command req] @ target_enc req @ rest" by (rule DecodeHeaderAddons_ok [OF assms(2-5)])
  have "zero_RequestHeader\<lparr>Version := 0, RUser := RUser req\<rparr> = req\<lparr>Command := 0, RPort := 0, RAddress := None\<rparr>"
    using assms(1) by (simp add: zero_RequestHeader_def request_ok_def)
  moreover have "concat r1 = Command req # target_enc req @ rest" using b1(4) by simp
  ultimately obtain b2 r2 where "read_command (zero_RequestHeader\<lparr>Version := 0, RUser := RUser req\<rparr>) (addons_received addons) b1 r1 =
      Some (Inr (request_received req, addons_received addons), b2, r2)" "concat r2 = rest"
    using read_command_ok [OF assms(1) b1(2,3)] by metis
  then show thesis using that b1(1) by (simp add: decode_rest_def)
qed

lemma DecodeRequestHeader_ok:
  assumes "request_ok req" "AFlow addons = XRV \<longrightarrow> codec_ok marshal unmarshal addons" "length a < 2 ^ 31"
    "get (request_id req) = RUser req" "concat r = request_bytes marshal req addons @ rest"
  shows "\<exists>r'. DecodeRequestHeader unmarshal a None get r =
      Some ((Inr (request_received req, addons_received addons), False), r') \<and> concat r' = rest"
proof -
  have v: "Version req = 0" "RUser req \<noteq> None" "length (request_id req) = 16"
    using assms(1) by (auto simp: request_ok_def request_id_def split: option.splits)
  let ?rest = "addons_bytes marshal addons @ [Command req] @ target_enc req @ rest"
  have r: "concat r = [0] @ request_id req @ ?rest" using assms(5) v(1) by (simp add: request_bytes_def)
  obtain b1 r1 where b1: "ReadFullFrom r (int (length [0::byte])) (StackNew a) = Some (length [0::byte], None, r1, b1)" "buf_wf b1" "vlen b1 = Size"
    "content b1 = [0]" "concat r1 = request_id req @ ?rest" by (rule StackNew_read_ok [OF assms(3) r]) (simp add: Size_def)
  have byte: "Byte 0 b1 = Some 0" using Byte_nat [OF b1(2), of 0] b1(4) by simp
  obtain r2 where r2: "ReadFull 16 r1 = (request_id req, None, r2)" "concat r2 = ?rest"
    using ReadFull_enough [of 16 r1] b1(5) v(3) by auto
  have "16 \<le> room (buf_Clear b1)" using b1(3) by (simp add: Size_def)
  then obtain b2 where b2: "ReadFullFrom r1 (int 16) (buf_Clear b1) = Some (length (request_id req), None, r2, b2)" "buf_wf b2"
    "content b2 = content (buf_Clear b1) @ request_id req" "vlen b2 = vlen (buf_Clear b1)"
    by (rule ReadFullFrom_spec [OF buf_Clear_facts(1) [OF b1(2)] _ r2(1)])
  then have bytes: "Bytes b2 = Some (request_id req)" "vlen b2 = Size" using b1(3) by (simp_all add: Bytes_content)
  obtain r' where "decode_rest unmarshal (zero_RequestHeader\<lparr>Version := 0, RUser := RUser req\<rparr>) b2 r2 =
      Some ((Inr (request_received req, addons_received addons), False), r')" "concat r' = rest"
    by (rule decode_rest_ok [OF assms(1,2) b2(2) bytes(2) r2(2)])
  then show ?thesis
    using b1(1) byte b2(1) bytes(1) assms(4) v(2) by (auto simp: DecodeRequestHeader_def)
qed

lemma DecodeRequestHeader_first_ok:
  assumes "request_ok req" "AFlow addons = XRV \<longrightarrow> codec_ok marshal unmarshal addons" "length a < 2 ^ 31"
    "get (request_id req) = RUser req" "buf_wf first" "17 \<le> length (content first)"
    "content first @ concat r = request_bytes marshal req addons @ rest"
  shows "\<exists>r'. DecodeRequestHeader unmarshal a (Some first) get r =
      Some ((Inr (request_received req, addons_received addons), False), r') \<and> concat r' = rest"
proof -
  have v: "Version req = 0" "RUser req \<noteq> None" "length (request_id req) = 16"
    using assms(1) by (auto simp: request_ok_def request_id_def split: option.splits)
  let ?rest = "addons_bytes marshal addons @ [Command req] @ target_enc req @ rest"
  define t where "t = drop 17 (content first)"
  have "take 17 (content first @ concat r) = [0] @ request_id req" "drop 17 (content first @ concat r) = ?rest"
    using assms(7) v by (simp_all add: request_bytes_def)
  then have "take 17 (content first) = [0] @ request_id req" and rest: "t @ concat r = ?rest"
    using assms(6) by (simp_all add: t_def)
  then have c: "content first = [0] @ request_id req @ t" by (metis append_assoc append_take_drop_id t_def)
  have b0: "Byte 0 first = Some 0" using Byte_nat [OF assms(5), of 0] c by simp
  have id: "BytesRange 1 17 first = Some (request_id req)"
    using slice_content [OF assms(5), of 1 17] c v(3) assms(5,6) content_offset [OF assms(5), of 1] content_offset [OF assms(5), of 17]
    by (simp add: BytesRange_def from_end_def)
  have adv: "Bytes (Advance 17 first) = Some t"
    using Advance_spec [OF assms(5,6)] by (simp add: Bytes_content t_def)
  have "concat (if t = [] then r else t # r) = ?rest" using rest by auto
  moreover have "buf_wf (StackNew a)" "vlen (StackNew a) = Size" using assms(3) by (simp_all, simp add: StackNew_def buf_of_def)
  ultimately obtain r' where "decode_rest unmarshal (zero_RequestHeader\<lparr>Version := 0, RUser := RUser req\<rparr>) (StackNew a) (if t = [] then r else t # r) =
      Some ((Inr (request_received req, addons_received addons), False), r')" "concat r' = rest"
    using decode_rest_ok [OF assms(1,2)] by metis
  then show ?thesis
    using b0 id adv assms(4,5) v(2) by (auto simp: DecodeRequestHeader_def Bytes_content)
qed

lemma send_buffer_list: "buf_wf b \<Longrightarrow> send_buffer msg list_writer (Some (None, b)) w = Some (None, w @ content b)"
  by (simp add: send_buffer_def Bytes_content list_writer_def or_fail_def)

text \<open>
  C18: a VLESS request survives the wire: what \<^verbatim>\<open>EncodeRequestHeader\<close> sends is decoded by
  \<^verbatim>\<open>DecodeRequestHeader\<close> to the same user, command and target (the name of the multiplexer for
  its command) and the same addons of a vision flow, whether the connection delivers it in any
  chunks or its front is already in the \<^verbatim>\<open>first\<close> buffer of a server with fallbacks; the body is
  left.
\<close>

theorem vless_request_roundtrip:
  assumes "request_ok req" "AFlow addons = XRV \<longrightarrow> codec_ok marshal unmarshal addons" "length a < 2 ^ 31"
    "get (request_id req) = RUser req"
  shows "\<exists>w. EncodeRequestHeader marshal a list_writer req addons [] = Some (None, w) \<and>
     (\<forall>r rest. concat r = w @ rest \<longrightarrow>
        (\<exists>r'. DecodeRequestHeader unmarshal a None get r = Some ((Inr (request_received req, addons_received addons), False), r') \<and>
              concat r' = rest)) \<and>
     (\<forall>first r rest. buf_wf first \<and> 17 \<le> length (content first) \<and> content first @ concat r = w @ rest \<longrightarrow>
        (\<exists>r'. DecodeRequestHeader unmarshal a (Some first) get r = Some ((Inr (request_received req, addons_received addons), False), r') \<and>
              concat r' = rest))"
proof -
  obtain b where b: "request_buffer marshal a req addons = Some (None, b)" "buf_wf b" "content b = request_bytes marshal req addons"
    by (rule request_buffer_ok [OF assms(1-3)])
  then have "EncodeRequestHeader marshal a list_writer req addons [] = Some (None, request_bytes marshal req addons)"
    by (simp add: EncodeRequestHeader_def send_buffer_list)
  then show ?thesis
    using DecodeRequestHeader_ok [OF assms(1-3), of get] DecodeRequestHeader_first_ok [OF assms(1-3), of get] assms(4)
    by (intro exI [of _ "request_bytes marshal req addons"] conjI) blast+
qed

definition sample_request :: RequestHeader where
  "sample_request = \<lparr>Version = 0, Command = RequestCommandTCP, RPort = 443, RAddress = Some (ipv4Address [1, 2, 3, 4]),
     RUser = Some (sample_user 7 [97])\<rparr>"

text \<open>A protobuf codec of the flow alone, with the tag and the length in front.\<close>

definition sample_marshal :: "Addons \<Rightarrow> go_error + byte list" where
  "sample_marshal ad = Inr ([10, of_nat (length (AFlow ad))] @ AFlow ad)"

definition sample_unmarshal :: "byte list \<Rightarrow> go_error + Addons" where
  "sample_unmarshal bs = Inr \<lparr>AFlow = drop 2 bs, Seed = []\<rparr>"

theorem vless_request_roundtrip_witness:
  "\<exists>w r'. EncodeRequestHeader sample_marshal [] list_writer sample_request \<lparr>AFlow = XRV, Seed = []\<rparr> [] = Some (None, w) \<and>
     DecodeRequestHeader sample_unmarshal [] None (\<lambda>i. if i = replicate 16 7 then Some (sample_user 7 [97]) else None) [w @ [9]] =
       Some ((Inr (sample_request, \<lparr>AFlow = XRV, Seed = []\<rparr>), False), r') \<and> concat r' = [9]"
proof -
  let ?ad = "\<lparr>AFlow = XRV, Seed = []\<rparr>" and ?get = "\<lambda>i. if i = replicate 16 7 then Some (sample_user 7 [97]) else None"
  have "request_ok sample_request"
    by (simp add: request_ok_def sample_request_def sample_user_def command_defs wire_addr_def)
  moreover have "codec_ok sample_marshal sample_unmarshal ?ad"
    by (simp add: codec_ok_def sample_marshal_def sample_unmarshal_def XRV_def bytes_of_def)
  moreover have "?get (request_id sample_request) = RUser sample_request"
    by (simp add: request_id_def sample_request_def sample_user_def)
  ultimately obtain w where w: "EncodeRequestHeader sample_marshal [] list_writer sample_request ?ad [] = Some (None, w)"
    "\<forall>r rest. concat r = w @ rest \<longrightarrow> (\<exists>r'. DecodeRequestHeader sample_unmarshal [] None ?get r =
        Some ((Inr (request_received sample_request, addons_received ?ad), False), r') \<and> concat r' = rest)"
    using vless_request_roundtrip [of sample_request ?ad sample_marshal sample_unmarshal "[]" ?get] by auto
  moreover have "request_received sample_request = sample_request" "addons_received ?ad = ?ad"
    by (simp_all add: request_received_def sample_request_def addons_received_def command_defs)
  moreover have "concat [w @ [9]] = w @ [9]" by simp
  ultimately show ?thesis by metis
qed

text \<open>
  A VLESS response header survives the wire: the client gets the addons of a vision flow and
  the body that follows.
\<close>

theorem vless_response_roundtrip:
  assumes "AFlow addons = XRV \<longrightarrow> codec_ok marshal unmarshal addons" "length a < 2 ^ 31"
  shows "\<exists>w. EncodeResponseHeader marshal a list_writer req addons [] = Some (None, w) \<and>
     (\<forall>r rest. concat r = w @ rest \<longrightarrow>
        (\<exists>r'. DecodeResponseHeader unmarshal a req r = Some (Inr (addons_received addons), r') \<and> concat r' = rest))"
proof -
  let ?w = "[Version req] @ addons_bytes marshal addons"
  have "buf_out.puts (\<lambda>b. write_then (or_fail ''failed to write response version'' (byte_writer (Version req) b))
      (\<lambda>b. or_fail ''failed to encode response header addons'' (EncodeHeaderAddons marshal addons b))) ?w"
    by (intro buf_out.puts_then puts_or_fail puts_byte_writer EncodeHeaderAddons_puts(1) [OF assms(1)])
  from buf_out.puts_emits [OF this, of "StackNew a"] obtain b where b:
    "write_then (or_fail ''failed to write response version'' (byte_writer (Version req) (StackNew a)))
      (\<lambda>b. or_fail ''failed to encode response header addons'' (EncodeHeaderAddons marshal addons b)) = Some (None, b)"
    "buf_wf b" "content b = ?w"
    using EncodeHeaderAddons_puts(2) [OF assms(1)] assms(2) by (auto simp: buf_out.emits_def Size_def)
  have "\<exists>r'. DecodeResponseHeader unmarshal a req r = Some (Inr (addons_received addons), r') \<and> concat r' = rest"
    if "concat r = ?w @ rest" for r rest
  proof -
    have r: "concat r = [Version req] @ addons_bytes marshal addons @ rest" using that by simp
    obtain b1 r1 where b1: "ReadFullFrom r (int (length [Version req])) (StackNew a) = Some (length [Version req], None, r1, b1)"
      "buf_wf b1" "vlen b1 = Size" "content b1 = [Version req]" "concat r1 = addons_bytes marshal addons @ rest"
      by (rule StackNew_read_ok [OF assms(2) r]) (simp add: Size_def)
    have "Byte 0 b1 = Some (Version req)" using Byte_nat [OF b1(2), of 0] b1(4) by simp
    moreover obtain b2 r2 where "DecodeHeaderAddons unmarshal b1 r1 = Some (Inr (addons_received addons), b2, r2)" "concat r2 = rest"
      by (rule DecodeHeaderAddons_ok [OF assms(1) b1(2,3,5)])
    ultimately show ?thesis using b1(1) by (auto simp: DecodeResponseHeader_def)
  qed
  moreover have "EncodeResponseHeader marshal a list_writer req addons [] = Some (None, ?w)"
    using b by (simp add: EncodeResponseHeader_def send_buffer_list)
  ultimately show ?thesis by blast
qed

theorem vless_response_roundtrip_witness:
  "\<exists>w r'. EncodeResponseHeader sample_marshal [] list_writer sample_request \<lparr>AFlow = [], Seed = []\<rparr> [] = Some (None, w) \<and>
     DecodeResponseHeader sample_unmarshal [] sample_request [w] = Some (Inr zero_Addons, r') \<and> concat r' = []"
proof -
  have "AFlow \<lparr>AFlow = [], Seed = []\<rparr> = XRV \<longrightarrow> codec_ok sample_marshal sample_unmarshal \<lparr>AFlow = [], Seed = []\<rparr>"
    "addons_received \<lparr>AFlow = [], Seed = []\<rparr> = zero_Addons"
    by (simp_all add: XRV_def bytes_of_def addons_received_def)
  moreover have "concat [w] = w @ []" for w :: "byte list" by simp
  ultimately show ?thesis
    using vless_response_roundtrip [of "\<lparr>AFlow = [], Seed = []\<rparr>" sample_marshal sample_unmarshal "[]" sample_request]
    by (metis list.size(3) zero_less_numeral zero_less_power)
qed

section \<open>Requests that are accepted\<close>

lemma byte_of_content: "buf_wf b \<Longrightarrow> length (content b) = 1 \<Longrightarrow> \<exists>x. Byte 0 b = Some x \<and> content b = [x]"
  using Byte_nat [of b 0] by (cases "content b") auto

lemma clear_read_parsed:
  assumes "buf_wf b" "vlen b = Size" "n \<le> Size"
    and ok: "\<And>b' r'. buf_wf b' \<Longrightarrow> vlen b' = Size \<Longrightarrow> length (content b') = n \<Longrightarrow> concat r = content b' @ concat r' \<Longrightarrow>
      parsed_ok b P (k b' r')"
  shows "parsed_ok b P (clear_read_then msg (int n) k b r)"
proof -
  have c: "buf_wf (buf_Clear b)" "n \<le> room (buf_Clear b)" using assms(1-3) by simp_all
  obtain xs e r' where f: "ReadFull n r = (xs, e, r')" by (cases "ReadFull n r") auto
  obtain b' where b': "ReadFullFrom r (int n) (buf_Clear b) = Some (length xs, e, r', b')" "buf_wf b'"
    "content b' = content (buf_Clear b) @ xs" "vlen b' = vlen (buf_Clear b)" by (rule ReadFullFrom_spec [OF c f])
  show ?thesis
  proof (cases e)
    case (Some x)
    then show ?thesis using b' by (simp add: clear_read_then_def parsed_ok_def)
  next
    case None
    have "parsed_ok b P (k b' r')"
      by (rule ok) (use b' assms(2) ReadFull_ok [OF f [unfolded None]] in auto)
    then show ?thesis using None b'(1) by (simp add: clear_read_then_def)
  qed
qed

lemma clear_read_parsed1:
  assumes "buf_wf b" "vlen b = Size"
    and "\<And>l b' r'. buf_wf b' \<Longrightarrow> vlen b' = Size \<Longrightarrow> Byte 0 b' = Some l \<Longrightarrow> concat r = l # concat r' \<Longrightarrow> parsed_ok b P (k b' r')"
  shows "parsed_ok b P (clear_read_then msg 1 k b r)"
proof -
  have "parsed_ok b P (clear_read_then msg (int 1) k b r)"
  proof (rule clear_read_parsed [OF assms(1,2)], goal_cases)
    case (2 b1 r1)
    then obtain l where "Byte 0 b1 = Some l" "content b1 = [l]" using byte_of_content by blast
    then show ?case using assms(3) [OF 2(1,2)] 2(4) by simp
  qed (simp add: Size_def)
  then show ?thesis by simp
qed

lemma DecodeHeaderAddons_total:
  assumes "buf_wf b" "vlen b = Size"
  shows "parsed_ok b (\<lambda>_. True) (DecodeHeaderAddons unmarshal b r)"
proof -
  have s: "unat l \<le> Size" for l :: byte
  proof -
    have "unat l < 256" using unsigned_less [of l] by simp
    then show ?thesis by (simp add: Size_def)
  qed
  show ?thesis
    unfolding DecodeHeaderAddons_def
  proof (rule clear_read_parsed1 [OF assms], goal_cases)
    case (1 l b1 r1)
    have "parsed_ok b1 (\<lambda>_. True) (clear_read_then ''failed to read addons protobuf value'' (int (unat l)) (\<lambda>b r. do {
              bs \<leftarrow> Bytes b;
              case unmarshal bs of
                Inl e \<Rightarrow> Some (Inl (ErrNew ''failed to unmarshal addons protobuf value''), b, r)
              | Inr addons \<Rightarrow> Some (Inr addons, b, r)
            }) b1 r1)"
      by (rule clear_read_parsed [OF 1(1,2) s]) (use 1 in \<open>auto simp: Bytes_content parsed_ok_def split: sum.split\<close>)
    then show ?case using 1 assms(2) by (simp add: parsed_ok_def)
  qed
qed

text \<open>What an accepted request has.\<close>

definition accepted :: "RequestHeader \<Rightarrow> bool" where
  "accepted req \<longleftrightarrow> (Command req = RequestCommandTCP \<or> Command req = RequestCommandUDP \<or> Command req = RequestCommandMux) \<and>
     (case RAddress req of None \<Rightarrow> False | Some x \<Rightarrow> address_wf x)"

lemma mux_cool_wf: "address_wf (domainAddress mux_cool)"
  by (simp add: mux_cool_def bytes_of_def)

lemma read_command_total:
  assumes "buf_wf b" "vlen b = Size" "RAddress req0 = None"
  shows "parsed_ok b (\<lambda>(req, ad). accepted req \<and> RUser req = RUser req0) (read_command req0 addons b r)"
proof -
  show ?thesis
    unfolding read_command_def
  proof (rule clear_read_parsed1 [OF assms(1,2)], goal_cases)
    case (1 l b1 r1)
    show ?case
    proof (cases "l = RequestCommandTCP \<or> l = RequestCommandUDP")
      case True
      then have "l \<noteq> RequestCommandMux" by (auto simp: command_defs)
      moreover have "parsed_ok b1 (\<lambda>(a, port). address_wf a) (ReadAddressPort mux_addrParser (Some b1) r1)"
        using ReadAddressPort_total [OF mux_parser_ok, of "Some b1" r1] 1 by simp
      then obtain res b2 r2 where r: "ReadAddressPort mux_addrParser (Some b1) r1 = Some (res, b2, r2)" "buf_wf b2" "vlen b2 = Size"
        "case res of Inl e \<Rightarrow> True | Inr (a, port) \<Rightarrow> address_wf a" unfolding parsed_ok_def 1(2) by blast
      ultimately show ?thesis
        using 1 assms True by (cases res) (auto simp: parsed_ok_def accepted_def vless_addrParser_eq)
    next
      case False
      then show ?thesis using 1 assms mux_cool_wf by (cases "l = RequestCommandMux") (auto simp: parsed_ok_def accepted_def)
    qed
  qed
qed

lemma decode_rest_total:
  assumes "buf_wf b" "vlen b = Size" "RAddress req0 = None" "RUser req0 = U"
  shows "\<exists>res r'. decode_rest unmarshal req0 b r = Some ((res, False), r') \<and>
    (case res of Inl e \<Rightarrow> True | Inr (req, ad) \<Rightarrow> accepted req \<and> RUser req = U)"
proof -
  obtain res b1 r1 where d: "DecodeHeaderAddons unmarshal b r = Some (res, b1, r1)" "buf_wf b1" "vlen b1 = Size"
    using DecodeHeaderAddons_total [OF assms(1,2), of unmarshal r] unfolding parsed_ok_def assms(2) by blast
  show ?thesis
  proof (cases res)
    case (Inl e)
    then show ?thesis using d by (simp add: decode_rest_def)
  next
    case (Inr ad)
    obtain res2 b2 r2 where "read_command req0 ad b1 r1 = Some (res2, b2, r2)"
      "case res2 of Inl e \<Rightarrow> True | Inr (req, ad) \<Rightarrow> accepted req \<and> RUser req = U"
      using read_command_total [OF d(2,3) assms(3), of ad r1] unfolding parsed_ok_def assms(4) by blast
    then show ?thesis using d(1) Inr by (simp add: decode_rest_def)
  qed
qed



section \<open>Packets survive the stream\<close>

text \<open>The packets that \<^verbatim>\<open>MultiLengthPacketWriter\<close> sends; it skips the others.\<close>

definition sendable_packet :: "buffer \<Rightarrow> bool" where
  "sendable_packet b \<longleftrightarrow> content b \<noteq> [] \<and> length (content b) + 2 \<le> Size"

definition length_prefixed :: "byte list \<Rightarrow> byte list" where
  "length_prefixed xs = PutUint16 (of_nat (length xs)) @ xs"

lemma PutUint16_bytes:
  assumes "l < 65536"
  shows "PutUint16 (of_nat l) = [of_int (int l div 256), of_int (int l)]"
proof -
  have "unat (of_nat l :: u16) = l" using assms by (simp add: unat_of_nat)
  then have u: "uint (of_nat l :: u16) = int l" by (metis uint_nat)
  then have "uint (drop_bit 8 (of_nat l :: u16)) = int l div 256" by (simp add: unsigned_drop_bit_eq drop_bit_eq_div uint_div_distrib)
  then have "(ucast (drop_bit 8 (of_nat l :: u16)) :: byte) = of_int (int l div 256)" by (metis word_of_int_uint ucast_eq)
  moreover have "(ucast (of_nat l :: u16) :: byte) = of_int (int l)" using u by (metis ucast_eq)
  ultimately show ?thesis by (simp add: PutUint16_def)
qed

lemma length_frame_ok:
  assumes "buf_wf b" "sendable_packet b"
  obtains eb where "length_frame b = Some (None, eb)" "buf_wf eb" "content eb = length_prefixed (content b)"
proof -
  let ?l = "length (content b)"
  have l: "?l + 2 \<le> Size" "buf_Len b = int ?l" using assms by (simp_all add: sendable_packet_def)
  have "buf_out.puts (\<lambda>eb. write_then (byte_writer (of_int (int ?l div 256)) eb) (\<lambda>eb.
      write_then (byte_writer (of_int (int ?l)) eb) (buf_writer (content b))))
    ([of_int (int ?l div 256)] @ [of_int (int ?l)] @ content b)"
    by (intro buf_out.puts_then puts_byte_writer buf_out.puts_wr)
  from buf_out.puts_emits [OF this, of New]
  have "buf_out.emits (length_frame b) ([of_int (int ?l div 256)] @ [of_int (int ?l)] @ content b) 0 New"
    using l assms(1) New_facts by (simp add: length_frame_def Bytes_content Let_def)
  moreover have "length_prefixed (content b) = [of_int (int ?l div 256)] @ [of_int (int ?l)] @ content b"
    using PutUint16_bytes [of ?l] l(1) by (simp add: length_prefixed_def Size_def)
  ultimately show thesis using that New_facts by (auto simp: buf_out.emits_def)
qed

lemma length_frames_ok:
  "mb_wf mb \<Longrightarrow> list_all (\<lambda>b. length (content b) < 2 ^ 30) mb \<Longrightarrow> \<exists>mb2. length_frames mb = Some mb2 \<and> mb_wf mb2 \<and>
     mb_content mb2 = concat (map (length_prefixed \<circ> content) (filter sendable_packet mb)) \<and>
     (mb_IsEmpty mb2 \<longleftrightarrow> filter sendable_packet mb = [])"
proof (induction mb)
  case (Cons b mb)
  obtain mb2 where m: "length_frames mb = Some mb2" "mb_wf mb2"
    "mb_content mb2 = concat (map (length_prefixed \<circ> content) (filter sendable_packet mb))"
    "mb_IsEmpty mb2 \<longleftrightarrow> filter sendable_packet mb = []" using Cons by (metis list.pred_inject(2) mb_wf_def)
  have wf: "buf_wf b" using Cons.prems by (simp add: mb_wf_def)
  have len: "buf_Len b = int (length (content b))" "length (content b) < 2 ^ 30" using wf Cons.prems by simp_all
  show ?case
  proof (cases "sendable_packet b")
    case True
    obtain eb where eb: "length_frame b = Some (None, eb)" "buf_wf eb" "content eb = length_prefixed (content b)"
      by (rule length_frame_ok [OF wf True])
    have "i32 (buf_Len b + 2) = buf_Len b + 2" using len by (intro i32_id) simp_all
    then have "\<not> (buf_Len b = 0 \<or> i32 (buf_Len b + 2) > int Size)" using True len by (auto simp: sendable_packet_def)
    moreover have "content eb \<noteq> []" using eb(3) True by (simp add: length_prefixed_def sendable_packet_def)
    ultimately show ?thesis using True m eb by (simp add: mb_wf_def comp_def)
  next
    case False
    have "buf_Len b = 0 \<or> i32 (buf_Len b + 2) > int Size"
      using False len i32_id [of "buf_Len b + 2"] by (auto simp: sendable_packet_def)
    then show ?thesis using False m by (simp add: comp_def)
  qed
qed (simp add: mb_wf_def mb_content_def)

lemma length_loop_ok:
  assumes "concat r = xs @ rest" "length xs \<le> Size" "xs \<noteq> []"
  obtains b r' where "length_loop (length xs) [] r = Some (Inr [b], r')" "buf_wf b" "content b = xs" "concat r' = rest"
proof -
  obtain r' where r': "ReadFull (length xs) r = (xs, None, r')" "concat r' = rest"
    using ReadFull_enough [of "length xs" r] assms(1) by auto
  have "length xs \<le> room New" using assms(2) by simp
  then obtain b where b: "ReadFullFrom r (int (length xs)) New = Some (length xs, None, r', b)" "buf_wf b" "content b = content New @ xs"
    by (rule ReadFullFrom_spec [OF New_facts(1) _ r'(1)])
  have "length_loop (length xs) [] r = Some (Inr [b], r')"
    using assms(2,3) b(1) by (simp add: length_loop.simps [of "length xs"] length_loop.simps [of 0] Let_def min_absorb2)
  then show thesis using that b(2,3) r'(2) by simp
qed

lemma LengthPacketReader_ok:
  assumes "concat r = length_prefixed xs @ rest" "length xs \<le> Size" "xs \<noteq> []"
  obtains b r' where "LengthPacketReader_ReadMultiBuffer r = Some (Inr [b], r')" "buf_wf b" "content b = xs" "concat r' = rest"
proof -
  let ?l = "PutUint16 (of_nat (length xs))"
  have u: "unat (of_nat (length xs) :: u16) = length xs" using assms(2) by (simp add: unat_of_nat Size_def)
  have "concat r = ?l @ xs @ rest" using assms(1) by (simp add: length_prefixed_def)
  then obtain r1 where r1: "ReadFull 2 r = (?l, None, r1)" "concat r1 = xs @ rest" using ReadFull_enough [of 2 r] by auto
  have "Uint16 ?l = Some (of_nat (length xs))" using Uint16_PutUint16 [of "of_nat (length xs)" "[]"] by simp
  then have "LengthPacketReader_ReadMultiBuffer r = length_loop (length xs) [] r1"
    using r1(1) u by (simp add: LengthPacketReader_ReadMultiBuffer_def full_then_def)
  then show thesis using length_loop_ok [OF r1(2) assms(2,3)] that by metis
qed

text \<open>The reader called again and again; \<open>read_packets\<close> stops at the first error.\<close>

fun read_packets :: "nat \<Rightarrow> reader \<Rightarrow> MultiBuffer list \<times> reader" where
  "read_packets 0 r = ([], r)"
| "read_packets (Suc n) r =
     (case LengthPacketReader_ReadMultiBuffer r of
        Some (Inr mb, r') \<Rightarrow> (case read_packets n r' of (mbs, r'') \<Rightarrow> (mb # mbs, r''))
      | _ \<Rightarrow> ([], r))"

lemma read_packets_ok:
  "list_all (\<lambda>xs. xs \<noteq> [] \<and> length xs \<le> Size) ps \<Longrightarrow> concat r = concat (map length_prefixed ps) @ rest \<Longrightarrow>
   \<exists>mbs r'. read_packets (length ps) r = (mbs, r') \<and> map mb_content mbs = ps \<and> concat r' = rest"
proof (induction ps arbitrary: r)
  case (Cons p ps)
  have p: "concat r = length_prefixed p @ concat (map length_prefixed ps) @ rest" "length p \<le> Size" "p \<noteq> []"
    using Cons.prems by simp_all
  obtain b r1 where b: "LengthPacketReader_ReadMultiBuffer r = Some (Inr [b], r1)" "content b = p"
    "concat r1 = concat (map length_prefixed ps) @ rest" by (rule LengthPacketReader_ok [OF p])
  moreover obtain mbs r2 where "read_packets (length ps) r1 = (mbs, r2)" "map mb_content mbs = ps" "concat r2 = rest"
    using Cons.IH [OF _ b(3)] Cons.prems(1) by auto
  moreover have "mb_content [b] = p" using b(2) by (simp add: mb_content_def)
  ultimately show ?case by simp
qed simp

text \<open>
  C20: UDP packets of a VLESS connection keep their boundaries: of the buffers that
  \<^verbatim>\<open>MultiLengthPacketWriter\<close> gets, those with 1 to 8190 bytes are sent in order in one write,
  the others are skipped, and \<^verbatim>\<open>LengthPacketReader\<close> returns exactly the sent ones, one per call,
  however the stream is cut.
\<close>

theorem vless_packets_roundtrip:
  assumes "mb_wf mb" "list_all (\<lambda>b. length (content b) < 2 ^ 30) mb"
  defines "sent \<equiv> map content (filter sendable_packet mb)"
  shows "\<exists>out. MultiLengthPacketWriter_WriteMultiBuffer mb_writer mb [] = Some (None, out) \<and>
     (\<forall>r rest. concat r = concat out @ rest \<longrightarrow>
        (\<exists>mbs r'. read_packets (length sent) r = (mbs, r') \<and> map mb_content mbs = sent \<and> concat r' = rest))"
proof -
  obtain mb2 where m: "length_frames mb = Some mb2" "mb_content mb2 = concat (map (length_prefixed \<circ> content) (filter sendable_packet mb))"
    "mb_IsEmpty mb2 \<longleftrightarrow> filter sendable_packet mb = []" using length_frames_ok [OF assms(1,2)] by blast
  define out where "out = (if filter sendable_packet mb = [] then [] else [mb_content mb2])"
  have "MultiLengthPacketWriter_WriteMultiBuffer mb_writer mb [] = Some (None, out)"
    using m by (simp add: MultiLengthPacketWriter_WriteMultiBuffer_def mb_writer_def out_def)
  moreover have "concat out = concat (map length_prefixed sent)" using m(2) by (simp add: out_def sent_def)
  moreover have "list_all (\<lambda>xs. xs \<noteq> [] \<and> length xs \<le> Size) sent"
    by (auto simp: sent_def list_all_iff sendable_packet_def)
  ultimately show ?thesis using read_packets_ok [of sent] by (intro exI [of _ out]) simp
qed

theorem vless_packets_roundtrip_witness:
  "\<exists>out mbs r'. MultiLengthPacketWriter_WriteMultiBuffer mb_writer [FromBytes [1, 2], FromBytes [], FromBytes [3]] [] = Some (None, out) \<and>
     read_packets 2 [concat out] = (mbs, r') \<and> map mb_content mbs = [[1, 2], [3]] \<and> concat r' = []"
proof -
  let ?mb = "[FromBytes [1, 2], FromBytes [], FromBytes [3]]"
  have fb: "buf_wf (FromBytes bs)" "content (FromBytes bs) = bs" if "length bs < 3" for bs
    using FromBytes_facts [of bs] that by simp_all
  have "mb_wf ?mb" "list_all (\<lambda>b. length (content b) < 2 ^ 30) ?mb" by (simp_all add: mb_wf_def fb)
  from vless_packets_roundtrip [OF this] obtain out where o: "MultiLengthPacketWriter_WriteMultiBuffer mb_writer ?mb [] = Some (None, out)"
    "\<forall>r rest. concat r = concat out @ rest \<longrightarrow>
        (\<exists>mbs r'. read_packets (length (map content (filter sendable_packet ?mb))) r = (mbs, r') \<and>
           map mb_content mbs = map content (filter sendable_packet ?mb) \<and> concat r' = rest)" by blast
  moreover have "map content (filter sendable_packet ?mb) = [[1, 2], [3]]" by (simp add: sendable_packet_def fb Size_def)
  moreover have "concat [concat out] = concat out @ []" by simp
  ultimately show ?thesis by (metis (no_types, lifting) One_nat_def Suc_1 length_Cons list.size(3))
qed

end
