(* ===== verification/Buffered_Reader.thy ===== *)
theory Buffered_Reader
  imports Mux_Frame
begin

text \<open>
  \<^verbatim>\<open>common/buf/reader.go\<close>, \<^verbatim>\<open>common/buf/copy.go\<close> and the plain part of
  \<^verbatim>\<open>common/crypto/chunk.go\<close>: readers that keep what they have not handed out yet, the copy loop,
  and streams of chunks with their length in front. The reader below a \<^verbatim>\<open>BufferedReader\<close> is the
  list of the multi-buffers that its calls return, followed by \<^verbatim>\<open>io.EOF\<close>.
\<close>

section \<open>\<^verbatim>\<open>BufferedReader\<close>\<close>

record BufferedReader =
  brReader :: "MultiBuffer list"
  brBuffer :: MultiBuffer

definition BufferedBytes :: "BufferedReader \<Rightarrow> int" where
  "BufferedBytes r = mb_Len (brBuffer r)"

definition below_ReadMultiBuffer :: "BufferedReader \<Rightarrow> MultiBuffer \<times> go_error option \<times> BufferedReader" where
  "below_ReadMultiBuffer r = (case brReader r of [] \<Rightarrow> ([], Some EOF, r) | mb # rs \<Rightarrow> (mb, None, r\<lparr>brReader := rs\<rparr>))"

text \<open>\<^verbatim>\<open>Read\<close> into a slice of \<open>n\<close> bytes; \<open>sp\<close> is the splitter, \<^verbatim>\<open>SplitBytes\<close> by default.\<close>

definition br_Read_with ::
  "(MultiBuffer \<Rightarrow> nat \<Rightarrow> (MultiBuffer \<times> byte list) option) \<Rightarrow> nat \<Rightarrow> BufferedReader \<Rightarrow> (byte list \<times> go_error option \<times> BufferedReader) option" where
  "br_Read_with sp n r =
     (if \<not> mb_IsEmpty (brBuffer r)
      then do {
        (buffer, xs) \<leftarrow> sp (brBuffer r) n;
        Some (xs, None, r\<lparr>brBuffer := (if mb_IsEmpty buffer then [] else buffer)\<rparr>)
      }
      else case below_ReadMultiBuffer r of
             (mb, Some e, r') \<Rightarrow> Some ([], Some e, r')
           | (mb, None, r') \<Rightarrow> do {
               (mb', xs) \<leftarrow> sp mb n;
               Some (xs, None, if \<not> mb_IsEmpty mb' then r'\<lparr>brBuffer := mb'\<rparr> else r')
             })"

definition br_Read :: "nat \<Rightarrow> BufferedReader \<Rightarrow> (byte list \<times> go_error option \<times> BufferedReader) option" where
  "br_Read = br_Read_with SplitBytes"

definition br_ReadByte :: "BufferedReader \<Rightarrow> (byte \<times> go_error option \<times> BufferedReader) option" where
  "br_ReadByte r = do { (xs, e, r') \<leftarrow> br_Read 1 r; Some (if xs = [] then 0 else hd xs, e, r') }"

definition br_ReadMultiBuffer :: "BufferedReader \<Rightarrow> MultiBuffer \<times> go_error option \<times> BufferedReader" where
  "br_ReadMultiBuffer r =
     (if \<not> mb_IsEmpty (brBuffer r) then (brBuffer r, None, r\<lparr>brBuffer := []\<rparr>) else below_ReadMultiBuffer r)"

definition ReadAtMost :: "int \<Rightarrow> BufferedReader \<Rightarrow> (MultiBuffer \<times> go_error option \<times> BufferedReader) option" where
  "ReadAtMost sz r =
     (let (mb, e, r1) = (if mb_IsEmpty (brBuffer r) then below_ReadMultiBuffer r else (brBuffer r, None, r))
      in if mb_IsEmpty (brBuffer r) \<and> mb_IsEmpty mb \<and> e \<noteq> None then Some ([], e, r1)
         else do {
           (rb, out) \<leftarrow> SplitSize mb sz;
           Some (out, None, r1\<lparr>brBuffer := (if mb_IsEmpty rb then [] else rb)\<rparr>)
         })"

text \<open>\<^verbatim>\<open>io.ReadFull\<close> of a \<^verbatim>\<open>BufferedReader\<close> and the calls built on it.\<close>

partial_function (option) br_ReadFull :: "nat \<Rightarrow> BufferedReader \<Rightarrow> (byte list \<times> go_error option \<times> BufferedReader) option" where
  "br_ReadFull n r =
     (if n = 0 then Some ([], None, r)
      else Option.bind (br_Read n r) (\<lambda>(xs, e, r').
        case e of
          Some err \<Rightarrow> Some (xs, Some err, r')
        | None \<Rightarrow> Option.bind (br_ReadFull (n - length xs) r') (\<lambda>(ys, e', r''). Some (xs @ ys, short_read xs e', r''))))"

definition br_ReadUint16 :: "BufferedReader \<Rightarrow> ((go_error + u16) \<times> BufferedReader) option" where
  "br_ReadUint16 r = do {
     (b, e, r') \<leftarrow> br_ReadFull 2 r;
     case e of
       Some err \<Rightarrow> Some (Inl err, r')
     | None \<Rightarrow> (case Uint16 b of Some w \<Rightarrow> Some (Inr w, r') | None \<Rightarrow> None)
   }"

definition br_ReadFullFrom :: "BufferedReader \<Rightarrow> int \<Rightarrow> buffer \<Rightarrow> (nat \<times> go_error option \<times> BufferedReader \<times> buffer) option" where
  "br_ReadFullFrom r sz b =
     (let e = i32 (buf_end b + sz)
      in if e > i32 (int (vlen b)) then Some (0, Some (ErrNew ''out of bound: ''), r, b)
         else do {
           dst \<leftarrow> slice_expr (arr b) (buf_end b) e;
           (xs, err, r') \<leftarrow> br_ReadFull (length dst) r;
           Some (length xs, err, r', (buf_put (nat (buf_end b)) xs b)\<lparr>buf_end := i32 (buf_end b + int (length xs))\<rparr>)
         })"

section \<open>The other readers of the file\<close>

definition ReadBuffer :: "reader \<Rightarrow> (buffer option \<times> go_error option \<times> reader) option" where
  "ReadBuffer r = do { (n, e, r', b) \<leftarrow> ReadFrom r New; Some (if n > 0 then Some b else None, e, r') }"

fun read_one_udp :: "nat \<Rightarrow> buffer \<Rightarrow> reader \<Rightarrow> ((go_error + buffer) \<times> reader) option" where
  "read_one_udp 0 b r = Some (Inl (ErrNew ''Reader returns too many empty payloads.''), r)"
| "read_one_udp (Suc i) b r = do {
     (n, e, r', b') \<leftarrow> ReadFrom r b;
     if \<not> buf_IsEmpty b' then Some (Inr b', r')
     else case e of Some err \<Rightarrow> Some (Inl err, r') | None \<Rightarrow> read_one_udp i b' r'
   }"

definition readOneUDP :: "reader \<Rightarrow> ((go_error + buffer) \<times> reader) option" where
  "readOneUDP = read_one_udp 64 New"

definition buf_PacketReader_ReadMultiBuffer :: "reader \<Rightarrow> (MultiBuffer \<times> go_error option \<times> reader) option" where
  "buf_PacketReader_ReadMultiBuffer r = do {
     (res, r') \<leftarrow> readOneUDP r;
     case res of Inl e \<Rightarrow> Some ([], Some e, r') | Inr b \<Rightarrow> Some ([b], None, r')
   }"

section \<open>Copying\<close>

datatype copy_error = readError go_error | writeError go_error

fun copy_cause :: "copy_error \<Rightarrow> go_error" where
  "copy_cause (readError e) = e"
| "copy_cause (writeError e) = e"

fun IsReadError :: "copy_error \<Rightarrow> bool" where
  "IsReadError (readError e) \<longleftrightarrow> True"
| "IsReadError (writeError e) \<longleftrightarrow> False"

fun IsWriteError :: "copy_error \<Rightarrow> bool" where
  "IsWriteError (writeError e) \<longleftrightarrow> True"
| "IsWriteError (readError e) \<longleftrightarrow> False"

text \<open>
  \<open>rd\<close> is \<^verbatim>\<open>ReadMultiBuffer\<close> of the source, \<open>wm\<close> is \<^verbatim>\<open>WriteMultiBuffer\<close> of the target and
  \<open>on\<close> are the handlers of the copy options, run on what is copied.
\<close>

partial_function (option) copyInternal ::
  "('s \<Rightarrow> (MultiBuffer \<times> go_error option \<times> 's) option) \<Rightarrow> (MultiBuffer \<Rightarrow> 'w \<Rightarrow> 'w written) \<Rightarrow> (MultiBuffer \<Rightarrow> 'h \<Rightarrow> 'h) \<Rightarrow>
   's \<Rightarrow> 'w \<Rightarrow> 'h \<Rightarrow> (copy_error \<times> 's \<times> 'w \<times> 'h) option" where
  "copyInternal rd wm on s w h =
     Option.bind (rd s) (\<lambda>(mb, e, s').
       if mb_IsEmpty mb
       then (case e of Some err \<Rightarrow> Some (readError err, s', w, h) | None \<Rightarrow> copyInternal rd wm on s' w h)
       else Option.bind (wm mb w) (\<lambda>(we, w').
         case we of
           Some err \<Rightarrow> Some (writeError err, s', w', on mb h)
         | None \<Rightarrow> (case e of Some err \<Rightarrow> Some (readError err, s', w', on mb h) | None \<Rightarrow> copyInternal rd wm on s' w' (on mb h))))"

definition Copy ::
  "('s \<Rightarrow> (MultiBuffer \<times> go_error option \<times> 's) option) \<Rightarrow> (MultiBuffer \<Rightarrow> 'w \<Rightarrow> 'w written) \<Rightarrow> (MultiBuffer \<Rightarrow> 'h \<Rightarrow> 'h) \<Rightarrow>
   's \<Rightarrow> 'w \<Rightarrow> 'h \<Rightarrow> (copy_error option \<times> 's \<times> 'w \<times> 'h) option" where
  "Copy rd wm on s w h =
     map_option (\<lambda>(e, s', w', h'). (if copy_cause e \<noteq> EOF then Some e else None, s', w', h')) (copyInternal rd wm on s w h)"

text \<open>\<^verbatim>\<open>CountSize\<close>: the handler that adds up an \<^verbatim>\<open>int64\<close>; no wrap-around is reached by \<^verbatim>\<open>int32\<close> lengths in the model's lists.\<close>

definition CountSize :: "MultiBuffer \<Rightarrow> int \<Rightarrow> int" where
  "CountSize mb sz = sz + mb_Len mb"

text \<open>\<^verbatim>\<open>BufferedReader.WriteTo\<close>: what is buffered first, then the reader below; a nil buffer is the empty list.\<close>

definition below_read :: "BufferedReader \<Rightarrow> (MultiBuffer \<times> go_error option \<times> BufferedReader) option" where
  "below_read r = Some (below_ReadMultiBuffer r)"

definition writeToInternal ::
  "(MultiBuffer \<Rightarrow> 'w \<Rightarrow> 'w written) \<Rightarrow> BufferedReader \<Rightarrow> 'w \<Rightarrow> (int \<times> go_error option \<times> BufferedReader \<times> 'w) option" where
  "writeToInternal wm r w =
     (let copy = (\<lambda>sz r w. map_option (\<lambda>(e, r', w', sz'). (sz', map_option copy_cause e, r', w')) (Copy below_read wm CountSize r w sz))
      in if brBuffer r = [] then copy 0 r w
         else do {
           (e, w1) \<leftarrow> wm (brBuffer r) w;
           case e of
             Some err \<Rightarrow> Some (0, Some err, r, w1)
           | None \<Rightarrow> copy (mb_Len (brBuffer r)) (r\<lparr>brBuffer := []\<rparr>) w1
         })"

definition br_WriteTo ::
  "(MultiBuffer \<Rightarrow> 'w \<Rightarrow> 'w written) \<Rightarrow> BufferedReader \<Rightarrow> 'w \<Rightarrow> (int \<times> go_error option \<times> BufferedReader \<times> 'w) option" where
  "br_WriteTo wm r w = map_option (\<lambda>(n, e, r', w'). (n, if e = Some EOF then None else e, r', w')) (writeToInternal wm r w)"

section \<open>Chunks\<close>

record ChunkStreamReader =
  csBytes :: nat
  leftOverSize :: int
  maxNumChunk :: u32
  numChunk :: u32

text \<open>\<open>dec\<close> is \<^verbatim>\<open>Decode\<close> of the size decoder.\<close>

definition NewChunkStreamReaderWithChunkCount :: "nat \<Rightarrow> u32 \<Rightarrow> ChunkStreamReader" where
  "NewChunkStreamReaderWithChunkCount n m = \<lparr>csBytes = n, leftOverSize = 0, maxNumChunk = m, numChunk = 0\<rparr>"

definition Plain_SizeBytes :: nat where "Plain_SizeBytes = 2"

definition Plain_Encode :: "u16 \<Rightarrow> byte list" where
  "Plain_Encode sz = PutUint16 sz"

definition Plain_Decode :: "byte list \<Rightarrow> (go_error + u16) option" where
  "Plain_Decode b = map_option Inr (Uint16 b)"

definition readSize ::
  "(byte list \<Rightarrow> (go_error + u16) option) \<Rightarrow> ChunkStreamReader \<Rightarrow> BufferedReader \<Rightarrow> ((go_error + u16) \<times> BufferedReader) option" where
  "readSize dec c r = do {
     (b, e, r') \<leftarrow> br_ReadFull (csBytes c) r;
     case e of Some err \<Rightarrow> Some (Inl err, r') | None \<Rightarrow> map_option (\<lambda>res. (res, r')) (dec b)
   }"

text \<open>The chunk that is open, or the next one; the left result ends the call.\<close>

definition next_chunk_size ::
  "(byte list \<Rightarrow> (go_error + u16) option) \<Rightarrow> ChunkStreamReader \<Rightarrow> BufferedReader \<Rightarrow> ((go_error + int) \<times> ChunkStreamReader \<times> BufferedReader) option" where
  "next_chunk_size dec c r =
     (if leftOverSize c = 0
      then let c1 = c\<lparr>numChunk := numChunk c + 1\<rparr>
           in if maxNumChunk c > 0 \<and> numChunk c1 > maxNumChunk c then Some (Inl EOF, c1, r)
              else (case readSize dec c1 r of
                      None \<Rightarrow> None
                    | Some (Inl e, r') \<Rightarrow> Some (Inl e, c1, r')
                    | Some (Inr nextSize, r') \<Rightarrow> if nextSize = 0 then Some (Inl EOF, c1, r') else Some (Inr (uint nextSize), c1, r'))
      else Some (Inr (leftOverSize c), c, r))"

definition cs_ReadMultiBuffer ::
  "(byte list \<Rightarrow> (go_error + u16) option) \<Rightarrow> ChunkStreamReader \<times> BufferedReader \<Rightarrow>
   (MultiBuffer \<times> go_error option \<times> ChunkStreamReader \<times> BufferedReader) option" where
  "cs_ReadMultiBuffer dec s =
     (case next_chunk_size dec (fst s) (snd s) of
        None \<Rightarrow> None
      | Some (Inl e, c, r) \<Rightarrow> Some ([], Some e, c, r)
      | Some (Inr sz, c, r) \<Rightarrow> do {
          (mb, e, r') \<leftarrow> ReadAtMost sz r;
          if \<not> mb_IsEmpty mb then Some (mb, None, c\<lparr>leftOverSize := i32 (sz - mb_Len mb)\<rparr>, r')
          else Some ([], e, c\<lparr>leftOverSize := sz\<rparr>, r')
        })"

definition NewStreamReader :: "BufferedReader \<Rightarrow> ChunkStreamReader \<times> BufferedReader" where
  "NewStreamReader r = (NewChunkStreamReaderWithChunkCount Plain_SizeBytes 1, r)"

partial_function (option) chunk_frames :: "MultiBuffer \<Rightarrow> MultiBuffer option" where
  "chunk_frames mb =
     Option.bind (SplitSize mb 8192) (\<lambda>(rest, slice).
       Option.bind (Extend 2 New) (\<lambda>(b, lo, hi).
         let b' = buf_put lo (Plain_Encode (of_int (mb_Len slice))) b
         in if mb_IsEmpty rest then Some (b' # slice) else Option.bind (chunk_frames rest) (\<lambda>fs. Some (b' # slice @ fs))))"

definition ChunkStreamWriter_WriteMultiBuffer :: "(MultiBuffer \<Rightarrow> 'w \<Rightarrow> 'w written) \<Rightarrow> MultiBuffer \<Rightarrow> 'w \<Rightarrow> 'w written" where
  "ChunkStreamWriter_WriteMultiBuffer wm mb w = do { fs \<leftarrow> chunk_frames mb; wm fs w }"

section \<open>A buffered reader is a reader\<close>

definition br_wf :: "BufferedReader \<Rightarrow> bool" where
  "br_wf r \<longleftrightarrow> mb_wf (brBuffer r) \<and> list_all mb_wf (brReader r)"

text \<open>The chunks that the successive calls of \<^verbatim>\<open>Read\<close> deliver.\<close>

definition br_chunks :: "BufferedReader \<Rightarrow> reader" where
  "br_chunks r = (if mb_content (brBuffer r) = [] then [] else [mb_content (brBuffer r)]) @ map mb_content (brReader r)"

definition br_content :: "BufferedReader \<Rightarrow> byte list" where
  "br_content r = concat (br_chunks r)"

lemma br_content_eq: "br_content r = mb_content (brBuffer r) @ concat (map mb_content (brReader r))"
  by (simp add: br_content_def br_chunks_def)

lemma br_Read_sim:
  assumes "br_wf r"
  shows "\<exists>xs e r'. br_Read n r = Some (xs, e, r') \<and> br_wf r' \<and> reader_Read n (br_chunks r) = (xs, e, br_chunks r')"
proof (cases "mb_content (brBuffer r) = []")
  case False
  have wf: "mb_wf (brBuffer r)" using assms by (simp add: br_wf_def)
  obtain mb' where m: "SplitBytes (brBuffer r) n = Some (mb', take n (mb_content (brBuffer r)))" "mb_wf mb'"
    "mb_content mb' = drop n (mb_content (brBuffer r))" using SplitBytes_spec [OF wf, of n] by blast
  show ?thesis using assms False wf m by (auto simp: br_Read_def br_Read_with_def br_wf_def br_chunks_def)
next
  case True
  have wf: "mb_wf (brBuffer r)" using assms by (simp add: br_wf_def)
  show ?thesis
  proof (cases "brReader r")
    case Nil
    then show ?thesis using assms True wf by (simp add: br_Read_def br_Read_with_def below_ReadMultiBuffer_def br_chunks_def)
  next
    case (Cons mb rs)
    then have "mb_wf mb" using assms by (simp add: br_wf_def)
    from SplitBytes_spec [OF this, of n] obtain mb' where m: "SplitBytes mb n = Some (mb', take n (mb_content mb))" "mb_wf mb'"
      "mb_content mb' = drop n (mb_content mb)" by blast
    show ?thesis using assms True wf Cons m
      by (auto simp: br_Read_def br_Read_with_def below_ReadMultiBuffer_def br_wf_def br_chunks_def)
  qed
qed

lemma br_ReadFull_sim:
  "br_wf r \<Longrightarrow> \<exists>xs e r'. br_ReadFull n r = Some (xs, e, r') \<and> br_wf r' \<and> ReadFull n (br_chunks r) = (xs, e, br_chunks r')"
proof (induction n "br_chunks r" arbitrary: r rule: ReadFull.induct)
  case (1 n)
  obtain xs e r' where r': "br_Read n r = Some (xs, e, r')" "br_wf r'" "reader_Read n [] = (xs, e, br_chunks r')"
    using br_Read_sim [OF 1(2), of n] unfolding 1(1) [symmetric] by blast
  then show ?case using 1(2) 1(1) [symmetric] by (cases "n = 0") (auto simp: br_ReadFull.simps [of n r] br_ReadFull.simps [of 0 r])
next
  case (2 n c cs)
  note ch = 2(2) [symmetric]
  show ?case
  proof (cases "n = 0")
    case True
    then show ?thesis using 2(3) ch by (simp add: br_ReadFull.simps [of 0 r])
  next
    case False
    obtain xs e r' where r': "br_Read n r = Some (xs, e, r')" "br_wf r'" "reader_Read n (c # cs) = (xs, e, br_chunks r')"
      using br_Read_sim [OF 2(3), of n] unfolding ch by blast
    show ?thesis
    proof (cases "length c \<le> n")
      case True
      then have x: "xs = c" "e = None" "br_chunks r' = cs" using r'(3) by auto
      obtain ys e' r'' where "br_ReadFull (n - length c) r' = Some (ys, e', r'')" "br_wf r''" "ReadFull (n - length c) cs = (ys, e', br_chunks r'')"
        using 2(1) [OF False True x(3) [symmetric] r'(2)] x(3) by auto
      then show ?thesis using True False r'(1) x ch by (simp add: br_ReadFull.simps [of n r])
    next
      case long: False
      then have "xs = take n c" "e = None" "br_chunks r' = drop n c # cs" using r'(3) by auto
      then show ?thesis using long False r'(1,2) ch by (simp add: br_ReadFull.simps [of n r] br_ReadFull.simps [of 0] short_read_def)
    qed
  qed
qed

text \<open>What holds of every reader holds of a buffered one: the calls built on \<^verbatim>\<open>Read\<close> agree as well.\<close>

lemma br_ReadUint16_sim:
  assumes "br_wf r"
  shows "\<exists>res r'. br_ReadUint16 r = Some (res, r') \<and> br_wf r' \<and> ReadUint16 (br_chunks r) = (res, br_chunks r')"
proof -
  obtain xs e r' where f: "br_ReadFull 2 r = Some (xs, e, r')" "br_wf r'" "ReadFull 2 (br_chunks r) = (xs, e, br_chunks r')"
    using br_ReadFull_sim [OF assms] by blast
  show ?thesis
  proof (cases e)
    case None
    then have "length xs = 2" using ReadFull_ok [of 2 "br_chunks r" xs "br_chunks r'"] f(3) by auto
    then obtain w where "Uint16 xs = Some w" using Uint16_Some [of xs] by auto
    then show ?thesis using f None by (simp add: br_ReadUint16_def ReadUint16_def)
  next
    case (Some err)
    then show ?thesis using f by (simp add: br_ReadUint16_def ReadUint16_def)
  qed
qed

lemma br_ReadFullFrom_sim:
  assumes "br_wf r" "ReadFullFrom (br_chunks r) sz b = Some (n, e, cs, b')"
  shows "\<exists>r'. br_ReadFullFrom r sz b = Some (n, e, r', b') \<and> br_wf r' \<and> br_chunks r' = cs"
proof (cases "i32 (buf_end b + sz) > i32 (int (vlen b))")
  case True
  then show ?thesis using assms by (simp add: br_ReadFullFrom_def ReadFullFrom_def)
next
  case False
  then obtain dst where dst: "slice_expr (arr b) (buf_end b) (i32 (buf_end b + sz)) = Some dst"
    using assms(2) by (auto simp: ReadFullFrom_def Let_def split: option.splits)
  obtain xs e' r' where "br_ReadFull (length dst) r = Some (xs, e', r')" "br_wf r'" "ReadFull (length dst) (br_chunks r) = (xs, e', br_chunks r')"
    using br_ReadFull_sim [OF assms(1)] by blast
  then show ?thesis using assms(2) False dst by (auto simp: br_ReadFullFrom_def ReadFullFrom_def)
qed

section \<open>Copying a chunk\<close>

text \<open>Multi-buffers whose buffers have at most the standard size.\<close>

definition std_mb :: "MultiBuffer \<Rightarrow> bool" where
  "std_mb mb \<longleftrightarrow> (\<forall>b\<in>set mb. buf_wf b \<and> length (content b) \<le> Size)"

lemma std_mb_simps [simp]:
  "std_mb []" "std_mb (b # mb) \<longleftrightarrow> buf_wf b \<and> length (content b) \<le> Size \<and> std_mb mb" "std_mb (xs @ ys) \<longleftrightarrow> std_mb xs \<and> std_mb ys"
  by (auto simp: std_mb_def)

lemma std_mb_wf: "std_mb mb \<Longrightarrow> mb_wf mb"
  by (simp add: std_mb_def mb_wf_def list_all_iff)

lemma SplitSize_progress:
  assumes "std_mb mb" "mb \<noteq> []" "0 < sz" "sz < 2 ^ 31" "length (mb_content mb) < 2 ^ 31"
  obtains rest r where "SplitSize mb sz = Some (rest, r)" "std_mb rest" "std_mb r" "mb_content mb = mb_content r @ mb_content rest"
    "int (length (mb_content r)) \<le> sz" "length (mb_content rest) + length rest < length (mb_content mb) + length mb"
proof -
  obtain b0 bs where mb: "mb = b0 # bs" using assms(2) by (cases mb) auto
  then have b0: "buf_wf b0" "length (content b0) \<le> Size" "std_mb bs" using assms(1) by simp_all
  show thesis
  proof (cases "sz < int (length (content b0))")
    case True
    then have sz: "0 \<le> sz" "sz \<le> int Size" using assms(3) b0(2) by simp_all
    obtain b where b: "SplitSize (b0 # bs) sz = Some (Advance sz b0 # bs, [b])" "buf_wf b" "content b = take (nat sz) (content b0)"
      "buf_wf (Advance sz b0)" "content (Advance sz b0) = drop (nat sz) (content b0)" by (rule SplitSize_first [OF b0(1) True sz])
    show thesis
      by (rule that [of "Advance sz b0 # bs" "[b]"]) (use b mb b0 True assms(3) in auto)
  next
    case False
    obtain rest r where l: "split_size_loop 0 sz mb = (rest, r)" by force
    have s: "SplitSize mb sz = Some (rest, r)" using mb l b0 False by (simp add: SplitSize_def)
    have c: "mb = r @ rest" "int (length (mb_content r)) \<le> sz"
      using split_size_loop_spec [OF std_mb_wf [OF assms(1)] _ _ assms(4) l] assms(3,5) by simp_all
    have "r \<noteq> []" using l mb b0 False i32_nat [of "length (content b0)"] assms(4) by (auto simp: Size_def split: if_splits prod.splits)
    then have "length rest < length mb" using c(1) by simp
    then show thesis using that [OF s] assms(1) c by simp
  qed
qed

text \<open>Multi-buffers whose length fits \<^verbatim>\<open>int32\<close>.\<close>

definition fit_mb :: "MultiBuffer \<Rightarrow> bool" where
  "fit_mb mb \<longleftrightarrow> std_mb mb \<and> length (mb_content mb) < 2 ^ 31"

lemma fit_mb_Nil [simp]: "fit_mb []"
  by (simp add: fit_mb_def)

lemma fit_mbD: "fit_mb mb \<Longrightarrow> std_mb mb" "fit_mb mb \<Longrightarrow> mb_wf mb" "fit_mb mb \<Longrightarrow> length (mb_content mb) < 2 ^ 31"
  by (simp_all add: fit_mb_def std_mb_wf)

definition br_std :: "BufferedReader \<Rightarrow> bool" where
  "br_std r \<longleftrightarrow> fit_mb (brBuffer r) \<and> list_all fit_mb (brReader r)"

lemma br_std_wf: "br_std r \<Longrightarrow> br_wf r"
  by (auto simp: br_std_def br_wf_def list_all_iff fit_mbD)

definition br_size :: "BufferedReader \<Rightarrow> nat" where
  "br_size r = length (br_content r) + length (brBuffer r) + sum_list (map (\<lambda>mb. Suc (length mb)) (brReader r))"

lemma ReadAtMost_ok:
  assumes "br_std r" "0 < sz" "sz < 2 ^ 31" "br_content r \<noteq> [] \<or> brReader r \<noteq> []"
  obtains mb r' where "ReadAtMost sz r = Some (mb, None, r')" "std_mb mb" "br_content r = mb_content mb @ br_content r'"
    "int (length (mb_content mb)) \<le> sz" "br_std r'" "br_size r' < br_size r"
proof -
  obtain front rs where fr: "mb_content (brBuffer r) \<noteq> [] \<and> front = brBuffer r \<and> rs = brReader r \<or>
      mb_content (brBuffer r) = [] \<and> brReader r = front # rs"
    using assms(4) by (cases "brReader r") (auto simp: br_content_eq)
  have wf: "mb_wf (brBuffer r)" using br_std_wf [OF assms(1)] by (simp add: br_wf_def)
  have std: "std_mb front" "list_all fit_mb rs" and len: "length (mb_content front) < 2 ^ 31"
    using fr assms(1) fit_mbD(1,3) [of front] by (auto simp: br_std_def)
  have cont: "br_content r = mb_content front @ concat (map mb_content rs)" using fr by (auto simp: br_content_eq)
  have size: "length (br_content r) + length front + sum_list (map (\<lambda>mb. Suc (length mb)) rs) \<le> br_size r"
    using fr by (auto simp: br_size_def)
  have step: "ReadAtMost sz r = do { (rb, out) \<leftarrow> SplitSize front sz;
      Some (out, None, r\<lparr>brReader := rs, brBuffer := (if mb_IsEmpty rb then [] else rb)\<rparr>) }"
    using fr wf by (auto simp: ReadAtMost_def below_ReadMultiBuffer_def)
  show thesis
  proof (cases "front = []")
    case True
    then have "br_size r \<ge> Suc (length (br_content r) + sum_list (map (\<lambda>mb. Suc (length mb)) rs))" using fr by (auto simp: br_size_def)
    moreover have "br_content (r\<lparr>brReader := rs, brBuffer := []\<rparr>) = br_content r" using cont True by (simp add: br_content_eq)
    ultimately show thesis
      using that [of "[]" "r\<lparr>brReader := rs, brBuffer := []\<rparr>"] step True std assms(1,2)
      by (simp add: SplitSize_def br_std_def br_size_def)
  next
    case False
    obtain rest out where o: "SplitSize front sz = Some (rest, out)" "std_mb rest" "std_mb out" "mb_content front = mb_content out @ mb_content rest"
      "int (length (mb_content out)) \<le> sz" "length (mb_content rest) + length rest < length (mb_content front) + length front"
      by (rule SplitSize_progress [OF std(1) False assms(2,3) len])
    let ?r = "r\<lparr>brReader := rs, brBuffer := (if mb_IsEmpty rest then [] else rest)\<rparr>"
    have c: "br_content ?r = mb_content rest @ concat (map mb_content rs)" using std_mb_wf [OF o(2)] by (simp add: br_content_eq)
    have "br_size ?r \<le> length (mb_content rest) + length rest + length (concat (map mb_content rs)) + sum_list (map (\<lambda>mb. Suc (length mb)) rs)"
      using c by (simp add: br_size_def)
    then have "br_size ?r < br_size r" using size o(6) cont by simp
    moreover have "br_content r = mb_content out @ br_content ?r" using cont c o(4) by simp
    moreover have "fit_mb rest" using o(2,4) len by (simp add: fit_mb_def)
    then have "br_std ?r" using std(2) by (simp add: br_std_def)
    ultimately show thesis using that [of out ?r] step o by simp
  qed
qed

text \<open>A writer that takes whatever it gets while \<open>ok\<close> holds of it; \<open>out\<close> is what it has.\<close>

definition takes :: "(MultiBuffer \<Rightarrow> 'w \<Rightarrow> 'w written) \<Rightarrow> ('w \<Rightarrow> byte list) \<Rightarrow> ('w \<Rightarrow> bool) \<Rightarrow> bool" where
  "takes wm out ok \<longleftrightarrow> (\<forall>mb w. std_mb mb \<longrightarrow> ok w \<longrightarrow>
     (\<exists>w'. wm mb w = Some (None, w') \<and> out w' = out w @ mb_content mb \<and> ok w'))"

lemma copy_drain:
  assumes "takes wm out ok"
  shows "br_std r \<Longrightarrow> ok w \<Longrightarrow> br_content r = data @ rest \<Longrightarrow> length data < 2 ^ 16 \<Longrightarrow> leftOverSize c = int (length data) \<Longrightarrow>
    \<exists>r' w' h'. copyInternal (cs_ReadMultiBuffer dec) wm on (c, r) w h =
        copyInternal (cs_ReadMultiBuffer dec) wm on (c\<lparr>leftOverSize := 0\<rparr>, r') w' h' \<and>
      out w' = out w @ data \<and> br_content r' = rest \<and> br_std r' \<and> ok w'"
proof (induction "br_size r" arbitrary: r w h data c rule: less_induct)
  case less
  show ?case
  proof (cases "data = []")
    case True
    then have "c\<lparr>leftOverSize := 0\<rparr> = c" using less.prems(5) by simp
    then show ?thesis using True less.prems(1-3) by auto
  next
    case False
    let ?l = "int (length data)"
    have l: "0 < ?l" "?l < 2 ^ 31" "br_content r \<noteq> [] \<or> brReader r \<noteq> []" using False less.prems(3,4) by simp_all
    obtain mb r' where m: "ReadAtMost ?l r = Some (mb, None, r')" "std_mb mb" "br_content r = mb_content mb @ br_content r'"
      "int (length (mb_content mb)) \<le> ?l" "br_std r'" "br_size r' < br_size r" by (rule ReadAtMost_ok [OF less.prems(1) l])
    note wf = std_mb_wf [OF m(2)]
    define d where "d = drop (length (mb_content mb)) data"
    have "mb_content mb @ br_content r' = data @ rest" using m(3) less.prems(3) by simp
    then have "mb_content mb = take (length (mb_content mb)) data" and d2: "br_content r' = d @ rest"
      using m(4) by (simp_all add: d_def append_eq_append_conv_if)
    then have d: "data = mb_content mb @ d" by (metis append_take_drop_id d_def)
    have mlen: "mb_Len mb = int (length (mb_content mb))" using mb_Len_content [OF wf] m(4) less.prems(4) by simp
    let ?c = "c\<lparr>leftOverSize := int (length d)\<rparr>"
    have left: "i32 (?l - mb_Len mb) = int (length d)"
      unfolding mlen d using less.prems(4) d by (simp add: i32_nat)
    have dl: "length d < 2 ^ 16" "leftOverSize ?c = int (length d)" using less.prems(4) d by simp_all
    obtain w1 h1 where w1: "copyInternal (cs_ReadMultiBuffer dec) wm on (c, r) w h = copyInternal (cs_ReadMultiBuffer dec) wm on (?c, r') w1 h1"
      "out w1 = out w @ mb_content mb" "ok w1"
    proof (cases "mb_content mb = []")
      case True
      then have "cs_ReadMultiBuffer dec (c, r) = Some ([], None, ?c, r')"
        using less.prems(5) l m(1) wf d False by (simp add: cs_ReadMultiBuffer_def next_chunk_size_def)
      then show thesis using that [of w h] True less.prems(2) by (simp add: copyInternal.simps [of _ _ _ "(c, r)"])
    next
      case nz: False
      then have "cs_ReadMultiBuffer dec (c, r) = Some (mb, None, ?c, r')"
        using less.prems(5) l m(1) wf left False by (simp add: cs_ReadMultiBuffer_def next_chunk_size_def)
      moreover obtain w1 where "wm mb w = Some (None, w1)" "out w1 = out w @ mb_content mb" "ok w1"
        using assms m(2) less.prems(2) by (auto simp: takes_def)
      ultimately show thesis using that [of w1 "on mb h"] nz wf by (simp add: copyInternal.simps [of _ _ _ "(c, r)"])
    qed
    obtain r'' w' h' where "copyInternal (cs_ReadMultiBuffer dec) wm on (?c, r') w1 h1 =
        copyInternal (cs_ReadMultiBuffer dec) wm on (?c\<lparr>leftOverSize := 0\<rparr>, r'') w' h'"
      "out w' = out w1 @ d" "br_content r'' = rest" "br_std r''" "ok w'"
      using less.hyps [OF m(6,5) w1(3) d2 dl] by blast
    then show ?thesis using w1(1,2) d by auto
  qed
qed

lemma SplitBytes_std: "std_mb mb \<Longrightarrow> SplitBytes mb n = Some (mb', xs) \<Longrightarrow> std_mb mb'"
proof (induction mb arbitrary: n mb' xs)
  case (Cons b mb)
  have b: "buf_wf b" "length (content b) \<le> Size" "std_mb mb" using Cons.prems(1) by simp_all
  show ?case
  proof (cases "content b = []")
    case True
    then show ?thesis using Cons b by (auto simp: buf_Read_EOF Let_def split: option.splits prod.splits)
  next
    case False
    obtain b' where "buf_Read n b = Some (Inr (take n (content b)), b')" "buf_wf b'" "content b' = drop n (content b)"
      by (rule buf_Read_spec [OF b(1) False])
    then show ?thesis using Cons b by (auto simp: Let_def split: if_splits)
  qed
qed simp

lemma SplitBytes_fit:
  assumes "fit_mb mb" "SplitBytes mb n = Some (mb', xs)"
  shows "fit_mb mb'"
proof -
  have "mb_content mb' = drop n (mb_content mb)" using SplitBytes_spec [OF fit_mbD(2) [OF assms(1)], of n] assms(2) by auto
  then show ?thesis using assms SplitBytes_std [of mb n mb' xs] by (simp add: fit_mb_def less_imp_diff_less)
qed

lemma reader_Read_concat: "reader_Read n r = (xs, e, r') \<Longrightarrow> concat r = xs @ concat r'"
  by (cases r) (auto split: if_splits)

lemma br_Read_std:
  assumes "br_std r" "br_Read n r = Some (xs, e, r')"
  shows "br_std r' \<and> br_content r = xs @ br_content r'"
proof -
  obtain xs' e' r'' where s: "br_Read n r = Some (xs', e', r'')" "reader_Read n (br_chunks r) = (xs', e', br_chunks r'')"
    using br_Read_sim [OF br_std_wf [OF assms(1)]] by blast
  then have c: "br_content r = xs @ br_content r'"
    using assms(2) reader_Read_concat [OF s(2)] by (simp add: br_content_def)
  moreover have "br_std r'"
    using assms SplitBytes_fit by (auto simp: br_Read_def br_Read_with_def below_ReadMultiBuffer_def br_std_def
      split: if_splits list.splits option.splits prod.splits bind_splits)
  ultimately show ?thesis by simp
qed

lemma br_ReadFull_std_result: "br_ReadFull n r = Some y \<Longrightarrow> br_std r \<longrightarrow> br_std (snd (snd y))"
proof (rule br_ReadFull.raw_induct [of "\<lambda>n r y. br_std r \<longrightarrow> br_std (snd (snd y))"], goal_cases)
  case (1 f n r y)
  show ?case
  proof (cases "n = 0")
    case False
    then obtain xs e r1 where r1: "br_Read n r = Some (xs, e, r1)" using 1(3) by (auto split: bind_splits)
    show ?thesis
    proof (cases e)
      case None
      then obtain z where "f (n - length xs) r1 = Some z" "snd (snd y) = snd (snd z)" using 1(3) False r1 by (auto split: bind_splits)
      then show ?thesis using 1(2) br_Read_std [OF _ r1] by auto
    next
      case (Some x)
      then show ?thesis using 1(3) False r1 br_Read_std [OF _ r1] by auto
    qed
  qed (use 1(3) in auto)
qed

lemmas br_ReadFull_std = br_ReadFull_std_result [of _ _ "(xs, e, r')" for xs e r', simplified, rule_format]

lemma br_ReadFull_ok:
  assumes "br_std r" "br_content r = xs @ rest" "length xs = n"
  obtains r' where "br_ReadFull n r = Some (xs, None, r')" "br_std r'" "br_content r' = rest"
proof -
  obtain ys e r' where s: "br_ReadFull n r = Some (ys, e, r')" "ReadFull n (br_chunks r) = (ys, e, br_chunks r')"
    using br_ReadFull_sim [OF br_std_wf [OF assms(1)]] by blast
  moreover obtain cs where "ReadFull n (br_chunks r) = (xs, None, cs)" "concat cs = rest"
    using ReadFull_enough [of n "br_chunks r"] assms(2,3) by (auto simp: br_content_def)
  ultimately show thesis using that [of r'] br_ReadFull_std [OF s(1) assms(1)] by (simp add: br_content_def)
qed

text \<open>One chunk: the size, then the data.\<close>

lemma copy_ends: "rd s = Some ([], Some e, s') \<Longrightarrow> copyInternal rd wm on s w h = Some (readError e, s', w, h)"
  by (subst copyInternal.simps) simp

lemma copy_next_chunk:
  assumes "takes wm out ok" "br_std r" "ok w" "br_content r = PutUint16 (of_nat (length data)) @ data @ rest"
    "data \<noteq> []" "length data < 2 ^ 16" "csBytes c = 2" "leftOverSize c = 0"
    "maxNumChunk c = 0 \<or> numChunk c + 1 \<le> maxNumChunk c"
  shows "\<exists>r' w' h'. copyInternal (cs_ReadMultiBuffer Plain_Decode) wm on (c, r) w h =
        copyInternal (cs_ReadMultiBuffer Plain_Decode) wm on (c\<lparr>numChunk := numChunk c + 1\<rparr>, r') w' h' \<and>
      out w' = out w @ data \<and> br_content r' = rest \<and> br_std r' \<and> ok w'"
proof -
  let ?c = "c\<lparr>numChunk := numChunk c + 1, leftOverSize := int (length data)\<rparr>" and ?l = "of_nat (length data) :: u16"
  have u: "uint ?l = int (length data)" using assms(6) by (simp add: uint_nat unat_of_nat)
  then have nz: "?l \<noteq> 0" using assms(5) by auto
  obtain r1 where r1: "br_ReadFull 2 r = Some (PutUint16 ?l, None, r1)" "br_std r1" "br_content r1 = data @ rest"
    by (rule br_ReadFull_ok [OF assms(2,4)]) simp
  have "Uint16 (PutUint16 ?l) = Some ?l" using Uint16_PutUint16 [of ?l "[]"] by simp
  then have "readSize Plain_Decode (c\<lparr>numChunk := numChunk c + 1\<rparr>) r = Some (Inr ?l, r1)"
    using r1(1) assms(7) by (simp add: readSize_def Plain_Decode_def)
  then have "next_chunk_size Plain_Decode c r = Some (Inr (int (length data)), c\<lparr>numChunk := numChunk c + 1\<rparr>, r1)"
    using assms(8,9) nz u by (auto simp: next_chunk_size_def Let_def not_less)
  moreover have "next_chunk_size Plain_Decode ?c r1 = Some (Inr (int (length data)), ?c, r1)" using assms(5) by (simp add: next_chunk_size_def)
  ultimately have "cs_ReadMultiBuffer Plain_Decode (c, r) = cs_ReadMultiBuffer Plain_Decode (?c, r1)"
    by (auto simp: cs_ReadMultiBuffer_def intro!: bind_option_cong)
  then have "copyInternal (cs_ReadMultiBuffer Plain_Decode) wm on (c, r) w h = copyInternal (cs_ReadMultiBuffer Plain_Decode) wm on (?c, r1) w h"
    by (simp add: copyInternal.simps [of _ _ _ "(c, r)"] copyInternal.simps [of _ _ _ "(?c, r1)"])
  moreover have "?c\<lparr>leftOverSize := 0\<rparr> = c\<lparr>numChunk := numChunk c + 1\<rparr>" using assms(8) by simp
  ultimately show ?thesis
    using copy_drain [OF assms(1) r1(2) assms(3) r1(3) assms(6), of ?c Plain_Decode on h] by auto
qed

lemma copy_stream_chunk:
  assumes "takes wm out ok" "br_std r" "ok w" "br_content r = PutUint16 (of_nat (length data)) @ data @ rest" "length data < 2 ^ 16"
  shows "\<exists>c' r' w' h'. Copy (cs_ReadMultiBuffer Plain_Decode) wm on (NewStreamReader r) w h = Some (None, (c', r'), w', h') \<and>
      out w' = out w @ data \<and> br_content r' = rest \<and> br_std r' \<and> ok w'"
proof -
  let ?c = "NewChunkStreamReaderWithChunkCount 2 1"
  show ?thesis
  proof (cases "data = []")
    case True
    obtain r1 where r1: "br_ReadFull 2 r = Some (PutUint16 0, None, r1)" "br_std r1" "br_content r1 = rest"
      by (rule br_ReadFull_ok [of r "PutUint16 0" rest]) (use assms(2,4) True in simp_all)
    have "Uint16 (PutUint16 0) = Some 0" using Uint16_PutUint16 [of 0 "[]"] by simp
    then have "cs_ReadMultiBuffer Plain_Decode (?c, r) = Some ([], Some EOF, ?c\<lparr>numChunk := 1\<rparr>, r1)"
      using r1(1) by (simp add: cs_ReadMultiBuffer_def next_chunk_size_def readSize_def Plain_Decode_def NewChunkStreamReaderWithChunkCount_def)
    from copy_ends [where rd = "cs_ReadMultiBuffer Plain_Decode" and s = "(?c, r)", OF this, of wm on w h] show ?thesis using r1 True assms(3) by (simp del: map_option_eq_Some add: Copy_def NewStreamReader_def Plain_SizeBytes_def)
  next
    case False
    have c: "csBytes ?c = 2" "leftOverSize ?c = 0" "maxNumChunk ?c = 0 \<or> numChunk ?c + 1 \<le> maxNumChunk ?c"
      by (simp_all add: NewChunkStreamReaderWithChunkCount_def)
    obtain r' w' h' where d: "copyInternal (cs_ReadMultiBuffer Plain_Decode) wm on (?c, r) w h =
        copyInternal (cs_ReadMultiBuffer Plain_Decode) wm on (?c\<lparr>numChunk := numChunk ?c + 1\<rparr>, r') w' h'"
      "out w' = out w @ data" "br_content r' = rest" "br_std r'" "ok w'"
      using copy_next_chunk [OF assms(1-4) False assms(5) c, of on h] by (elim exE conjE) (rule that)
    have "cs_ReadMultiBuffer Plain_Decode (?c\<lparr>numChunk := numChunk ?c + 1\<rparr>, r') = Some ([], Some EOF, ?c\<lparr>numChunk := 2\<rparr>, r')"
      by (simp add: cs_ReadMultiBuffer_def next_chunk_size_def NewChunkStreamReaderWithChunkCount_def)
    from copy_ends [where rd = "cs_ReadMultiBuffer Plain_Decode" and s = "(?c\<lparr>numChunk := numChunk ?c + 1\<rparr>, r')", OF this, of wm on w' h'] show ?thesis using d by (simp del: map_option_eq_Some add: Copy_def NewStreamReader_def Plain_SizeBytes_def)
  qed
qed

section \<open>Streams of chunks\<close>

definition chunk_bytes :: "byte list \<Rightarrow> byte list" where
  "chunk_bytes d = PutUint16 (of_nat (length d)) @ d"

lemma SplitSize_8192:
  assumes "std_mb mb" "mb \<noteq> []" "length (mb_content mb) < 2 ^ 31"
  obtains rest r where "SplitSize mb 8192 = Some (rest, r)" "std_mb rest" "std_mb r" "mb_content mb = mb_content r @ mb_content rest"
    "length (mb_content r) \<le> Size" "length rest < length mb" "rest \<noteq> [] \<longrightarrow> mb_content r \<noteq> []"
proof -
  obtain b0 bs where mb: "mb = b0 # bs" using assms(2) by (cases mb) auto
  then have b0: "buf_wf b0" "length (content b0) \<le> Size" "std_mb bs" using assms(1) by simp_all
  obtain rest r where l: "split_size_loop 0 8192 mb = (rest, r)" by force
  have s: "SplitSize mb 8192 = Some (rest, r)" using mb l b0 by (simp add: SplitSize_def Size_def)
  have c: "mb = r @ rest" "int (length (mb_content r)) \<le> 8192"
    "case rest of [] \<Rightarrow> True | b # _ \<Rightarrow> int (length (mb_content r) + length (content b)) > 8192"
    using split_size_loop_spec [OF std_mb_wf [OF assms(1)] _ _ _ l] assms(3) by (simp_all split: list.splits)
  have "r \<noteq> []" using l mb b0 i32_nat [of "length (content b0)"] by (auto simp: Size_def split: if_splits prod.splits)
  then have "length rest < length mb" using c(1) by simp
  moreover have "rest \<noteq> [] \<longrightarrow> mb_content r \<noteq> []" using c(1,3) assms(1) by (cases rest) (auto simp: Size_def)
  ultimately show thesis using that [OF s] assms(1) c by (simp add: Size_def)
qed

lemma chunk_header:
  assumes "std_mb sl" "length (mb_content sl) \<le> Size"
  obtains b lo hi where "Extend 2 New = Some (b, lo, hi)" "buf_wf (buf_put lo (Plain_Encode (of_int (mb_Len sl))) b)"
    "content (buf_put lo (Plain_Encode (of_int (mb_Len sl))) b) = PutUint16 (of_nat (length (mb_content sl)))"
proof -
  let ?x = "PutUint16 (of_nat (length (mb_content sl)))"
  have len: "mb_Len sl = int (length (mb_content sl))" using mb_Len_content [OF std_mb_wf [OF assms(1)]] assms(2) by (simp add: Size_def)
  have e: "nat (buf_end New) + length ?x \<le> length (arr New)" by (simp add: New_def buf_New_def buf_of_def Size_def)
  have "2 \<le> room New" "2 \<le> length ?x" by (simp_all add: Size_def)
  from Extend_put [OF New_facts(1) this e] obtain b where
    "Extend (int 2) New = Some (b, nat (buf_end New), nat (buf_end New) + 2)" "buf_wf (buf_put (nat (buf_end New)) ?x b)"
    "content (buf_put (nat (buf_end New)) ?x b) = content New @ take 2 ?x" by blast
  then show thesis using that len New_facts by (simp add: Plain_Encode_def)
qed

lemma chunk_frames_ok:
  "std_mb mb \<Longrightarrow> mb_content mb \<noteq> [] \<Longrightarrow> length (mb_content mb) < 2 ^ 31 \<Longrightarrow>
   \<exists>fs ds. chunk_frames mb = Some fs \<and> mb_content fs = concat (map chunk_bytes ds) \<and> concat ds = mb_content mb \<and>
     list_all (\<lambda>d. d \<noteq> [] \<and> length d \<le> Size) ds"
proof (induction "length mb" arbitrary: mb rule: less_induct)
  case less
  have "mb \<noteq> []" using less.prems(2) by auto
  then obtain rest r where s: "SplitSize mb 8192 = Some (rest, r)" "std_mb rest" "std_mb r" "mb_content mb = mb_content r @ mb_content rest"
    "length (mb_content r) \<le> Size" "length rest < length mb" "rest \<noteq> [] \<longrightarrow> mb_content r \<noteq> []"
    by (rule SplitSize_8192 [OF less.prems(1) _ less.prems(3)])
  obtain b lo hi where b: "Extend 2 New = Some (b, lo, hi)"
    "content (buf_put lo (Plain_Encode (of_int (mb_Len r))) b) = PutUint16 (of_nat (length (mb_content r)))" by (rule chunk_header [OF s(3,5)])
  let ?b = "buf_put lo (Plain_Encode (of_int (mb_Len r))) b"
  note step = chunk_frames.simps [of mb]
  have r: "mb_content r \<noteq> []" using s(4,7) less.prems(2) by (cases "rest = []") auto
  show ?case
  proof (cases "mb_content rest = []")
    case True
    then have "chunk_frames mb = Some (?b # r)" using step s(1) b(1) std_mb_wf [OF s(2)] by simp
    then show ?thesis using b(2) s(4,5) r True by (intro exI [of _ "?b # r"] exI [of _ "[mb_content r]"]) (simp add: chunk_bytes_def)
  next
    case False
    moreover have "length (mb_content rest) < 2 ^ 31" using s(4) less.prems(3) by simp
    ultimately obtain fs ds where f: "chunk_frames rest = Some fs" "mb_content fs = concat (map chunk_bytes ds)" "concat ds = mb_content rest"
      "list_all (\<lambda>d. d \<noteq> [] \<and> length d \<le> Size) ds" using less.hyps [OF s(6,2)] by blast
    then have "chunk_frames mb = Some (?b # r @ fs)" using step s(1) b(1) std_mb_wf [OF s(2)] False by simp
    moreover have "mb_content (r @ fs) = mb_content r @ mb_content fs" by (simp add: mb_content_def)
    ultimately show ?thesis using b(2) s(4,5) r f
      by (intro exI [of _ "?b # r @ fs"] exI [of _ "mb_content r # ds"]) (simp add: chunk_bytes_def)
  qed
qed

lemma br_ReadFull_end:
  assumes "br_std r" "br_content r = []" "0 < n"
  obtains r' where "br_ReadFull n r = Some ([], Some EOF, r')"
proof -
  obtain ys e r' where "br_ReadFull n r = Some (ys, e, r')" "ReadFull n (br_chunks r) = (ys, e, br_chunks r')"
    using br_ReadFull_sim [OF br_std_wf [OF assms(1)]] by blast
  then show thesis using that [of r'] ReadFull_short [of "br_chunks r" n] assms(2,3)
    by (auto simp del: concat_eq_Nil_conv simp: br_content_def)
qed

lemma copy_chunks:
  assumes "takes wm out ok"
  shows "br_std r \<Longrightarrow> ok w \<Longrightarrow> br_content r = concat (map chunk_bytes ds) \<Longrightarrow> list_all (\<lambda>d. d \<noteq> [] \<and> length d \<le> Size) ds \<Longrightarrow>
    csBytes c = 2 \<Longrightarrow> leftOverSize c = 0 \<Longrightarrow> maxNumChunk c = 0 \<Longrightarrow>
    \<exists>c' r' w' h'. copyInternal (cs_ReadMultiBuffer Plain_Decode) wm on (c, r) w h = Some (readError EOF, (c', r'), w', h') \<and>
      out w' = out w @ concat ds \<and> ok w'"
proof (induction ds arbitrary: r w h c)
  case Nil
  have e: "br_content r = []" "0 < (2::nat)" using Nil.prems(3) by simp_all
  obtain r' where r': "br_ReadFull 2 r = Some ([], Some EOF, r')" by (rule br_ReadFull_end [OF Nil.prems(1) e])
  then have "cs_ReadMultiBuffer Plain_Decode (c, r) = Some ([], Some EOF, c\<lparr>numChunk := numChunk c + 1\<rparr>, r')"
    using Nil.prems(5-7) by (simp add: cs_ReadMultiBuffer_def next_chunk_size_def readSize_def)
  from copy_ends [where rd = "cs_ReadMultiBuffer Plain_Decode" and s = "(c, r)", OF this, of wm on w h]
  show ?case using Nil.prems(2) by simp
next
  case (Cons d ds)
  have d: "d \<noteq> []" "length d < 2 ^ 16" "list_all (\<lambda>d. d \<noteq> [] \<and> length d \<le> Size) ds" using Cons.prems(4) by (simp_all add: Size_def)
  have c: "br_content r = PutUint16 (of_nat (length d)) @ d @ concat (map chunk_bytes ds)" using Cons.prems(3) by (simp add: chunk_bytes_def [of d])
  have m: "maxNumChunk c = 0 \<or> numChunk c + 1 \<le> maxNumChunk c" using Cons.prems(7) by simp
  obtain r1 w1 h1 where s: "copyInternal (cs_ReadMultiBuffer Plain_Decode) wm on (c, r) w h =
        copyInternal (cs_ReadMultiBuffer Plain_Decode) wm on (c\<lparr>numChunk := numChunk c + 1\<rparr>, r1) w1 h1"
      "out w1 = out w @ d" "br_content r1 = concat (map chunk_bytes ds)" "br_std r1" "ok w1"
    using copy_next_chunk [OF assms Cons.prems(1,2) c d(1,2) Cons.prems(5,6) m, of on h] by (elim exE conjE) (rule that)
  show ?case
    using Cons.IH [OF s(4,5,3) d(3), of "c\<lparr>numChunk := numChunk c + 1\<rparr>" h1] Cons.prems(5-7) s(1,2) by auto
qed

lemma chunk_bytes_length:
  "list_all (\<lambda>d. d \<noteq> [] \<and> length d \<le> Size) ds \<Longrightarrow> length (concat (map chunk_bytes ds)) \<le> 3 * length (concat ds)"
  by (induction ds) (auto simp: chunk_bytes_def Suc_le_eq simp flip: length_greater_0_conv)

lemma takes_mb_writer: "takes mb_writer concat (\<lambda>_. True)"
  by (simp add: takes_def mb_writer_def)

text \<open>
  C33: a stream of chunks carries its bytes: what \<^verbatim>\<open>ChunkStreamWriter\<close> sends for a non-empty
  multi-buffer, cut by the connection into any multi-buffers, is copied by \<^verbatim>\<open>buf.Copy\<close> from a
  \<^verbatim>\<open>ChunkStreamReader\<close> to the target completely and in order; the copy ends without an error at
  the end of the stream.
\<close>

theorem chunk_stream_roundtrip:
  assumes "std_mb mb" "mb_content mb \<noteq> []" "length (mb_content mb) < 2 ^ 31"
  shows "\<exists>sent. ChunkStreamWriter_WriteMultiBuffer mb_writer mb [] = Some (None, sent) \<and>
    (\<forall>r. br_std r \<and> br_content r = concat sent \<longrightarrow>
      (\<exists>c' r' w' n. Copy (cs_ReadMultiBuffer Plain_Decode) mb_writer CountSize (NewChunkStreamReaderWithChunkCount Plain_SizeBytes 0, r) [] 0 =
          Some (None, (c', r'), w', n) \<and> concat w' = mb_content mb))"
proof -
  obtain fs ds where f: "chunk_frames mb = Some fs" "mb_content fs = concat (map chunk_bytes ds)" "concat ds = mb_content mb"
    "list_all (\<lambda>d. d \<noteq> [] \<and> length d \<le> Size) ds" using chunk_frames_ok [OF assms] by blast
  let ?c = "NewChunkStreamReaderWithChunkCount Plain_SizeBytes 0"
  have c: "csBytes ?c = 2" "leftOverSize ?c = 0" "maxNumChunk ?c = 0" by (simp_all add: NewChunkStreamReaderWithChunkCount_def Plain_SizeBytes_def)
  have "\<exists>c' r' w' n. Copy (cs_ReadMultiBuffer Plain_Decode) mb_writer CountSize (?c, r) [] 0 = Some (None, (c', r'), w', n) \<and>
      concat w' = mb_content mb" if "br_std r" "br_content r = mb_content fs" for r
  proof -
    have "br_content r = concat (map chunk_bytes ds)" using that(2) f(2) by simp
    from copy_chunks [OF takes_mb_writer that(1) TrueI this f(4) c, of CountSize "[]" 0]
    obtain c' r' w' n where "copyInternal (cs_ReadMultiBuffer Plain_Decode) mb_writer CountSize (?c, r) [] 0 = Some (readError EOF, (c', r'), w', n)"
      "concat w' = concat [] @ concat ds" by blast
    then show ?thesis using f(3) by (simp del: map_option_eq_Some add: Copy_def)
  qed
  moreover have "ChunkStreamWriter_WriteMultiBuffer mb_writer mb [] = Some (None, [mb_content fs])"
    using f(1) by (simp add: ChunkStreamWriter_WriteMultiBuffer_def mb_writer_def)
  ultimately show ?thesis by (intro exI [of _ "[mb_content fs]"]) simp
qed

theorem chunk_stream_roundtrip_witness:
  "\<exists>sent r c' r' w' n. ChunkStreamWriter_WriteMultiBuffer mb_writer [FromBytes [1, 2]] [] = Some (None, sent) \<and>
     br_content r = concat sent \<and>
     Copy (cs_ReadMultiBuffer Plain_Decode) mb_writer CountSize (NewChunkStreamReaderWithChunkCount Plain_SizeBytes 0, r) [] 0 =
       Some (None, (c', r'), w', n) \<and> concat w' = [1, 2]"
proof -
  have fb: "buf_wf (FromBytes bs)" "content (FromBytes bs) = bs" if "length bs < 10" for bs
    using FromBytes_facts [of bs] that by simp_all
  have mb: "std_mb [FromBytes [1, 2]]" "mb_content [FromBytes [1, 2]] = [1, 2]" by (simp_all add: fb Size_def)
  obtain sent where s: "ChunkStreamWriter_WriteMultiBuffer mb_writer [FromBytes [1, 2]] [] = Some (None, sent)"
    "\<forall>r. br_std r \<and> br_content r = concat sent \<longrightarrow>
      (\<exists>c' r' w' n. Copy (cs_ReadMultiBuffer Plain_Decode) mb_writer CountSize (NewChunkStreamReaderWithChunkCount Plain_SizeBytes 0, r) [] 0 =
          Some (None, (c', r'), w', n) \<and> concat w' = mb_content [FromBytes [1, 2]])"
    using chunk_stream_roundtrip [OF mb(1)] mb(2) by auto
  obtain fs ds where f: "chunk_frames [FromBytes [1, 2]] = Some fs" "mb_content fs = concat (map chunk_bytes ds)"
    "concat ds = [1, 2]" "list_all (\<lambda>d. d \<noteq> [] \<and> length d \<le> Size) ds"
    using chunk_frames_ok [OF mb(1)] mb(2) by auto
  have "concat sent = mb_content fs" using s(1) f(1) by (auto simp: ChunkStreamWriter_WriteMultiBuffer_def mb_writer_def)
  then have "length (concat sent) < 10" using chunk_bytes_length [OF f(4)] f(2,3) by simp
  then obtain r where "br_std r" "br_content r = concat sent" using fb [of "concat sent"]
    by (intro that [of "\<lparr>brReader = [[FromBytes (concat sent)]], brBuffer = []\<rparr>"]) (simp_all add: br_std_def fit_mb_def br_content_def br_chunks_def Size_def)
  then show ?thesis using s mb(2) by (auto simp del: map_option_eq_Some)
qed

section \<open>The copy loop ends\<close>

lemma copy_terminates:
  assumes "wf R" "\<And>s. good s \<Longrightarrow> \<exists>mb e s'. rd s = Some (mb, e, s') \<and> good s' \<and> (e = None \<longrightarrow> (s', s) \<in> R)" "\<And>mb w. wm mb w \<noteq> None"
  shows "good s \<Longrightarrow> copyInternal rd wm on s w h \<noteq> None"
proof (induction s arbitrary: w h rule: wf_induct_rule [OF assms(1)])
  case (1 s)
  obtain mb e s' where s: "rd s = Some (mb, e, s')" "good s'" "e = None \<longrightarrow> (s', s) \<in> R" using assms(2) [OF 1(2)] by blast
  obtain we w' where w: "wm mb w = Some (we, w')" using assms(3) [of mb w] by (cases "wm mb w") auto
  have "copyInternal rd wm on s' w'' h'' \<noteq> None" if "e = None" for w'' h'' using 1(1) [of s'] s that by blast
  then show ?case using s(1) w by (subst copyInternal.simps) (auto split: option.splits)
qed

definition chunk_rel :: "((ChunkStreamReader \<times> BufferedReader) \<times> (ChunkStreamReader \<times> BufferedReader)) set" where
  "chunk_rel = inv_image (less_than <*lex*> less_than) (\<lambda>(c, r). (length (br_content r), br_size r))"

lemma wf_chunk_rel: "wf chunk_rel"
  by (auto simp: chunk_rel_def intro!: wf_inv_image)

definition chunk_inv :: "ChunkStreamReader \<times> BufferedReader \<Rightarrow> bool" where
  "chunk_inv s \<longleftrightarrow> br_std (snd s) \<and> csBytes (fst s) = 2 \<and> 0 \<le> leftOverSize (fst s) \<and> leftOverSize (fst s) < 2 ^ 16"

lemma ReadAtMost_any:
  assumes "br_std r" "0 < sz" "sz < 2 ^ 16" "length (br_content r) < length (br_content r0) \<or> r = r0" "csBytes c = 2"
  shows "\<exists>mb e r'. ReadAtMost sz r = Some (mb, e, r') \<and> br_std r' \<and> mb_wf mb \<and> 0 \<le> sz - mb_Len mb \<and> 0 \<le> mb_Len mb \<and>
    (e = None \<longrightarrow> (\<forall>c'. ((c', r'), (c0, r0)) \<in> chunk_rel))"
proof (cases "br_content r \<noteq> [] \<or> brReader r \<noteq> []")
  case True
  have sz: "sz < 2 ^ 31" using assms(3) by simp
  obtain mb r' where m: "ReadAtMost sz r = Some (mb, None, r')" "std_mb mb" "br_content r = mb_content mb @ br_content r'"
    "int (length (mb_content mb)) \<le> sz" "br_std r'" "br_size r' < br_size r" by (rule ReadAtMost_ok [OF assms(1,2) sz True])
  have "mb_Len mb = int (length (mb_content mb))" using mb_Len_content [OF std_mb_wf [OF m(2)]] m(4) sz by simp
  then show ?thesis using m assms(4) std_mb_wf [OF m(2)] by (auto simp: chunk_rel_def)
next
  case False
  moreover have "mb_wf (brBuffer r)" using br_std_wf [OF assms(1)] by (simp add: br_wf_def)
  ultimately have "ReadAtMost sz r = Some ([], Some EOF, r)" by (auto simp: ReadAtMost_def below_ReadMultiBuffer_def br_content_eq)
  then show ?thesis using assms(1,2) by (simp add: mb_Len_def)
qed

lemma br_ReadFull_cases:
  assumes "br_std r"
  obtains ys e r' where "br_ReadFull n r = Some (ys, Some e, r')" "br_std r'"
  | ys r' where "br_ReadFull n r = Some (ys, None, r')" "br_std r'" "length ys = n" "br_content r = ys @ br_content r'"
proof (cases "n \<le> length (br_content r)")
  case True
  then show thesis using br_ReadFull_ok [OF assms, of "take n (br_content r)" "drop n (br_content r)" n] that(2)
    by (metis append_take_drop_id length_take min.absorb2)
next
  case False
  obtain ys e r' where s: "br_ReadFull n r = Some (ys, e, r')" "ReadFull n (br_chunks r) = (ys, e, br_chunks r')"
    using br_ReadFull_sim [OF br_std_wf [OF assms]] by blast
  then have "e \<noteq> None" using ReadFull_short [of "br_chunks r" n] False by (auto simp: br_content_def split: if_splits)
  then show thesis using that(1) s(1) br_ReadFull_std [OF s(1) assms] by auto
qed

lemma next_chunk_size_cases:
  assumes "chunk_inv (c, r)"
  obtains e c' r' where "next_chunk_size Plain_Decode c r = Some (Inl e, c', r')" "chunk_inv (c', r')"
  | sz c' r' where "next_chunk_size Plain_Decode c r = Some (Inr sz, c', r')" "chunk_inv (c', r')" "0 < sz" "sz < 2 ^ 16"
      "length (br_content r') < length (br_content r) \<or> r' = r"
proof (cases "leftOverSize c = 0")
  case True
  let ?c = "c\<lparr>numChunk := numChunk c + 1\<rparr>"
  have i: "br_std r" "csBytes c = 2" using assms by (simp_all add: chunk_inv_def)
  have inv: "chunk_inv (?c, r')" if "br_std r'" for r' using assms that by (simp add: chunk_inv_def)
  show thesis
  proof (cases "maxNumChunk c > 0 \<and> numChunk ?c > maxNumChunk c")
    case True
    then show thesis using that(1) [of EOF ?c r] inv [OF i(1)] \<open>leftOverSize c = 0\<close> by (simp add: next_chunk_size_def Let_def)
  next
    case False
    then have n: "next_chunk_size Plain_Decode c r = (case readSize Plain_Decode ?c r of
          None \<Rightarrow> None
        | Some (Inl e, r') \<Rightarrow> Some (Inl e, ?c, r')
        | Some (Inr nextSize, r') \<Rightarrow> if nextSize = 0 then Some (Inl EOF, ?c, r') else Some (Inr (uint nextSize), ?c, r'))"
      using True unfolding next_chunk_size_def Let_def by (simp only: if_True if_False simp_thms)
    show thesis
    proof (rule br_ReadFull_cases [OF i(1), of 2], goal_cases)
      case (2 ys r')
      obtain a b where ys: "ys = [a, b]" using 2(3) by (auto simp: length_Suc_conv numeral_2_eq_2)
      obtain x where x: "Uint16 ys = Some x" unfolding ys by (cases "Uint16 [a, b]") simp_all
      have s: "readSize Plain_Decode ?c r = Some (Inr x, r')" using 2(1) x i(2) by (simp add: readSize_def Plain_Decode_def)
      show thesis
      proof (cases "x = 0")
        case False
        then have "0 < uint x" using uint_ge_0 [of x] by (simp add: word_neq_0_conv word_less_def)
        moreover have "uint x < 2 ^ 16" using uint_lt2p [of x] by simp
        ultimately show thesis using that(2) [of "uint x" ?c r'] n s False inv [OF 2(2)] 2(4) ys by simp
      qed (use that(1) [of EOF ?c r'] n s inv [OF 2(2)] in simp)
    qed (use that(1) n i(2) inv in \<open>auto simp: readSize_def\<close>)
  qed
next
  case False
  then show thesis using that(2) [of "leftOverSize c" c r] assms by (simp add: next_chunk_size_def chunk_inv_def)
qed

lemma cs_ReadMultiBuffer_progress:
  assumes "chunk_inv s"
  shows "\<exists>mb e s'. cs_ReadMultiBuffer Plain_Decode s = Some (mb, e, s') \<and> chunk_inv s' \<and> (e = None \<longrightarrow> (s', s) \<in> chunk_rel)"
proof -
  obtain c r where s: "s = (c, r)" by force
  from assms show ?thesis unfolding s
  proof (rule next_chunk_size_cases, goal_cases)
    case (1 e c' r')
    then show ?case by (simp add: cs_ReadMultiBuffer_def)
  next
    case (2 sz c' r')
    then have b: "br_std r'" "csBytes c' = 2" by (simp_all add: chunk_inv_def)
    obtain mb e r'' where m: "ReadAtMost sz r' = Some (mb, e, r'')" "br_std r''" "mb_wf mb" "0 \<le> sz - mb_Len mb" "0 \<le> mb_Len mb"
      "e = None \<longrightarrow> (\<forall>c'. ((c', r''), (c, r)) \<in> chunk_rel)"
      using ReadAtMost_any [OF b(1) 2(3,4,5) b(2), of c] by blast
    have "i32 (sz - mb_Len mb) = sz - mb_Len mb" using m(4,5) 2(4) by (intro i32_id) simp_all
    moreover have "e = None" if "\<not> mb_IsEmpty mb"
      using m(1) that by (auto simp: ReadAtMost_def Let_def split: if_splits prod.splits bind_splits)
    ultimately show ?case using m 2 b by (auto simp: cs_ReadMultiBuffer_def chunk_inv_def)
  qed
qed

text \<open>
  C34: copying from a chunk stream ends: whatever bytes the finite stream below holds, cut in whatever
  way, empty pieces included, whatever limit the reader has and whatever the target answers,
  \<^verbatim>\<open>buf.Copy\<close> returns, and no decoding of a size, slicing or splitting panics.
\<close>

theorem chunk_copy_terminates:
  assumes "br_std r" "\<And>mb w. wm mb w \<noteq> None"
  shows "\<exists>e s w' h'. Copy (cs_ReadMultiBuffer Plain_Decode) wm on (NewChunkStreamReaderWithChunkCount Plain_SizeBytes m, r) w h = Some (e, s, w', h')"
proof -
  have "chunk_inv (NewChunkStreamReaderWithChunkCount Plain_SizeBytes m, r)"
    using assms(1) by (simp add: chunk_inv_def NewChunkStreamReaderWithChunkCount_def Plain_SizeBytes_def)
  then have "copyInternal (cs_ReadMultiBuffer Plain_Decode) wm on (NewChunkStreamReaderWithChunkCount Plain_SizeBytes m, r) w h \<noteq> None"
    by (intro copy_terminates [where good = chunk_inv, OF wf_chunk_rel] cs_ReadMultiBuffer_progress assms(2))
  then show ?thesis by (auto simp del: map_option_eq_Some simp: Copy_def)
qed

theorem chunk_copy_terminates_witness:
  "\<exists>e s w' h'. Copy (cs_ReadMultiBuffer Plain_Decode) mb_writer CountSize
     (NewChunkStreamReaderWithChunkCount Plain_SizeBytes 3, \<lparr>brReader = [[], [FromBytes [0, 9, 1]], []], brBuffer = []\<rparr>) [] 0 = Some (e, s, w', h')"
proof -
  have "br_std \<lparr>brReader = [[], [FromBytes [0, 9, 1]], []], brBuffer = []\<rparr>"
    using FromBytes_facts [of "[0, 9, 1]"] by (simp add: br_std_def fit_mb_def Size_def)
  then show ?thesis by (rule chunk_copy_terminates) (simp add: mb_writer_def)
qed

lemma copy_below:
  assumes "takes wm out ok"
  shows "list_all fit_mb (brReader r) \<Longrightarrow> ok w \<Longrightarrow>
    \<exists>w'. copyInternal below_read wm CountSize r w n =
        Some (readError EOF, r\<lparr>brReader := []\<rparr>, w', n + int (length (concat (map mb_content (brReader r))))) \<and>
      out w' = out w @ concat (map mb_content (brReader r)) \<and> ok w'"
proof (induction "brReader r" arbitrary: r w n)
  case Nil
  then have "below_read r = Some ([], Some EOF, r)" by (simp add: below_read_def below_ReadMultiBuffer_def)
  from copy_ends [where rd = below_read and s = r, OF this, of wm CountSize w n] show ?case using Nil by (simp flip: Nil.hyps)
next
  case (Cons mb rs)
  let ?r = "r\<lparr>brReader := rs\<rparr>"
  have step: "below_read r = Some (mb, None, ?r)" using Cons.hyps(2) by (simp add: below_read_def below_ReadMultiBuffer_def flip: Cons.hyps(2))
  have mb: "std_mb mb" "list_all fit_mb rs" "length (mb_content mb) < 2 ^ 31"
    using Cons.prems(1) by (simp_all add: fit_mb_def flip: Cons.hyps(2))
  note wf = std_mb_wf [OF mb(1)]
  obtain w1 m where w1: "copyInternal below_read wm CountSize r w n = copyInternal below_read wm CountSize ?r w1 m" "ok w1"
    "out w1 = out w @ mb_content mb" "m = n + int (length (mb_content mb))"
  proof (cases "mb_content mb = []")
    case True
    then show thesis using that [of w n] step wf Cons.prems(2) by (simp add: copyInternal.simps [of _ _ _ r])
  next
    case False
    obtain w1 where "wm mb w = Some (None, w1)" "out w1 = out w @ mb_content mb" "ok w1"
      using assms mb(1) Cons.prems(2) by (auto simp: takes_def)
    then show thesis using that [of w1 "CountSize mb n"] step wf False mb_Len_content [OF wf mb(3)]
      by (simp add: copyInternal.simps [of _ _ _ r] CountSize_def)
  qed
  show ?case using Cons.hyps(1) [of ?r w1 m] mb w1 by (auto simp flip: Cons.hyps(2))
qed

lemma br_WriteTo_all:
  assumes "takes wm out ok" "br_std r" "ok w"
  shows "\<exists>r' w'. br_WriteTo wm r w = Some (int (length (br_content r)), None, r', w') \<and> out w' = out w @ br_content r \<and> br_content r' = []"
proof -
  have r: "list_all fit_mb (brReader r)" "std_mb (brBuffer r)" and len: "length (mb_content (brBuffer r)) < 2 ^ 31"
    using assms(2) by (simp_all add: br_std_def fit_mb_def)
  obtain w1 where w1: "wm (brBuffer r) w = Some (None, w1)" "out w1 = out w @ mb_content (brBuffer r)" "ok w1"
    using assms(1,3) r(2) by (auto simp: takes_def)
  let ?r = "r\<lparr>brBuffer := []\<rparr>"
  define w2 where "w2 = (if brBuffer r = [] then w else w1)"
  have w2: "ok w2" "out w2 = out w @ mb_content (brBuffer r)" using w1 assms(3) by (simp_all add: w2_def)
  obtain w' where "copyInternal below_read wm CountSize ?r w2 (mb_Len (brBuffer r)) = Some (readError EOF, ?r\<lparr>brReader := []\<rparr>, w',
      mb_Len (brBuffer r) + int (length (concat (map mb_content (brReader r)))))" "out w' = out w2 @ concat (map mb_content (brReader r))"
    using copy_below [OF assms(1), of ?r w2 "mb_Len (brBuffer r)"] r(1) w2(1) by auto
  moreover have "brBuffer r = [] \<Longrightarrow> ?r = r" by simp
  ultimately show ?thesis using w1(1) w2(2) mb_Len_content [OF std_mb_wf [OF r(2)] len]
    by (cases "brBuffer r = []") (auto simp del: map_option_eq_Some simp: w2_def br_WriteTo_def writeToInternal_def Copy_def br_content_eq)
qed

end
