(* ===== verification/Mux_Session.thy ===== *)
theory Mux_Session
  imports Buffered_Reader "HOL-Library.AList"
begin

text \<open>
  Package \<^verbatim>\<open>common/mux\<close>, file \<^verbatim>\<open>session.go\<close>: the table of sessions of a multiplexed connection
  and the sessions of UDP associations that move between connections (XUDP). Sessions, managers and
  associations are shared objects: the world holds them in lists and a pointer is an index. The
  links behind the sessions are reached through the operations of a record \<open>links_api\<close>, the
  interfaces \<^verbatim>\<open>buf.Reader\<close>, \<^verbatim>\<open>buf.Writer\<close> and \<^verbatim>\<open>routing.Dispatcher\<close> that the code calls.
\<close>

section \<open>Objects\<close>

record Session =
  s_input :: nat
  s_output :: nat
  s_parent :: "nat option" \<comment> \<open>\<^verbatim>\<open>nil\<close> is \<open>None\<close>\<close>
  s_ID :: u16
  s_transferType :: TransferType
  s_closed :: bool
  s_XUDP :: "nat option"

record SessionManager =
  sm_sessions :: "(u16 \<times> nat) list"
  sm_count :: u16
  sm_closed :: bool

definition NewSessionManager :: SessionManager where
  "NewSessionManager = \<lparr>sm_sessions = [], sm_count = 0, sm_closed = False\<rparr>"

datatype XUDP_status = Initializing | Active | Expiring

record XUDP =
  x_GlobalID :: "byte list"
  x_Status :: XUDP_status
  x_Expire :: int
  x_Mux :: "nat option"

text \<open>
  What the code calls of the links: a dispatcher that opens a link to a destination, writing,
  closing and interrupting by the end of a link, the pair \<^verbatim>\<open>ReturnAnError\<close> and \<^verbatim>\<open>Recover\<close> around a
  yield, and the writer of the multiplexed connection itself.
\<close>

record 'l links_api =
  lk_dispatch :: "Destination \<Rightarrow> 'l \<Rightarrow> (go_error + nat \<times> nat) \<times> 'l"
  lk_write :: "nat \<Rightarrow> MultiBuffer \<Rightarrow> 'l \<Rightarrow> 'l written"
  lk_interrupt :: "nat \<Rightarrow> 'l \<Rightarrow> 'l"
  lk_close :: "nat \<Rightarrow> 'l \<Rightarrow> 'l"
  lk_detach :: "nat \<Rightarrow> 'l \<Rightarrow> 'l"
  lk_respond :: "MultiBuffer \<Rightarrow> 'l \<Rightarrow> 'l written"

record 'l world =
  objs :: "Session list"
  mgrs :: "SessionManager list"
  xudps :: "XUDP list"
  xmap :: "(byte list \<times> nat) list" \<comment> \<open>\<^verbatim>\<open>XUDPManager.Map\<close>\<close>
  clock :: int \<comment> \<open>nanoseconds\<close>
  links :: 'l
  spawned :: "nat list" \<comment> \<open>the sessions whose \<^verbatim>\<open>handle\<close> was started\<close>

abbreviation upd_obj :: "nat \<Rightarrow> (Session \<Rightarrow> Session) \<Rightarrow> 'l world \<Rightarrow> 'l world" where
  "upd_obj r f w \<equiv> w\<lparr>objs := (objs w)[r := f (objs w ! r)]\<rparr>"

abbreviation upd_mgr :: "nat \<Rightarrow> (SessionManager \<Rightarrow> SessionManager) \<Rightarrow> 'l world \<Rightarrow> 'l world" where
  "upd_mgr m f w \<equiv> w\<lparr>mgrs := (mgrs w)[m := f (mgrs w ! m)]\<rparr>"

abbreviation upd_xudp :: "nat \<Rightarrow> (XUDP \<Rightarrow> XUDP) \<Rightarrow> 'l world \<Rightarrow> 'l world" where
  "upd_xudp x f w \<equiv> w\<lparr>xudps := (xudps w)[x := f (xudps w ! x)]\<rparr>"

section \<open>The session manager\<close>

definition sm_Closed :: "nat \<Rightarrow> 'l world \<Rightarrow> bool" where
  "sm_Closed m w = sm_closed (mgrs w ! m)"

definition sm_Size :: "nat \<Rightarrow> 'l world \<Rightarrow> nat" where
  "sm_Size m w = length (sm_sessions (mgrs w ! m))"

definition sm_Count :: "nat \<Rightarrow> 'l world \<Rightarrow> nat" where
  "sm_Count m w = unat (sm_count (mgrs w ! m))"

definition sm_put :: "u16 \<Rightarrow> nat \<Rightarrow> SessionManager \<Rightarrow> SessionManager" where
  "sm_put i r m = m\<lparr>sm_sessions := AList.update i r (sm_sessions m)\<rparr>"

text \<open>The new session has no input and output yet: \<^verbatim>\<open>Dispatch\<close> of the client sets them.\<close>

definition Allocate :: "nat \<Rightarrow> 'l world \<Rightarrow> nat option \<times> 'l world" where
  "Allocate m w =
     (if sm_closed (mgrs w ! m) then (None, w)
      else let w1 = upd_mgr m (\<lambda>sm. sm\<lparr>sm_count := sm_count sm + 1\<rparr>) w;
               s = \<lparr>s_input = 0, s_output = 0, s_parent = Some m, s_ID = sm_count (mgrs w1 ! m),
                     s_transferType = TransferTypeStream, s_closed = False, s_XUDP = None\<rparr>;
               r = length (objs w1)
           in (Some r, upd_mgr m (sm_put (s_ID s) r) (w1\<lparr>objs := objs w1 @ [s]\<rparr>)))"

definition sm_Add :: "nat \<Rightarrow> nat \<Rightarrow> 'l world \<Rightarrow> bool \<times> 'l world" where
  "sm_Add m r w =
     (if sm_closed (mgrs w ! m) then (False, w)
      else (True, upd_mgr m (\<lambda>sm. sm_put (s_ID (objs w ! r)) r (sm\<lparr>sm_count := sm_count sm + 1\<rparr>)) w))"

definition sm_Remove :: "nat \<Rightarrow> u16 \<Rightarrow> 'l world \<Rightarrow> 'l world" where
  "sm_Remove m i w =
     (if sm_closed (mgrs w ! m) then w
      else upd_mgr m (\<lambda>sm. sm\<lparr>sm_sessions := AList.delete i (sm_sessions sm)\<rparr>) w)"

definition sm_Get :: "nat \<Rightarrow> u16 \<Rightarrow> 'l world \<Rightarrow> nat option" where
  "sm_Get m i w = (if sm_closed (mgrs w ! m) then None else map_of (sm_sessions (mgrs w ! m)) i)"

definition CloseIfNoSession :: "nat \<Rightarrow> 'l world \<Rightarrow> bool \<times> 'l world" where
  "CloseIfNoSession m w =
     (if sm_closed (mgrs w ! m) then (True, w)
      else if sm_sessions (mgrs w ! m) \<noteq> [] then (False, w)
      else (True, upd_mgr m (\<lambda>sm. sm\<lparr>sm_closed := True\<rparr>) w))"

section \<open>Sessions\<close>

text \<open>\<^verbatim>\<open>Session.Close\<close>; a session without a manager dereferences \<^verbatim>\<open>nil\<close>.\<close>

definition Session_Close :: "'l links_api \<Rightarrow> nat \<Rightarrow> 'l world \<Rightarrow> 'l world option" where
  "Session_Close api r w =
     (let s = objs w ! r
      in case s_parent s of
           None \<Rightarrow> None
         | Some m \<Rightarrow>
             if s_closed s then Some w
             else let w1 = upd_obj r (\<lambda>s. s\<lparr>s_closed := True\<rparr>) w;
                      w2 = (case s_XUDP s of
                              None \<Rightarrow> w1\<lparr>links := lk_close api (s_output s) (lk_interrupt api (s_input s) (links w1))\<rparr>
                            | Some x \<Rightarrow>
                                let w' = w1\<lparr>links := lk_detach api (s_input s) (links w1)\<rparr>
                                in if x_Status (xudps w' ! x) = Active
                                   then upd_xudp x (\<lambda>x. x\<lparr>x_Expire := clock w' + 60 * 10 ^ 9, x_Status := Expiring\<rparr>) w' else w')
                  in Some (sm_Remove m (s_ID s) w2))"

fun close_all :: "'l links_api \<Rightarrow> nat list \<Rightarrow> 'l world \<Rightarrow> 'l world option" where
  "close_all api [] w = Some w"
| "close_all api (r # rs) w = Option.bind (Session_Close api r w) (close_all api rs)"

definition sm_Close :: "'l links_api \<Rightarrow> nat \<Rightarrow> 'l world \<Rightarrow> 'l world option" where
  "sm_Close api m w =
     (if sm_closed (mgrs w ! m) then Some w
      else map_option (upd_mgr m (\<lambda>sm. sm\<lparr>sm_sessions := []\<rparr>))
             (close_all api (map snd (sm_sessions (mgrs w ! m))) (upd_mgr m (\<lambda>sm. sm\<lparr>sm_closed := True\<rparr>) w)))"

text \<open>\<^verbatim>\<open>XUDP.Interrupt\<close>, and one round of the goroutine that drops expired associations.\<close>

definition XUDP_Interrupt :: "'l links_api \<Rightarrow> nat \<Rightarrow> 'l world \<Rightarrow> 'l world option" where
  "XUDP_Interrupt api x w =
     (case x_Mux (xudps w ! x) of
        None \<Rightarrow> None
      | Some r \<Rightarrow> Some (w\<lparr>links := lk_close api (s_output (objs w ! r)) (lk_interrupt api (s_input (objs w ! r)) (links w))\<rparr>))"

fun expire_round :: "'l links_api \<Rightarrow> (byte list \<times> nat) list \<Rightarrow> 'l world \<Rightarrow> 'l world option" where
  "expire_round api [] w = Some w"
| "expire_round api ((gid, x) # ps) w =
     (if x_Status (xudps w ! x) = Expiring \<and> clock w > x_Expire (xudps w ! x)
      then do { w1 \<leftarrow> XUDP_Interrupt api x w; expire_round api ps (w1\<lparr>xmap := AList.delete gid (xmap w1)\<rparr>) }
      else expire_round api ps w)"

definition XUDP_expire :: "'l links_api \<Rightarrow> 'l world \<Rightarrow> 'l world option" where
  "XUDP_expire api w = expire_round api (xmap w) w"

section \<open>The table of a client\<close>

text \<open>The operations of a client worker on its manager, in any order.\<close>

datatype sm_op = OpAllocate | OpCloseSession nat | OpCloseIfNoSession | OpClose

definition sm_exec :: "'l links_api \<Rightarrow> nat \<Rightarrow> sm_op \<Rightarrow> 'l world \<Rightarrow> 'l world option" where
  "sm_exec api m op w = (case op of
     OpAllocate \<Rightarrow> Some (snd (Allocate m w))
   | OpCloseSession r \<Rightarrow> if r < length (objs w) then Session_Close api r w else Some w
   | OpCloseIfNoSession \<Rightarrow> Some (snd (CloseIfNoSession m w))
   | OpClose \<Rightarrow> sm_Close api m w)"

fun sm_run :: "'l links_api \<Rightarrow> nat \<Rightarrow> sm_op list \<Rightarrow> 'l world \<Rightarrow> 'l world option" where
  "sm_run api m [] w = Some w"
| "sm_run api m (op # ops) w = Option.bind (sm_exec api m op w) (sm_run api m ops)"

definition new_world :: "'l \<Rightarrow> 'l world" where
  "new_world l = \<lparr>objs = [], mgrs = [NewSessionManager], xudps = [], xmap = [], clock = 0, links = l, spawned = []\<rparr>"

text \<open>
  The invariant of a manager that numbers its sessions: no id was given twice, and the table holds
  exactly the open sessions under their ids, until the manager is closed and all are closed.
\<close>

definition nth_id :: "nat \<Rightarrow> u16" where
  "nth_id r = of_nat (Suc r)"

lemma nth_id_inj: "a < 65535 \<Longrightarrow> b < 65535 \<Longrightarrow> nth_id a = nth_id b \<longleftrightarrow> a = b"
  unfolding nth_id_def word_of_nat_eq_iff by (simp add: take_bit_nat_eq_self)

definition open_sessions :: "'l world \<Rightarrow> nat set" where
  "open_sessions w = {r. r < length (objs w) \<and> \<not> s_closed (objs w ! r)}"

definition numbered :: "'l world \<Rightarrow> bool" where
  "numbered w \<longleftrightarrow> (\<forall>r < length (objs w). s_parent (objs w ! r) = Some 0 \<and> s_XUDP (objs w ! r) = None \<and> s_ID (objs w ! r) = nth_id r)"

definition table_inv :: "'l world \<Rightarrow> bool" where
  "table_inv w \<longleftrightarrow> mgrs w \<noteq> [] \<and> sm_count (mgrs w ! 0) = of_nat (length (objs w)) \<and> numbered w \<and>
     distinct (map fst (sm_sessions (mgrs w ! 0))) \<and>
     (if sm_closed (mgrs w ! 0) then sm_sessions (mgrs w ! 0) = [] \<and> open_sessions w = {}
      else set (sm_sessions (mgrs w ! 0)) = (\<lambda>r. (nth_id r, r)) ` open_sessions w)"

lemma set_update_new: "k \<notin> fst ` set al \<Longrightarrow> set (AList.update k v al) = insert (k, v) (set al)"
  by (induction al) auto

lemma set_delete: "set (AList.delete k al) = {p \<in> set al. fst p \<noteq> k}"
  by (auto simp: AList.delete_eq)

lemma Allocate_open:
  assumes "table_inv w" "\<not> sm_closed (mgrs w ! 0)" "length (objs w) < 65535"
  obtains w' where "Allocate 0 w = (Some (length (objs w)), w')" "table_inv w'" "length (objs w') = Suc (length (objs w))"
proof -
  let ?n = "length (objs w)"
  let ?s = "\<lparr>s_input = 0, s_output = 0, s_parent = Some 0, s_ID = nth_id ?n, s_transferType = TransferTypeStream, s_closed = False, s_XUDP = None\<rparr>"
  let ?m = "sm_put (nth_id ?n) ?n ((mgrs w ! 0)\<lparr>sm_count := nth_id ?n\<rparr>)"
  let ?w = "w\<lparr>objs := objs w @ [?s], mgrs := (mgrs w)[0 := ?m]\<rparr>"
  have i: "mgrs w \<noteq> []" "sm_count (mgrs w ! 0) = of_nat ?n" "distinct (map fst (sm_sessions (mgrs w ! 0)))"
    "set (sm_sessions (mgrs w ! 0)) = (\<lambda>r. (nth_id r, r)) ` open_sessions w" "numbered w"
    using assms(1,2) by (simp_all add: table_inv_def)
  have a: "Allocate 0 w = (Some ?n, ?w)"
    using assms(2) i by (simp add: Allocate_def Let_def nth_id_def add.commute)
  have new: "nth_id ?n \<notin> fst ` set (sm_sessions (mgrs w ! 0))"
  proof
    assume "nth_id ?n \<in> fst ` set (sm_sessions (mgrs w ! 0))"
    then obtain r where "r < ?n" "nth_id ?n = nth_id r" unfolding i(4) by (auto simp: open_sessions_def)
    then show False using nth_id_inj [of ?n r] assms(3) by simp
  qed
  have "open_sessions ?w = insert ?n (open_sessions w)" by (auto simp: open_sessions_def nth_append less_Suc_eq)
  then have "set (sm_sessions ?m) = (\<lambda>r. (nth_id r, r)) ` open_sessions ?w"
    using set_update_new [OF new] i(4) by (simp add: sm_put_def)
  moreover have "numbered ?w" using i(5) by (simp add: numbered_def nth_append less_Suc_eq)
  moreover have "distinct (map fst (sm_sessions ?m))" using i(3) by (simp add: sm_put_def distinct_update)
  moreover have "sm_count ?m = of_nat (length (objs ?w))" "\<not> sm_closed ?m" using assms(2) by (simp_all add: sm_put_def nth_id_def)
  ultimately have "table_inv ?w" using i(1) by (simp add: table_inv_def)
  then show thesis using that a by simp
qed

lemma Session_Close_step:
  assumes "table_inv w" "r < length (objs w)" "length (objs w) \<le> 65535"
  obtains w' where "Session_Close api r w = Some w'" "table_inv w'" "length (objs w') = length (objs w)"
proof (cases "s_closed (objs w ! r)")
  case True
  then show thesis using that [of w] assms by (simp add: Session_Close_def table_inv_def numbered_def)
next
  case False
  let ?s = "objs w ! r" and ?m = "mgrs w ! 0"
  let ?m' = "?m\<lparr>sm_sessions := AList.delete (nth_id r) (sm_sessions ?m)\<rparr>"
  let ?w = "w\<lparr>objs := (objs w)[r := ?s\<lparr>s_closed := True\<rparr>], links := lk_close api (s_output ?s) (lk_interrupt api (s_input ?s) (links w)),
    mgrs := (mgrs w)[0 := ?m']\<rparr>"
  have r: "r \<in> open_sessions w" using assms(2) False by (simp add: open_sessions_def)
  have i: "mgrs w \<noteq> []" "numbered w" "\<not> sm_closed ?m" "set (sm_sessions ?m) = (\<lambda>r. (nth_id r, r)) ` open_sessions w"
    "sm_count ?m = of_nat (length (objs w))" "distinct (map fst (sm_sessions ?m))"
    using assms(1) r by (auto simp: table_inv_def split: if_splits)
  have c: "Session_Close api r w = Some ?w"
    using False i(1-3) assms(2) by (simp add: Session_Close_def sm_Remove_def Let_def numbered_def)
  have lt: "q < 65535" if "q \<in> open_sessions w" for q using that assms(3) by (auto simp: open_sessions_def)
  have o: "open_sessions ?w = open_sessions w - {r}" using assms(2) by (auto simp: open_sessions_def nth_list_update)
  have "set (sm_sessions ?m') = (\<lambda>r. (nth_id r, r)) ` open_sessions ?w"
    unfolding o using i(4) lt r nth_id_inj by (fastforce simp: set_delete)
  moreover have "numbered ?w" using i(2) assms(2) by (simp add: numbered_def nth_list_update)
  moreover have "distinct (map fst (sm_sessions ?m'))" using i(6) by (simp add: distinct_delete)
  moreover have "sm_count ?m' = of_nat (length (objs ?w))" "\<not> sm_closed ?m'" using i(3,5) by simp_all
  ultimately have "table_inv ?w" using i(1) by (simp add: table_inv_def)
  then show thesis using that c by simp
qed

lemma Session_Close_detached:
  assumes "r < length (objs w)" "numbered w" "sm_closed (mgrs w ! 0)"
  obtains w' where "Session_Close api r w = Some w'" "objs w' = (objs w)[r := (objs w ! r)\<lparr>s_closed := True\<rparr>]" "mgrs w' = mgrs w"
proof (cases "s_closed (objs w ! r)")
  case True
  then have "(objs w)[r := (objs w ! r)\<lparr>s_closed := True\<rparr>] = objs w" by (simp add: list_update_same_conv [OF assms(1)])
  then show thesis using that [of w] True assms by (simp add: Session_Close_def numbered_def)
next
  case False
  then show thesis using that assms by (simp add: Session_Close_def sm_Remove_def Let_def numbered_def)
qed

lemma close_all_closed:
  "\<forall>r\<in>set rs. r < length (objs w) \<Longrightarrow> numbered w \<Longrightarrow> sm_closed (mgrs w ! 0) \<Longrightarrow>
   \<exists>w'. close_all api rs w = Some w' \<and> mgrs w' = mgrs w \<and> length (objs w') = length (objs w) \<and> numbered w' \<and> open_sessions w' = open_sessions w - set rs"
proof (induction rs arbitrary: w)
  case (Cons r rs)
  have r: "r < length (objs w)" using Cons.prems(1) by simp
  obtain w1 where w1: "Session_Close api r w = Some w1" "objs w1 = (objs w)[r := (objs w ! r)\<lparr>s_closed := True\<rparr>]" "mgrs w1 = mgrs w"
    by (rule Session_Close_detached [OF r Cons.prems(2,3)])
  have "numbered w1" using Cons.prems(2) w1(2) r by (auto simp: numbered_def nth_list_update)
  moreover have "open_sessions w1 = open_sessions w - {r}" using w1(2) r by (auto simp: open_sessions_def nth_list_update)
  ultimately show ?case using Cons.IH [of w1] Cons.prems w1 by auto
qed simp

lemma sm_Close_step:
  assumes "table_inv w"
  obtains w' where "sm_Close api 0 w = Some w'" "table_inv w'" "length (objs w') = length (objs w)" "sm_closed (mgrs w' ! 0)"
proof (cases "sm_closed (mgrs w ! 0)")
  case True
  then show thesis using that assms by (simp add: sm_Close_def)
next
  case False
  let ?rs = "map snd (sm_sessions (mgrs w ! 0))" and ?w = "upd_mgr 0 (\<lambda>sm. sm\<lparr>sm_closed := True\<rparr>) w"
  have i: "mgrs w \<noteq> []" "numbered w" "set ?rs = open_sessions w" "sm_count (mgrs w ! 0) = of_nat (length (objs w))"
    using assms False by (auto simp: table_inv_def image_iff)
  have "\<forall>r\<in>set ?rs. r < length (objs ?w)" unfolding i(3) by (simp add: open_sessions_def)
  moreover have "numbered ?w" "sm_closed (mgrs ?w ! 0)" "open_sessions ?w = open_sessions w" using i by (simp_all add: numbered_def open_sessions_def)
  ultimately obtain w1 where w1: "close_all api ?rs ?w = Some w1" "mgrs w1 = mgrs ?w" "length (objs w1) = length (objs w)" "numbered w1"
    "open_sessions w1 = {}" using close_all_closed [of ?rs ?w api] i(3) by auto
  let ?w' = "upd_mgr 0 (\<lambda>sm. sm\<lparr>sm_sessions := []\<rparr>) w1"
  have "sm_Close api 0 w = Some ?w'" using False w1(1) by (simp add: sm_Close_def)
  moreover have "table_inv ?w'" using i w1 by (simp add: table_inv_def numbered_def open_sessions_def)
  ultimately show thesis using that w1 i(1) by simp
qed

definition allocates :: "sm_op list \<Rightarrow> nat" where
  "allocates ops = length (filter (\<lambda>op. op = OpAllocate) ops)"

lemma sm_exec_step:
  assumes "table_inv w" "length (objs w) + allocates (op # ops) \<le> 65535"
  obtains w' where "sm_exec api 0 op w = Some w'" "table_inv w'" "length (objs w') + allocates ops \<le> 65535"
proof (cases op)
  case OpAllocate
  then have n: "length (objs w) < 65535" "length (objs w) + 1 + allocates ops \<le> 65535" using assms(2) by (simp_all add: allocates_def)
  show thesis
  proof (cases "sm_closed (mgrs w ! 0)")
    case True
    then show thesis using that [of w] OpAllocate assms(1) n by (simp add: sm_exec_def Allocate_def)
  next
    case False
    obtain w' where "Allocate 0 w = (Some (length (objs w)), w')" "table_inv w'" "length (objs w') = Suc (length (objs w))"
      by (rule Allocate_open [OF assms(1) False n(1)])
    then show thesis using that [of w'] OpAllocate n by (simp add: sm_exec_def)
  qed
next
  case (OpCloseSession r)
  have n: "length (objs w) + allocates ops \<le> 65535" "length (objs w) \<le> 65535" using assms(2) OpCloseSession by (simp_all add: allocates_def)
  show thesis
  proof (cases "r < length (objs w)")
    case True
    obtain w' where "Session_Close api r w = Some w'" "table_inv w'" "length (objs w') = length (objs w)"
      by (rule Session_Close_step [OF assms(1) True n(2)])
    then show thesis using that [of w'] OpCloseSession n True by (simp add: sm_exec_def)
  qed (use that [of w] OpCloseSession assms(1) n in \<open>simp add: sm_exec_def\<close>)
next
  case OpCloseIfNoSession
  have "table_inv (snd (CloseIfNoSession 0 w))" "length (objs (snd (CloseIfNoSession 0 w))) = length (objs w)"
    using assms(1) by (auto simp: CloseIfNoSession_def table_inv_def numbered_def open_sessions_def split: if_splits)
  then show thesis using that OpCloseIfNoSession assms(2) by (simp add: sm_exec_def allocates_def)
next
  case OpClose
  obtain w' where "sm_Close api 0 w = Some w'" "table_inv w'" "length (objs w') = length (objs w)"
    by (rule sm_Close_step [OF assms(1)])
  then show thesis using that [of w'] OpClose assms(2) by (simp add: sm_exec_def allocates_def)
qed

lemma sm_run_inv:
  "table_inv w \<Longrightarrow> length (objs w) + allocates ops \<le> 65535 \<Longrightarrow> \<exists>w'. sm_run api 0 ops w = Some w' \<and> table_inv w' \<and> length (objs w') \<le> 65535"
proof (induction ops arbitrary: w)
  case (Cons op ops)
  obtain w1 where "sm_exec api 0 op w = Some w1" "table_inv w1" "length (objs w1) + allocates ops \<le> 65535"
    by (rule sm_exec_step [OF Cons.prems])
  then show ?case using Cons.IH [of w1] by simp
qed simp

text \<open>
  C27: the table of sessions of a client worker: as long as at most 65535 sessions are allocated,
  whatever sessions are opened and closed in whatever order, an open manager finds exactly the
  open sessions, each under its own id, and its size is their number; a closed manager has closed
  every session and allocates none. No call panics.
\<close>

theorem session_table:
  assumes "allocates ops \<le> 65535"
  shows "\<exists>w. sm_run api 0 ops (new_world l) = Some w \<and>
    (sm_Closed 0 w \<longrightarrow> open_sessions w = {} \<and> Allocate 0 w = (None, w)) \<and>
    (\<not> sm_Closed 0 w \<longrightarrow> sm_Size 0 w = card (open_sessions w) \<and>
       (\<forall>i r. sm_Get 0 i w = Some r \<longleftrightarrow> r \<in> open_sessions w \<and> s_ID (objs w ! r) = i))"
proof -
  have "table_inv (new_world l)" by (simp add: table_inv_def new_world_def NewSessionManager_def numbered_def open_sessions_def)
  then obtain w where w: "sm_run api 0 ops (new_world l) = Some w" "table_inv w" "length (objs w) \<le> 65535"
    using sm_run_inv [of "new_world l" ops api] assms by (auto simp: new_world_def)
  have lt: "r < 65535" if "r \<in> open_sessions w" for r using that w(3) by (simp add: open_sessions_def)
  have id: "s_ID (objs w ! r) = nth_id r" if "r \<in> open_sessions w" for r
    using that w(2) by (simp add: open_sessions_def table_inv_def numbered_def)
  have "sm_Size 0 w = card (open_sessions w) \<and> (\<forall>i r. sm_Get 0 i w = Some r \<longleftrightarrow> r \<in> open_sessions w \<and> s_ID (objs w ! r) = i)" if op: "\<not> sm_Closed 0 w"
  proof -
    let ?t = "sm_sessions (mgrs w ! 0)"
    have t: "distinct (map fst ?t)" "set ?t = (\<lambda>r. (nth_id r, r)) ` open_sessions w"
      using w(2) op by (simp_all add: table_inv_def sm_Closed_def)
    have "length ?t = card (set ?t)" using distinct_card [of ?t] t(1) by (simp add: distinct_map)
    also have "\<dots> = card (open_sessions w)" unfolding t(2) by (rule card_image) (auto simp: inj_on_def)
    finally have "sm_Size 0 w = card (open_sessions w)" by (simp add: sm_Size_def)
    moreover have "sm_Get 0 i w = Some r \<longleftrightarrow> r \<in> open_sessions w \<and> s_ID (objs w ! r) = i" for i r
    proof -
      have "sm_Get 0 i w = Some r \<longleftrightarrow> (i, r) \<in> set ?t" using op t(1) by (simp add: sm_Get_def sm_Closed_def)
      then show ?thesis unfolding t(2) using id by auto
    qed
    ultimately show ?thesis by blast
  qed
  moreover have "sm_Closed 0 w \<longrightarrow> open_sessions w = {} \<and> Allocate 0 w = (None, w)"
    using w(2) by (simp add: table_inv_def sm_Closed_def Allocate_def)
  ultimately show ?thesis using w(1) by blast
qed

text \<open>Links that record nothing, for samples.\<close>

definition no_links :: "unit links_api" where
  "no_links = \<lparr>lk_dispatch = (\<lambda>d l. (Inr (0, 0), l)), lk_write = (\<lambda>i mb l. Some (None, l)), lk_interrupt = (\<lambda>i l. l), lk_close = (\<lambda>i l. l),
     lk_detach = (\<lambda>i l. l), lk_respond = (\<lambda>mb l. Some (None, l))\<rparr>"

theorem session_table_witness:
  "\<exists>w. sm_run no_links 0 [OpAllocate, OpAllocate, OpCloseSession 0] (new_world ()) = Some w \<and> \<not> sm_Closed 0 w \<and>
     sm_Get 0 2 w = Some 1 \<and> sm_Get 0 1 w = None"
proof -
  let ?ops = "[OpAllocate, OpAllocate, OpCloseSession 0]"
  have "allocates ?ops \<le> 65535" by (simp add: allocates_def)
  then obtain w where w: "sm_run no_links 0 ?ops (new_world ()) = Some w"
    "\<not> sm_Closed 0 w \<longrightarrow> (\<forall>i r. sm_Get 0 i w = Some r \<longleftrightarrow> r \<in> open_sessions w \<and> s_ID (objs w ! r) = i)"
    using session_table [of ?ops no_links "()"] by metis
  have "\<exists>w. sm_run no_links 0 ?ops (new_world ()) = Some w \<and> \<not> sm_Closed 0 w \<and> length (objs w) = 2 \<and>
      s_closed (objs w ! 0) \<and> \<not> s_closed (objs w ! 1) \<and> s_ID (objs w ! 0) = 1 \<and> s_ID (objs w ! 1) = 2"
    by (simp add: sm_exec_def Allocate_def Session_Close_def sm_Remove_def sm_put_def new_world_def NewSessionManager_def no_links_def
      sm_Closed_def Let_def)
  then have f: "\<not> sm_Closed 0 w" "length (objs w) = 2" "s_closed (objs w ! 0)" "\<not> s_closed (objs w ! 1)" "s_ID (objs w ! 0) = 1" "s_ID (objs w ! 1) = 2"
    using w(1) by simp_all
  have "open_sessions w = {1}" using f by (auto simp: open_sessions_def less_2_cases_iff)
  then have "sm_Get 0 2 w = Some 1" "sm_Get 0 1 w = None" using w(2) f by (auto simp: not_Some_eq [symmetric])
  then show ?thesis using w(1) f(1) by blast
qed

text \<open>
  C30: \<^verbatim>\<open>Session.Close\<close> removes its id from the table without a look at the session that stands
  there: when a second session was added under the id of a session that is still open (a peer may
  send such a frame, and a client reaches it when the 16-bit counter wraps around), closing the old
  session makes the new one unreachable although it stays open.
\<close>

theorem stale_close_evicts:
  assumes "old < length (objs w)" "old \<noteq> new" "s_parent (objs w ! old) = Some m" "\<not> s_closed (objs w ! old)" "m < length (mgrs w)"
    "s_ID (objs w ! new) = s_ID (objs w ! old)" "sm_Get m (s_ID (objs w ! new)) w = Some new" "\<not> s_closed (objs w ! new)"
    "s_XUDP (objs w ! old) = None"
  shows "\<exists>w'. Session_Close api old w = Some w' \<and> sm_Get m (s_ID (objs w ! new)) w' = None \<and> \<not> s_closed (objs w' ! new)"
proof -
  have "\<not> sm_closed (mgrs w ! m)" using assms(7) by (auto simp: sm_Get_def)
  then show ?thesis using assms
    by (simp add: Session_Close_def sm_Remove_def sm_Get_def Let_def delete_conv')
qed

theorem stale_close_evicts_witness:
  "\<exists>w w'. sm_Get 0 1 w = Some 1 \<and> Session_Close no_links 0 w = Some w' \<and> sm_Get 0 1 w' = None \<and> \<not> s_closed (objs w' ! 1)"
proof -
  let ?s = "\<lparr>s_input = 0, s_output = 0, s_parent = Some 0, s_ID = 1, s_transferType = TransferTypeStream, s_closed = False, s_XUDP = None\<rparr>"
  define w where "w = snd (sm_Add 0 1 (snd (sm_Add 0 0 ((new_world ())\<lparr>objs := [?s, ?s]\<rparr>))))"
  have w: "objs w = [?s, ?s]" "length (mgrs w) = 1" "sm_Get 0 1 w = Some 1"
    by (simp_all add: w_def sm_Add_def new_world_def NewSessionManager_def sm_put_def sm_Get_def)
  then have "\<exists>w'. Session_Close no_links 0 w = Some w' \<and> sm_Get 0 (s_ID (objs w ! 1)) w' = None \<and> \<not> s_closed (objs w' ! 1)"
    by (intro stale_close_evicts) simp_all
  then show ?thesis using w by auto
qed

end
