(* ===== verification/Mux_Server.thy ===== *)
theory Mux_Server
  imports Mux_Session
begin

text \<open>
  Package \<^verbatim>\<open>common/mux\<close>, file \<^verbatim>\<open>server.go\<close>: the worker that takes the frames of a connection, opens
  a link for every new session and moves the data of the sessions to their links, and the
  goroutine that moves the answers of a link back. A result is the root cause of the error, if any,
  with the reader and the world; \<open>None\<close> is a panic.
\<close>

section \<open>Reading frames from a buffered reader\<close>

definition br_Unmarshal :: "FrameMetadata \<Rightarrow> BufferedReader \<Rightarrow> ((go_error + FrameMetadata) \<times> BufferedReader) option" where
  "br_Unmarshal f r =
     (case br_ReadUint16 r of
        None \<Rightarrow> None
      | Some (Inl e, r1) \<Rightarrow> Some (Inl e, r1)
      | Some (Inr metaLen, r1) \<Rightarrow>
          if metaLen > 512 then Some (Inl (ErrNew ''invalid metalen ''), r1)
          else (case br_ReadFullFrom r1 (uint metaLen) New of
                  None \<Rightarrow> None
                | Some (_, Some e, r2, b) \<Rightarrow> Some (Inl e, r2)
                | Some (_, None, r2, b) \<Rightarrow> map_option (\<lambda>res. (res, r2)) (UnmarshalFromBuffer f b)))"

definition br_PacketReader ::
  "PacketReader \<Rightarrow> BufferedReader \<Rightarrow> (MultiBuffer \<times> go_error option \<times> PacketReader \<times> BufferedReader) option" where
  "br_PacketReader p r =
     (if eof p then Some ([], Some EOF, p, r)
      else case br_ReadUint16 r of
             None \<Rightarrow> None
           | Some (Inl e, r1) \<Rightarrow> Some ([], Some e, p, r1)
           | Some (Inr sz, r1) \<Rightarrow>
               if unat sz > Size then Some ([], Some (ErrNew ''packet size too large: ''), p, r1)
               else (case br_ReadFullFrom r1 (uint sz) New of
                       None \<Rightarrow> None
                     | Some (_, Some e, r2, b) \<Rightarrow> Some ([], Some e, p, r2)
                     | Some (_, None, r2, b) \<Rightarrow>
                         let b' = (case pdest p of
                                     Some d \<Rightarrow> if DNetwork d = Network_UDP then b\<lparr>UDP := Some d\<rparr> else b
                                   | None \<Rightarrow> b)
                         in Some ([b'], None, p\<lparr>eof := True\<rparr>, r2)))"

text \<open>
  \<^verbatim>\<open>Session.NewReader\<close> returns one of two readers over the connection; \<^verbatim>\<open>buf.Copy\<close> runs on the one
  or the other.
\<close>

datatype session_reader = StreamReader ChunkStreamReader | FrameReader PacketReader

definition NewReader :: "Session \<Rightarrow> BufferedReader \<Rightarrow> Destination \<Rightarrow> session_reader" where
  "NewReader s r d =
     (if s_transferType s = TransferTypeStream then StreamReader (fst (NewStreamReader r)) else FrameReader (NewPacketReader (Some d)))"

definition packet_read :: "PacketReader \<times> BufferedReader \<Rightarrow> (MultiBuffer \<times> go_error option \<times> PacketReader \<times> BufferedReader) option" where
  "packet_read s = br_PacketReader (fst s) (snd s)"

definition copy_session ::
  "session_reader \<Rightarrow> BufferedReader \<Rightarrow> (MultiBuffer \<Rightarrow> 'w \<Rightarrow> 'w written) \<Rightarrow> 'w \<Rightarrow> (copy_error option \<times> session_reader \<times> BufferedReader \<times> 'w) option" where
  "copy_session rr r wm l =
     (case rr of
        StreamReader c \<Rightarrow> map_option (\<lambda>(e, (c', r'), l', h). (e, StreamReader c', r', l')) (Copy (cs_ReadMultiBuffer Plain_Decode) wm (\<lambda>mb h. h) (c, r) l ())
      | FrameReader p \<Rightarrow> map_option (\<lambda>(e, (p', r'), l', h). (e, FrameReader p', r', l')) (Copy packet_read wm (\<lambda>mb h. h) (p, r) l ()))"

text \<open>\<^verbatim>\<open>buf.Discard\<close>; its state records what was dropped.\<close>

definition Discard :: "MultiBuffer \<Rightarrow> byte list \<Rightarrow> byte list written" where
  "Discard mb dropped = Some (None, dropped @ mb_content mb)"

definition discard_session :: "session_reader \<Rightarrow> BufferedReader \<Rightarrow> (go_error option \<times> BufferedReader) option" where
  "discard_session rr r = map_option (\<lambda>(e, rr', r', u). (map_option copy_cause e, r')) (copy_session rr r Discard [])"

definition discard_stream :: "BufferedReader \<Rightarrow> (go_error option \<times> BufferedReader) option" where
  "discard_stream r = discard_session (StreamReader (fst (NewStreamReader r))) r"

section \<open>The handlers\<close>

type_synonym 'l handled = "(go_error option \<times> BufferedReader \<times> 'l world) option"

definition handleStatusKeepAlive :: "FrameMetadata \<Rightarrow> BufferedReader \<Rightarrow> 'l world \<Rightarrow> 'l handled" where
  "handleStatusKeepAlive meta r w =
     (if mask_Has (FOption meta) OptionData
      then map_option (\<lambda>(e, r'). (e, r', w)) (discard_stream r)
      else Some (None, r, w))"

text \<open>A new object, the session of an association, and the copy of the packet that is kept.\<close>

definition new_obj :: "Session \<Rightarrow> 'l world \<Rightarrow> nat \<times> 'l world" where
  "new_obj s w = (length (objs w), w\<lparr>objs := objs w @ [s]\<rparr>)"

definition copy_packet :: "buffer \<Rightarrow> buffer option" where
  "copy_packet b0 = do {
     bs \<leftarrow> Bytes b0;
     (n, b) \<leftarrow> buf_Write bs New;
     Some (b\<lparr>UDP := UDP b0\<rparr>)
   }"

text \<open>
  The association of a global id: a new one, or the one of an earlier connection, which is
  detached from that connection and gets the packet. The left result ends the handler.
\<close>

definition xudp_attach ::
  "'l links_api \<Rightarrow> byte list \<Rightarrow> MultiBuffer \<Rightarrow> 'l world \<Rightarrow> (unit + nat \<times> MultiBuffer option \<times> 'l world) option" where
  "xudp_attach api gid mb w =
     (case map_of (xmap w) gid of
        None \<Rightarrow>
          let x = length (xudps w)
          in Some (Inr (x, Some mb, w\<lparr>xudps := xudps w @ [\<lparr>x_GlobalID = gid, x_Status = Initializing, x_Expire = 0, x_Mux = None\<rparr>],
                                      xmap := AList.update gid x (xmap w)\<rparr>))
      | Some x \<Rightarrow>
          if x_Status (xudps w ! x) = Initializing then Some (Inl ())
          else let w1 = upd_xudp x (\<lambda>x. x\<lparr>x_Status := Initializing\<rparr>) w
               in case x_Mux (xudps w1 ! x) of
                    None \<Rightarrow> None
                  | Some r \<Rightarrow> do {
                      w2 \<leftarrow> Session_Close api r w1;
                      b \<leftarrow> copy_packet (hd mb);
                      (e, l) \<leftarrow> lk_write api (s_output (objs w2 ! r)) mb (links w2);
                      (if e \<noteq> None then map_option (\<lambda>w3. Inr (x, Some [b], w3)) (XUDP_Interrupt api x (w2\<lparr>links := l\<rparr>))
                       else Some (Inr (x, None, w2\<lparr>links := l\<rparr>)))
                    })"

text \<open>The link of the association: a packet that was not written yet needs a new one.\<close>

definition xudp_link :: "'l links_api \<Rightarrow> Destination \<Rightarrow> nat \<Rightarrow> MultiBuffer option \<Rightarrow> 'l world \<Rightarrow> ((go_error option) \<times> 'l world) option" where
  "xudp_link api target x pending w =
     (case pending of
        None \<Rightarrow> Some (None, w)
      | Some mb \<Rightarrow>
          (case lk_dispatch api target (links w) of
             (Inl e, l) \<Rightarrow> Some (Some e, w\<lparr>links := l, xmap := AList.delete (x_GlobalID (xudps w ! x)) (xmap w)\<rparr>)
           | (Inr (i, out), l) \<Rightarrow>
               (case lk_write api out mb l of
                  None \<Rightarrow> None
                | Some (_, l') \<Rightarrow>
                    let (r, w1) = new_obj \<lparr>s_input = i, s_output = out, s_parent = None, s_ID = 0, s_transferType = TransferTypeStream,
                                            s_closed = False, s_XUDP = None\<rparr> (w\<lparr>links := l'\<rparr>)
                    in Some (None, upd_xudp x (\<lambda>x. x\<lparr>x_Mux := Some r\<rparr>) w1))))"

definition xudp_session :: "'l links_api \<Rightarrow> nat \<Rightarrow> u16 \<Rightarrow> nat \<Rightarrow> 'l world \<Rightarrow> 'l world option" where
  "xudp_session api m sid x w =
     (case x_Mux (xudps w ! x) of
        None \<Rightarrow> None
      | Some r0 \<Rightarrow>
          let (r, w1) = new_obj \<lparr>s_input = s_input (objs w ! r0), s_output = s_output (objs w ! r0), s_parent = Some m, s_ID = sid,
                                  s_transferType = TransferTypePacket, s_closed = False, s_XUDP = Some x\<rparr> w;
              w2 = (upd_xudp x (\<lambda>x. x\<lparr>x_Mux := Some r, x_Status := Active\<rparr>) w1)\<lparr>spawned := spawned w1 @ [r]\<rparr>
          in case sm_Add m r w2 of
               (True, w3) \<Rightarrow> Some w3
             | (False, w3) \<Rightarrow> Session_Close api r w3)"

definition xudp_new :: "'l links_api \<Rightarrow> nat \<Rightarrow> FrameMetadata \<Rightarrow> BufferedReader \<Rightarrow> 'l world \<Rightarrow> 'l handled" where
  "xudp_new api m meta r w =
     (case br_PacketReader (NewPacketReader (Some (Target meta))) r of
        None \<Rightarrow> None
      | Some (mb, Some e, p, r1) \<Rightarrow> Some (Some e, r1, w)
      | Some (mb, None, p, r1) \<Rightarrow>
          (case xudp_attach api (GlobalID meta) mb w of
             None \<Rightarrow> None
           | Some (Inl u) \<Rightarrow> Some (None, r1, w)
           | Some (Inr (x, pending, w1)) \<Rightarrow>
               (case xudp_link api (Target meta) x pending w1 of
                  None \<Rightarrow> None
                | Some (Some e, w2) \<Rightarrow> Some (Some e, r1, w2)
                | Some (None, w2) \<Rightarrow> map_option (\<lambda>w3. (None, r1, w3)) (xudp_session api m (SessionID meta) x w2))))"

text \<open>The session of a new link.\<close>

definition start_session :: "nat \<Rightarrow> FrameMetadata \<Rightarrow> nat \<Rightarrow> nat \<Rightarrow> 'l world \<Rightarrow> nat \<times> 'l world" where
  "start_session m meta i out w =
     (let (r, w1) = new_obj \<lparr>s_input = i, s_output = out, s_parent = Some m, s_ID = SessionID meta,
                       s_transferType = (if DNetwork (Target meta) = Network_UDP then TransferTypePacket else TransferTypeStream),
                       s_closed = False, s_XUDP = None\<rparr> w;
          w2 = snd (sm_Add m r w1)
      in (r, w2\<lparr>spawned := spawned w2 @ [r]\<rparr>))"

text \<open>\<open>allowed\<close> is the network that the context allows, \<^verbatim>\<open>Network_Unknown\<close> for any.\<close>

definition handleStatusNew :: "'l links_api \<Rightarrow> Network \<Rightarrow> nat \<Rightarrow> FrameMetadata \<Rightarrow> BufferedReader \<Rightarrow> 'l world \<Rightarrow> 'l handled" where
  "handleStatusNew api allowed m meta r w =
     (if allowed \<noteq> Network_Unknown \<and> DNetwork (Target meta) \<noteq> allowed then Some (Some (ErrNew ''unexpected network ''), r, w)
      else if GlobalID meta \<noteq> replicate 8 0 then xudp_new api m meta r w
      else case lk_dispatch api (Target meta) (links w) of
             (Inl e, l) \<Rightarrow>
               if mask_Has (FOption meta) OptionData then map_option (\<lambda>(_, r'). (Some e, r', w\<lparr>links := l\<rparr>)) (discard_stream r)
               else Some (Some e, r, w\<lparr>links := l\<rparr>)
           | (Inr (i, out), l) \<Rightarrow>
               (case start_session m meta i out (w\<lparr>links := l\<rparr>) of (s, w1) \<Rightarrow>
                  if \<not> mask_Has (FOption meta) OptionData then Some (None, r, w1)
                  else case copy_session (NewReader (objs w1 ! s) r (Target meta)) r (lk_write api out) (links w1) of
                         None \<Rightarrow> None
                       | Some (None, rr, r', l') \<Rightarrow> Some (None, r', w1\<lparr>links := l'\<rparr>)
                       | Some (Some e, rr, r', l') \<Rightarrow>
                           (case discard_session rr r' of
                              None \<Rightarrow> None
                            | Some (_, r'') \<Rightarrow> map_option (\<lambda>w2. (None, r'', w2)) (Session_Close api s (w1\<lparr>links := l'\<rparr>)))))"

definition handleStatusKeep :: "'l links_api \<Rightarrow> nat \<Rightarrow> FrameMetadata \<Rightarrow> BufferedReader \<Rightarrow> 'l world \<Rightarrow> 'l handled" where
  "handleStatusKeep api m meta r w =
     (if \<not> mask_Has (FOption meta) OptionData then Some (None, r, w)
      else case sm_Get m (SessionID meta) w of
             None \<Rightarrow>
               (case Writer_Close (lk_respond api) (NewResponseWriter (SessionID meta) TransferTypeStream) (links w) of
                  None \<Rightarrow> None
                | Some l \<Rightarrow> map_option (\<lambda>(e, r'). (e, r', w\<lparr>links := l\<rparr>)) (discard_stream r))
           | Some s \<Rightarrow>
               (case copy_session (NewReader (objs w ! s) r (Target meta)) r (lk_write api (s_output (objs w ! s))) (links w) of
                  None \<Rightarrow> None
                | Some (e, rr, r', l) \<Rightarrow>
                    (case e of
                       Some (writeError err) \<Rightarrow>
                         (case Session_Close api s (w\<lparr>links := l\<rparr>) of
                            None \<Rightarrow> None
                          | Some w1 \<Rightarrow> map_option (\<lambda>(e', r''). (e', r'', w1)) (discard_session rr r'))
                     | _ \<Rightarrow> Some (map_option copy_cause e, r', w\<lparr>links := l\<rparr>))))"

definition handleStatusEnd :: "'l links_api \<Rightarrow> nat \<Rightarrow> FrameMetadata \<Rightarrow> BufferedReader \<Rightarrow> 'l world \<Rightarrow> 'l handled" where
  "handleStatusEnd api m meta r w =
     (case (case sm_Get m (SessionID meta) w of None \<Rightarrow> Some w | Some s \<Rightarrow> Session_Close api s w) of
        None \<Rightarrow> None
      | Some w1 \<Rightarrow>
          if mask_Has (FOption meta) OptionData then map_option (\<lambda>(e, r'). (e, r', w1)) (discard_stream r)
          else Some (None, r, w1))"

definition handleFrame :: "'l links_api \<Rightarrow> Network \<Rightarrow> nat \<Rightarrow> BufferedReader \<Rightarrow> 'l world \<Rightarrow> 'l handled" where
  "handleFrame api allowed m r w =
     (case br_Unmarshal zero_FrameMetadata r of
        None \<Rightarrow> None
      | Some (Inl e, r1) \<Rightarrow> Some (Some e, r1, w)
      | Some (Inr meta, r1) \<Rightarrow>
          if FStatus meta = SessionStatusKeepAlive then handleStatusKeepAlive meta r1 w
          else if FStatus meta = SessionStatusEnd then handleStatusEnd api m meta r1 w
          else if FStatus meta = SessionStatusNew then handleStatusNew api allowed m meta r1 w
          else if FStatus meta = SessionStatusKeep then handleStatusKeep api m meta r1 w
          else Some (Some (ErrNew ''unknown status: ''), r1, w))"

text \<open>The loop of the worker: the error that ends it; the sessions are closed at the end.\<close>

partial_function (option) frames_loop :: "'l links_api \<Rightarrow> Network \<Rightarrow> nat \<Rightarrow> BufferedReader \<Rightarrow> 'l world \<Rightarrow> (go_error \<times> BufferedReader \<times> 'l world) option" where
  "frames_loop api allowed m r w =
     Option.bind (handleFrame api allowed m r w) (\<lambda>(e, r', w').
       case e of Some err \<Rightarrow> Some (err, r', w') | None \<Rightarrow> frames_loop api allowed m r' w')"

definition worker_run :: "'l links_api \<Rightarrow> Network \<Rightarrow> nat \<Rightarrow> MultiBuffer list \<Rightarrow> 'l world \<Rightarrow> (go_error \<times> 'l world) option" where
  "worker_run api allowed m input w =
     (case frames_loop api allowed m \<lparr>brReader = input, brBuffer = []\<rparr> w of
        None \<Rightarrow> None
      | Some (e, r, w1) \<Rightarrow> map_option (\<lambda>w2. (e, w2)) (sm_Close api m w1))"

text \<open>The goroutine of a session: \<open>input\<close> are the multi-buffers that its link delivers.\<close>

definition handle :: "'l links_api \<Rightarrow> nat \<Rightarrow> MultiBuffer list \<Rightarrow> 'l world \<Rightarrow> 'l world option" where
  "handle api s input w =
     (let writer = NewResponseWriter (s_ID (objs w ! s)) (s_transferType (objs w ! s))
      in case Copy below_read (Writer_WriteMultiBuffer (lk_respond api)) (\<lambda>mb h. h) \<lparr>brReader = input, brBuffer = []\<rparr> (writer, links w) () of
           None \<Rightarrow> None
         | Some (e, r', (writer', l), h) \<Rightarrow>
             (case Writer_Close (lk_respond api) (if e \<noteq> None then writer'\<lparr>hasError := True\<rparr> else writer') l of
                None \<Rightarrow> None
              | Some l' \<Rightarrow> Session_Close api s (w\<lparr>links := l'\<rparr>)))"

section \<open>Reading frames\<close>

lemma br_ReadUint16_std: "br_ReadUint16 r = Some (res, r') \<Longrightarrow> br_std r \<Longrightarrow> br_std r'"
  by (auto simp: br_ReadUint16_def dest: br_ReadFull_std split: option.splits bind_splits)

lemma br_ReadFullFrom_std: "br_ReadFullFrom r sz b = Some (n, e, r', b') \<Longrightarrow> br_std r \<Longrightarrow> br_std r'"
  by (auto simp: br_ReadFullFrom_def Let_def dest: br_ReadFull_std split: if_splits bind_splits)

lemma br_Unmarshal_sim:
  assumes "br_std r" "Unmarshal f (br_chunks r) = Some (res, cs)"
  obtains r' where "br_Unmarshal f r = Some (res, r')" "br_std r'" "br_chunks r' = cs"
proof -
  obtain x r1 where r1: "br_ReadUint16 r = Some (x, r1)" "br_wf r1" "ReadUint16 (br_chunks r) = (x, br_chunks r1)"
    using br_ReadUint16_sim [OF br_std_wf [OF assms(1)]] by blast
  note std1 = br_ReadUint16_std [OF r1(1) assms(1)]
  show thesis
  proof (cases x)
    case (Inl e)
    then show thesis using that [of r1] r1 std1 assms(2) by (simp add: br_Unmarshal_def Unmarshal_def)
  next
    case (Inr ml)
    show thesis
    proof (cases "ml > 512")
      case True
      then show thesis using that [of r1] r1 std1 assms(2) Inr by (simp add: br_Unmarshal_def Unmarshal_def)
    next
      case False
      then obtain n e cs' b where f: "ReadFullFrom (br_chunks r1) (uint ml) New = Some (n, e, cs', b)"
        using assms(2) r1 Inr by (auto simp: Unmarshal_def split: option.splits)
      then obtain r2 where r2: "br_ReadFullFrom r1 (uint ml) New = Some (n, e, r2, b)" "br_chunks r2 = cs'"
        using br_ReadFullFrom_sim [OF r1(2)] by blast
      then show thesis using that [of r2] r1 Inr False f br_ReadFullFrom_std [OF r2(1) std1] assms(2)
        by (cases e) (auto simp: br_Unmarshal_def Unmarshal_def)
    qed
  qed
qed

lemma br_Unmarshal_ok:
  assumes "br_std r" "frame_ok f u" "br_content r = PutUint16 (of_nat (length (meta_bytes f u))) @ meta_bytes f u @ rest"
  obtains r' where "br_Unmarshal zero_FrameMetadata r = Some (Inr (received_meta f u), r')" "br_std r'" "br_content r' = rest"
proof -
  obtain cs where "Unmarshal zero_FrameMetadata (br_chunks r) = Some (Inr (received_meta f u), cs)" "concat cs = rest"
    using Unmarshal_ok [of "br_chunks r" f u rest] assms(2,3) by (auto simp: yields_def br_content_def)
  then show thesis using that br_Unmarshal_sim [OF assms(1)] by (metis br_content_def)
qed

lemma br_Unmarshal_end:
  assumes "br_std r" "br_content r = []"
  obtains r' where "br_Unmarshal f r = Some (Inl EOF, r')"
proof -
  obtain cs where "ReadUint16 (br_chunks r) = (Inl EOF, cs)" using ReadUint16_end [of "br_chunks r"] assms(2) by (auto simp: br_content_def)
  then have "Unmarshal f (br_chunks r) = Some (Inl EOF, cs)" by (simp add: Unmarshal_def)
  then show thesis using that br_Unmarshal_sim [OF assms(1)] by metis
qed

lemma br_PacketReader_ok:
  assumes "br_std r" "br_content r = PutUint16 (of_nat (length d)) @ d @ rest" "length d \<le> Size"
  obtains b r' where "br_PacketReader (NewPacketReader t) r = Some ([b], None, (NewPacketReader t)\<lparr>eof := True\<rparr>, r')"
    "std_mb [b]" "content b = d" "br_std r'" "br_content r' = rest"
proof -
  let ?l = "of_nat (length d) :: u16"
  have u: "unat ?l = length d" using assms(3) by (simp add: unat_of_nat Size_def)
  obtain x r1 where r1: "br_ReadUint16 r = Some (x, r1)" "br_wf r1" "ReadUint16 (br_chunks r) = (x, br_chunks r1)"
    using br_ReadUint16_sim [OF br_std_wf [OF assms(1)]] by blast
  obtain cs where "ReadUint16 (br_chunks r) = (Inr ?l, cs)" "concat cs = d @ rest"
    using ReadUint16_PutUint16 [of "br_chunks r" ?l "d @ rest"] assms(2) by (auto simp: br_content_def)
  then have x: "x = Inr ?l" "concat (br_chunks r1) = d @ rest" using r1(3) by simp_all
  obtain cs2 where cs2: "ReadFull (length d) (br_chunks r1) = (d, None, cs2)" "concat cs2 = rest"
    using ReadFull_enough [of "length d" "br_chunks r1"] x(2) by auto
  have "length d \<le> room New" using assms(3) by (simp add: Size_def)
  then obtain b where b: "ReadFullFrom (br_chunks r1) (int (length d)) New = Some (length d, None, cs2, b)" "buf_wf b" "content b = content New @ d"
    by (rule ReadFullFrom_spec [OF New_facts(1) _ cs2(1)])
  then obtain r2 where r2: "br_ReadFullFrom r1 (int (length d)) New = Some (length d, None, r2, b)" "br_chunks r2 = cs2"
    using br_ReadFullFrom_sim [OF r1(2)] by blast
  have std: "br_std r2" by (rule br_ReadFullFrom_std [OF r2(1) br_ReadUint16_std [OF r1(1) assms(1)]])
  have l: "uint ?l = int (length d)" using u by (metis uint_nat)
  let ?b = "case t of Some d \<Rightarrow> if DNetwork d = Network_UDP then b\<lparr>UDP := Some d\<rparr> else b | None \<Rightarrow> b"
  have "buf_wf (b\<lparr>UDP := x\<rparr>)" "content (b\<lparr>UDP := x\<rparr>) = d" for x
    using b(2,3) New_facts by (simp_all add: buf_wf_def content_def)
  then have "buf_wf ?b" "content ?b = d" using b(2,3) New_facts by (auto split: option.split)
  moreover have "br_PacketReader (NewPacketReader t) r = Some ([?b], None, (NewPacketReader t)\<lparr>eof := True\<rparr>, r2)"
    using r1(1) x(1) r2(1) l u assms(3) by (simp add: br_PacketReader_def NewPacketReader_def Let_def)
  ultimately show thesis using that [of ?b r2] std r2(2) cs2(2) assms(3) by (simp add: br_content_def)
qed

section \<open>Copying the data of a frame\<close>

lemma copy_packet_frame:
  assumes "takes wm out ok" "br_std r" "ok w" "br_content r = PutUint16 (of_nat (length d)) @ d @ rest" "length d \<le> Size"
  shows "\<exists>p r' w' h'. Copy packet_read wm on (NewPacketReader t, r) w h = Some (None, (p, r'), w', h') \<and>
      out w' = out w @ d \<and> br_content r' = rest \<and> br_std r' \<and> ok w'"
proof -
  let ?p = "(NewPacketReader t)\<lparr>eof := True\<rparr>"
  obtain b r' where b: "br_PacketReader (NewPacketReader t) r = Some ([b], None, ?p, r')" "std_mb [b]" "content b = d" "br_std r'" "br_content r' = rest"
    by (rule br_PacketReader_ok [OF assms(2,4,5)])
  have end2: "copyInternal packet_read wm on (?p, r') w1 h1 = Some (readError EOF, (?p, r'), w1, h1)" for w1 h1
    by (rule copy_ends) (simp add: packet_read_def br_PacketReader_def)
  have c: "mb_content [b] = d" "mb_wf [b]" using b(2,3) std_mb_wf [OF b(2)] by (simp_all add: mb_content_def)
  show ?thesis
  proof (cases "d = []")
    case True
    then have "copyInternal packet_read wm on (NewPacketReader t, r) w h = Some (readError EOF, (?p, r'), w, h)"
      using b(1) c end2 by (subst copyInternal.simps) (simp add: packet_read_def)
    then show ?thesis using True b assms(3) by (simp del: map_option_eq_Some add: Copy_def)
  next
    case False
    obtain w1 where w1: "wm [b] w = Some (None, w1)" "out w1 = out w @ mb_content [b]" "ok w1" using assms(1,3) b(2) unfolding takes_def by blast
    then have "copyInternal packet_read wm on (NewPacketReader t, r) w h = Some (readError EOF, (?p, r'), w1, on [b] h)"
      using b(1) c False end2 by (subst copyInternal.simps) (simp add: packet_read_def)
    then show ?thesis using w1 b c by (simp del: map_option_eq_Some add: Copy_def)
  qed
qed

definition fresh_reader :: "session_reader \<Rightarrow> bool" where
  "fresh_reader rr \<longleftrightarrow> rr = StreamReader (NewChunkStreamReaderWithChunkCount Plain_SizeBytes 1) \<or> (\<exists>t. rr = FrameReader (NewPacketReader t))"

lemma fresh_NewReader [simp]: "fresh_reader (NewReader s r d)" "fresh_reader (StreamReader (fst (NewStreamReader r)))"
  by (auto simp: fresh_reader_def NewReader_def NewStreamReader_def)

lemma copy_session_ok:
  assumes "fresh_reader rr" "takes wm out ok" "br_std r" "ok w" "br_content r = PutUint16 (of_nat (length d)) @ d @ rest" "length d \<le> Size"
  obtains rr' r' w' where "copy_session rr r wm w = Some (None, rr', r', w')" "out w' = out w @ d" "br_content r' = rest" "br_std r'" "ok w'"
proof -
  have l: "length d < 2 ^ 16" using assms(6) by (simp add: Size_def)
  from assms(1) show thesis unfolding fresh_reader_def
  proof (elim disjE exE)
    assume rr: "rr = StreamReader (NewChunkStreamReaderWithChunkCount Plain_SizeBytes 1)"
    obtain c' r' w' where "Copy (cs_ReadMultiBuffer Plain_Decode) wm (\<lambda>mb h. h) (NewStreamReader r) w () = Some (None, (c', r'), w', ())"
      "out w' = out w @ d" "br_content r' = rest" "br_std r'" "ok w'"
      using copy_stream_chunk [OF assms(2-5) l, of "\<lambda>mb h. h" "()"] by auto
    then show thesis using that rr by (simp add: copy_session_def NewStreamReader_def)
  next
    fix t assume rr: "rr = FrameReader (NewPacketReader t)"
    obtain p r' w' where "Copy packet_read wm (\<lambda>mb h. h) (NewPacketReader t, r) w () = Some (None, (p, r'), w', ())"
      "out w' = out w @ d" "br_content r' = rest" "br_std r'" "ok w'"
      using copy_packet_frame [OF assms(2-6), of "\<lambda>mb h. h" t "()"] by auto
    then show thesis using that rr by (simp add: copy_session_def)
  qed
qed

lemma discard_session_ok:
  assumes "fresh_reader rr" "br_std r" "br_content r = PutUint16 (of_nat (length d)) @ d @ rest" "length d \<le> Size"
  obtains r' where "discard_session rr r = Some (None, r')" "br_content r' = rest" "br_std r'"
proof -
  have t: "takes Discard (\<lambda>ds. ds) (\<lambda>_. True)" by (simp add: takes_def Discard_def)
  obtain rr' r' w' where "copy_session rr r Discard [] = Some (None, rr', r', w')" "br_content r' = rest" "br_std r'"
    by (rule copy_session_ok [OF assms(1) t assms(2) TrueI assms(3,4)])
  then show thesis using that by (simp add: discard_session_def)
qed

section \<open>What a server does\<close>

definition data_bytes :: "byte list option \<Rightarrow> byte list" where
  "data_bytes dt = (case dt of None \<Rightarrow> [] | Some d \<Rightarrow> PutUint16 (of_nat (length d)) @ d)"

text \<open>
  The specification: the links that were opened, each with its destination and the bytes it got,
  and for every id the link of its session, if it has one.
\<close>

type_synonym serving = "(u16 \<Rightarrow> nat option) \<times> (Destination \<times> byte list) list"

definition feed :: "nat \<Rightarrow> byte list \<Rightarrow> (Destination \<times> byte list) list \<Rightarrow> (Destination \<times> byte list) list" where
  "feed o1 d lg = lg[o1 := (fst (lg ! o1), snd (lg ! o1) @ d)]"

lemma length_feed [simp]: "length (feed o1 d lg) = length lg"
  by (simp add: feed_def)

fun serve :: "frame \<Rightarrow> serving \<Rightarrow> serving" where
  "serve fr (cur, lg) =
     (let f = fst fr; d = frame_data fr
      in if FStatus f = SessionStatusNew then (cur(SessionID f := Some (length lg)), lg @ [(Target f, d)])
         else if FStatus f = SessionStatusKeep then (case cur (SessionID f) of None \<Rightarrow> (cur, lg) | Some o1 \<Rightarrow> (cur, feed o1 d lg))
         else if FStatus f = SessionStatusEnd then (cur(SessionID f := None), lg)
         else (cur, lg))"

text \<open>The frames of a client without global ids.\<close>

definition plain_frame :: "frame \<Rightarrow> bool" where
  "plain_frame fr \<longleftrightarrow> wire_frame fr \<and> GlobalID (fst fr) = replicate 8 0 \<and>
     FStatus (fst fr) \<in> {SessionStatusNew, SessionStatusKeep, SessionStatusEnd, SessionStatusKeepAlive}"

text \<open>
  The contract of the links: \<open>log\<close> are the opened links with what they accepted, \<open>opens\<close> the ones
  that still accept.
\<close>

locale mux_links =
  fixes api :: "'l links_api" and lg :: "'l \<Rightarrow> (Destination \<times> byte list) list" and opens :: "'l \<Rightarrow> nat set" and good :: "'l \<Rightarrow> bool"
  assumes dispatch: "good l \<Longrightarrow> \<exists>i l'. lk_dispatch api d l = (Inr (i, length (lg l)), l') \<and> lg l' = lg l @ [(d, [])] \<and>
      opens l' = insert (length (lg l)) (opens l) \<and> good l'"
    and accepts: "good l \<Longrightarrow> o1 \<in> opens l \<Longrightarrow> std_mb mb \<Longrightarrow>
      \<exists>l'. lk_write api o1 mb l = Some (None, l') \<and> lg l' = feed o1 (mb_content mb) (lg l) \<and> opens l' = opens l \<and> good l'"
    and interrupts: "good l \<Longrightarrow> lg (lk_interrupt api i l) = lg l \<and> opens (lk_interrupt api i l) = opens l \<and> good (lk_interrupt api i l)"
    and closes: "good l \<Longrightarrow> lg (lk_close api o1 l) = lg l \<and> opens (lk_close api o1 l) = opens l - {o1} \<and> good (lk_close api o1 l)"
    and responds: "good l \<Longrightarrow> \<exists>l'. lk_respond api mb l = Some (None, l') \<and> lg l' = lg l \<and> opens l' = opens l \<and> good l'"
    and opens_lg: "good l \<Longrightarrow> o1 \<in> opens l \<Longrightarrow> o1 < length (lg l)"
begin

definition serving_of :: "nat \<Rightarrow> 'l world \<Rightarrow> serving" where
  "serving_of m w = (\<lambda>k. map_option (\<lambda>s. s_output (objs w ! s)) (sm_Get m k w), lg (links w))"

definition session_ok :: "nat \<Rightarrow> u16 \<Rightarrow> nat \<Rightarrow> 'l world \<Rightarrow> bool" where
  "session_ok m k s w \<longleftrightarrow> s < length (objs w) \<and> \<not> s_closed (objs w ! s) \<and> s_ID (objs w ! s) = k \<and> s_parent (objs w ! s) = Some m \<and>
     s_XUDP (objs w ! s) = None \<and> s_output (objs w ! s) \<in> opens (links w)"

definition server_inv :: "nat \<Rightarrow> 'l world \<Rightarrow> bool" where
  "server_inv m w \<longleftrightarrow> m < length (mgrs w) \<and> \<not> sm_closed (mgrs w ! m) \<and> distinct (map fst (sm_sessions (mgrs w ! m))) \<and> good (links w) \<and>
     (\<forall>k s. sm_Get m k w = Some s \<longrightarrow> session_ok m k s w) \<and>
     (\<forall>k k' s s'. sm_Get m k w = Some s \<and> sm_Get m k' w = Some s' \<and> k \<noteq> k' \<longrightarrow> s_output (objs w ! s) \<noteq> s_output (objs w ! s'))"

lemma takes_link:
  assumes "o1 \<in> opens l0" "o1 < length (lg l0)"
  shows "takes (lk_write api o1) (\<lambda>l. snd (lg l ! o1))
    (\<lambda>l. good l \<and> opens l = opens l0 \<and> lg l = (lg l0)[o1 := (fst (lg l0 ! o1), snd (lg l ! o1))])"
  unfolding takes_def
proof (intro allI impI, elim conjE)
  fix mb l assume a: "std_mb mb" "good l" "opens l = opens l0" and lg: "lg l = (lg l0)[o1 := (fst (lg l0 ! o1), snd (lg l ! o1))]"
  obtain l' where l': "lk_write api o1 mb l = Some (None, l')" "lg l' = feed o1 (mb_content mb) (lg l)" "opens l' = opens l" "good l'"
    using accepts [of l o1 mb] a assms(1) by auto
  have len: "length (lg l) = length (lg l0)" by (subst lg) simp
  have f: "fst (lg l ! o1) = fst (lg l0 ! o1)" by (subst lg) (simp add: assms(2))
  have n: "lg l' ! o1 = (fst (lg l0 ! o1), snd (lg l ! o1) @ mb_content mb)" using l'(2) len f assms(2) by (simp add: feed_def)
  have "lg l' = (lg l)[o1 := lg l' ! o1]" using l'(2) n f by (simp add: feed_def)
  also have "\<dots> = (lg l0)[o1 := lg l' ! o1]" by (subst (1) lg) simp
  finally have "lg l' = (lg l0)[o1 := (fst (lg l0 ! o1), snd (lg l' ! o1))]" using n by simp
  then show "\<exists>w'. lk_write api o1 mb l = Some (None, w') \<and> snd (lg w' ! o1) = snd (lg l ! o1) @ mb_content mb \<and>
      good w' \<and> opens w' = opens l0 \<and> lg w' = (lg l0)[o1 := (fst (lg l0 ! o1), snd (lg w' ! o1))]"
    using l' a(3) n by auto
qed

lemma copy_to_link:
  assumes "fresh_reader rr" "good l" "o1 \<in> opens l" "br_std r" "br_content r = PutUint16 (of_nat (length d)) @ d @ rest" "length d \<le> Size"
  obtains rr' r' l' where "copy_session rr r (lk_write api o1) l = Some (None, rr', r', l')" "lg l' = feed o1 d (lg l)" "opens l' = opens l" "good l'"
    "br_content r' = rest" "br_std r'"
proof -
  have o1: "o1 < length (lg l)" by (rule opens_lg [OF assms(2,3)])
  have ok: "good l \<and> opens l = opens l \<and> lg l = (lg l)[o1 := (fst (lg l ! o1), snd (lg l ! o1))]" using assms(2) by simp
  obtain rr' r' l' where c: "copy_session rr r (lk_write api o1) l = Some (None, rr', r', l')" "snd (lg l' ! o1) = snd (lg l ! o1) @ d"
    "br_content r' = rest" "br_std r'" "good l' \<and> opens l' = opens l \<and> lg l' = (lg l)[o1 := (fst (lg l ! o1), snd (lg l' ! o1))]"
    by (rule copy_session_ok [OF assms(1) takes_link [OF assms(3) o1] assms(4) ok assms(5,6)])
  then have "lg l' = feed o1 d (lg l)" by (metis feed_def)
  then show thesis using that c by blast
qed

lemma sm_Get_links [simp]: "sm_Get m k (w\<lparr>links := l\<rparr>) = sm_Get m k w" "sm_Get m k (w\<lparr>spawned := sp\<rparr>) = sm_Get m k w"
  by (simp_all add: sm_Get_def)

lemma session_start:
  assumes "server_inv m w" "good l" "opens (links w) \<subseteq> opens l" "out \<in> opens l" "out \<notin> opens (links w)"
  obtains w' where "start_session m meta i out (w\<lparr>links := l\<rparr>) = (length (objs w), w')" "server_inv m w'" "links w' = l"
    "s_output (objs w' ! length (objs w)) = out"
    "\<forall>k. sm_Get m k w' = (if k = SessionID meta then Some (length (objs w)) else sm_Get m k w)"
    "\<forall>s < length (objs w). objs w' ! s = objs w ! s"
proof -
  define s where "s = \<lparr>s_input = i, s_output = out, s_parent = Some m, s_ID = SessionID meta,
    s_transferType = (if DNetwork (Target meta) = Network_UDP then TransferTypePacket else TransferTypeStream), s_closed = False, s_XUDP = None\<rparr>"
  define sm where "sm = sm_put (SessionID meta) (length (objs w)) ((mgrs w ! m)\<lparr>sm_count := sm_count (mgrs w ! m) + 1\<rparr>)"
  define w' where "w' = w\<lparr>links := l, objs := objs w @ [s], mgrs := (mgrs w)[m := sm], spawned := spawned w @ [length (objs w)]\<rparr>"
  have i: "m < length (mgrs w)" "\<not> sm_closed (mgrs w ! m)" using assms(1) by (simp_all add: server_inv_def)
  have st: "start_session m meta i out (w\<lparr>links := l\<rparr>) = (length (objs w), w')"
    using i by (simp add: start_session_def new_obj_def sm_Add_def Let_def w'_def s_def sm_def)
  have get: "sm_Get m k w' = (if k = SessionID meta then Some (length (objs w)) else sm_Get m k w)" for k
    using i by (simp add: sm_Get_def w'_def sm_def sm_put_def update_conv')
  have old: "objs w' ! q = objs w ! q" if "q < length (objs w)" for q using that by (simp add: w'_def nth_append)
  have new: "objs w' ! length (objs w) = s" by (simp add: w'_def)
  have ok: "session_ok m k q w" if "sm_Get m k w = Some q" for k q using assms(1) that by (simp add: server_inv_def)
  have sess: "session_ok m k q w'" if g: "sm_Get m k w' = Some q" for k q
  proof (cases "k = SessionID meta")
    case True
    then show ?thesis using g get new assms(4) by (auto simp: session_ok_def s_def w'_def)
  next
    case False
    then have "session_ok m k q w" using g get ok by simp
    then show ?thesis using old assms(3) by (auto simp: session_ok_def w'_def nth_append)
  qed
  have "s_output (objs w' ! q) \<noteq> s_output (objs w' ! q')" if g: "sm_Get m k w' = Some q" "sm_Get m k' w' = Some q'" "k \<noteq> k'" for k k' q q'
  proof -
    have neq: "out \<noteq> s_output (objs w' ! p)" if "sm_Get m k w = Some p" for k p
      using ok [OF that] old assms(5) by (auto simp: session_ok_def)
    have keep: "p < length (objs w)" if "sm_Get m k w = Some p" for k p using ok [OF that] by (simp add: session_ok_def)
    have "s_output (objs w' ! length (objs w)) = out" using new by (simp add: s_def)
    then show ?thesis using g get neq keep old assms(1) unfolding server_inv_def
      by (cases "k = SessionID meta"; cases "k' = SessionID meta") (auto, metis+)
  qed
  moreover have "m < length (mgrs w')" "\<not> sm_closed (mgrs w' ! m)" "good (links w')" "distinct (map fst (sm_sessions (mgrs w' ! m)))"
    using i assms(1,2) by (simp_all add: w'_def sm_def sm_put_def distinct_update server_inv_def)
  ultimately have "server_inv m w'" using sess unfolding server_inv_def by blast
  then show thesis using that [OF st] get old new by (simp add: w'_def s_def)
qed

lemma inv_links:
  assumes "server_inv m w" "good l" "opens l = opens (links w)"
  shows "server_inv m (w\<lparr>links := l\<rparr>)"
  using assms by (simp add: server_inv_def session_ok_def)

lemma serving_links [simp]: "serving_of m (w\<lparr>links := l\<rparr>) = (fst (serving_of m w), lg l)"
  by (simp add: serving_of_def)

lemma session_end:
  assumes "server_inv m w" "sm_Get m k w = Some s"
  obtains w' where "Session_Close api s w = Some w'" "server_inv m w'" "serving_of m w' = ((fst (serving_of m w))(k := None), lg (links w))"
proof -
  let ?s = "objs w ! s" and ?m = "mgrs w ! m"
  let ?l = "lk_close api (s_output ?s) (lk_interrupt api (s_input ?s) (links w))"
  define w' where "w' = w\<lparr>objs := (objs w)[s := ?s\<lparr>s_closed := True\<rparr>], links := ?l,
    mgrs := (mgrs w)[m := ?m\<lparr>sm_sessions := AList.delete k (sm_sessions ?m)\<rparr>]\<rparr>"
  have i: "m < length (mgrs w)" "\<not> sm_closed ?m" "good (links w)" using assms(1) by (simp_all add: server_inv_def)
  have ok: "session_ok m k q w" if "sm_Get m k w = Some q" for k q using assms(1) that by (simp add: server_inv_def)
  note oks = ok [OF assms(2), unfolded session_ok_def]
  have c: "Session_Close api s w = Some w'" using oks i by (simp add: Session_Close_def sm_Remove_def Let_def w'_def)
  have l: "lg ?l = lg (links w)" "opens ?l = opens (links w) - {s_output ?s}" "good ?l" using interrupts [OF i(3)] closes by auto
  have get: "sm_Get m k' w' = (if k' = k then None else sm_Get m k' w)" for k' using i by (simp add: sm_Get_def w'_def delete_conv')
  have other: "q \<noteq> s \<and> objs w' ! q = objs w ! q \<and> s_output (objs w ! q) \<noteq> s_output ?s" if "sm_Get m k' w = Some q" "k' \<noteq> k" for k' q
  proof -
    have "q \<noteq> s" using ok [OF that(1)] oks that(2) by (auto simp: session_ok_def)
    moreover have "s_output (objs w ! q) \<noteq> s_output ?s" using assms that unfolding server_inv_def by metis
    ultimately show ?thesis by (simp add: w'_def)
  qed
  have "session_ok m k' q w'" if "sm_Get m k' w' = Some q" for k' q
  proof -
    have g: "k' \<noteq> k" "sm_Get m k' w = Some q" using that get by (auto split: if_splits)
    then show ?thesis using ok [OF g(2)] other [OF g(2,1)] l(2) by (simp add: session_ok_def) (simp add: w'_def)
  qed
  moreover have "s_output (objs w' ! q) \<noteq> s_output (objs w' ! q')" if "sm_Get m a w' = Some q" "sm_Get m b w' = Some q'" "a \<noteq> b" for a b q q'
    using that get other assms(1) unfolding server_inv_def by (auto split: if_splits)
  moreover have "m < length (mgrs w')" "\<not> sm_closed (mgrs w' ! m)" "good (links w')" "distinct (map fst (sm_sessions (mgrs w' ! m)))"
    using i l(3) assms(1) by (simp_all add: w'_def distinct_delete server_inv_def)
  ultimately have "server_inv m w'" unfolding server_inv_def by blast
  moreover have "serving_of m w' = ((fst (serving_of m w))(k := None), lg (links w))"
  proof -
    have "map_option (\<lambda>s. s_output (objs w' ! s)) (sm_Get m k' w') = ((fst (serving_of m w))(k := None)) k'" for k'
      using get [of k'] other [of k'] by (cases "sm_Get m k' w") (auto simp: serving_of_def)
    then show ?thesis using l(1) by (auto simp: serving_of_def w'_def)
  qed
  ultimately show thesis using that c by blast
qed

lemma close_all_links:
  "sm_closed (mgrs w ! m) \<Longrightarrow> \<forall>s\<in>set ss. s_parent (objs w ! s) = Some m \<and> s_XUDP (objs w ! s) = None \<and> s < length (objs w) \<Longrightarrow> good (links w) \<Longrightarrow>
   \<exists>w'. close_all api ss w = Some w' \<and> lg (links w') = lg (links w) \<and> mgrs w' = mgrs w"
proof (induction ss arbitrary: w)
  case (Cons s ss)
  let ?l = "lk_close api (s_output (objs w ! s)) (lk_interrupt api (s_input (objs w ! s)) (links w))"
  define w1 where "w1 = (if s_closed (objs w ! s) then w else w\<lparr>objs := (objs w)[s := (objs w ! s)\<lparr>s_closed := True\<rparr>], links := ?l\<rparr>)"
  have c: "Session_Close api s w = Some w1" using Cons.prems by (simp add: Session_Close_def sm_Remove_def Let_def w1_def)
  have l: "lg ?l = lg (links w)" "good ?l" using interrupts [OF Cons.prems(3)] closes by auto
  have "\<forall>q\<in>set ss. s_parent (objs w1 ! q) = Some m \<and> s_XUDP (objs w1 ! q) = None \<and> q < length (objs w1)"
    using Cons.prems(2) by (auto simp: w1_def nth_list_update)
  moreover have "sm_closed (mgrs w1 ! m)" "good (links w1)" "lg (links w1) = lg (links w)" "mgrs w1 = mgrs w" using Cons.prems l by (simp_all add: w1_def)
  ultimately show ?case using Cons.IH [of w1] c by auto
qed simp

lemma server_close:
  assumes "server_inv m w"
  obtains w' where "sm_Close api m w = Some w'" "lg (links w') = lg (links w)" "sm_closed (mgrs w' ! m)" "sm_sessions (mgrs w' ! m) = []"
proof -
  let ?t = "sm_sessions (mgrs w ! m)" and ?w = "upd_mgr m (\<lambda>sm. sm\<lparr>sm_closed := True\<rparr>) w"
  have i: "m < length (mgrs w)" "\<not> sm_closed (mgrs w ! m)" "distinct (map fst ?t)" "good (links w)" using assms by (simp_all add: server_inv_def)
  have "session_ok m k s w" if "(k, s) \<in> set ?t" for k s
    using assms i that by (simp add: server_inv_def sm_Get_def)
  then have "\<forall>s\<in>set (map snd ?t). s_parent (objs ?w ! s) = Some m \<and> s_XUDP (objs ?w ! s) = None \<and> s < length (objs ?w)"
    by (auto simp: session_ok_def)
  then obtain w1 where w1: "close_all api (map snd ?t) ?w = Some w1" "lg (links w1) = lg (links w)" "mgrs w1 = mgrs ?w"
    using close_all_links [of ?w m "map snd ?t"] i by auto
  then show thesis using that [of "upd_mgr m (\<lambda>sm. sm\<lparr>sm_sessions := []\<rparr>) w1"] i by (simp add: sm_Close_def)
qed

lemma new_session_frame:
  assumes "server_inv m w" "br_std r" "br_content r = data_bytes dt @ rest" "GlobalID meta = replicate 8 0"
    "dt \<noteq> None \<longleftrightarrow> mask_Has (FOption meta) OptionData" "case dt of None \<Rightarrow> True | Some d \<Rightarrow> length d \<le> Size"
  obtains r' w' where "handleStatusNew api Network_Unknown m meta r w = Some (None, r', w')" "server_inv m w'" "br_std r'" "br_content r' = rest"
    "serving_of m w' = ((fst (serving_of m w))(SessionID meta := Some (length (lg (links w)))), lg (links w) @ [(Target meta, case dt of None \<Rightarrow> [] | Some d \<Rightarrow> d)])"
proof -
  let ?o = "length (lg (links w))" and ?s = "length (objs w)"
  have g: "good (links w)" using assms(1) by (simp add: server_inv_def)
  obtain i l where l: "lk_dispatch api (Target meta) (links w) = (Inr (i, ?o), l)" "lg l = lg (links w) @ [(Target meta, [])]"
    "opens l = insert ?o (opens (links w))" "good l" using dispatch [OF g] by blast
  have fresh: "opens (links w) \<subseteq> opens l" "?o \<in> opens l" "?o \<notin> opens (links w)" using l(3) opens_lg [OF g] by auto
  obtain w1 where w1: "start_session m meta i ?o (w\<lparr>links := l\<rparr>) = (?s, w1)" "server_inv m w1" "links w1 = l" "s_output (objs w1 ! ?s) = ?o"
    "\<forall>k. sm_Get m k w1 = (if k = SessionID meta then Some ?s else sm_Get m k w)" "\<forall>q < ?s. objs w1 ! q = objs w ! q"
    by (rule session_start [OF assms(1) l(4) fresh, of meta i])
  have cur: "fst (serving_of m w1) = (fst (serving_of m w))(SessionID meta := Some ?o)"
  proof
    fix k
    have "q < ?s" if "sm_Get m k w = Some q" for q using assms(1) that by (simp add: server_inv_def session_ok_def)
    then show "fst (serving_of m w1) k = ((fst (serving_of m w))(SessionID meta := Some ?o)) k"
      using w1(4-6) by (cases "sm_Get m k w") (auto simp: serving_of_def)
  qed
  show thesis
  proof (cases dt)
    case None
    have "handleStatusNew api Network_Unknown m meta r w = Some (None, r, w1)"
      using None assms(4,5) l(1) w1(1) by (simp add: handleStatusNew_def)
    moreover have "serving_of m w1 = (fst (serving_of m w1), lg l)" using w1(3) by (simp add: serving_of_def)
    ultimately show thesis using that [of r w1] w1(2) assms(2,3) None cur l(2) by (simp add: data_bytes_def)
  next
    case (Some d)
    then have d: "br_content r = PutUint16 (of_nat (length d)) @ d @ rest" "length d \<le> Size" using assms(3,6) by (simp_all add: data_bytes_def)
    obtain rr r' l' where c: "copy_session (NewReader (objs w1 ! ?s) r (Target meta)) r (lk_write api ?o) l = Some (None, rr, r', l')"
      "lg l' = feed ?o d (lg l)" "opens l' = opens l" "good l'" "br_content r' = rest" "br_std r'"
      by (rule copy_to_link [OF fresh_NewReader(1) l(4) fresh(2) assms(2) d])
    have "handleStatusNew api Network_Unknown m meta r w = Some (None, r', w1\<lparr>links := l'\<rparr>)"
      using Some assms(4,5) l(1) w1(1,3) c(1) by (simp add: handleStatusNew_def)
    moreover have "server_inv m (w1\<lparr>links := l'\<rparr>)" using inv_links [OF w1(2)] c(3,4) w1(3) by simp
    moreover have "lg l' = lg (links w) @ [(Target meta, d)]" using c(2) l(2) by (simp add: feed_def)
    ultimately show thesis using that [of r' "w1\<lparr>links := l'\<rparr>"] c(5,6) cur Some by simp
  qed
qed

lemma respond_close:
  assumes "good l"
  obtains l' where "Writer_Close (lk_respond api) (NewResponseWriter k tt) l = Some l'" "lg l' = lg l" "opens l' = opens l" "good l'"
proof -
  let ?f = "zero_FrameMetadata\<lparr>SessionID := k, FStatus := SessionStatusEnd, FOption := 0\<rparr>"
  have "frame_ok ?f None" by (simp add: frame_ok_def zero_FrameMetadata_def mux_consts)
  then obtain b where b: "WriteTo ?f New = Some (None, b)" by (rule frame_meta_only)
  obtain l' where "lk_respond api [b] l = Some (None, l')" "lg l' = lg l" "opens l' = opens l" "good l'" using responds [OF assms] by blast
  then show thesis using that b by (simp add: Writer_Close_def NewResponseWriter_def must_then_def)
qed

lemma keep_session_frame:
  assumes "server_inv m w" "br_std r" "br_content r = data_bytes dt @ rest"
    "dt \<noteq> None \<longleftrightarrow> mask_Has (FOption meta) OptionData" "case dt of None \<Rightarrow> True | Some d \<Rightarrow> length d \<le> Size"
  obtains r' w' where "handleStatusKeep api m meta r w = Some (None, r', w')" "server_inv m w'" "br_std r'" "br_content r' = rest"
    "serving_of m w' = (fst (serving_of m w), case fst (serving_of m w) (SessionID meta) of None \<Rightarrow> lg (links w)
       | Some o1 \<Rightarrow> feed o1 (case dt of None \<Rightarrow> [] | Some d \<Rightarrow> d) (lg (links w)))"
proof (cases dt)
  case None
  have "handleStatusKeep api m meta r w = Some (None, r, w)" using None assms(4) by (simp add: handleStatusKeep_def)
  then show thesis using that [of r w] assms(1-3) None by (auto simp: data_bytes_def serving_of_def feed_def split: option.split)
next
  case (Some d)
  then have d: "br_content r = PutUint16 (of_nat (length d)) @ d @ rest" "length d \<le> Size" "mask_Has (FOption meta) OptionData"
    using assms(3-5) by (simp_all add: data_bytes_def)
  have g: "good (links w)" using assms(1) by (simp add: server_inv_def)
  show thesis
  proof (cases "sm_Get m (SessionID meta) w")
    case none: None
    obtain l where l: "Writer_Close (lk_respond api) (NewResponseWriter (SessionID meta) TransferTypeStream) (links w) = Some l"
      "lg l = lg (links w)" "opens l = opens (links w)" "good l" by (rule respond_close [OF g])
    obtain r' where r': "discard_stream r = Some (None, r')" "br_content r' = rest" "br_std r'"
      unfolding discard_stream_def by (rule discard_session_ok [OF fresh_NewReader(2) assms(2) d(1,2)])
    have "handleStatusKeep api m meta r w = Some (None, r', w\<lparr>links := l\<rparr>)" using none d(3) l(1) r'(1) by (simp add: handleStatusKeep_def)
    moreover have "fst (serving_of m w) (SessionID meta) = None" using none by (simp add: serving_of_def)
    ultimately show thesis using that [of r' "w\<lparr>links := l\<rparr>"] inv_links [OF assms(1) l(4,3)] r' l(2) by simp
  next
    case s: (Some s)
    let ?o = "s_output (objs w ! s)"
    have o: "?o \<in> opens (links w)" using assms(1) s by (simp add: server_inv_def session_ok_def)
    obtain rr r' l where c: "copy_session (NewReader (objs w ! s) r (Target meta)) r (lk_write api ?o) (links w) = Some (None, rr, r', l)"
      "lg l = feed ?o d (lg (links w))" "opens l = opens (links w)" "good l" "br_content r' = rest" "br_std r'"
      by (rule copy_to_link [OF fresh_NewReader(1) g o assms(2) d(1,2)])
    have "handleStatusKeep api m meta r w = Some (None, r', w\<lparr>links := l\<rparr>)" using s d(3) c(1) by (simp add: handleStatusKeep_def)
    moreover have "fst (serving_of m w) (SessionID meta) = Some ?o" using s by (simp add: serving_of_def)
    ultimately show thesis using that [of r' "w\<lparr>links := l\<rparr>"] inv_links [OF assms(1) c(4,3)] c Some by simp
  qed
qed

lemma end_session_frame:
  assumes "server_inv m w" "br_std r" "br_content r = data_bytes dt @ rest"
    "dt \<noteq> None \<longleftrightarrow> mask_Has (FOption meta) OptionData" "case dt of None \<Rightarrow> True | Some d \<Rightarrow> length d \<le> Size"
  obtains r' w' where "handleStatusEnd api m meta r w = Some (None, r', w')" "server_inv m w'" "br_std r'" "br_content r' = rest"
    "serving_of m w' = ((fst (serving_of m w))(SessionID meta := None), lg (links w))"
proof -
  obtain w1 where w1: "(case sm_Get m (SessionID meta) w of None \<Rightarrow> Some w | Some s \<Rightarrow> Session_Close api s w) = Some w1" "server_inv m w1"
    "serving_of m w1 = ((fst (serving_of m w))(SessionID meta := None), lg (links w))"
  proof (cases "sm_Get m (SessionID meta) w")
    case None
    then have "(fst (serving_of m w))(SessionID meta := None) = fst (serving_of m w)" by (simp add: serving_of_def fun_upd_idem)
    then show thesis using that [of w] None assms(1) by (simp add: serving_of_def)
  next
    case (Some s)
    then show thesis using that session_end [OF assms(1) Some] by (metis option.simps(5))
  qed
  show thesis
  proof (cases dt)
    case None
    then show thesis using that [of r w1] w1 assms by (simp add: handleStatusEnd_def data_bytes_def)
  next
    case (Some d)
    then have d: "br_content r = PutUint16 (of_nat (length d)) @ d @ rest" "length d \<le> Size" using assms(3,5) by (simp_all add: data_bytes_def)
    obtain r' where r': "discard_stream r = Some (None, r')" "br_content r' = rest" "br_std r'"
      unfolding discard_stream_def by (rule discard_session_ok [OF fresh_NewReader(2) assms(2) d])
    then show thesis using that [of r' w1] w1 assms(4) Some by (simp add: handleStatusEnd_def)
  qed
qed

lemma keepalive_frame:
  assumes "br_std r" "br_content r = data_bytes dt @ rest" "dt \<noteq> None \<longleftrightarrow> mask_Has (FOption meta) OptionData"
    "case dt of None \<Rightarrow> True | Some d \<Rightarrow> length d \<le> Size"
  obtains r' where "handleStatusKeepAlive meta r w = Some (None, r', w)" "br_std r'" "br_content r' = rest"
proof (cases dt)
  case None
  then show thesis using that [of r] assms by (simp add: handleStatusKeepAlive_def data_bytes_def)
next
  case (Some d)
  then have d: "br_content r = PutUint16 (of_nat (length d)) @ d @ rest" "length d \<le> Size" using assms(2,4) by (simp_all add: data_bytes_def)
  obtain r' where "discard_stream r = Some (None, r')" "br_content r' = rest" "br_std r'"
    unfolding discard_stream_def by (rule discard_session_ok [OF fresh_NewReader(2) assms(1) d])
  then show thesis using that [of r'] assms(3) Some by (simp add: handleStatusKeepAlive_def)
qed

lemma handleFrame_ok:
  assumes "server_inv m w" "br_std r" "plain_frame fr" "br_content r = frame_bytes fr @ rest"
  obtains r' w' where "handleFrame api Network_Unknown m r w = Some (None, r', w')" "server_inv m w'" "br_std r'" "br_content r' = rest"
    "serving_of m w' = serve fr (serving_of m w)"
proof -
  obtain f u dt where fr: "fr = (f, u, dt)" by (cases fr)
  let ?meta = "received_meta f u"
  have ok: "frame_ok f u" "case dt of None \<Rightarrow> True | Some d \<Rightarrow> length d \<le> Size" "dt \<noteq> None \<longleftrightarrow> mask_Has (FOption ?meta) OptionData"
    "GlobalID f = replicate 8 0" "FStatus f \<in> {SessionStatusNew, SessionStatusKeep, SessionStatusEnd, SessionStatusKeepAlive}"
    using assms(3) by (auto simp: fr plain_frame_def wire_frame_def received_meta_def split: option.splits)
  have gid: "GlobalID ?meta = replicate 8 0" using ok(4) by (simp add: received_meta_def)
  have d: "frame_data fr = (case dt of None \<Rightarrow> [] | Some d \<Rightarrow> d)" by (simp add: fr frame_data_def)
  have "br_content r = PutUint16 (of_nat (length (meta_bytes f u))) @ meta_bytes f u @ data_bytes dt @ rest"
    using assms(4) by (cases dt) (simp_all add: fr frame_bytes_def data_bytes_def)
  then obtain r1 where r1: "br_Unmarshal zero_FrameMetadata r = Some (Inr ?meta, r1)" "br_std r1" "br_content r1 = data_bytes dt @ rest"
    by (rule br_Unmarshal_ok [OF assms(2) ok(1)])
  have sv: "serving_of m w = (fst (serving_of m w), lg (links w))" by (simp add: serving_of_def)
  from ok(5) consider "FStatus f = SessionStatusNew" | "FStatus f = SessionStatusKeep" | "FStatus f = SessionStatusEnd" | "FStatus f = SessionStatusKeepAlive"
    by auto
  then show thesis
  proof cases
    case 1
    obtain r' w' where "handleStatusNew api Network_Unknown m ?meta r1 w = Some (None, r', w')" "server_inv m w'" "br_std r'" "br_content r' = rest"
      "serving_of m w' = ((fst (serving_of m w))(SessionID ?meta := Some (length (lg (links w)))), lg (links w) @ [(Target ?meta, case dt of None \<Rightarrow> [] | Some d \<Rightarrow> d)])"
      by (rule new_session_frame [OF assms(1) r1(2,3) gid ok(3,2)])
    moreover have "serve fr (serving_of m w) = serving_of m w'" using calculation 1 d by (subst sv) (simp add: mux_consts fr split: option.split)
    ultimately show thesis using that [of r' w'] r1(1) 1 by (simp add: handleFrame_def mux_consts)
  next
    case 2
    obtain r' w' where "handleStatusKeep api m ?meta r1 w = Some (None, r', w')" "server_inv m w'" "br_std r'" "br_content r' = rest"
      "serving_of m w' = (fst (serving_of m w), case fst (serving_of m w) (SessionID ?meta) of None \<Rightarrow> lg (links w)
         | Some o1 \<Rightarrow> feed o1 (case dt of None \<Rightarrow> [] | Some d \<Rightarrow> d) (lg (links w)))"
      by (rule keep_session_frame [OF assms(1) r1(2,3) ok(3,2)])
    moreover have "serve fr (serving_of m w) = serving_of m w'" using calculation 2 d by (subst sv) (simp add: mux_consts fr split: option.split)
    ultimately show thesis using that [of r' w'] r1(1) 2 by (simp add: handleFrame_def mux_consts)
  next
    case 3
    obtain r' w' where "handleStatusEnd api m ?meta r1 w = Some (None, r', w')" "server_inv m w'" "br_std r'" "br_content r' = rest"
      "serving_of m w' = ((fst (serving_of m w))(SessionID ?meta := None), lg (links w))"
      by (rule end_session_frame [OF assms(1) r1(2,3) ok(3,2)])
    moreover have "serve fr (serving_of m w) = serving_of m w'" using calculation 3 d by (subst sv) (simp add: mux_consts fr split: option.split)
    ultimately show thesis using that [of r' w'] r1(1) 3 by (simp add: handleFrame_def mux_consts)
  next
    case 4
    obtain r' where "handleStatusKeepAlive ?meta r1 w = Some (None, r', w)" "br_std r'" "br_content r' = rest"
      by (rule keepalive_frame [OF r1(2,3) ok(3,2)])
    moreover have "serve fr (serving_of m w) = serving_of m w" using 4 by (cases "serving_of m w") (simp add: mux_consts fr)
    ultimately show thesis using that [of r' w] r1(1) 4 assms(1) by (simp add: handleFrame_def mux_consts)
  qed
qed

lemma frames_loop_ok:
  "server_inv m w \<Longrightarrow> br_std r \<Longrightarrow> list_all plain_frame frs \<Longrightarrow> br_content r = concat (map frame_bytes frs) \<Longrightarrow>
   \<exists>r' w'. frames_loop api Network_Unknown m r w = Some (EOF, r', w') \<and> server_inv m w' \<and> serving_of m w' = fold serve frs (serving_of m w)"
proof (induction frs arbitrary: r w)
  case Nil
  have "br_content r = []" using Nil.prems(4) by simp
  then obtain r' where "br_Unmarshal zero_FrameMetadata r = Some (Inl EOF, r')" by (rule br_Unmarshal_end [OF Nil.prems(2)])
  then show ?case using Nil.prems(1) by (subst frames_loop.simps) (simp add: handleFrame_def)
next
  case (Cons fr frs)
  then have p: "plain_frame fr" "list_all plain_frame frs" "br_content r = frame_bytes fr @ concat (map frame_bytes frs)" by simp_all
  obtain r' w' where s: "handleFrame api Network_Unknown m r w = Some (None, r', w')" "server_inv m w'" "br_std r'" "br_content r' = concat (map frame_bytes frs)"
    "serving_of m w' = serve fr (serving_of m w)" by (rule handleFrame_ok [OF Cons.prems(1,2) p(1,3)])
  show ?case using Cons.IH [OF s(2,3) p(2) s(4)] s(1,5) by (subst frames_loop.simps) simp
qed

text \<open>The worker on a whole connection.\<close>

lemma worker_run_ok:
  assumes "server_inv m w" "list_all plain_frame frs" "list_all fit_mb input" "concat (map mb_content input) = concat (map frame_bytes frs)"
  obtains w' where "worker_run api Network_Unknown m input w = Some (EOF, w')" "lg (links w') = snd (fold serve frs (serving_of m w))"
    "sm_closed (mgrs w' ! m)" "sm_sessions (mgrs w' ! m) = []"
proof -
  let ?r = "\<lparr>brReader = input, brBuffer = []\<rparr>"
  have "br_content ?r = concat (map frame_bytes frs)" using assms(4) by (simp add: br_content_eq)
  moreover have "br_std ?r" using assms(3) by (simp add: br_std_def)
  ultimately obtain r' w1 where w1: "frames_loop api Network_Unknown m ?r w = Some (EOF, r', w1)" "server_inv m w1" "serving_of m w1 = fold serve frs (serving_of m w)"
    using frames_loop_ok [OF assms(1) _ assms(2)] by blast
  obtain w2 where w2: "sm_Close api m w1 = Some w2" "lg (links w2) = lg (links w1)" "sm_closed (mgrs w2 ! m)" "sm_sessions (mgrs w2 ! m) = []"
    by (rule server_close [OF w1(2)])
  moreover have "lg (links w1) = snd (serving_of m w1)" by (simp add: serving_of_def)
  ultimately show thesis using that [of w2] w1(1,3) by (simp add: worker_run_def)
qed

end

section \<open>From the writers of a client to the links of the server\<close>

lemma feed_feed: "o1 < length lg \<Longrightarrow> feed o1 e (feed o1 d lg) = feed o1 (d @ e) lg"
  by (simp add: feed_def)

lemma feed_Nil [simp]: "feed o1 [] lg = lg"
  by (simp add: feed_def)

lemma serve_keeps:
  "list_all (\<lambda>fr. SessionID (fst fr) = k \<and> FStatus (fst fr) = SessionStatusKeep) frs \<Longrightarrow> cur k = Some o1 \<Longrightarrow> o1 < length lg \<Longrightarrow>
   fold serve frs (cur, lg) = (cur, feed o1 (concat (map frame_data frs)) lg)"
  by (induction frs arbitrary: lg) (simp_all add: mux_consts feed_feed)

lemma statuses_no_end:
  "no_end frs \<Longrightarrow> statuses_ok old (live (map fst frs)) \<Longrightarrow> frs = [] \<or>
     FStatus (fst (hd frs)) = (if old then SessionStatusKeep else SessionStatusNew) \<and> list_all (\<lambda>fr. FStatus (fst fr) = SessionStatusKeep) (tl frs)"
proof (induction frs arbitrary: old)
  case (Cons fr frs)
  then have h: "FStatus (fst fr) = (if old then SessionStatusKeep else SessionStatusNew)" "statuses_ok True (live (map fst frs))" "no_end frs"
    by (simp_all add: live_def)
  then have "list_all (\<lambda>fr. FStatus (fst fr) = SessionStatusKeep) frs" using Cons.IH [OF h(3,2)] by (cases frs) auto
  then show ?case using h(1) by simp
qed simp

text \<open>What the frames of one write do: a new writer opens a link, an old one feeds its link.\<close>

lemma serve_emitted:
  assumes "emitted w frs d w'" "frs \<noteq> []" "no_end frs"
  shows "\<not> followup w \<Longrightarrow> fold serve frs (cur, lg) = (cur(wid w := Some (length lg)), lg @ [(dest w, d)])"
    and "followup w \<Longrightarrow> cur (wid w) = Some o1 \<Longrightarrow> o1 < length lg \<Longrightarrow> fold serve frs (cur, lg) = (cur, feed o1 d lg)"
proof -
  obtain fr fs where frs: "frs = fr # fs" using assms(2) by (cases frs) auto
  have e: "list_all (\<lambda>fr. SessionID (fst fr) = wid w \<and> (FStatus (fst fr) \<noteq> SessionStatusEnd \<longrightarrow> Target (fst fr) = dest w)) frs" "concat (map frame_data frs) = d"
    "statuses_ok (followup w) (live (map fst frs))" using assms(1) by (auto simp: emitted_def list_all_iff)
  have st: "FStatus (fst fr) = (if followup w then SessionStatusKeep else SessionStatusNew)"
    and k: "list_all (\<lambda>fr. FStatus (fst fr) = SessionStatusKeep) fs"
    using statuses_no_end [OF assms(3) e(3)] frs by simp_all
  have fs: "list_all (\<lambda>fr. SessionID (fst fr) = wid w \<and> FStatus (fst fr) = SessionStatusKeep) fs" using k e(1) frs by (simp add: list_all_iff)
  show "fold serve frs (cur, lg) = (cur(wid w := Some (length lg)), lg @ [(dest w, d)])" if "\<not> followup w"
  proof -
    have "serve fr (cur, lg) = (cur(wid w := Some (length lg)), lg @ [(dest w, frame_data fr)])" using that st e(1) frs by (simp add: mux_consts)
    then show ?thesis using serve_keeps [OF fs, of "cur(wid w := Some (length lg))" "length lg" "lg @ [(dest w, frame_data fr)]"] e(2) frs by (simp add: feed_def)
  qed
  show "fold serve frs (cur, lg) = (cur, feed o1 d lg)" if "followup w" "cur (wid w) = Some o1" "o1 < length lg"
  proof -
    have "list_all (\<lambda>fr. SessionID (fst fr) = wid w \<and> FStatus (fst fr) = SessionStatusKeep) frs" using fs st that(1) e(1) frs by simp
    then show ?thesis using serve_keeps that(2,3) e(2) by simp
  qed
qed

text \<open>Clients close a session after its last write.\<close>

fun closes_last :: "mux_op list \<Rightarrow> bool" where
  "closes_last [] \<longleftrightarrow> True"
| "closes_last (MWrite i mb # ops) \<longleftrightarrow> closes_last ops"
| "closes_last (MClose i # ops) \<longleftrightarrow> (\<forall>mb. MWrite i mb \<notin> set ops) \<and> closes_last ops"

definition writes_to :: "mux_op list \<Rightarrow> u16 set" where
  "writes_to ops = {i. \<exists>mb. MWrite i mb \<in> set ops}"

lemma writes_to_simps [simp]: "writes_to [] = {}" "writes_to (MWrite i mb # ops) = insert i (writes_to ops)" "writes_to (MClose i # ops) = writes_to ops"
  by (auto simp: writes_to_def)

text \<open>
  The links of the sessions that have written, in the order of their first write: \<open>got\<close> is what
  each has got so far, and a session that still writes has its link.
\<close>

definition links_for :: "(u16 \<Rightarrow> Writer) \<Rightarrow> mux_op list \<Rightarrow> u16 list \<Rightarrow> (u16 \<Rightarrow> byte list) \<Rightarrow> serving \<Rightarrow> bool" where
  "links_for ws ops ks got sv \<longleftrightarrow> distinct ks \<and> snd sv = map (\<lambda>k. (dest (ws k), got k)) ks \<and>
     (\<forall>k. followup (ws k) \<longleftrightarrow> k \<in> set ks) \<and> (\<forall>k\<in>writes_to ops. k \<in> set ks \<longrightarrow> (\<exists>j < length ks. ks ! j = k \<and> fst sv k = Some j))"

lemma links_for_feed:
  assumes "links_for ws (MWrite i mb # ops) ks got sv" "i \<in> set ks" "w' = (ws i)\<lparr>followup := True\<rparr>"
  obtains j where "fst sv i = Some j" "j < length (snd sv)" "links_for (ws(i := w')) ops ks (got(i := got i @ d)) (fst sv, feed j d (snd sv))"
proof -
  obtain j where j: "j < length ks" "ks ! j = i" "fst sv i = Some j" using assms(1,2) by (auto simp: links_for_def)
  have l: "distinct ks" "snd sv = map (\<lambda>k. (dest (ws k), got k)) ks" "\<forall>k. followup (ws k) \<longleftrightarrow> k \<in> set ks"
    "\<forall>k\<in>writes_to ops. k \<in> set ks \<longrightarrow> (\<exists>j < length ks. ks ! j = k \<and> fst sv k = Some j)" using assms(1) by (simp_all add: links_for_def)
  have "feed j d (snd sv) = map (\<lambda>k. (dest ((ws(i := w')) k), (got(i := got i @ d)) k)) ks"
  proof (rule nth_equalityI)
    fix n assume "n < length (feed j d (snd sv))"
    then have n: "n < length ks" using l(2) by simp
    then have "ks ! n = i \<longleftrightarrow> n = j" using j l(1) nth_eq_iff_index_eq by metis
    then show "feed j d (snd sv) ! n = map (\<lambda>k. (dest ((ws(i := w')) k), (got(i := got i @ d)) k)) ks ! n"
      using n l(2) assms(3) j(1) by (cases "n = j") (simp_all add: feed_def)
  qed (simp add: l(2))
  then have "links_for (ws(i := w')) ops ks (got(i := got i @ d)) (fst sv, feed j d (snd sv))"
    using l assms(2,3) by (simp add: links_for_def)
  then show thesis using that j l(2) by simp
qed

lemma links_for_open:
  assumes "links_for ws (MWrite i mb # ops) ks got sv" "i \<notin> set ks" "w' = (ws i)\<lparr>followup := True\<rparr>" "got i = []"
  shows "links_for (ws(i := w')) ops (ks @ [i]) (got(i := got i @ d)) ((fst sv)(i := Some (length (snd sv))), snd sv @ [(dest (ws i), d)])"
proof -
  have l: "distinct ks" "snd sv = map (\<lambda>k. (dest (ws k), got k)) ks" "\<forall>k. followup (ws k) \<longleftrightarrow> k \<in> set ks"
    "\<forall>k\<in>writes_to ops. k \<in> set ks \<longrightarrow> (\<exists>j < length ks. ks ! j = k \<and> fst sv k = Some j)" using assms(1) by (simp_all add: links_for_def)
  have "\<exists>j < length (ks @ [i]). (ks @ [i]) ! j = k \<and> ((fst sv)(i := Some (length (snd sv)))) k = Some j" if kk: "k \<in> writes_to ops" "k \<in> set (ks @ [i])" for k
  proof (cases "k = i")
    case True
    then show ?thesis using l(2) by (intro exI [of _ "length ks"]) simp
  next
    case False
    then obtain j where "j < length ks" "ks ! j = k" "fst sv k = Some j" using l(4) kk by auto
    then show ?thesis using False by (intro exI [of _ j]) (simp add: nth_append)
  qed
  then show ?thesis using l(1-3) assms(2-4) by (auto simp: links_for_def)
qed

lemma links_for_close:
  assumes "links_for ws (MClose i # ops) ks got (cur, lg)" "closes_last (MClose i # ops)"
  shows "links_for ws ops ks got (cur(i := None), lg)"
proof -
  have "i \<notin> writes_to ops" using assms(2) by (simp add: writes_to_def)
  then show ?thesis using assms(1) by (auto simp: links_for_def)
qed

lemma plain_frames_emitted:
  assumes "emitted w frs d w'" "globalID w = replicate 8 0"
  shows "list_all plain_frame frs"
proof -
  have "statuses_ok old (live ms) \<Longrightarrow> m \<in> set ms \<Longrightarrow> FStatus m \<in> {SessionStatusNew, SessionStatusKeep, SessionStatusEnd}" for old ms m
  proof (induction ms arbitrary: old)
    case (Cons a ms)
    then show ?case by (cases "FStatus a = SessionStatusEnd") (auto simp: live_def split: if_splits)
  qed simp
  from this [of "followup w" "map fst frs"] show ?thesis
    using assms by (auto simp: emitted_def list_all_iff plain_frame_def)
qed

lemma mux_run_serve:
  "list_all (mux_op_ok ws) ops \<Longrightarrow> \<forall>i. wid (ws i) = i \<and> globalID (ws i) = replicate 8 0 \<Longrightarrow> closes_last ops \<Longrightarrow>
   links_for ws ops ks got sv \<Longrightarrow> \<forall>k. k \<notin> set ks \<longrightarrow> got k = [] \<Longrightarrow>
   \<exists>ws' frs ks'. mux_run ops (ws, out) = Some (None, (ws', out @ map frame_bytes frs)) \<and> list_all plain_frame frs \<and>
     distinct ks' \<and> set ks' = set ks \<union> writes_to ops \<and>
     snd (fold serve frs sv) = map (\<lambda>k. (dest (ws k), got k @ concat (map (op_data k) ops))) ks'"
proof (induction ops arbitrary: ws out ks got sv)
  case Nil
  then show ?case by (intro exI [of _ ws] exI [of _ "[]"] exI [of _ ks]) (simp add: links_for_def)
next
  case (Cons op ops)
  obtain cur lg where sv: "sv = (cur, lg)" by force
  show ?case
  proof (cases op)
    case (MWrite i mb)
    let ?d = "mb_content mb"
    have ok: "writer_ok (ws i)" "packets_ok mb" "length ?d < 2 ^ 31" using Cons.prems(1) MWrite by (simp_all add: mux_op_ok_def)
    obtain frs w' where e: "Writer_WriteMultiBuffer mb_writer mb (ws i, out) = Some (None, (w', out @ map frame_bytes frs))"
      "emitted (ws i) frs ?d w'" "frs \<noteq> []" "no_end frs" using Writer_WriteMultiBuffer_ok [OF ok] by blast
    let ?ws = "ws(i := w')" and ?got = "got(i := got i @ ?d)"
    have id: "wid (ws i) = i" "globalID (ws i) = replicate 8 0" using Cons.prems(2) by simp_all
    have "live (map fst frs) \<noteq> []" using e(3,4) by (cases frs) (auto simp: live_def)
    then have w': "w' = (ws i)\<lparr>followup := True\<rparr>" "writer_ok w'" using e(2) ok(1) by (auto simp: emitted_def)
    have p: "list_all (mux_op_ok ?ws) ops" "\<forall>k. wid (?ws k) = k \<and> globalID (?ws k) = replicate 8 0" "closes_last ops"
      using Cons.prems(1-3) w' MWrite by (auto simp: mux_op_ok_def list_all_iff split: mux_op.splits)
    obtain ks1 sv1 where s: "fold serve frs sv = sv1" "links_for ?ws ops ks1 ?got sv1" "set ks1 = insert i (set ks)"
    proof (cases "i \<in> set ks")
      case True
      then have fu: "followup (ws i)" using Cons.prems(4) by (simp add: links_for_def)
      obtain j where j: "fst sv i = Some j" "j < length (snd sv)" "links_for ?ws ops ks ?got (fst sv, feed j ?d (snd sv))"
        by (rule links_for_feed [OF Cons.prems(4) [unfolded MWrite] True w'(1)])
      then have "fold serve frs sv = (fst sv, feed j ?d (snd sv))" using serve_emitted(2) [OF e(2-4) fu] id sv by simp
      then show thesis using that [of "(fst sv, feed j ?d (snd sv))" ks] j True by auto
    next
      case False
      then have fu: "\<not> followup (ws i)" "got i = []" using Cons.prems(4,5) by (auto simp: links_for_def)
      have "fold serve frs sv = ((fst sv)(i := Some (length (snd sv))), snd sv @ [(dest (ws i), ?d)])"
        using serve_emitted(1) [OF e(2-4) fu(1)] id sv by simp
      then show thesis using that links_for_open [OF Cons.prems(4) [unfolded MWrite] False w'(1) fu(2), of ?d] by simp
    qed
    have g: "\<forall>k. k \<notin> set ks1 \<longrightarrow> ?got k = []" using Cons.prems(5) s(3) by simp
    obtain ws' frs' ks' where r: "mux_run ops (?ws, out @ map frame_bytes frs) = Some (None, (ws', (out @ map frame_bytes frs) @ map frame_bytes frs'))"
      "list_all plain_frame frs'" "distinct ks'" "set ks' = set ks1 \<union> writes_to ops"
      "snd (fold serve frs' sv1) = map (\<lambda>k. (dest (?ws k), ?got k @ concat (map (op_data k) ops))) ks'"
      using Cons.IH [OF p s(2) g, of "out @ map frame_bytes frs"] by blast
    have "(\<lambda>k. (dest (?ws k), ?got k @ concat (map (op_data k) ops))) = (\<lambda>k. (dest (ws k), got k @ concat (map (op_data k) (op # ops))))"
      using w'(1) MWrite by auto
    then show ?thesis using e(1) r s MWrite plain_frames_emitted [OF e(2) id(2)]
      by (intro exI [of _ ws'] exI [of _ "frs @ frs'"] exI [of _ ks']) auto
  next
    case (MClose i)
    have ok: "writer_ok (ws i)" using Cons.prems(1) MClose by (simp add: mux_op_ok_def)
    obtain fr where e: "Writer_Close mb_writer (ws i) out = Some (out @ [frame_bytes fr])" "emitted (ws i) [fr] [] (ws i)"
      "FStatus (fst fr) = SessionStatusEnd" using Writer_Close_ok [OF ok] by blast
    have id: "wid (ws i) = i" "globalID (ws i) = replicate 8 0" using Cons.prems(2) by simp_all
    have fr: "serve fr sv = (cur(i := None), lg)" using e(2,3) id sv by (auto simp: emitted_def mux_consts)
    have p: "list_all (mux_op_ok ws) ops" "closes_last ops" "links_for ws ops ks got (cur(i := None), lg)"
      using Cons.prems links_for_close [of ws i ops ks got cur lg] sv MClose by simp_all
    obtain ws' frs' ks' where r: "mux_run ops (ws, out @ [frame_bytes fr]) = Some (None, (ws', (out @ [frame_bytes fr]) @ map frame_bytes frs'))"
      "list_all plain_frame frs'" "distinct ks'" "set ks' = set ks \<union> writes_to ops"
      "snd (fold serve frs' (cur(i := None), lg)) = map (\<lambda>k. (dest (ws k), got k @ concat (map (op_data k) ops))) ks'"
      using Cons.IH [OF p(1) Cons.prems(2) p(2,3) Cons.prems(5), of "out @ [frame_bytes fr]"] by blast
    then show ?thesis using e(1) fr MClose plain_frames_emitted [OF e(2) id(2)]
      by (intro exI [of _ ws'] exI [of _ "fr # frs'"] exI [of _ ks']) simp
  qed
qed

end
