(* ===== verification/Pipe.thy ===== *)
theory Pipe
  imports Multi_Buffer Go_Std "HOL-Library.Sublist"
begin

text \<open>
  Package \<^verbatim>\<open>transport/pipe\<close>: the pipe between two handlers, with its blocking calls. A section
  under the mutex, a send on a channel and a receive from a channel are one step each; the
  notifiers of \<^verbatim>\<open>common/signal\<close> are channels that hold at most one token, and
  \<^verbatim>\<open>done.Instance\<close> is a flag that stays set. One goroutine reads, any number write, and anybody
  may close or interrupt the pipe; the steps of all calls are interleaved in any order.
\<close>

section \<open>The pipe\<close>

datatype pipe_state = pipe_open | pipe_closed | pipe_errord

record pipeOption =
  limit :: int
  discardOverflow :: bool

record pipe =
  pdata :: "MultiBuffer option" \<comment> \<open>\<^verbatim>\<open>nil\<close> is \<open>None\<close>\<close>
  readSignal :: bool
  writeSignal :: bool
  pdone :: bool
  errChan :: "go_error list"
  poption :: pipeOption
  pstate :: pipe_state

definition isFull :: "pipeOption \<Rightarrow> int \<Rightarrow> bool" where
  "isFull opt curSize \<longleftrightarrow> limit opt \<ge> 0 \<and> curSize > limit opt"

definition errBufferFull :: go_error where "errBufferFull = ErrNew ''buffer full''"
definition errSlowDown :: go_error where "errSlowDown = ErrNew ''slow down''"
definition ErrReadTimeout :: go_error where "ErrReadTimeout = ErrNew ''IO timeout''"

definition data_of :: "pipe \<Rightarrow> MultiBuffer" where
  "data_of p = (case pdata p of None \<Rightarrow> [] | Some mb \<Rightarrow> mb)"

definition pipe_Len :: "pipe \<Rightarrow> int" where
  "pipe_Len p = (case pdata p of None \<Rightarrow> 0 | Some mb \<Rightarrow> mb_Len mb)"

definition getState :: "bool \<Rightarrow> pipe \<Rightarrow> go_error option" where
  "getState forRead p =
     (case pstate p of
        pipe_open \<Rightarrow> if \<not> forRead \<and> isFull (poption p) (mb_Len (data_of p)) then Some errBufferFull else None
      | pipe_closed \<Rightarrow>
          if \<not> forRead then Some ErrClosedPipe
          else if \<not> mb_IsEmpty (data_of p) then None
          else Some EOF
      | pipe_errord \<Rightarrow> Some ErrClosedPipe)"

definition readMultiBufferInternal :: "pipe \<Rightarrow> MultiBuffer option \<times> go_error option \<times> pipe" where
  "readMultiBufferInternal p =
     (case getState True p of
        Some e \<Rightarrow> (None, Some e, p)
      | None \<Rightarrow> (pdata p, None, p\<lparr>pdata := None\<rparr>))"

definition writeMultiBufferInternal :: "MultiBuffer \<Rightarrow> pipe \<Rightarrow> go_error option \<times> pipe" where
  "writeMultiBufferInternal mb p =
     (case getState False p of
        Some e \<Rightarrow> (Some e, p)
      | None \<Rightarrow> (case pdata p of
                  None \<Rightarrow> (None, p\<lparr>pdata := Some mb\<rparr>)
                | Some d \<Rightarrow> (Some errSlowDown, p\<lparr>pdata := Some (fst (MergeMulti d mb))\<rparr>)))"

definition pipe_Close :: "pipe \<Rightarrow> pipe" where
  "pipe_Close p = (if pstate p = pipe_closed \<or> pstate p = pipe_errord then p else p\<lparr>pstate := pipe_closed, pdone := True\<rparr>)"

definition pipe_Interrupt :: "pipe \<Rightarrow> pipe" where
  "pipe_Interrupt p =
     (if pstate p = pipe_closed \<or> pstate p = pipe_errord then p
      else p\<lparr>pstate := pipe_errord, pdata := (if \<not> mb_IsEmpty (data_of p) then None else pdata p), pdone := True\<rparr>)"

text \<open>A send on \<^verbatim>\<open>errChan\<close>, which holds one error, waits while it is full.\<close>

definition ReturnAnError :: "go_error \<Rightarrow> pipe \<Rightarrow> pipe option" where
  "ReturnAnError e p = (if errChan p = [] then Some (p\<lparr>errChan := [e]\<rparr>) else None)"

definition Recover :: "pipe \<Rightarrow> go_error option \<times> pipe" where
  "Recover p = (case errChan p of [] \<Rightarrow> (None, p) | e # es \<Rightarrow> (Some e, p\<lparr>errChan := es\<rparr>))"

datatype Option = WithoutSizeLimit | WithSizeLimit int | DiscardOverflow

fun apply_option :: "Option \<Rightarrow> pipeOption \<Rightarrow> pipeOption" where
  "apply_option WithoutSizeLimit opt = opt\<lparr>limit := -1\<rparr>"
| "apply_option (WithSizeLimit n) opt = opt\<lparr>limit := n\<rparr>"
| "apply_option DiscardOverflow opt = opt\<lparr>discardOverflow := True\<rparr>"

definition OptionsFromPolicy :: "int \<Rightarrow> Option list" where
  "OptionsFromPolicy perConnection = [if perConnection \<ge> 0 then WithSizeLimit perConnection else WithoutSizeLimit]"

definition new_pipe :: "Option list \<Rightarrow> pipe" where
  "new_pipe opts = \<lparr>pdata = None, readSignal = False, writeSignal = False, pdone = False, errChan = [],
     poption = fold apply_option opts \<lparr>limit = -1, discardOverflow = False\<rparr>, pstate = pipe_open\<rparr>"

section \<open>The calls, step by step\<close>

text \<open>Where the reading call is: in the loop, sending the signal before it returns, or in the select.\<close>

datatype read_pc = RIdle | RTry | RSignal "MultiBuffer option" "go_error option" | RWait

datatype write_pc = WIdle | WTry MultiBuffer | WSignal MultiBuffer "go_error option" | WWait MultiBuffer

text \<open>
  \<open>returned\<close> are the results of the reading calls and \<open>answers\<close> those of the writing calls, oldest
  first. \<open>taken\<close> records for the proofs which writer's data the pipe accepted, in that order.
\<close>

record pipe_sys =
  pp :: pipe
  rpc :: read_pc
  wpc :: "nat \<Rightarrow> write_pc"
  returned :: "(MultiBuffer option \<times> go_error option) list"
  answers :: "(nat \<times> MultiBuffer \<times> go_error option) list"
  taken :: "(nat \<times> MultiBuffer) list"

definition pipe_init :: "Option list \<Rightarrow> pipe_sys" where
  "pipe_init opts = \<lparr>pp = new_pipe opts, rpc = RIdle, wpc = (\<lambda>_. WIdle), returned = [], answers = [], taken = []\<rparr>"

datatype pipe_event =
    ReadCall | ReadTry | ReadReturn | ReadSignalled | ReadDone | ReadErr | ReadTimeout
  | WriteCall nat MultiBuffer | WriteTry nat | WriteReturn nat | WriteSignalled nat | WriteDone nat
  | PClose | PInterrupt | PReturnAnError go_error | PRecover

definition read_try :: "pipe_sys \<Rightarrow> pipe_sys" where
  "read_try s =
     (case readMultiBufferInternal (pp s) of (data, err, p) \<Rightarrow>
        if data \<noteq> None \<or> err \<noteq> None then s\<lparr>pp := p, rpc := RSignal data err\<rparr> else s\<lparr>pp := p, rpc := RWait\<rparr>)"

definition write_return :: "nat \<Rightarrow> MultiBuffer \<Rightarrow> go_error option \<Rightarrow> pipe_sys \<Rightarrow> pipe_sys" where
  "write_return i mb e s = s\<lparr>wpc := (wpc s)(i := WIdle), answers := answers s @ [(i, mb, e)]\<rparr>"

definition write_try :: "nat \<Rightarrow> MultiBuffer \<Rightarrow> pipe_sys \<Rightarrow> pipe_sys" where
  "write_try i mb s =
     (case writeMultiBufferInternal mb (pp s) of (err, p) \<Rightarrow>
        let s1 = s\<lparr>pp := p\<rparr>
        in if err = None \<or> err = Some errSlowDown
           then s1\<lparr>wpc := (wpc s)(i := WSignal mb None), taken := taken s @ [(i, mb)]\<rparr>
           else if err = Some errBufferFull \<and> discardOverflow (poption p) then write_return i mb None s1
           else if err \<noteq> Some errBufferFull then s1\<lparr>wpc := (wpc s)(i := WSignal mb err)\<rparr>
           else s1\<lparr>wpc := (wpc s)(i := WWait mb)\<rparr>)"

fun pipe_exec :: "pipe_event \<Rightarrow> pipe_sys \<Rightarrow> pipe_sys option" where
  "pipe_exec ReadCall s = (if rpc s = RIdle then Some (s\<lparr>rpc := RTry\<rparr>) else None)"
| "pipe_exec ReadTry s = (if rpc s = RTry then Some (read_try s) else None)"
| "pipe_exec ReadReturn s =
     (case rpc s of
        RSignal data err \<Rightarrow> Some (s\<lparr>pp := (pp s)\<lparr>writeSignal := True\<rparr>, rpc := RIdle, returned := returned s @ [(data, err)]\<rparr>)
      | _ \<Rightarrow> None)"
| "pipe_exec ReadSignalled s =
     (if rpc s = RWait \<and> readSignal (pp s) then Some (s\<lparr>pp := (pp s)\<lparr>readSignal := False\<rparr>, rpc := RTry\<rparr>) else None)"
| "pipe_exec ReadDone s = (if rpc s = RWait \<and> pdone (pp s) then Some (s\<lparr>rpc := RTry\<rparr>) else None)"
| "pipe_exec ReadErr s =
     (if rpc s = RWait
      then (case errChan (pp s) of
              [] \<Rightarrow> None
            | e # es \<Rightarrow> Some (s\<lparr>pp := (pp s)\<lparr>errChan := es\<rparr>, rpc := RIdle, returned := returned s @ [(None, Some e)]\<rparr>))
      else None)"
| "pipe_exec ReadTimeout s =
     (if rpc s = RWait then Some (s\<lparr>rpc := RIdle, returned := returned s @ [(None, Some ErrReadTimeout)]\<rparr>) else None)"
| "pipe_exec (WriteCall i mb) s =
     (if wpc s i = WIdle
      then (if mb_IsEmpty mb then Some (s\<lparr>answers := answers s @ [(i, mb, None)]\<rparr>) else Some (s\<lparr>wpc := (wpc s)(i := WTry mb)\<rparr>))
      else None)"
| "pipe_exec (WriteTry i) s = (case wpc s i of WTry mb \<Rightarrow> Some (write_try i mb s) | _ \<Rightarrow> None)"
| "pipe_exec (WriteReturn i) s =
     (case wpc s i of WSignal mb e \<Rightarrow> Some (write_return i mb e (s\<lparr>pp := (pp s)\<lparr>readSignal := True\<rparr>\<rparr>)) | _ \<Rightarrow> None)"
| "pipe_exec (WriteSignalled i) s =
     (case wpc s i of
        WWait mb \<Rightarrow> if writeSignal (pp s) then Some (s\<lparr>pp := (pp s)\<lparr>writeSignal := False\<rparr>, wpc := (wpc s)(i := WTry mb)\<rparr>) else None
      | _ \<Rightarrow> None)"
| "pipe_exec (WriteDone i) s =
     (case wpc s i of WWait mb \<Rightarrow> if pdone (pp s) then Some (write_return i mb (Some ErrClosedPipe) s) else None | _ \<Rightarrow> None)"
| "pipe_exec PClose s = Some (s\<lparr>pp := pipe_Close (pp s)\<rparr>)"
| "pipe_exec PInterrupt s = Some (s\<lparr>pp := pipe_Interrupt (pp s)\<rparr>)"
| "pipe_exec (PReturnAnError e) s = map_option (\<lambda>p. s\<lparr>pp := p\<rparr>) (ReturnAnError e (pp s))"
| "pipe_exec PRecover s = Some (s\<lparr>pp := snd (Recover (pp s))\<rparr>)"

fun pipe_run :: "pipe_event list \<Rightarrow> pipe_sys \<Rightarrow> pipe_sys option" where
  "pipe_run [] s = Some s"
| "pipe_run (e # es) s = (case pipe_exec e s of None \<Rightarrow> None | Some s' \<Rightarrow> pipe_run es s')"

text \<open>The same as a step relation.\<close>

inductive pipe_step :: "pipe_sys \<Rightarrow> pipe_sys \<Rightarrow> bool" where
  exec: "pipe_exec e s = Some s' \<Longrightarrow> pipe_step s s'"

inductive_cases pipe_stepE: "pipe_step s s'"

lemma pipe_run_steps: "pipe_run es s = Some s' \<Longrightarrow> pipe_step\<^sup>*\<^sup>* s s'"
proof (induction es arbitrary: s)
  case (Cons e es)
  then obtain s1 where "pipe_exec e s = Some s1" "pipe_step\<^sup>*\<^sup>* s1 s'" by (auto split: option.splits)
  then show ?case by (meson converse_rtranclp_into_rtranclp pipe_step.exec)
qed simp

section \<open>The stream\<close>

definition opt_bytes :: "MultiBuffer option \<Rightarrow> byte list" where
  "opt_bytes x = (case x of None \<Rightarrow> [] | Some mb \<Rightarrow> mb_content mb)"

lemma opt_bytes_simps [simp]: "opt_bytes None = []" "opt_bytes (Some mb) = mb_content mb"
  by (simp_all add: opt_bytes_def)

definition got :: "pipe_sys \<Rightarrow> byte list" where
  "got s = concat (map (opt_bytes \<circ> fst) (returned s))"

definition accepted :: "pipe_sys \<Rightarrow> byte list" where
  "accepted s = concat (map (mb_content \<circ> snd) (taken s))"

text \<open>Bytes on the way: with the reader that has not returned yet, and in the pipe.\<close>

definition in_flight :: "pipe_sys \<Rightarrow> byte list" where
  "in_flight s = (case rpc s of RSignal data e \<Rightarrow> opt_bytes data | _ \<Rightarrow> []) @ opt_bytes (pdata (pp s))"

text \<open>The writes that have succeeded, in the order of each writer.\<close>

definition pending :: "write_pc \<Rightarrow> MultiBuffer list" where
  "pending w = (case w of WSignal mb None \<Rightarrow> [mb] | _ \<Rightarrow> [])"

definition succeeded :: "nat \<Rightarrow> pipe_sys \<Rightarrow> MultiBuffer list" where
  "succeeded i s = [mb. (j, mb, e) \<leftarrow> answers s, j = i, e = None, \<not> mb_IsEmpty mb] @ pending (wpc s i)"

definition taken_of :: "nat \<Rightarrow> pipe_sys \<Rightarrow> MultiBuffer list" where
  "taken_of i s = [mb. (j, mb) \<leftarrow> taken s, j = i]"

definition nonempty_calls :: "write_pc \<Rightarrow> bool" where
  "nonempty_calls w \<longleftrightarrow> (case w of WTry mb \<Rightarrow> \<not> mb_IsEmpty mb | WSignal mb e \<Rightarrow> \<not> mb_IsEmpty mb | WWait mb \<Rightarrow> \<not> mb_IsEmpty mb | _ \<Rightarrow> True)"

definition eof_seen :: "pipe_sys \<Rightarrow> bool" where
  "eof_seen s \<longleftrightarrow> (\<exists>d. (d, Some EOF) \<in> set (returned s)) \<or> (\<exists>d. rpc s = RSignal d (Some EOF))"

definition stream_inv :: "pipe_sys \<Rightarrow> bool" where
  "stream_inv s \<longleftrightarrow>
     prefix (got s @ in_flight s) (accepted s) \<and>
     (pstate (pp s) \<noteq> pipe_errord \<longrightarrow> got s @ in_flight s = accepted s)"

definition writers_inv :: "pipe_sys \<Rightarrow> bool" where
  "writers_inv s \<longleftrightarrow> (\<forall>i. nonempty_calls (wpc s i)) \<and> (\<forall>mb. pdata (pp s) = Some mb \<longrightarrow> \<not> mb_IsEmpty mb) \<and>
     (\<not> discardOverflow (poption (pp s)) \<longrightarrow> (\<forall>i. taken_of i s = succeeded i s))"

definition eof_inv :: "pipe_sys \<Rightarrow> bool" where
  "eof_inv s \<longleftrightarrow> EOF \<notin> set (errChan (pp s)) \<and>
     (eof_seen s \<longrightarrow> pstate (pp s) = pipe_closed \<and> pdata (pp s) = None \<and> (\<forall>d e. rpc s = RSignal d e \<longrightarrow> d = None))"

text \<open>The wake-ups: a call in a select whose condition holds has a token, or somebody is about to send one.\<close>

definition signalling :: "(nat \<Rightarrow> write_pc) \<Rightarrow> bool" where
  "signalling f \<longleftrightarrow> (\<exists>i mb e. f i = WSignal mb e)"

definition trying :: "(nat \<Rightarrow> write_pc) \<Rightarrow> bool" where
  "trying f \<longleftrightarrow> (\<exists>i mb. f i = WTry mb)"

lemma signalling_upd [simp]: "signalling (f(i := WSignal mb e))" "\<forall>mb e. f i \<noteq> WSignal mb e \<Longrightarrow> signalling f \<Longrightarrow> signalling (f(i := w))"
  by (auto simp: signalling_def) metis

lemma trying_upd [simp]: "trying (f(i := WTry mb))" "\<forall>mb. f i \<noteq> WTry mb \<Longrightarrow> trying f \<Longrightarrow> trying (f(i := w))"
  by (auto simp: trying_def)

definition wake_inv :: "pipe_sys \<Rightarrow> bool" where
  "wake_inv s \<longleftrightarrow>
     (pdone (pp s) \<longleftrightarrow> pstate (pp s) \<noteq> pipe_open) \<and>
     (rpc s = RWait \<longrightarrow> pdata (pp s) = None \<or> readSignal (pp s) \<or> pdone (pp s) \<or> signalling (wpc s)) \<and>
     (\<forall>i mb. wpc s i = WWait mb \<longrightarrow> pdata (pp s) \<noteq> None \<or> writeSignal (pp s) \<or> pdone (pp s) \<or>
        (\<exists>d e. rpc s = RSignal d e) \<or> trying (wpc s))"

lemma mb_IsEmpty_append [simp]: "mb_IsEmpty (xs @ ys) \<longleftrightarrow> mb_IsEmpty xs \<and> mb_IsEmpty ys"
  by (induction xs) auto

lemma pipe_errors_distinct [simp]:
  "errBufferFull \<noteq> errSlowDown" "errSlowDown \<noteq> errBufferFull" "errBufferFull \<noteq> ErrClosedPipe" "errSlowDown \<noteq> ErrClosedPipe"
  "ErrClosedPipe \<noteq> errBufferFull" "ErrClosedPipe \<noteq> errSlowDown" "ErrReadTimeout \<noteq> EOF" "EOF \<noteq> ErrReadTimeout"
  by (simp_all add: errBufferFull_def errSlowDown_def ErrReadTimeout_def)

text \<open>The outcomes of the two sections under the mutex.\<close>

lemma read_try_cases:
  obtains mb where "read_try s = s\<lparr>pp := (pp s)\<lparr>pdata := None\<rparr>, rpc := RSignal (Some mb) None\<rparr>" "pdata (pp s) = Some mb" "pstate (pp s) \<noteq> pipe_errord"
  | e where "read_try s = s\<lparr>rpc := RSignal None (Some e)\<rparr>" "pstate (pp s) \<noteq> pipe_open"
      "e = EOF \<longrightarrow> pstate (pp s) = pipe_closed \<and> mb_IsEmpty (data_of (pp s))"
  | "read_try s = s\<lparr>rpc := RWait\<rparr>" "pdata (pp s) = None" "pstate (pp s) = pipe_open"
proof (cases "getState True (pp s)")
  case (Some e)
  then have "read_try s = s\<lparr>rpc := RSignal None (Some e)\<rparr>" by (simp add: read_try_def readMultiBufferInternal_def)
  then show thesis using Some that(2) [of e] by (auto simp: getState_def split: pipe_state.splits if_splits)
next
  case None
  then have r: "readMultiBufferInternal (pp s) = (pdata (pp s), None, (pp s)\<lparr>pdata := None\<rparr>)" by (simp add: readMultiBufferInternal_def)
  have st: "pstate (pp s) = pipe_open \<or> pstate (pp s) = pipe_closed \<and> pdata (pp s) \<noteq> None"
    using None by (auto simp: getState_def data_of_def split: pipe_state.splits if_splits option.splits)
  show thesis
  proof (cases "pdata (pp s)")
    case None
    then have "(pp s)\<lparr>pdata := None\<rparr> = pp s" by simp
    then show thesis using that(3) r None st by (simp add: read_try_def)
  next
    case (Some mb)
    then show thesis using that(1) [of mb] r st by (auto simp: read_try_def)
  qed
qed

lemma write_try_cases:
  obtains (take) "write_try i mb s = s\<lparr>pp := (pp s)\<lparr>pdata := Some (data_of (pp s) @ mb)\<rparr>, wpc := (wpc s)(i := WSignal mb None),
        taken := taken s @ [(i, mb)]\<rparr>" "pstate (pp s) = pipe_open"
  | (discard) "write_try i mb s = write_return i mb None s" "discardOverflow (poption (pp s))" "pdata (pp s) \<noteq> None" "pstate (pp s) = pipe_open"
  | (fail) "write_try i mb s = s\<lparr>wpc := (wpc s)(i := WSignal mb (Some ErrClosedPipe))\<rparr>" "pstate (pp s) \<noteq> pipe_open"
  | (full) "write_try i mb s = s\<lparr>wpc := (wpc s)(i := WWait mb)\<rparr>" "pdata (pp s) \<noteq> None" "pstate (pp s) = pipe_open"
proof (cases "getState False (pp s)")
  case None
  then have "pstate (pp s) = pipe_open" by (auto simp: getState_def split: pipe_state.splits if_splits)
  moreover have "write_try i mb s = s\<lparr>pp := (pp s)\<lparr>pdata := Some (data_of (pp s) @ mb)\<rparr>, wpc := (wpc s)(i := WSignal mb None),
        taken := taken s @ [(i, mb)]\<rparr>"
    using None by (cases "pdata (pp s)") (simp_all add: write_try_def writeMultiBufferInternal_def data_of_def MergeMulti_def)
  ultimately show thesis using that(1) by blast
next
  case (Some e)
  then have w: "writeMultiBufferInternal mb (pp s) = (Some e, pp s)" by (simp add: writeMultiBufferInternal_def)
  from Some consider "e = ErrClosedPipe" "pstate (pp s) \<noteq> pipe_open" | "e = errBufferFull" "pstate (pp s) = pipe_open" "pdata (pp s) \<noteq> None"
    by (auto simp: getState_def data_of_def isFull_def mb_Len_def split: pipe_state.splits if_splits option.splits)
  then show thesis
  proof cases
    case 1
    then show thesis using that(3) w by (simp add: write_try_def)
  next
    case 2
    then show thesis using that(2,4) w by (cases "discardOverflow (poption (pp s))") (simp_all add: write_try_def)
  qed
qed

text \<open>The outcomes of a step.\<close>

lemma pipe_exec_cases:
  assumes "pipe_exec e s = Some s'"
  obtains (call) "e = ReadCall" "rpc s = RIdle" "s' = s\<lparr>rpc := RTry\<rparr>"
  | (data) mb where "rpc s = RTry" "pdata (pp s) = Some mb" "pstate (pp s) \<noteq> pipe_errord"
      "s' = s\<lparr>pp := (pp s)\<lparr>pdata := None\<rparr>, rpc := RSignal (Some mb) None\<rparr>"
  | (error) x where "rpc s = RTry" "pstate (pp s) \<noteq> pipe_open" "x = EOF \<longrightarrow> pstate (pp s) = pipe_closed \<and> mb_IsEmpty (data_of (pp s))"
      "s' = s\<lparr>rpc := RSignal None (Some x)\<rparr>"
  | (wait) "rpc s = RTry" "pdata (pp s) = None" "pstate (pp s) = pipe_open" "s' = s\<lparr>rpc := RWait\<rparr>"
  | (return) d x where "rpc s = RSignal d x" "s' = s\<lparr>pp := (pp s)\<lparr>writeSignal := True\<rparr>, rpc := RIdle, returned := returned s @ [(d, x)]\<rparr>"
  | (signalled) "rpc s = RWait" "readSignal (pp s)" "s' = s\<lparr>pp := (pp s)\<lparr>readSignal := False\<rparr>, rpc := RTry\<rparr>"
  | (rdone) "rpc s = RWait" "pdone (pp s)" "s' = s\<lparr>rpc := RTry\<rparr>"
  | (err) x xs where "rpc s = RWait" "errChan (pp s) = x # xs" "s' = s\<lparr>pp := (pp s)\<lparr>errChan := xs\<rparr>, rpc := RIdle, returned := returned s @ [(None, Some x)]\<rparr>"
  | (timeout) "e = ReadTimeout" "rpc s = RWait" "s' = s\<lparr>rpc := RIdle, returned := returned s @ [(None, Some ErrReadTimeout)]\<rparr>"
  | (wempty) i mb where "e = WriteCall i mb" "mb_IsEmpty mb" "s' = s\<lparr>answers := answers s @ [(i, mb, None)]\<rparr>"
  | (wcall) i mb where "e = WriteCall i mb" "wpc s i = WIdle" "\<not> mb_IsEmpty mb" "s' = s\<lparr>wpc := (wpc s)(i := WTry mb)\<rparr>"
  | (wtake) i mb where "wpc s i = WTry mb" "pstate (pp s) = pipe_open"
      "s' = s\<lparr>pp := (pp s)\<lparr>pdata := Some (data_of (pp s) @ mb)\<rparr>, wpc := (wpc s)(i := WSignal mb None), taken := taken s @ [(i, mb)]\<rparr>"
  | (wdiscard) i mb where "wpc s i = WTry mb" "discardOverflow (poption (pp s))" "pdata (pp s) \<noteq> None" "s' = write_return i mb None s"
  | (wfail) i mb where "wpc s i = WTry mb" "pstate (pp s) \<noteq> pipe_open" "s' = s\<lparr>wpc := (wpc s)(i := WSignal mb (Some ErrClosedPipe))\<rparr>"
  | (wfull) i mb where "wpc s i = WTry mb" "pdata (pp s) \<noteq> None" "s' = s\<lparr>wpc := (wpc s)(i := WWait mb)\<rparr>"
  | (wreturn) i mb x where "wpc s i = WSignal mb x" "s' = write_return i mb x (s\<lparr>pp := (pp s)\<lparr>readSignal := True\<rparr>\<rparr>)"
  | (wsignalled) i mb where "wpc s i = WWait mb" "writeSignal (pp s)" "s' = s\<lparr>pp := (pp s)\<lparr>writeSignal := False\<rparr>, wpc := (wpc s)(i := WTry mb)\<rparr>"
  | (wdone) i mb where "wpc s i = WWait mb" "pdone (pp s)" "s' = write_return i mb (Some ErrClosedPipe) s"
  | (close) "e = PClose" "s' = s\<lparr>pp := pipe_Close (pp s)\<rparr>"
  | (interrupt) "e = PInterrupt" "s' = s\<lparr>pp := pipe_Interrupt (pp s)\<rparr>"
  | (errset) x where "e = PReturnAnError x" "s' = s\<lparr>pp := (pp s)\<lparr>errChan := [x]\<rparr>\<rparr>"
  | (recover) xs where "e = PRecover" "set xs \<subseteq> set (errChan (pp s))" "s' = s\<lparr>pp := (pp s)\<lparr>errChan := xs\<rparr>\<rparr>"
proof (cases e)
  case ReadTry
  then have s': "rpc s = RTry" "s' = read_try s" using assms by (simp_all split: if_splits)
  show thesis
  proof (cases rule: read_try_cases [of s])
    case (1 mb)
    show thesis by (rule data) (use 1 s' in simp_all)
  next
    case (2 x)
    show thesis by (rule error) (use 2 s' in simp_all)
  next
    case 3
    show thesis by (rule wait) (use 3 s' in simp_all)
  qed
next
  case (WriteTry i)
  then obtain mb where mb: "wpc s i = WTry mb" "s' = write_try i mb s" using assms by (auto split: write_pc.splits)
  show thesis
  proof (cases rule: write_try_cases [of i mb s])
    case take
    show thesis by (rule wtake) (use take mb in simp_all)
  next
    case discard
    show thesis by (rule wdiscard) (use discard mb in simp_all)
  next
    case fail
    show thesis by (rule wfail) (use fail mb in simp_all)
  next
    case full
    show thesis by (rule wfull) (use full mb in simp_all)
  qed
next
  case PRecover
  show thesis
  proof (cases "errChan (pp s)")
    case Nil
    have "pp s = (pp s)\<lparr>errChan := []\<rparr>" using Nil by simp
    then show thesis using recover [of "[]"] PRecover assms Nil by (simp add: Recover_def)
  next
    case (Cons x xs)
    then show thesis using recover [of xs] PRecover assms by (auto simp: Recover_def)
  qed
next
  case ReadErr
  then show thesis using assms err by (auto split: if_splits list.splits)
next
  case (WriteCall i mb)
  then show thesis using assms wempty [of i mb] wcall [of i mb] by (simp split: if_splits)
next
  case ReadCall
  show thesis by (rule call) (use assms ReadCall in \<open>simp_all split: if_splits\<close>)
next
  case ReadSignalled
  show thesis by (rule signalled) (use assms ReadSignalled in \<open>simp_all split: if_splits\<close>)
next
  case ReadDone
  show thesis by (rule rdone) (use assms ReadDone in \<open>simp_all split: if_splits\<close>)
next
  case ReadTimeout
  show thesis by (rule timeout) (use assms ReadTimeout in \<open>simp_all split: if_splits\<close>)
next
  case PClose
  show thesis by (rule close) (use assms PClose in \<open>simp_all\<close>)
next
  case PInterrupt
  show thesis by (rule interrupt) (use assms PInterrupt in \<open>simp_all\<close>)
next
  case (PReturnAnError x)
  show thesis by (rule errset [OF PReturnAnError]) (use assms PReturnAnError in \<open>simp add: ReturnAnError_def split: if_splits\<close>)
next
  case ReadReturn
  then obtain d x where "rpc s = RSignal d x" using assms by (simp split: read_pc.splits)
  then show thesis by (rule return) (use ReadReturn assms \<open>rpc s = RSignal d x\<close> in simp)
next
  case (WriteReturn i)
  then obtain mb x where "wpc s i = WSignal mb x" using assms by (simp split: write_pc.splits)
  then show thesis by (rule wreturn) (use WriteReturn assms \<open>wpc s i = WSignal mb x\<close> in simp)
next
  case (WriteSignalled i)
  then obtain mb where "wpc s i = WWait mb" using assms by (simp split: write_pc.splits)
  then show thesis by (rule wsignalled) (use WriteSignalled assms \<open>wpc s i = WWait mb\<close> in \<open>simp_all split: if_splits\<close>)
next
  case (WriteDone i)
  then obtain mb where "wpc s i = WWait mb" using assms by (simp split: write_pc.splits)
  then show thesis by (rule wdone) (use WriteDone assms \<open>wpc s i = WWait mb\<close> in \<open>simp_all split: if_splits\<close>)
qed

lemma pipe_exec_wake:
  assumes "wake_inv s" "pipe_exec e s = Some s'"
  shows "wake_inv s'"
  using assms(2)
proof (cases rule: pipe_exec_cases)
  case close
  then show ?thesis using assms(1) by (auto simp: wake_inv_def pipe_Close_def)
next
  case interrupt
  then show ?thesis using assms(1) by (auto simp: wake_inv_def pipe_Interrupt_def)
qed (use assms(1) in \<open>auto simp: wake_inv_def write_return_def\<close>)

lemma pipe_exec_stream:
  assumes "stream_inv s" "pipe_exec e s = Some s'"
  shows "stream_inv s'"
proof -
  note defs = stream_inv_def got_def in_flight_def accepted_def
  from assms(2) show ?thesis
  proof (cases rule: pipe_exec_cases)
    case (wtake i mb)
    have "opt_bytes (Some (data_of (pp s) @ mb)) = opt_bytes (pdata (pp s)) @ mb_content mb"
      by (simp add: data_of_def opt_bytes_def mb_content_def split: option.split)
    moreover have "got s @ in_flight s = accepted s" using assms(1) wtake(2) by (simp add: stream_inv_def)
    ultimately have "got s' @ in_flight s' = accepted s'" unfolding wtake(3) by (simp add: got_def in_flight_def accepted_def flip: append_assoc)
    then show ?thesis by (simp add: stream_inv_def)
  next
    case close
    then show ?thesis using assms(1) by (simp add: defs pipe_Close_def)
  next
    case interrupt
    have "prefix (got s @ in_flight s) (accepted s) \<Longrightarrow> prefix (got s @ in_flight s') (accepted s)"
      using interrupt by (auto simp: in_flight_def pipe_Interrupt_def elim!: append_prefixD intro: append_prefixD [of _ "opt_bytes (pdata (pp s))"])
    then show ?thesis using assms(1) interrupt by (auto simp: defs pipe_Interrupt_def split: if_splits)
  qed (use assms(1) in \<open>auto simp: defs write_return_def\<close>)
qed

lemma pipe_exec_writers:
  assumes "writers_inv s" "pipe_exec e s = Some s'"
  shows "writers_inv s'"
proof -
  note defs = writers_inv_def nonempty_calls_def taken_of_def succeeded_def pending_def
  have ne: "wpc s i = WTry mb \<Longrightarrow> \<not> mb_IsEmpty mb" "wpc s i = WWait mb \<Longrightarrow> \<not> mb_IsEmpty mb" "wpc s i = WSignal mb x \<Longrightarrow> \<not> mb_IsEmpty mb" for i mb x
    using assms(1) by (auto simp: writers_inv_def nonempty_calls_def split: write_pc.splits)
  from assms(2) show ?thesis
  proof (cases rule: pipe_exec_cases)
    case close
    then show ?thesis using assms(1) by (simp add: defs pipe_Close_def)
  next
    case interrupt
    then show ?thesis using assms(1) by (simp add: defs pipe_Interrupt_def)
  next
    case (wreturn i mb x)
    then show ?thesis using assms(1) ne(3) by (cases x) (simp_all add: defs write_return_def)
  next
    case (wtake i mb)
    then show ?thesis using assms(1) ne(1) [OF wtake(1)] by (auto simp: defs)
  next
    case (wdiscard i mb)
    then show ?thesis using assms(1) by (simp add: defs write_return_def)
  next
    case (wfail i mb)
    then show ?thesis using assms(1) ne(1) [OF wfail(1)] by (simp add: defs)
  next
    case (wfull i mb)
    then show ?thesis using assms(1) ne(1) [OF wfull(1)] by (simp add: defs)
  next
    case (wsignalled i mb)
    then show ?thesis using assms(1) ne(2) [OF wsignalled(1)] by (simp add: defs)
  qed (use assms(1) in \<open>simp_all add: defs write_return_def\<close>)
qed

lemma pipe_exec_eof:
  assumes "eof_inv s" "writers_inv s" "e \<noteq> PReturnAnError EOF" "pipe_exec e s = Some s'"
  shows "eof_inv s'"
  using assms(4)
proof (cases rule: pipe_exec_cases)
  case (error x)
  then show ?thesis using assms(1,2) by (auto simp: eof_inv_def eof_seen_def writers_inv_def data_of_def split: option.splits)
next
  case close
  then show ?thesis using assms(1) by (auto simp: eof_inv_def eof_seen_def pipe_Close_def)
next
  case interrupt
  then show ?thesis using assms(1) by (auto simp: eof_inv_def eof_seen_def pipe_Interrupt_def)
qed (use assms(1,3) in \<open>auto simp: eof_inv_def eof_seen_def write_return_def\<close>)

lemma pipe_init_invs: "stream_inv (pipe_init opts)" "writers_inv (pipe_init opts)" "eof_inv (pipe_init opts)" "wake_inv (pipe_init opts)"
  by (simp_all add: pipe_init_def new_pipe_def stream_inv_def got_def in_flight_def accepted_def writers_inv_def nonempty_calls_def taken_of_def
    succeeded_def pending_def eof_inv_def eof_seen_def wake_inv_def)

lemma pipe_run_inv:
  assumes "\<And>e s s'. P s \<Longrightarrow> ok e \<Longrightarrow> pipe_exec e s = Some s' \<Longrightarrow> P s'"
  shows "pipe_run es s = Some s' \<Longrightarrow> P s \<Longrightarrow> list_all ok es \<Longrightarrow> P s'"
  using assms by (induction es arbitrary: s) (auto split: option.splits)

lemma pipe_run_option: "pipe_run es s = Some s' \<Longrightarrow> poption (pp s') = poption (pp s)"
proof (rule pipe_run_inv [where P = "\<lambda>x. poption (pp x) = poption (pp s)" and ok = "\<lambda>_. True"], goal_cases)
  case (1 e x x')
  from 1(4) show ?case
    by (cases rule: pipe_exec_cases) (use 1(2) in \<open>simp_all add: write_return_def pipe_Close_def pipe_Interrupt_def\<close>)
qed (simp_all add: list_all_iff)

lemma discard_option: "DiscardOverflow \<notin> set opts \<Longrightarrow> discardOverflow (fold apply_option opts opt) = discardOverflow opt"
proof (induction opts arbitrary: opt)
  case (Cons o1 opts)
  then show ?case by (cases o1) simp_all
qed simp

section \<open>The calls settle\<close>

text \<open>The steps of calls in progress, without timeouts, new calls, closing and errors from outside.\<close>

fun internal :: "pipe_event \<Rightarrow> bool" where
  "internal ReadTry = True" | "internal ReadReturn = True" | "internal ReadSignalled = True" | "internal ReadDone = True"
| "internal ReadErr = True" | "internal (WriteTry i) = True" | "internal (WriteReturn i) = True" | "internal (WriteSignalled i) = True"
| "internal (WriteDone i) = True" | "internal _ = False"

definition settled :: "pipe_sys \<Rightarrow> bool" where
  "settled s \<longleftrightarrow>
     (rpc s = RIdle \<or> rpc s = RWait \<and> pdata (pp s) = None \<and> pstate (pp s) = pipe_open \<and> (\<forall>i. wpc s i = WIdle)) \<and>
     (\<forall>i. wpc s i = WIdle \<or> (\<exists>mb. wpc s i = WWait mb) \<and> rpc s = RIdle \<and> pdata (pp s) \<noteq> None \<and> pstate (pp s) = pipe_open)"

lemma stuck_settled:
  assumes "wake_inv s" "\<And>e. internal e \<Longrightarrow> pipe_exec e s = None"
  shows "settled s"
proof -
  have r: "rpc s \<noteq> RTry" "\<And>d e. rpc s \<noteq> RSignal d e" "rpc s = RWait \<Longrightarrow> \<not> readSignal (pp s) \<and> \<not> pdone (pp s)"
    using assms(2) [of ReadTry] assms(2) [of ReadReturn] assms(2) [of ReadSignalled] assms(2) [of ReadDone]
    by (auto split: if_splits)
  have w: "wpc s i \<noteq> WTry mb" "wpc s i \<noteq> WSignal mb e" "wpc s i = WWait mb \<Longrightarrow> \<not> writeSignal (pp s) \<and> \<not> pdone (pp s)" for i mb e
    using assms(2) [of "WriteTry i"] assms(2) [of "WriteReturn i"] assms(2) [of "WriteSignalled i"] assms(2) [of "WriteDone i"]
    by (auto split: if_splits)
  then have n: "\<not> signalling (wpc s)" "\<not> trying (wpc s)" by (auto simp: signalling_def trying_def)
  have wpc: "wpc s i = WIdle \<or> (\<exists>mb. wpc s i = WWait mb)" for i using w by (cases "wpc s i") auto
  have ww: "pdata (pp s) \<noteq> None \<and> pstate (pp s) = pipe_open" if "wpc s i = WWait mb" for i mb
    using assms(1) w(3) [OF that] n r(2) that by (auto simp: wake_inv_def)
  have rr: "pdata (pp s) = None \<and> pstate (pp s) = pipe_open" if "rpc s = RWait" using assms(1) r(3) that n by (auto simp: wake_inv_def)
  have "rpc s = RIdle \<or> rpc s = RWait" using r by (cases "rpc s") auto
  then show ?thesis using wpc ww rr unfolding settled_def by metis
qed

text \<open>The work that the calls in progress still have: every internal step does some.\<close>

fun write_work :: "write_pc \<Rightarrow> nat" where
  "write_work WIdle = 0" | "write_work (WTry mb) = 5" | "write_work (WWait mb) = 4" | "write_work (WSignal mb e) = 3"

fun read_work :: "bool \<Rightarrow> read_pc \<Rightarrow> nat" where
  "read_work d RIdle = 0" | "read_work d RTry = 4" | "read_work d (RSignal x e) = 3" | "read_work d RWait = (if d then 5 else 3)"

definition active :: "pipe_sys \<Rightarrow> nat set" where
  "active s = {i. wpc s i \<noteq> WIdle}"

definition pipe_work :: "pipe_sys \<Rightarrow> nat" where
  "pipe_work s = (\<Sum>i\<in>active s. write_work (wpc s i)) + read_work (pdone (pp s)) (rpc s) +
     (if readSignal (pp s) then 2 else 0) + (if writeSignal (pp s) then 2 else 0)"

lemma active_upd: "active s' \<subseteq> insert i (active s)" if "wpc s' = (wpc s)(i := w)" for s s' i w
  using that by (auto simp: active_def)

lemma finite_active: "pipe_exec e s = Some s' \<Longrightarrow> finite (active s) \<Longrightarrow> finite (active s')"
  by (cases rule: pipe_exec_cases [of e s s'])
    (auto simp: active_def write_return_def elim!: rev_finite_subset [OF finite.insertI])

lemma sum_active:
  assumes "finite A" "active s \<subseteq> A"
  shows "(\<Sum>i\<in>active s. write_work (wpc s i)) = (\<Sum>i\<in>A. write_work (wpc s i))"
  using assms by (intro sum.mono_neutral_left) (auto simp: active_def)

lemma sum_upd:
  assumes "finite (active s)" "wpc s' = (wpc s)(i := w)"
  shows "(\<Sum>j\<in>active s'. write_work (wpc s' j)) + write_work (wpc s i) = (\<Sum>j\<in>active s. write_work (wpc s j)) + write_work w"
proof -
  let ?A = "insert i (active s)"
  have A: "finite ?A" "active s \<subseteq> ?A" "active s' \<subseteq> ?A" "i \<in> ?A" using assms active_upd [OF assms(2)] by auto
  show ?thesis
    using sum.remove [OF A(1,4), of "\<lambda>j. write_work (wpc s j)"] sum.remove [OF A(1,4), of "\<lambda>j. write_work (wpc s' j)"]
    unfolding sum_active [OF A(1,2)] sum_active [OF A(1,3)] by (simp add: assms(2))
qed

lemma internal_work:
  assumes "internal e" "pipe_exec e s = Some s'" "wake_inv s" "finite (active s)"
  shows "pipe_work s' < pipe_work s"
proof -
  have same: "(\<Sum>i\<in>active x. write_work (wpc x i)) = (\<Sum>i\<in>active s. write_work (wpc s i))" if "wpc x = wpc s" for x
    using that by (simp add: active_def)
  note upd = sum_upd [OF assms(4)]
  from assms(2) show ?thesis
  proof (cases rule: pipe_exec_cases)
    case wait
    then show ?thesis using assms(3) same [of s'] by (simp add: pipe_work_def wake_inv_def)
  next
    case (wtake i mb)
    then show ?thesis using upd [of s' i "WSignal mb None"] by (simp add: pipe_work_def)
  next
    case (wdiscard i mb)
    then show ?thesis using upd [of s' i WIdle] by (simp add: pipe_work_def write_return_def)
  next
    case (wfail i mb)
    then show ?thesis using upd [of s' i "WSignal mb (Some ErrClosedPipe)"] by (simp add: pipe_work_def)
  next
    case (wfull i mb)
    then show ?thesis using upd [of s' i "WWait mb"] by (simp add: pipe_work_def)
  next
    case (wreturn i mb x)
    then show ?thesis using upd [of s' i WIdle] by (simp add: pipe_work_def write_return_def)
  next
    case (wsignalled i mb)
    then show ?thesis using upd [of s' i "WTry mb"] by (simp add: pipe_work_def)
  next
    case (wdone i mb)
    then show ?thesis using upd [of s' i WIdle] by (simp add: pipe_work_def write_return_def)
  qed (use assms(1) same [of s'] in \<open>simp_all add: pipe_work_def\<close>)
qed

lemma internal_run:
  "list_all internal es \<Longrightarrow> pipe_run es s = Some s' \<Longrightarrow> wake_inv s \<Longrightarrow> finite (active s) \<Longrightarrow>
   length es + pipe_work s' \<le> pipe_work s \<and> wake_inv s' \<and> finite (active s')"
proof (induction es arbitrary: s)
  case (Cons e es)
  then obtain s1 where s1: "pipe_exec e s = Some s1" "pipe_run es s1 = Some s'" by (auto split: option.splits)
  then show ?case
    using Cons.IH [of s1] Cons.prems internal_work [of e s s1] pipe_exec_wake [OF _ s1(1)] finite_active [OF s1(1)] by fastforce
qed simp

section \<open>Properties\<close>

text \<open>
  C5: the pipe is a byte stream for every interleaving of one reading goroutine with any number of
  writing, closing and interrupting ones: what the reader has got is a prefix of what the pipe has
  accepted; unless the pipe was interrupted, nothing that was accepted is missing from what was
  read, what the reader is about to return and what is in the pipe; an end of the stream that is
  not injected with \<^verbatim>\<open>ReturnAnError\<close> is reported only after everything was read; and without
  \<^verbatim>\<open>DiscardOverflow\<close> the pipe accepts of each writer exactly the writes that succeed, each once
  and in the writer's order.
\<close>

theorem pipe_stream:
  assumes "pipe_run es (pipe_init opts) = Some s"
  shows "prefix (got s) (accepted s) \<and>
    (pstate (pp s) \<noteq> pipe_errord \<longrightarrow> got s @ in_flight s = accepted s) \<and>
    (PReturnAnError EOF \<notin> set es \<and> (\<exists>d. (d, Some EOF) \<in> set (returned s)) \<longrightarrow> got s = accepted s) \<and>
    (DiscardOverflow \<notin> set opts \<longrightarrow> (\<forall>i. taken_of i s = succeeded i s))"
proof -
  have all: "list_all (\<lambda>_. True) es" by (simp add: list_all_iff)
  have st: "stream_inv s" using pipe_run_inv [where P = stream_inv, OF pipe_exec_stream assms pipe_init_invs(1) all] by simp
  have wr: "writers_inv s" using pipe_run_inv [where P = writers_inv, OF pipe_exec_writers assms pipe_init_invs(2) all] by simp
  have eof: "got s = accepted s" if e: "PReturnAnError EOF \<notin> set es" "(d, Some EOF) \<in> set (returned s)" for d
  proof -
    have "list_all (\<lambda>e. e \<noteq> PReturnAnError EOF) es" using e(1) by (auto simp: list_all_iff)
    then have "eof_inv s \<and> writers_inv s"
      using pipe_run_inv [where P = "\<lambda>s. eof_inv s \<and> writers_inv s" and ok = "\<lambda>e. e \<noteq> PReturnAnError EOF", OF _ assms]
        pipe_exec_eof pipe_exec_writers pipe_init_invs by blast
    then have "pstate (pp s) = pipe_closed" "in_flight s = []" using e(2)
      by (auto simp: eof_inv_def eof_seen_def in_flight_def split: read_pc.split)
    then show ?thesis using st by (simp add: stream_inv_def)
  qed
  have "discardOverflow (poption (pp s)) = discardOverflow (poption (pp (pipe_init opts)))" using pipe_run_option [OF assms] by simp
  then have "DiscardOverflow \<notin> set opts \<longrightarrow> (\<forall>i. taken_of i s = succeeded i s)"
    using wr by (simp add: writers_inv_def pipe_init_def new_pipe_def discard_option)
  then show ?thesis using st eof by (auto simp: stream_inv_def dest: append_prefixD)
qed


definition sample_events :: "pipe_event list" where
  "sample_events = [WriteCall 0 [FromBytes [7, 8]], WriteTry 0, WriteCall 1 [FromBytes [9]], WriteTry 1, WriteReturn 0, ReadCall, ReadTry]"

definition sample_rest :: "pipe_event list" where
  "sample_rest = [ReadReturn, WriteSignalled 1, WriteTry 1, WriteReturn 1]"

lemma sample_buffers [simp]: "\<not> buf_IsEmpty (FromBytes [7, 8])" "\<not> buf_IsEmpty (FromBytes [9])" "buf_Len (FromBytes [7, 8]) = 2"
    "content (FromBytes [7, 8]) = [7, 8]" "content (FromBytes [9]) = [9]"
  by code_simp+

lemmas sample_defs = sample_events_def sample_rest_def pipe_init_def new_pipe_def read_try_def readMultiBufferInternal_def write_try_def
  writeMultiBufferInternal_def getState_def isFull_def data_of_def write_return_def pipe_Close_def got_def accepted_def in_flight_def

lemma sample_run: "\<exists>s s'. pipe_run sample_events (pipe_init [WithSizeLimit 0]) = Some s \<and> pipe_run sample_rest s = Some s' \<and>
    rpc s = RSignal (Some [FromBytes [7, 8]]) None \<and> (\<exists>s''. pipe_run (sample_events @ sample_rest) (pipe_init [WithSizeLimit 0]) = Some s'' \<and>
      got s'' = [7, 8] \<and> accepted s'' = [7, 8, 9] \<and> pstate (pp s'') = pipe_open)"
  by (simp add: sample_defs mb_Len_def i32_id)

theorem pipe_stream_witness:
  "\<exists>s. pipe_run (sample_events @ sample_rest) (pipe_init [WithSizeLimit 0]) = Some s \<and> got s = [7, 8] \<and> in_flight s = [9] \<and>
     taken_of 1 s = succeeded 1 s"
proof -
  obtain s where s: "pipe_run (sample_events @ sample_rest) (pipe_init [WithSizeLimit 0]) = Some s" "got s = [7, 8]" "accepted s = [7, 8, 9]"
    "pstate (pp s) = pipe_open" using sample_run by blast
  then show ?thesis using pipe_stream [OF s(1)] s by auto
qed


end
