(* ===== verification/Mux_System.thy ===== *)
theory Mux_System
  imports Mux_Server Pipe
begin

text \<open>
  The multiplexer from end to end: the writers of a client, the connection, the worker of the
  server, and the pipes that the dispatcher opens for the sessions.
\<close>

section \<open>Links of pipes\<close>

text \<open>
  \<^verbatim>\<open>DefaultDispatcher.Dispatch\<close> opens an uplink and a downlink pipe per session. \<open>up\<close> holds the
  destination, the uplink and the bytes it has accepted, \<open>down\<close> the downlinks and \<open>sent\<close> what the
  worker wrote to the connection.
\<close>

record pipe_links =
  up :: "(Destination \<times> pipe \<times> byte list) list"
  down :: "pipe list"
  sent :: "byte list list"

text \<open>A write that does not have to wait: the first round of \<^verbatim>\<open>pipe.WriteMultiBuffer\<close>.\<close>

definition pipe_write :: "MultiBuffer \<Rightarrow> pipe \<Rightarrow> (go_error option \<times> pipe) option" where
  "pipe_write mb p =
     (if mb_IsEmpty mb then Some (None, p)
      else case writeMultiBufferInternal mb p of (err, p') \<Rightarrow>
        if err = None \<or> err = Some errSlowDown then Some (None, p'\<lparr>readSignal := True\<rparr>)
        else if err = Some errBufferFull \<and> discardOverflow (poption p') then Some (None, p')
        else if err \<noteq> Some errBufferFull then Some (err, p'\<lparr>readSignal := True\<rparr>)
        else None)"

definition pipe_api :: "Option list \<Rightarrow> pipe_links links_api" where
  "pipe_api opts = \<lparr>
     lk_dispatch = (\<lambda>d l. (Inr (length (down l), length (up l)), l\<lparr>up := up l @ [(d, new_pipe opts, [])], down := down l @ [new_pipe opts]\<rparr>)),
     lk_write = (\<lambda>i mb l. case up l ! i of (d, p, xs) \<Rightarrow>
       map_option (\<lambda>(e, p'). (e, l\<lparr>up := (up l)[i := (d, p', if e = None then xs @ mb_content mb else xs)]\<rparr>)) (pipe_write mb p)),
     lk_interrupt = (\<lambda>i l. l\<lparr>down := (down l)[i := pipe_Interrupt (down l ! i)]\<rparr>),
     lk_close = (\<lambda>i l. l\<lparr>up := (up l)[i := (case up l ! i of (d, p, xs) \<Rightarrow> (d, pipe_Close p, xs))]\<rparr>),
     lk_detach = (\<lambda>i l. l\<lparr>down := (down l)[i := (case ReturnAnError EOF (down l ! i) of None \<Rightarrow> down l ! i | Some p \<Rightarrow> snd (Recover p))]\<rparr>),
     lk_respond = (\<lambda>mb l. Some (None, l\<lparr>sent := sent l @ [mb_content mb]\<rparr>))\<rparr>"

definition pipe_log :: "pipe_links \<Rightarrow> (Destination \<times> byte list) list" where
  "pipe_log l = map (\<lambda>(d, p, xs). (d, xs)) (up l)"

definition pipe_opens :: "pipe_links \<Rightarrow> nat set" where
  "pipe_opens l = {i. i < length (up l) \<and> (case up l ! i of (d, p, xs) \<Rightarrow> pstate p = pipe_open)}"

text \<open>Pipes without a size limit, which \<^verbatim>\<open>OptionsFromContext\<close> makes when the policy sets none.\<close>

definition unlimited :: "pipe_links \<Rightarrow> bool" where
  "unlimited l \<longleftrightarrow> (\<forall>u\<in>set (up l). case u of (d, p, xs) \<Rightarrow> limit (poption p) < 0)"

lemma pipe_write_unlimited:
  assumes "pstate p = pipe_open" "limit (poption p) < 0"
  obtains p' where "pipe_write mb p = Some (None, p')" "pstate p' = pipe_open" "poption p' = poption p"
proof -
  have "getState False p = None" using assms by (simp add: getState_def isFull_def)
  then show thesis using that assms(1) by (cases "mb_IsEmpty mb"; cases "pdata p") (simp_all add: pipe_write_def writeMultiBufferInternal_def)
qed

interpretation pl: mux_links "pipe_api (OptionsFromPolicy (-1))" pipe_log pipe_opens unlimited
proof (unfold_locales, goal_cases)
  case (1 l d)
  have n: "limit (poption (new_pipe (OptionsFromPolicy (-1)))) < 0" "pstate (new_pipe (OptionsFromPolicy (-1))) = pipe_open"
    by (simp_all add: new_pipe_def OptionsFromPolicy_def)
  then show ?case using 1 by (auto simp: pipe_api_def pipe_log_def pipe_opens_def unlimited_def nth_append less_Suc_eq)
next
  case (2 l i mb)
  then have i: "i < length (up l)" by (auto simp: pipe_opens_def)
  obtain d p xs where u: "up l ! i = (d, p, xs)" by (cases "up l ! i")
  have p: "pstate p = pipe_open" "limit (poption p) < 0" using 2 u i nth_mem [OF i] by (auto simp: pipe_opens_def unlimited_def)
  obtain p' where p': "pipe_write mb p = Some (None, p')" "pstate p' = pipe_open" "poption p' = poption p" by (rule pipe_write_unlimited [OF p])
  let ?l = "l\<lparr>up := (up l)[i := (d, p', xs @ mb_content mb)]\<rparr>"
  have "lk_write (pipe_api (OptionsFromPolicy (-1))) i mb l = Some (None, ?l)" using u p'(1) by (simp add: pipe_api_def)
  moreover have "pipe_log ?l = feed i (mb_content mb) (pipe_log l)" using u i by (simp add: pipe_log_def feed_def map_update)
  moreover have "pipe_opens ?l = pipe_opens l" using u p(1) p'(2) i by (auto simp: pipe_opens_def nth_list_update)
  moreover have "unlimited ?l" using 2(1) p(2) p'(3) set_update_subset_insert [of "up l" i] by (fastforce simp: unlimited_def)
  ultimately show ?case by blast
next
  case (4 l i)
  show ?case
  proof (cases "i < length (up l)")
    case True
    obtain d p xs where u: "up l ! i = (d, p, xs)" by (cases "up l ! i")
    have c: "pstate (pipe_Close p) \<noteq> pipe_open" "poption (pipe_Close p) = poption p" by (cases "pstate p"; simp add: pipe_Close_def)+
    let ?l = "l\<lparr>up := (up l)[i := (d, pipe_Close p, xs)]\<rparr>"
    have "lk_close (pipe_api (OptionsFromPolicy (-1))) i l = ?l" using u by (simp add: pipe_api_def)
    moreover have "pipe_log ?l = pipe_log l"
      using u True by (simp add: pipe_log_def map_update list_update_same_conv [of i "map (\<lambda>(d, p, xs). (d, xs)) (up l)"])
    moreover have "pipe_opens ?l = pipe_opens l - {i}" using u c(1) True by (auto simp: pipe_opens_def nth_list_update)
    moreover have "limit (poption p) < 0" using 4 u nth_mem [OF True] by (auto simp: unlimited_def)
    then have "unlimited ?l" using 4 c(2) set_update_subset_insert [of "up l" i] by (fastforce simp: unlimited_def)
    ultimately show ?thesis by simp
  next
    case False
    then have "lk_close (pipe_api (OptionsFromPolicy (-1))) i l = l" by (simp add: pipe_api_def list_update_beyond)
    then show ?thesis using 4 False by (auto simp: pipe_opens_def)
  qed
qed (auto simp: pipe_api_def pipe_log_def pipe_opens_def unlimited_def)

section \<open>The multiplexer from end to end\<close>

definition no_pipes :: pipe_links where
  "no_pipes = \<lparr>up = [], down = [], sent = []\<rparr>"

lemma server_start: "pl.server_inv 0 (new_world no_pipes)" "pl.serving_of 0 (new_world no_pipes) = (\<lambda>_. None, [])"
  by (simp_all add: pl.server_inv_def pl.serving_of_def new_world_def no_pipes_def NewSessionManager_def sm_Get_def unlimited_def pipe_log_def)



end
