(* ===== verification/Mux_Client.thy ===== *)
theory Mux_Client
  imports Mux_System
begin

text \<open>
  Package \<^verbatim>\<open>common/mux\<close>, file \<^verbatim>\<open>client.go\<close>: the workers of a client, each with its connection and its
  table of sessions, the picker that chooses a worker for a new session, the goroutine that sends
  the input of a session and the one that hands the answers of the server out.
\<close>

section \<open>Workers\<close>

record ClientStrategy =
  MaxConcurrency :: u32
  MaxConnection :: u32

record ClientWorker =
  cw_manager :: nat
  cw_done :: bool
  cw_strategy :: ClientStrategy

definition cw_Closed :: "ClientWorker \<Rightarrow> bool" where
  "cw_Closed c = cw_done c"

definition TotalConnections :: "ClientWorker \<Rightarrow> 'l world \<Rightarrow> u32" where
  "TotalConnections c w = of_nat (sm_Count (cw_manager c) w)"

definition cw_ActiveConnections :: "ClientWorker \<Rightarrow> 'l world \<Rightarrow> u32" where
  "cw_ActiveConnections c w = of_nat (sm_Size (cw_manager c) w)"

definition IsClosing :: "ClientWorker \<Rightarrow> 'l world \<Rightarrow> bool" where
  "IsClosing c w \<longleftrightarrow> MaxConnection (cw_strategy c) > 0 \<and> sm_Count (cw_manager c) w \<ge> unat (MaxConnection (cw_strategy c))"

definition IsFull :: "ClientWorker \<Rightarrow> 'l world \<Rightarrow> bool" where
  "IsFull c w \<longleftrightarrow> IsClosing c w \<or> cw_Closed c \<or>
     (MaxConcurrency (cw_strategy c) > 0 \<and> sm_Size (cw_manager c) w \<ge> unat (MaxConcurrency (cw_strategy c)))"

text \<open>\<^verbatim>\<open>Dispatch\<close> of a worker: a new session for the link; \<open>spawned\<close> records its \<^verbatim>\<open>fetchInput\<close>.\<close>

definition cw_Dispatch :: "ClientWorker \<Rightarrow> nat \<times> nat \<Rightarrow> 'l world \<Rightarrow> bool \<times> 'l world" where
  "cw_Dispatch c link w =
     (if IsFull c w \<or> cw_Closed c then (False, w)
      else case Allocate (cw_manager c) w of
             (None, w1) \<Rightarrow> (False, w1)
           | (Some s, w1) \<Rightarrow>
               (True, (upd_obj s (\<lambda>s. s\<lparr>s_input := fst link, s_output := snd link\<rparr>) w1)\<lparr>spawned := spawned w1 @ [s]\<rparr>))"

text \<open>The two cases of the loop of \<^verbatim>\<open>monitor\<close>; closing the link of the worker is not represented.\<close>

definition monitor_tick :: "ClientWorker \<Rightarrow> 'l world \<Rightarrow> ClientWorker \<times> 'l world" where
  "monitor_tick c w =
     (if sm_Size (cw_manager c) w = 0
      then (case CloseIfNoSession (cw_manager c) w of (True, w1) \<Rightarrow> (c\<lparr>cw_done := True\<rparr>, w1) | (False, w1) \<Rightarrow> (c, w1))
      else (c, w))"

definition monitor_done :: "'l links_api \<Rightarrow> ClientWorker \<Rightarrow> 'l world \<Rightarrow> 'l world option" where
  "monitor_done api c w = sm_Close api (cw_manager c) w"

section \<open>The picker\<close>

text \<open>The workers, and the ones that the picker has, in its order.\<close>

record 'l client =
  cworld :: "'l world"
  cworkers :: "ClientWorker list"
  pworkers :: "nat list"
  cleanupTask :: bool

definition cleanup :: "'l client \<Rightarrow> 'l client" where
  "cleanup p = p\<lparr>pworkers := filter (\<lambda>w. \<not> cw_Closed (cworkers p ! w)) (pworkers p)\<rparr>"

definition cleanupFunc :: "'l client \<Rightarrow> go_error option \<times> 'l client" where
  "cleanupFunc p = (if pworkers p = [] then (Some (ErrNew ''no worker''), p) else (None, cleanup p))"

fun find_available :: "nat \<Rightarrow> nat list \<Rightarrow> 'l client \<Rightarrow> nat option" where
  "find_available idx [] p = None"
| "find_available idx (w # ws) p = (if \<not> IsFull (cworkers p ! w) (cworld p) then Some idx else find_available (Suc idx) ws p)"

definition findAvailable :: "'l client \<Rightarrow> nat option" where
  "findAvailable p = find_available 0 (pworkers p) p"

text \<open>\<^verbatim>\<open>NewClientWorker\<close> and \<^verbatim>\<open>DialingWorkerFactory.Create\<close>, which does not fail: a new table and a new worker.\<close>

definition NewClientWorker :: "ClientStrategy \<Rightarrow> 'l client \<Rightarrow> nat \<times> 'l client" where
  "NewClientWorker st p =
     (length (cworkers p),
      p\<lparr>cworkers := cworkers p @ [\<lparr>cw_manager = length (mgrs (cworld p)), cw_done = False, cw_strategy = st\<rparr>],
        cworld := (cworld p)\<lparr>mgrs := mgrs (cworld p) @ [NewSessionManager]\<rparr>\<rparr>)"

definition pickInternal :: "ClientStrategy \<Rightarrow> 'l client \<Rightarrow> nat \<times> bool \<times> 'l client" where
  "pickInternal st p =
     (case findAvailable p of
        Some idx \<Rightarrow>
          let n = length (pworkers p);
              ws = (if n > 1 \<and> idx \<noteq> n - 1 then (pworkers p)[n - 1 := pworkers p ! idx, idx := pworkers p ! (n - 1)] else pworkers p)
          in (ws ! idx, False, p\<lparr>pworkers := ws\<rparr>)
      | None \<Rightarrow>
          (case NewClientWorker st (cleanup p) of (w, p1) \<Rightarrow>
             (w, True, p1\<lparr>pworkers := pworkers p1 @ [w], cleanupTask := True\<rparr>)))"

definition PickAvailable :: "ClientStrategy \<Rightarrow> 'l client \<Rightarrow> nat \<times> 'l client" where
  "PickAvailable st p = (case pickInternal st p of (w, start, p1) \<Rightarrow> (w, p1))"

text \<open>\<^verbatim>\<open>ClientManager.Dispatch\<close> tries sixteen times.\<close>

fun dispatch_loop :: "nat \<Rightarrow> ClientStrategy \<Rightarrow> nat \<times> nat \<Rightarrow> 'l client \<Rightarrow> go_error option \<times> 'l client" where
  "dispatch_loop 0 st link p = (Some (ErrNew ''unable to find an available mux client''), p)"
| "dispatch_loop (Suc i) st link p =
     (case PickAvailable st p of (w, p1) \<Rightarrow>
        case cw_Dispatch (cworkers p1 ! w) link (cworld p1) of
          (True, w1) \<Rightarrow> (None, p1\<lparr>cworld := w1\<rparr>)
        | (False, w1) \<Rightarrow> dispatch_loop i st link (p1\<lparr>cworld := w1\<rparr>))"

definition ClientManager_Dispatch :: "ClientStrategy \<Rightarrow> nat \<times> nat \<Rightarrow> 'l client \<Rightarrow> go_error option \<times> 'l client" where
  "ClientManager_Dispatch st link p = dispatch_loop 16 st link p"

section \<open>Sending\<close>

text \<open>
  \<open>first\<close> is the result of the timed read of the session's input: a multi-buffer, or the error of a
  reader without timeouts, of a timeout or of the reader itself.
\<close>

definition ErrNotTimeoutReader :: go_error where "ErrNotTimeoutReader = ErrNew ''not a TimeoutReader''"

definition writeFirstPayload :: "(MultiBuffer \<Rightarrow> 'w \<Rightarrow> 'w written) \<Rightarrow> go_error + MultiBuffer \<Rightarrow> Writer \<times> 'w \<Rightarrow> (Writer \<times> 'w) written" where
  "writeFirstPayload wm first s =
     (case first of
        Inr mb \<Rightarrow>
          (case Writer_WriteMultiBuffer wm mb s of
             None \<Rightarrow> None
           | Some (e, s') \<Rightarrow> if e = Some ErrNotTimeoutReader \<or> e = Some ErrReadTimeout then Writer_WriteMultiBuffer wm [] s' else Some (e, s'))
      | Inl e \<Rightarrow> if e = ErrNotTimeoutReader \<or> e = ErrReadTimeout then Writer_WriteMultiBuffer wm [] s else Some (Some e, s))"

definition fetchInput ::
  "'l links_api \<Rightarrow> nat \<Rightarrow> Destination \<Rightarrow> byte list \<Rightarrow> go_error + MultiBuffer \<Rightarrow> MultiBuffer list \<Rightarrow> 'l world \<Rightarrow> 'l world option" where
  "fetchInput api s target gid first input w0 =
     (let tt = (if DNetwork target = Network_UDP then TransferTypePacket else TransferTypeStream);
          w = upd_obj s (\<lambda>s. s\<lparr>s_transferType := tt\<rparr>) w0;
          writer = NewWriter (s_ID (objs w ! s)) target tt gid
      in case (case writeFirstPayload (lk_respond api) first (writer, links w) of
                 None \<Rightarrow> None
               | Some (Some e, wr, l) \<Rightarrow> Some (wr\<lparr>hasError := True\<rparr>, l)
               | Some (None, wr, l) \<Rightarrow>
                   (case Copy below_read (Writer_WriteMultiBuffer (lk_respond api)) (\<lambda>mb h. h) \<lparr>brReader = input, brBuffer = []\<rparr> (wr, l) () of
                      None \<Rightarrow> None
                    | Some (e, r, (wr', l'), h) \<Rightarrow> Some (if e \<noteq> None then wr'\<lparr>hasError := True\<rparr> else wr', l'))) of
           None \<Rightarrow> None
         | Some (wr, l) \<Rightarrow>
             (case Writer_Close (lk_respond api) wr l of
                None \<Rightarrow> None
              | Some l' \<Rightarrow> Session_Close api s (w\<lparr>links := l'\<rparr>)))"

section \<open>Receiving\<close>

text \<open>The handlers for kept and ended sessions and for keep-alive frames have the code of the server's.\<close>

definition client_handleStatueKeepAlive :: "FrameMetadata \<Rightarrow> BufferedReader \<Rightarrow> 'l world \<Rightarrow> 'l handled" where
  "client_handleStatueKeepAlive = handleStatusKeepAlive"

definition client_handleStatusNew :: "FrameMetadata \<Rightarrow> BufferedReader \<Rightarrow> 'l world \<Rightarrow> 'l handled" where
  "client_handleStatusNew meta r w =
     (if mask_Has (FOption meta) OptionData then map_option (\<lambda>(e, r'). (e, r', w)) (discard_stream r) else Some (None, r, w))"

definition client_handleStatusKeep :: "'l links_api \<Rightarrow> nat \<Rightarrow> FrameMetadata \<Rightarrow> BufferedReader \<Rightarrow> 'l world \<Rightarrow> 'l handled" where
  "client_handleStatusKeep = handleStatusKeep"

definition client_handleStatusEnd :: "'l links_api \<Rightarrow> nat \<Rightarrow> FrameMetadata \<Rightarrow> BufferedReader \<Rightarrow> 'l world \<Rightarrow> 'l handled" where
  "client_handleStatusEnd = handleStatusEnd"

definition client_frame :: "'l links_api \<Rightarrow> nat \<Rightarrow> FrameMetadata \<Rightarrow> BufferedReader \<Rightarrow> 'l world \<Rightarrow> 'l handled" where
  "client_frame api m meta r w =
     (if FStatus meta = SessionStatusKeepAlive then client_handleStatueKeepAlive meta r w
      else if FStatus meta = SessionStatusEnd then client_handleStatusEnd api m meta r w
      else if FStatus meta = SessionStatusNew then client_handleStatusNew meta r w
      else if FStatus meta = SessionStatusKeep then client_handleStatusKeep api m meta r w
      else Some (Some (ErrNew ''unknown status: ''), r, w))"

text \<open>The loop keeps one variable for the metadata of all frames.\<close>

partial_function (option) fetch_loop :: "'l links_api \<Rightarrow> nat \<Rightarrow> FrameMetadata \<Rightarrow> BufferedReader \<Rightarrow> 'l world \<Rightarrow> (go_error \<times> BufferedReader \<times> 'l world) option" where
  "fetch_loop api m meta r w =
     Option.bind (br_Unmarshal meta r) (\<lambda>(res, r1).
       case res of
         Inl e \<Rightarrow> Some (e, r1, w)
       | Inr meta' \<Rightarrow> Option.bind (client_frame api m meta' r1 w) (\<lambda>(e, r2, w').
           case e of Some err \<Rightarrow> Some (err, r2, w') | None \<Rightarrow> fetch_loop api m meta' r2 w'))"

definition fetchOutput :: "'l links_api \<Rightarrow> ClientWorker \<Rightarrow> MultiBuffer list \<Rightarrow> 'l world \<Rightarrow> (go_error \<times> ClientWorker \<times> 'l world) option" where
  "fetchOutput api c input w =
     map_option (\<lambda>(e, r, w'). (e, c\<lparr>cw_done := True\<rparr>, w'))
       (fetch_loop api (cw_manager c) zero_FrameMetadata \<lparr>brReader = input, brBuffer = []\<rparr> w)"

section \<open>Choosing a worker\<close>

abbreviation full :: "'l client \<Rightarrow> nat \<Rightarrow> bool" where
  "full p w \<equiv> IsFull (cworkers p ! w) (cworld p)"

lemma find_available_Some:
  "find_available k ws p = Some idx \<Longrightarrow> k \<le> idx \<and> idx - k < length ws \<and> \<not> full p (ws ! (idx - k)) \<and> (\<forall>j < idx - k. full p (ws ! j))"
proof (induction ws arbitrary: k)
  case (Cons w ws)
  show ?case
  proof (cases "full p w")
    case True
    then have "find_available (Suc k) ws p = Some idx" using Cons.prems by simp
    note i = Cons.IH [OF this]
    then have "idx - k = Suc (idx - Suc k)" by (simp add: Suc_diff_Suc)
    then show ?thesis using i True by (auto simp: less_Suc_eq_0_disj)
  qed (use Cons.prems in auto)
qed simp

lemma find_available_ex: "w \<in> set ws \<Longrightarrow> \<not> full p w \<Longrightarrow> \<exists>idx. find_available k ws p = Some idx"
  by (induction ws arbitrary: k) auto

lemma findAvailable_Some:
  "findAvailable p = Some idx \<Longrightarrow> idx < length (pworkers p) \<and> \<not> full p (pworkers p ! idx) \<and> (\<forall>j < idx. full p (pworkers p ! j))"
  using find_available_Some [of 0] by (auto simp: findAvailable_def)

definition client_ok :: "'l client \<Rightarrow> bool" where
  "client_ok p \<longleftrightarrow> (\<forall>w\<in>set (pworkers p). w < length (cworkers p) \<and> cw_manager (cworkers p ! w) < length (mgrs (cworld p)) \<and>
     \<not> sm_closed (mgrs (cworld p) ! cw_manager (cworkers p ! w)))"

text \<open>A worker that is not full takes the session.\<close>

definition takes_link :: "nat \<times> nat \<Rightarrow> ClientWorker \<Rightarrow> 'l world \<Rightarrow> 'l world \<Rightarrow> bool" where
  "takes_link link c w w' \<longleftrightarrow> \<not> IsFull c w \<and> (\<exists>s. objs w' = objs w @ [s] \<and> s_input s = fst link \<and> s_output s = snd link \<and>
     s_parent s = Some (cw_manager c) \<and> \<not> s_closed s \<and> sm_Get (cw_manager c) (s_ID s) w' = Some (length (objs w)))"

lemma cw_Dispatch_free:
  assumes "\<not> IsFull c w" "cw_manager c < length (mgrs w)" "\<not> sm_closed (mgrs w ! cw_manager c)"
  obtains w' where "cw_Dispatch c link w = (True, w')" "takes_link link c w w'"
proof -
  have "\<not> cw_Closed c" using assms(1) by (simp add: IsFull_def)
  then show thesis using that assms
    by (simp add: cw_Dispatch_def takes_link_def Allocate_def Let_def sm_Get_def sm_put_def update_conv')
qed

lemma cw_Dispatch_full: "IsFull c w \<Longrightarrow> cw_Dispatch c link w = (False, w)"
  by (simp add: cw_Dispatch_def)

lemma Pick_some:
  assumes "findAvailable p = Some idx"
  defines "n \<equiv> length (pworkers p)"
  defines "ws \<equiv> if n > 1 \<and> idx \<noteq> n - 1 then (pworkers p)[n - 1 := pworkers p ! idx, idx := pworkers p ! (n - 1)] else pworkers p"
  shows "PickAvailable st p = (last (pworkers p), p\<lparr>pworkers := ws\<rparr>)" "set ws = set (pworkers p)" "last ws = pworkers p ! idx" "length ws = n"
proof -
  have i: "idx < n" using findAvailable_Some [OF assms(1)] by (simp add: n_def)
  then have ne: "pworkers p \<noteq> []" by (auto simp: n_def)
  have l: "last (pworkers p) = pworkers p ! (n - 1)" using ne by (simp add: last_conv_nth n_def)
  have "n > 1 \<or> n = 1 \<and> idx = 0" using i by auto
  then have w: "ws ! idx = pworkers p ! (n - 1)" "last ws = pworkers p ! idx" "length ws = n"
    using i ne by (auto simp: ws_def n_def last_conv_nth nth_list_update)
  then show "PickAvailable st p = (last (pworkers p), p\<lparr>pworkers := ws\<rparr>)" "last ws = pworkers p ! idx" "length ws = n"
    using assms(1) l by (auto simp: PickAvailable_def pickInternal_def Let_def n_def ws_def)
  show "set ws = set (pworkers p)"
  proof (cases "n > 1 \<and> idx \<noteq> n - 1")
    case True
    then show ?thesis using i unfolding ws_def n_def by (simp add: set_swap)
  qed (simp add: ws_def)
qed

text \<open>
  C29: \<^verbatim>\<open>pickInternal\<close> swaps the worker with room to the end of its list and then returns what stands
  at the old position: the worker that was last, which may be full, although a worker with room
  was found.
\<close>

theorem picker_returns_last:
  assumes "findAvailable p = Some idx" "full p (last (pworkers p))"
  shows "\<exists>p'. PickAvailable st p = (last (pworkers p), p') \<and> \<not> full p (pworkers p ! idx) \<and>
    cw_Dispatch (cworkers p' ! last (pworkers p)) link (cworld p') = (False, cworld p')"
  using Pick_some(1) [OF assms(1)] findAvailable_Some [OF assms(1)] assms(2) cw_Dispatch_full by (metis client.select_convs(1,2) client.surjective client.update_convs(3))


definition sample_client :: "unit client" where
  "sample_client = (let st = \<lparr>MaxConcurrency = 1, MaxConnection = 0\<rparr>;
     p = snd (NewClientWorker st (snd (NewClientWorker st \<lparr>cworld = \<lparr>objs = [], mgrs = [], xudps = [], xmap = [], clock = 0, links = (), spawned = []\<rparr>,
       cworkers = [], pworkers = [0, 1], cleanupTask = False\<rparr>)))
   in p\<lparr>cworld := snd (cw_Dispatch (cworkers p ! 1) (5, 6) (cworld p))\<rparr>)"

lemmas sample_client_defs = sample_client_def NewClientWorker_def cw_Dispatch_def IsFull_def IsClosing_def cw_Closed_def sm_Size_def sm_Count_def
  NewSessionManager_def Allocate_def sm_put_def

theorem picker_returns_last_witness:
  "\<exists>p'. PickAvailable \<lparr>MaxConcurrency = 1, MaxConnection = 0\<rparr> sample_client = (1, p') \<and> \<not> full sample_client 0 \<and> cw_Dispatch (cworkers p' ! 1) (7, 8) (cworld p') = (False, cworld p')"
proof -
  have "findAvailable sample_client = Some 0" "full sample_client (last (pworkers sample_client))" "pworkers sample_client = [0, 1]"
    by (simp_all add: sample_client_defs findAvailable_def Let_def)
  then show ?thesis using picker_returns_last [of sample_client 0 "\<lparr>MaxConcurrency = 1, MaxConnection = 0\<rparr>" "(7, 8)"] by simp
qed


end
