(* ===== verification/Strmatcher.thy ===== *)
theory Strmatcher
  imports Go_Std "HOL-Library.Sublist"
begin

text \<open>
  Domain name matching: \<^verbatim>\<open>common/strmatcher/strmatcher.go\<close>, \<^verbatim>\<open>matchers.go\<close>, \<^verbatim>\<open>full_matcher.go\<close> and
  \<^verbatim>\<open>domain_matcher.go\<close>. A single matcher is a predicate on strings; a group keeps many of them
  and returns the numbers of those that match, by a hash map for the full names and a trie over
  the labels of a domain, last label first, for the domain rules. The trie search walks the
  string by index; it is shown to be the walk over the list of labels, and the answer of a group
  to be the answer of its matchers tried one by one.

  The regular expressions of the Go library are the type parameter \<open>'re\<close>, with \<open>compile\<close> and
  \<open>MatchString\<close> as arguments.
\<close>

section \<open>String functions of the Go library\<close>

abbreviation dot :: byte where "dot \<equiv> 46"

definition HasPrefix :: "byte list \<Rightarrow> byte list \<Rightarrow> bool" where
  "HasPrefix s p \<longleftrightarrow> take (length p) s = p"

definition HasSuffix :: "byte list \<Rightarrow> byte list \<Rightarrow> bool" where
  "HasSuffix s p \<longleftrightarrow> length p \<le> length s \<and> drop (length s - length p) s = p"

fun Contains :: "byte list \<Rightarrow> byte list \<Rightarrow> bool" where
  "Contains [] p \<longleftrightarrow> p = []"
| "Contains (c # s) p \<longleftrightarrow> HasPrefix (c # s) p \<or> Contains s p"

lemma HasPrefix_prefix: "HasPrefix s p \<longleftrightarrow> prefix p s"
  by (metis HasPrefix_def append_eq_conv_conj prefix_def)

lemma HasSuffix_suffix: "HasSuffix s p \<longleftrightarrow> suffix p s"
  unfolding HasSuffix_def suffix_def
  by (metis append_eq_conv_conj append_take_drop_id diff_add_inverse2 le_add2 length_append)

lemma Contains_sublist: "Contains s p \<longleftrightarrow> sublist p s"
  by (induction s p rule: Contains.induct) (auto simp: sublist_Cons_right HasPrefix_prefix)

section \<open>Matchers\<close>

text \<open>\<^verbatim>\<open>Type\<close> is a byte with four named values.\<close>

datatype MatcherType = MFull | MSubstr | MDomain | MRegex | MUnknown byte

datatype 're Matcher =
    fullMatcher "byte list"
  | substrMatcher "byte list"
  | domainMatcher "byte list"
  | regexMatcher 're

definition fullMatcher_Match :: "byte list \<Rightarrow> byte list \<Rightarrow> bool" where
  "fullMatcher_Match m s \<longleftrightarrow> m = s"

definition substrMatcher_Match :: "byte list \<Rightarrow> byte list \<Rightarrow> bool" where
  "substrMatcher_Match m s = Contains s m"

definition domainMatcher_Match :: "byte list \<Rightarrow> byte list \<Rightarrow> bool" where
  "domainMatcher_Match pat s \<longleftrightarrow>
     HasSuffix s pat \<and> (length s = length pat \<or> s ! (length s - length pat - 1) = dot)"

fun Matcher_Match :: "('re \<Rightarrow> byte list \<Rightarrow> bool) \<Rightarrow> 're Matcher \<Rightarrow> byte list \<Rightarrow> bool" where
  "Matcher_Match MatchString (fullMatcher m) s = fullMatcher_Match m s"
| "Matcher_Match MatchString (substrMatcher m) s = substrMatcher_Match m s"
| "Matcher_Match MatchString (domainMatcher m) s = domainMatcher_Match m s"
| "Matcher_Match MatchString (regexMatcher r) s = MatchString r s"

fun Matcher_String :: "('re \<Rightarrow> byte list) \<Rightarrow> 're Matcher \<Rightarrow> byte list" where
  "Matcher_String show_re (fullMatcher m) = bytes_of ''full:'' @ m"
| "Matcher_String show_re (substrMatcher m) = bytes_of ''keyword:'' @ m"
| "Matcher_String show_re (domainMatcher m) = bytes_of ''domain:'' @ m"
| "Matcher_String show_re (regexMatcher r) = bytes_of ''regexp:'' @ show_re r"

text \<open>An unknown type panics.\<close>

fun Type_New :: "(byte list \<Rightarrow> 'e + 're) \<Rightarrow> MatcherType \<Rightarrow> byte list \<Rightarrow> ('e + 're Matcher) option" where
  "Type_New compile MFull pat = Some (Inr (fullMatcher pat))"
| "Type_New compile MSubstr pat = Some (Inr (substrMatcher pat))"
| "Type_New compile MDomain pat = Some (Inr (domainMatcher pat))"
| "Type_New compile MRegex pat = Some (case compile pat of Inl e \<Rightarrow> Inl e | Inr r \<Rightarrow> Inr (regexMatcher r))"
| "Type_New compile (MUnknown _) pat = None"

lemma domainMatcher_iff:
  "domainMatcher_Match p s \<longleftrightarrow> s = p \<or> suffix (dot # p) s"
proof
  assume m: "domainMatcher_Match p s"
  then obtain a where a: "s = a @ p" by (auto simp: domainMatcher_Match_def HasSuffix_suffix suffix_def)
  show "s = p \<or> suffix (dot # p) s"
  proof (cases a rule: rev_cases)
    case (snoc b c)
    with m a have "c = dot" by (simp add: domainMatcher_Match_def nth_append)
    with snoc a show ?thesis by (simp add: suffix_def)
  qed (simp add: a)
next
  assume "s = p \<or> suffix (dot # p) s"
  then show "domainMatcher_Match p s"
    by (auto simp: domainMatcher_Match_def HasSuffix_suffix suffix_def nth_append)
qed

section \<open>Groups of full names\<close>

text \<open>The map is nil until the first \<^verbatim>\<open>Add\<close>.\<close>

type_synonym FullMatcherGroup = "(byte list \<times> u32 list) list option"

definition FullMatcherGroup_Add :: "byte list \<Rightarrow> u32 \<Rightarrow> FullMatcherGroup \<Rightarrow> FullMatcherGroup" where
  "FullMatcherGroup_Add d v g =
     (let m = (case g of None \<Rightarrow> [] | Some m \<Rightarrow> m);
          old = (case map_of m d of None \<Rightarrow> [] | Some vs \<Rightarrow> vs)
      in Some (AList.update d (old @ [v]) m))"

definition FullMatcherGroup_Match :: "FullMatcherGroup \<Rightarrow> byte list \<Rightarrow> u32 list" where
  "FullMatcherGroup_Match g s =
     (case g of None \<Rightarrow> [] | Some m \<Rightarrow> (case map_of m s of None \<Rightarrow> [] | Some vs \<Rightarrow> vs))"

lemma FullMatcherGroup_Match_Add [simp]:
  "FullMatcherGroup_Match (FullMatcherGroup_Add d v g) s =
   FullMatcherGroup_Match g s @ (if s = d then [v] else [])"
  by (auto simp: FullMatcherGroup_Match_def FullMatcherGroup_Add_def Let_def update_conv' split: option.splits)

section \<open>Groups of domains\<close>

text \<open>\<^verbatim>\<open>strings.Split(domain, ".")\<close>.\<close>

fun breakDomain :: "byte list \<Rightarrow> byte list list" where
  "breakDomain [] = [[]]"
| "breakDomain (c # s) =
     (if c = dot then [] # breakDomain s
      else case breakDomain s of [] \<Rightarrow> [[c]] | l # ls \<Rightarrow> (c # l) # ls)"

text \<open>A node of the trie. The map of children is nil until its first entry is stored, so an empty
  association list stands for nil.\<close>

datatype node = Node (node_values: "u32 list") (node_sub: "(byte list \<times> node) list")

definition new_node :: node where
  "new_node = Node [] []"

text \<open>The loop of \<^verbatim>\<open>Add\<close> descends along the labels, last one first, creating the missing nodes.\<close>

fun node_Add :: "byte list list \<Rightarrow> u32 \<Rightarrow> node \<Rightarrow> node" where
  "node_Add [] v (Node vs sub) = Node (vs @ [v]) sub"
| "node_Add (part # parts) v (Node vs sub) =
     Node vs (AList.update part
       (node_Add parts v (case map_of sub part of None \<Rightarrow> new_node | Some next \<Rightarrow> next)) sub)"

type_synonym DomainMatcherGroup = "node option"

definition DomainMatcherGroup_Add :: "byte list \<Rightarrow> u32 \<Rightarrow> DomainMatcherGroup \<Rightarrow> DomainMatcherGroup" where
  "DomainMatcherGroup_Add d v g =
     Some (node_Add (rev (breakDomain d)) v (case g of None \<Rightarrow> new_node | Some r \<Rightarrow> r))"

text \<open>The index of the last dot before \<open>idx\<close>, or -1.\<close>

primrec nextPart :: "byte list \<Rightarrow> nat \<Rightarrow> int" where
  "nextPart d 0 = -1"
| "nextPart d (Suc i) = (if d ! i = dot then int i else nextPart d i)"

lemma nextPart_less: "nextPart d i < int i"
  by (induction i) auto

lemma nextPart_ge: "-1 \<le> nextPart d i"
  by (induction i) auto

function DomainMatcherGroup_loop :: "byte list \<Rightarrow> int \<Rightarrow> node \<Rightarrow> u32 list list \<Rightarrow> u32 list list" where
  "DomainMatcherGroup_loop d idx cur matches =
     (if idx < 0 \<or> node_sub cur = [] then matches
      else let nidx = nextPart d (nat idx);
               part = range_of (nat (nidx + 1)) (nat idx) d
           in case map_of (node_sub cur) part of
                None \<Rightarrow> matches
              | Some next \<Rightarrow> DomainMatcherGroup_loop d nidx next
                  (if node_values next \<noteq> [] then matches @ [node_values next] else matches))"
  by auto
termination
proof (relation "measure (\<lambda>(d, idx, _). nat (idx + 1))", goal_cases)
  case (2 d idx cur matches nidx part n)
  then show ?case using nextPart_less [of d "nat idx"] nextPart_ge [of d "nat idx"] by auto
qed simp

declare DomainMatcherGroup_loop.simps [simp del]

text \<open>Deeper nodes first.\<close>

definition DomainMatcherGroup_Match :: "DomainMatcherGroup \<Rightarrow> byte list \<Rightarrow> u32 list" where
  "DomainMatcherGroup_Match g d =
     (if d = [] then []
      else case g of None \<Rightarrow> []
           | Some root \<Rightarrow> concat (rev (DomainMatcherGroup_loop d (int (length d)) root [])))"

section \<open>Groups of matchers\<close>

record 're MatcherGroup =
  count :: u32
  group_full :: FullMatcherGroup
  group_domain :: DomainMatcherGroup
  otherMatchers :: "('re Matcher \<times> u32) list"

definition new_MatcherGroup :: "'re MatcherGroup" where
  "new_MatcherGroup = \<lparr>count = 0, group_full = None, group_domain = None, otherMatchers = []\<rparr>"

definition MatcherGroup_Add :: "'re Matcher \<Rightarrow> 're MatcherGroup \<Rightarrow> u32 \<times> 're MatcherGroup" where
  "MatcherGroup_Add m g =
     (let c = count g + 1; g = g\<lparr>count := c\<rparr>
      in (c, case m of
               fullMatcher d \<Rightarrow> g\<lparr>group_full := FullMatcherGroup_Add d c (group_full g)\<rparr>
             | domainMatcher d \<Rightarrow> g\<lparr>group_domain := DomainMatcherGroup_Add d c (group_domain g)\<rparr>
             | _ \<Rightarrow> g\<lparr>otherMatchers := otherMatchers g @ [(m, c)]\<rparr>))"

definition MatcherGroup_Match :: "('re \<Rightarrow> byte list \<Rightarrow> bool) \<Rightarrow> 're MatcherGroup \<Rightarrow> byte list \<Rightarrow> u32 list" where
  "MatcherGroup_Match MatchString g s =
     FullMatcherGroup_Match (group_full g) s @
     DomainMatcherGroup_Match (group_domain g) s @
     map snd (filter (\<lambda>e. Matcher_Match MatchString (fst e) s) (otherMatchers g))"

definition MatcherGroup_Size :: "'re MatcherGroup \<Rightarrow> u32" where
  "MatcherGroup_Size g = count g"

definition MatcherGroup_of :: "'re Matcher list \<Rightarrow> 're MatcherGroup" where
  "MatcherGroup_of ms = fold (\<lambda>m g. snd (MatcherGroup_Add m g)) ms new_MatcherGroup"

section \<open>Labels\<close>

lemma breakDomain_not_Nil [simp]: "breakDomain s \<noteq> []"
  by (cases s) (auto split: list.splits)

lemma breakDomain_no_dot: "dot \<notin> set s \<Longrightarrow> breakDomain s = [s]"
  by (induction s) auto

lemma breakDomain_append: "breakDomain (a @ dot # b) = breakDomain a @ breakDomain b"
  by (induction a) (auto split: list.splits)

text \<open>\<^verbatim>\<open>strings.Join(parts, ".")\<close>, the inverse of the split.\<close>

fun join_dots :: "byte list list \<Rightarrow> byte list" where
  "join_dots [] = []"
| "join_dots [l] = l"
| "join_dots (l # ls) = l @ dot # join_dots ls"

lemma join_dots_Cons: "ls \<noteq> [] \<Longrightarrow> join_dots (l # ls) = l @ dot # join_dots ls"
  by (cases ls) auto

lemma join_breakDomain: "join_dots (breakDomain s) = s"
proof (induction s)
  case (Cons c s)
  obtain l ls where b: "breakDomain s = l # ls" by (cases "breakDomain s") auto
  show ?case
  proof (cases "c = dot")
    case True
    with b Cons show ?thesis by (simp add: join_dots_Cons)
  next
    case False
    with b Cons show ?thesis by (cases ls) auto
  qed
qed simp

lemma join_dots_append: "ls \<noteq> [] \<Longrightarrow> ks \<noteq> [] \<Longrightarrow> join_dots (ls @ ks) = join_dots ls @ dot # join_dots ks"
  by (induction ls rule: join_dots.induct) (auto simp: join_dots_Cons)

lemma breakDomain_inject: "breakDomain a = breakDomain b \<longleftrightarrow> a = b"
  by (metis join_breakDomain)

text \<open>A domain rule covers a name exactly when its labels are the last labels of the name.\<close>

lemma breakDomain_suffix_iff:
  "suffix (breakDomain p) (breakDomain s) \<longleftrightarrow> s = p \<or> suffix (dot # p) s"
proof
  assume "suffix (breakDomain p) (breakDomain s)"
  then obtain ls where ls: "breakDomain s = ls @ breakDomain p" by (auto simp: suffix_def)
  show "s = p \<or> suffix (dot # p) s"
  proof (cases "ls = []")
    case True
    with ls show ?thesis by (simp add: breakDomain_inject)
  next
    case False
    with ls have "s = join_dots ls @ dot # p"
      by (metis join_breakDomain join_dots_append breakDomain_not_Nil)
    then show ?thesis by (auto simp: suffix_def)
  qed
next
  assume "s = p \<or> suffix (dot # p) s"
  then show "suffix (breakDomain p) (breakDomain s)"
    by (auto simp: suffix_def breakDomain_append)
qed

section \<open>The trie\<close>

text \<open>The values stored at a path of labels.\<close>

fun node_at :: "byte list list \<Rightarrow> node \<Rightarrow> u32 list" where
  "node_at [] n = node_values n"
| "node_at (p # ps) n = (case map_of (node_sub n) p of None \<Rightarrow> [] | Some next \<Rightarrow> node_at ps next)"

lemma node_at_new [simp]: "node_at ps new_node = []"
  by (cases ps) (auto simp: new_node_def)

lemma node_at_Add: "node_at qs (node_Add ps v n) = node_at qs n @ (if qs = ps then [v] else [])"
proof (induction ps v n arbitrary: qs rule: node_Add.induct)
  case (1 v vs sub)
  show ?case by (cases qs) auto
next
  case (2 p ps v vs sub)
  show ?case
  proof (cases qs)
    case (Cons q qs')
    with "2.IH" [of qs'] show ?thesis
      by (auto simp: update_conv' split: option.splits)
  qed simp
qed

text \<open>The search over the list of labels.\<close>

fun walk :: "byte list list \<Rightarrow> node \<Rightarrow> u32 list list" where
  "walk [] n = []"
| "walk (p # ps) n = (case map_of (node_sub n) p of None \<Rightarrow> []
     | Some next \<Rightarrow> (if node_values next \<noteq> [] then [node_values next] else []) @ walk ps next)"

lemma concat_rev_walk:
  "concat (rev (walk ps n)) = concat (rev (map (\<lambda>k. node_at (take (Suc k) ps) n) [0..<length ps]))"
proof (induction ps n rule: walk.induct)
  case (2 p ps n)
  show ?case
  proof (cases "map_of (node_sub n) p")
    case None
    then show ?thesis by (simp del: upt_Suc)
  next
    case (Some nx)
    have "map (\<lambda>k. node_at (take (Suc k) (p # ps)) n) [0..<length (p # ps)]
        = node_values nx # map (\<lambda>k. node_at (take (Suc k) ps) nx) [0..<length ps]"
      using Some by (simp add: upt_conv_Cons map_Suc_upt [symmetric] del: upt_Suc)
    with 2 Some show ?thesis by simp
  qed
qed simp

text \<open>The index arithmetic of the search cuts off the last label.\<close>

lemma nextPart_Neg: "nextPart d i < 0 \<Longrightarrow> i \<le> length d \<Longrightarrow> dot \<notin> set (take i d)"
  by (induction i) (auto simp: take_Suc_conv_app_nth split: if_splits)

lemma nextPart_dot:
  "0 \<le> nextPart d i \<Longrightarrow> i \<le> length d \<Longrightarrow>
   d ! nat (nextPart d i) = dot \<and> dot \<notin> set (range_of (nat (nextPart d i) + 1) i d)"
proof (induction i)
  case (Suc i)
  show ?case
  proof (cases "d ! i = dot")
    case False
    with Suc have IH: "d ! nat (nextPart d i) = dot" "dot \<notin> set (range_of (nat (nextPart d i) + 1) i d)"
      by auto
    have lt: "nat (nextPart d i) < i" using nextPart_less [of d i] False Suc.prems by auto
    then have "range_of (nat (nextPart d i) + 1) (Suc i) d = range_of (nat (nextPart d i) + 1) i d @ range_of i (Suc i) d"
      by (simp add: range_of_append)
    moreover have "range_of i (Suc i) d = [d ! i]"
      using Suc.prems by (simp add: range_of_def Cons_nth_drop_Suc [symmetric])
    ultimately show ?thesis using IH False by simp
  qed simp
qed simp

lemma labels_step:
  assumes i: "i \<le> length d"
  shows "rev (breakDomain (take i d)) =
    range_of (nat (nextPart d i + 1)) i d #
      (if nextPart d i < 0 then [] else rev (breakDomain (take (nat (nextPart d i)) d)))"
proof (cases "nextPart d i < 0")
  case True
  then have "nextPart d i = -1" using nextPart_ge [of d i] by linarith
  with nextPart_Neg [OF True i] show ?thesis by (simp add: breakDomain_no_dot range_of_def)
next
  case False
  define k where "k = nat (nextPart d i)"
  have k: "nextPart d i = int k" "k < i" using False nextPart_less [of d i] by (auto simp: k_def)
  have "take i d = range_of 0 k d @ range_of k (Suc k) d @ range_of (Suc k) i d"
    using k by (simp add: range_of_append) (simp add: range_of_def)
  moreover have "range_of k (Suc k) d = [d ! k]"
    using k i by (simp add: range_of_def Cons_nth_drop_Suc [symmetric])
  ultimately have "take i d = take k d @ dot # range_of (Suc k) i d"
    using nextPart_dot [OF _ i] k by (simp add: range_of_def)
  moreover have "dot \<notin> set (range_of (Suc k) i d)" using nextPart_dot [OF _ i] k by simp
  ultimately show ?thesis using k by (simp add: breakDomain_append breakDomain_no_dot nat_add_distrib)
qed

lemma loop_walk:
  "idx \<le> int (length d) \<Longrightarrow> DomainMatcherGroup_loop d idx cur acc =
     acc @ (if idx < 0 then [] else walk (rev (breakDomain (take (nat idx) d))) cur)"
proof (induction d idx cur acc rule: DomainMatcherGroup_loop.induct)
  case (1 d idx cur acc)
  show ?case
  proof (cases "idx < 0 \<or> node_sub cur = []")
    case True
    then show ?thesis by (auto simp: DomainMatcherGroup_loop.simps [of d idx] labels_step nat_le_iff "1.prems" Let_def)
  next
    case False
    define n where "n = nextPart d (nat idx)"
    define part where "part = range_of (nat (n + 1)) (nat idx) d"
    have le: "n \<le> int (length d)" using nextPart_less [of d "nat idx"] "1.prems" False by (auto simp: n_def)
    have step: "rev (breakDomain (take (nat idx) d)) = part # (if n < 0 then [] else rev (breakDomain (take (nat n) d)))"
      using labels_step [of "nat idx" d] "1.prems" by (simp add: n_def part_def nat_le_iff)
    show ?thesis
    proof (cases "map_of (node_sub cur) part")
      case None
      with False step show ?thesis
        by (simp add: DomainMatcherGroup_loop.simps [of d idx] flip: n_def part_def)
    next
      case (Some nx)
      with "1.IH" [OF False n_def part_def Some le] False step show ?thesis
        by (auto simp: DomainMatcherGroup_loop.simps [of d idx] simp flip: n_def part_def)
    qed
  qed
qed

lemma DomainMatcherGroup_Match_at:
  assumes "d \<noteq> []"
  shows "DomainMatcherGroup_Match (Some root) d =
    concat (rev (map (\<lambda>k. node_at (take (Suc k) (rev (breakDomain d))) root) [0..<length (breakDomain d)]))"
  using assms concat_rev_walk [of "rev (breakDomain d)" root]
  by (simp add: DomainMatcherGroup_Match_def loop_walk)

section \<open>A group answers like its matchers one by one\<close>

text \<open>
  The reference: every rule is tried by itself. The full rules come first, then the domain rules
  from the most specific domain to the least, then the rest, each in the order of insertion. The
  domains that cover a name are its suffixes at label boundaries.
\<close>

definition parent_domains :: "byte list \<Rightarrow> byte list list" where
  "parent_domains s = map (\<lambda>k. join_dots (drop k (breakDomain s))) [0..<length (breakDomain s)]"

definition numbered :: "'re Matcher list \<Rightarrow> (u32 \<times> 're Matcher) list" where
  "numbered ms = zip (map (\<lambda>i. of_nat (Suc i)) [0..<length ms]) ms"

fun is_other :: "'re Matcher \<Rightarrow> bool" where
  "is_other (fullMatcher _) = False"
| "is_other (domainMatcher _) = False"
| "is_other _ = True"

definition ids :: "('re Matcher \<Rightarrow> bool) \<Rightarrow> 're Matcher list \<Rightarrow> u32 list" where
  "ids P ms = map fst (filter (P \<circ> snd) (numbered ms))"

definition group_spec :: "('re \<Rightarrow> byte list \<Rightarrow> bool) \<Rightarrow> 're Matcher list \<Rightarrow> byte list \<Rightarrow> u32 list" where
  "group_spec MatchString ms s =
     ids (\<lambda>m. m = fullMatcher s) ms @
     concat (map (\<lambda>d. ids (\<lambda>m. m = domainMatcher d) ms) (parent_domains s)) @
     ids (\<lambda>m. is_other m \<and> Matcher_Match MatchString m s) ms"

lemma numbered_Nil [simp]: "numbered [] = []"
  by (simp add: numbered_def)

lemma numbered_snoc [simp]: "numbered (ms @ [m]) = numbered ms @ [(of_nat (Suc (length ms)), m)]"
  by (simp add: numbered_def)

lemma ids_Nil [simp]: "ids P [] = []"
  by (simp add: ids_def)

lemma ids_snoc [simp]:
  "ids P (ms @ [m]) = ids P ms @ (if P m then [of_nat (Suc (length ms))] else [])"
  by (simp add: ids_def)

lemma MatcherGroup_of_snoc:
  "MatcherGroup_of (ms @ [m]) = snd (MatcherGroup_Add m (MatcherGroup_of ms))"
  by (simp add: MatcherGroup_of_def)

lemma count_MatcherGroup_of [simp]: "count (MatcherGroup_of ms) = of_nat (length ms)"
proof (induction ms rule: rev_induct)
  case Nil
  show ?case by (simp add: MatcherGroup_of_def new_MatcherGroup_def)
next
  case (snoc m ms)
  then show ?case
    by (simp add: MatcherGroup_of_snoc MatcherGroup_Add_def Let_def split: Matcher.split)
qed

lemma group_full_of:
  "FullMatcherGroup_Match (group_full (MatcherGroup_of ms)) s = ids (\<lambda>m. m = fullMatcher s) ms"
proof (induction ms rule: rev_induct)
  case Nil
  show ?case by (simp add: MatcherGroup_of_def new_MatcherGroup_def FullMatcherGroup_Match_def)
next
  case (snoc m ms)
  then show ?case
    by (auto simp: MatcherGroup_of_snoc MatcherGroup_Add_def Let_def add.commute split: Matcher.split)
qed

lemma group_other_of:
  "map snd (filter (\<lambda>e. Matcher_Match ms' (fst e) s) (otherMatchers (MatcherGroup_of ms)))
   = ids (\<lambda>m. is_other m \<and> Matcher_Match ms' m s) ms"
proof (induction ms rule: rev_induct)
  case Nil
  show ?case by (simp add: MatcherGroup_of_def new_MatcherGroup_def)
next
  case (snoc m ms)
  then show ?case
    by (auto simp: MatcherGroup_of_snoc MatcherGroup_Add_def Let_def add.commute split: Matcher.split)
qed

text \<open>The values at a path are the numbers of the rules with these labels.\<close>

definition root_of :: "DomainMatcherGroup \<Rightarrow> node" where
  "root_of g = (case g of None \<Rightarrow> new_node | Some r \<Rightarrow> r)"

lemma node_at_MatcherGroup_of:
  "node_at ps (root_of (group_domain (MatcherGroup_of ms))) =
   ids (\<lambda>m. \<exists>d. m = domainMatcher d \<and> rev (breakDomain d) = ps) ms"
proof (induction ms rule: rev_induct)
  case Nil
  show ?case by (simp add: MatcherGroup_of_def new_MatcherGroup_def root_of_def)
next
  case (snoc m ms)
  then show ?case
    by (auto simp: MatcherGroup_of_snoc MatcherGroup_Add_def Let_def add.commute DomainMatcherGroup_Add_def
        root_of_def [of "Some _"] node_at_Add simp flip: root_of_def split: Matcher.split)
qed

lemma DomainMatcherGroup_Match_root:
  "d \<noteq> [] \<Longrightarrow> DomainMatcherGroup_Match g d =
    concat (rev (map (\<lambda>k. node_at (take (Suc k) (rev (breakDomain d))) (root_of g)) [0..<length (breakDomain d)]))"
  by (cases g) (simp_all add: root_of_def DomainMatcherGroup_Match_at, simp add: DomainMatcherGroup_Match_def)

lemma breakDomain_labels: "l \<in> set (breakDomain s) \<Longrightarrow> dot \<notin> set l"
  by (induction s arbitrary: l) (auto split: list.splits if_splits)

lemma breakDomain_join: "ls \<noteq> [] \<Longrightarrow> \<forall>l\<in>set ls. dot \<notin> set l \<Longrightarrow> breakDomain (join_dots ls) = ls"
  by (induction ls rule: join_dots.induct) (auto simp: breakDomain_no_dot breakDomain_append)

lemma breakDomain_join_drop:
  "k < length (breakDomain s) \<Longrightarrow> breakDomain (join_dots (drop k (breakDomain s))) = drop k (breakDomain s)"
  by (rule breakDomain_join) (auto dest: in_set_dropD breakDomain_labels)

lemma group_domain_of:
  assumes "s \<noteq> []"
  shows "DomainMatcherGroup_Match (group_domain (MatcherGroup_of ms)) s =
    concat (map (\<lambda>d. ids (\<lambda>m. m = domainMatcher d) ms) (parent_domains s))"
proof -
  let ?ls = "breakDomain s" and ?n = "length (breakDomain s)"
  have path: "(\<exists>d. m = domainMatcher d \<and> breakDomain d = drop k ?ls)
      \<longleftrightarrow> m = domainMatcher (join_dots (drop k ?ls))" if "k < ?n" for m :: "'a Matcher" and k
    using breakDomain_join_drop [OF that] by (metis join_breakDomain)
  have "rev (map (\<lambda>k. node_at (take (Suc k) (rev ?ls)) (root_of (group_domain (MatcherGroup_of ms)))) [0..<?n])
      = map (\<lambda>d. ids (\<lambda>m. m = domainMatcher d) ms) (parent_domains s)"
    by (rule nth_equalityI)
      (auto simp: parent_domains_def rev_nth take_rev node_at_MatcherGroup_of path Suc_diff_Suc)
  then show ?thesis by (simp add: DomainMatcherGroup_Match_root [OF assms])
qed

lemma set_ids: "set (ids P ms) = {of_nat (Suc i) | i. i < length ms \<and> P (ms ! i)}"
proof (induction ms rule: rev_induct)
  case (snoc m ms)
  have split: "i < length (ms @ [m]) \<and> P ((ms @ [m]) ! i) \<longleftrightarrow> i < length ms \<and> P (ms ! i) \<or> i = length ms \<and> P m" for i
    by (auto simp: nth_append less_Suc_eq)
  show ?case unfolding ids_snoc set_append snoc.IH split by (cases "P m") (simp only: if_True if_False list.set, blast)+
qed simp

lemma ids_or: "set (ids (\<lambda>m. P m \<or> Q m) ms) = set (ids P ms) \<union> set (ids Q ms)"
  by (auto simp: ids_def)

lemma ids_bex: "set (ids (\<lambda>m. \<exists>d\<in>A. P d m) ms) = (\<Union>d\<in>A. set (ids (P d) ms))"
  by (auto simp: ids_def)

lemma set_parent_domains: "d \<in> set (parent_domains s) \<longleftrightarrow> domainMatcher_Match d s"
proof -
  have "d \<in> set (parent_domains s) \<longleftrightarrow> suffix (breakDomain d) (breakDomain s)"
  proof
    assume "d \<in> set (parent_domains s)"
    then obtain k where "k < length (breakDomain s)" "d = join_dots (drop k (breakDomain s))"
      by (auto simp: parent_domains_def)
    then show "suffix (breakDomain d) (breakDomain s)" by (simp add: breakDomain_join_drop suffix_drop)
  next
    assume "suffix (breakDomain d) (breakDomain s)"
    then obtain ls where ls: "breakDomain s = ls @ breakDomain d" by (auto simp: suffix_def)
    then have "length ls < length (breakDomain s)" "d = join_dots (drop (length ls) (breakDomain s))"
      by (simp_all add: join_breakDomain)
    then show "d \<in> set (parent_domains s)" by (auto simp: parent_domains_def)
  qed
  then show ?thesis by (simp add: breakDomain_suffix_iff domainMatcher_iff)
qed

lemma set_group_spec:
  "set (group_spec MatchString ms s) =
   {of_nat (Suc i) | i. i < length ms \<and> Matcher_Match MatchString (ms ! i) s}"
proof -
  have "Matcher_Match MatchString m s \<longleftrightarrow>
      m = fullMatcher s \<or> (\<exists>d\<in>set (parent_domains s). m = domainMatcher d) \<or> is_other m \<and> Matcher_Match MatchString m s" for m
    by (cases m) (auto simp: fullMatcher_Match_def set_parent_domains)
  then have eq: "(\<lambda>m. Matcher_Match MatchString m s) =
      (\<lambda>m. m = fullMatcher s \<or> (\<exists>d\<in>set (parent_domains s). m = domainMatcher d) \<or> is_other m \<and> Matcher_Match MatchString m s)"
    by (rule ext)
  have "set (group_spec MatchString ms s) = set (ids (\<lambda>m. Matcher_Match MatchString m s) ms)"
    unfolding eq by (simp add: group_spec_def ids_or ids_bex)
  then show ?thesis by (simp add: set_ids)
qed

lemma MatcherGroup_Match_spec:
  "s \<noteq> [] \<Longrightarrow> MatcherGroup_Match MatchString (MatcherGroup_of ms) s = group_spec MatchString ms s"
  by (simp add: MatcherGroup_Match_def group_spec_def group_full_of group_domain_of group_other_of)

text \<open>C37: a group answers a non-empty name with the numbers of exactly those matchers that match
  it when they are tried one by one: the full names in the order they were added, then the
  domain rules, the most specific domain first, then the keyword and regular expression rules.\<close>

theorem MatcherGroup_Match_correct:
  assumes "s \<noteq> []"
  shows "MatcherGroup_Match MatchString (MatcherGroup_of ms) s = group_spec MatchString ms s \<and>
    set (MatcherGroup_Match MatchString (MatcherGroup_of ms) s) =
      {of_nat (Suc i) | i. i < length ms \<and> Matcher_Match MatchString (ms ! i) s}"
  using assms by (simp add: MatcherGroup_Match_spec set_group_spec)

theorem MatcherGroup_Match_correct_witness:
  "MatcherGroup_Match (\<lambda>(_ :: unit) _. False)
     (MatcherGroup_of [domainMatcher (bytes_of ''b.c''), substrMatcher (bytes_of ''d''),
        domainMatcher (bytes_of ''a.b.c''), fullMatcher (bytes_of ''x''), domainMatcher (bytes_of ''bb.c'')])
     (bytes_of ''d.a.b.c'') = [3, 1, 2]"
proof -
  have "MatcherGroup_Match (\<lambda>(_ :: unit) _. False)
     (MatcherGroup_of [domainMatcher (bytes_of ''b.c''), substrMatcher (bytes_of ''d''),
        domainMatcher (bytes_of ''a.b.c''), fullMatcher (bytes_of ''x''), domainMatcher (bytes_of ''bb.c'')])
     (bytes_of ''d.a.b.c'') = group_spec (\<lambda>(_ :: unit) _. False)
     [domainMatcher (bytes_of ''b.c''), substrMatcher (bytes_of ''d''),
        domainMatcher (bytes_of ''a.b.c''), fullMatcher (bytes_of ''x''), domainMatcher (bytes_of ''bb.c'')]
     (bytes_of ''d.a.b.c'')"
    by (rule MatcherGroup_Match_correct [THEN conjunct1]) (simp add: bytes_of_def)
  also have "\<dots> = [3, 1, 2]" by code_simp
  finally show ?thesis .
qed

text \<open>The empty name is left out for a reason: the trie search returns nothing for it, while the
  single matcher of the empty domain accepts it.\<close>

lemma empty_name_differs:
  "MatcherGroup_Match f (MatcherGroup_of [domainMatcher []]) [] = [] \<and> Matcher_Match f (domainMatcher []) []"
  by (simp add: MatcherGroup_Match_def MatcherGroup_of_def MatcherGroup_Add_def new_MatcherGroup_def Let_def
      FullMatcherGroup_Match_def DomainMatcherGroup_Match_def domainMatcher_iff)

end
