(* ===== verification/Ac_Automaton.thy ===== *)
theory Ac_Automaton
  imports Strmatcher
begin

text \<open>
  The keyword matcher, \<^verbatim>\<open>common/strmatcher/ac_automaton_matcher.go\<close>: an Aho-Corasick automaton
  over 53 character classes that reads patterns and names from their last byte to their first.
  \<^verbatim>\<open>Add\<close> grows a trie, \<^verbatim>\<open>Build\<close> replaces its missing edges, breadth first, by the edges of the
  longest proper suffix that is in the trie, and \<^verbatim>\<open>Match\<close> follows one edge per byte.

  Nodes are indices into the slices; the queue of \<^verbatim>\<open>Build\<close> holds the target nodes of the edges the
  code pushes. The loop of \<^verbatim>\<open>Build\<close> is a partial function and is shown to return. The theorems:
  the automaton accepts only names that contain a keyword, and all of them when no keyword lies
  inside another; when one does, it may be missed.
\<close>

section \<open>The data\<close>

definition validCharCount :: nat where
  "validCharCount = 53"

record MatchType =
  matchType :: MatcherType
  exist :: bool

record Edge =
  edgeType :: bool
  nextNode :: nat

record ACAutomaton =
  trie :: "Edge list list"
  fail :: "nat list"
  exists :: "MatchType list"
  acount :: nat

abbreviation (input) TrieEdge :: bool where "TrieEdge \<equiv> True"
abbreviation (input) FailEdge :: bool where "FailEdge \<equiv> False"

definition newNode :: "Edge list" where
  "newNode = replicate validCharCount \<lparr>edgeType = FailEdge, nextNode = 0\<rparr>"

text \<open>The entries of the table \<^verbatim>\<open>char2Index\<close>, a slice of length 127 (its last entry is that of the
  tilde) whose other elements are 0.\<close>

definition other_chars :: "nat list" where
  "other_chars = [33, 36, 38, 39, 40, 41, 42, 43, 44, 59, 61, 58, 37, 45, 46, 95, 126,
     48, 49, 50, 51, 52, 53, 54, 55, 56, 57]"

definition char_entries :: "(nat \<times> nat) list" where
  "char_entries = zip [65..<91] [0..<26] @ zip [97..<123] [0..<26] @ zip other_chars [26..<53]"

definition char2Index :: "nat list" where
  "char2Index = fold (\<lambda>(c, i) t. t[c := i]) char_entries (replicate 127 0)"

definition no_match :: MatchType where
  "no_match = \<lparr>matchType = MFull, exist = False\<rparr>"

definition NewACAutomaton :: ACAutomaton where
  "NewACAutomaton = \<lparr>trie = [newNode], fail = [0], exists = [no_match], acount = 0\<rparr>"

section \<open>Adding a pattern\<close>

definition set_edge :: "nat \<Rightarrow> nat \<Rightarrow> Edge \<Rightarrow> ACAutomaton \<Rightarrow> ACAutomaton" where
  "set_edge n c e ac = ac\<lparr>trie := (trie ac)[n := (trie ac ! n)[c := e]]\<rparr>"

text \<open>The step both parts of \<^verbatim>\<open>Add\<close> repeat: create the edge when it is missing, then follow it.\<close>

definition ac_child :: "nat \<Rightarrow> nat \<Rightarrow> ACAutomaton \<Rightarrow> nat \<times> ACAutomaton" where
  "ac_child n c ac =
     (let ac =
        (if nextNode (trie ac ! n ! c) = 0 then
           let ac = ac\<lparr>acount := acount ac + 1\<rparr>;
               ac = (if length (trie ac) < acount ac + 1
                     then ac\<lparr>trie := trie ac @ [newNode], fail := fail ac @ [0], exists := exists ac @ [no_match]\<rparr>
                     else ac)
           in set_edge n c \<lparr>edgeType = TrieEdge, nextNode = acount ac\<rparr> ac
         else ac)
      in (nextNode (trie ac ! n ! c), ac))"

text \<open>The bytes come last one first; a byte beyond the table is an index out of range.\<close>

fun ac_descend :: "byte list \<Rightarrow> nat \<Rightarrow> ACAutomaton \<Rightarrow> (nat \<times> ACAutomaton) option" where
  "ac_descend [] n ac = Some (n, ac)"
| "ac_descend (b # bs) n ac =
     (if unat b < length char2Index
      then case ac_child n (char2Index ! unat b) ac of (n', ac') \<Rightarrow> ac_descend bs n' ac'
      else None)"

definition ACAutomaton_Add :: "byte list \<Rightarrow> MatcherType \<Rightarrow> ACAutomaton \<Rightarrow> ACAutomaton option" where
  "ACAutomaton_Add domain t ac =
     (case ac_descend (rev domain) 0 ac of
        None \<Rightarrow> None
      | Some (n, ac) \<Rightarrow>
          let ac = ac\<lparr>exists := (exists ac)[n := \<lparr>matchType = t, exist = True\<rparr>]\<rparr>
          in Some (case t of
               MDomain \<Rightarrow>
                 let ac = ac\<lparr>exists := (exists ac)[n := \<lparr>matchType = MFull, exist = True\<rparr>]\<rparr>;
                     (n', ac) = ac_child n (char2Index ! unat dot) ac
                 in ac\<lparr>exists := (exists ac)[n' := \<lparr>matchType = t, exist = True\<rparr>]\<rparr>
             | _ \<Rightarrow> ac))"

section \<open>Building and matching\<close>

definition build_edge :: "nat \<Rightarrow> nat \<Rightarrow> ACAutomaton \<times> nat list \<Rightarrow> ACAutomaton \<times> nat list" where
  "build_edge n i aq =
     (let (ac, queue) = aq;
          next = nextNode (trie ac ! n ! i);
          target = nextNode (trie ac ! (fail ac ! n) ! i)
      in if next \<noteq> 0 then (ac\<lparr>fail := (fail ac)[next := target]\<rparr>, queue @ [next])
         else (set_edge n i \<lparr>edgeType = FailEdge, nextNode = target\<rparr> ac, queue))"

partial_function (option) Build_loop :: "nat list \<Rightarrow> ACAutomaton \<Rightarrow> ACAutomaton option" where
  "Build_loop queue ac =
     (case queue of
        [] \<Rightarrow> Some ac
      | n # queue \<Rightarrow>
          (case fold (build_edge n) [0..<validCharCount] (ac, queue) of
             (ac, queue) \<Rightarrow> Build_loop queue ac))"

declare Build_loop.simps [code]

definition ACAutomaton_Build :: "ACAutomaton \<Rightarrow> ACAutomaton option" where
  "ACAutomaton_Build ac =
     Build_loop (map (\<lambda>i. nextNode (trie ac ! 0 ! i))
       (filter (\<lambda>i. nextNode (trie ac ! 0 ! i) \<noteq> 0) [0..<validCharCount])) ac"

fun ac_Match_loop :: "ACAutomaton \<Rightarrow> byte list \<Rightarrow> nat \<Rightarrow> bool \<Rightarrow> bool" where
  "ac_Match_loop ac [] n fullMatch \<longleftrightarrow> fullMatch \<and> exist (exists ac ! n)"
| "ac_Match_loop ac (b # bs) n fullMatch \<longleftrightarrow>
     (if unat b \<ge> length char2Index then False
      else let e = trie ac ! n ! (char2Index ! unat b);
               fullMatch = (fullMatch \<and> edgeType e);
               n = nextNode e
           in case matchType (exists ac ! n) of
                MSubstr \<Rightarrow> True
              | MDomain \<Rightarrow> if fullMatch then True else ac_Match_loop ac bs n fullMatch
              | _ \<Rightarrow> ac_Match_loop ac bs n fullMatch)"

definition ACAutomaton_Match :: "ACAutomaton \<Rightarrow> byte list \<Rightarrow> bool" where
  "ACAutomaton_Match ac s = ac_Match_loop ac (rev s) 0 True"

text \<open>The automaton of a list of keywords, as \<^verbatim>\<open>MphMatcherGroup\<close> makes it.\<close>

fun ac_adds :: "byte list list \<Rightarrow> ACAutomaton \<Rightarrow> ACAutomaton option" where
  "ac_adds [] ac = Some ac"
| "ac_adds (p # ps) ac = (case ACAutomaton_Add p MSubstr ac of None \<Rightarrow> None | Some ac \<Rightarrow> ac_adds ps ac)"

definition ac_of :: "byte list list \<Rightarrow> ACAutomaton option" where
  "ac_of ps = (case ac_adds ps NewACAutomaton of None \<Rightarrow> None | Some ac \<Rightarrow> ACAutomaton_Build ac)"

section \<open>The table\<close>

lemma length_char2Index [simp]: "length char2Index = 127"
  by (simp add: char2Index_def char_entries_def other_chars_def upt_rec)

lemma char2Index_less: "list_all (\<lambda>i. i < 53) char2Index"
  by code_simp

definition char_class :: "byte \<Rightarrow> nat" where
  "char_class b = (if unat b < 127 then char2Index ! unat b else 0)"

lemma char_class_less [simp]: "char_class b < 53"
  using char2Index_less by (simp add: char_class_def list_all_length)

text \<open>The bytes with a class of their own: those of the table, without the capital letters.\<close>

definition keyword_byte :: "byte \<Rightarrow> bool" where
  "keyword_byte b \<longleftrightarrow> unat b \<in> set ([97..<123] @ other_chars)"

lemma keyword_byte_less: "keyword_byte b \<Longrightarrow> unat b < 127"
  by (auto simp: keyword_byte_def other_chars_def)

lemma char_class_distinct: "distinct (map ((!) char2Index) ([97..<123] @ other_chars))"
  by code_simp

lemma inj_char_class: "inj_on char_class {b. keyword_byte b}"
proof (rule inj_onI)
  fix a b assume "a \<in> {b. keyword_byte b}" "b \<in> {b. keyword_byte b}" and eq: "char_class a = char_class b"
  then have k: "keyword_byte a" "keyword_byte b" by simp_all
  then have "unat a \<in> set ([97..<123] @ other_chars)" "unat b \<in> set ([97..<123] @ other_chars)"
    unfolding keyword_byte_def by blast+
  moreover have "char2Index ! unat a = char2Index ! unat b"
    using eq k [THEN keyword_byte_less] by (simp add: char_class_def)
  moreover have "inj_on ((!) char2Index) (set ([97..<123] @ other_chars))"
    using char_class_distinct by (simp only: distinct_map)
  ultimately have "unat a = unat b" by (metis inj_onD)
  then show "a = b" by (rule unsigned_word_eqI)
qed

section \<open>Longest suffixes\<close>

text \<open>The longest suffix of a word that lies in a set with the empty word.\<close>

primrec lsuf :: "'a list set \<Rightarrow> 'a list \<Rightarrow> 'a list" where
  "lsuf T [] = []"
| "lsuf T (a # w) = (if a # w \<in> T then a # w else lsuf T w)"

lemma lsuf_suffix: "suffix (lsuf T w) w"
  by (induction w) (auto simp: suffix_Cons)

lemma lsuf_in: "[] \<in> T \<Longrightarrow> lsuf T w \<in> T"
  by (induction w) auto

lemma lsuf_id: "w \<in> T \<Longrightarrow> lsuf T w = w"
  by (cases w) auto

lemma lsuf_greatest: "suffix v w \<Longrightarrow> v \<in> T \<Longrightarrow> suffix v (lsuf T w)"
  by (induction w) (auto simp: suffix_Cons)

lemma lsuf_length: "length (lsuf T w) \<le> length w"
  using lsuf_suffix by (rule suffix_length_le)

lemma lsuf_tl_length: "w \<noteq> [] \<Longrightarrow> length (lsuf T (tl w)) < length w"
  using lsuf_length [of T "tl w"] by (cases w) auto

lemma lsuf_skip: "w \<noteq> [] \<Longrightarrow> w \<notin> T \<Longrightarrow> lsuf T w = lsuf T (tl w)"
  by (cases w) auto

text \<open>In a prefix-closed set the longest suffix can be found letter by letter.\<close>

definition prefix_closed :: "'a list set \<Rightarrow> bool" where
  "prefix_closed T \<longleftrightarrow> [] \<in> T \<and> (\<forall>w c. w @ [c] \<in> T \<longrightarrow> w \<in> T)"

lemma lsuf_snoc: "prefix_closed T \<Longrightarrow> lsuf T (lsuf T x @ [c]) = lsuf T (x @ [c])"
proof (induction x)
  case (Cons a x)
  show ?case
  proof (cases "a # x \<in> T")
    case False
    then have "a # x @ [c] \<notin> T" using Cons.prems by (metis append_Cons prefix_closed_def)
    with False Cons show ?thesis by simp
  qed simp
qed simp

lemma ex_prefix_Cons:
  "(\<exists>u. u \<noteq> [] \<and> prefix u (c # cs) \<and> Q u) \<longleftrightarrow> Q [c] \<or> (\<exists>u. u \<noteq> [] \<and> prefix u cs \<and> Q (c # u))"
proof
  assume "\<exists>u. u \<noteq> [] \<and> prefix u (c # cs) \<and> Q u"
  then obtain v where "prefix v cs" "Q (c # v)" by (auto simp: prefix_Cons)
  then show "Q [c] \<or> (\<exists>u. u \<noteq> [] \<and> prefix u cs \<and> Q (c # u))" by (cases "v = []") auto
next
  assume "Q [c] \<or> (\<exists>u. u \<noteq> [] \<and> prefix u cs \<and> Q (c # u))"
  then show "\<exists>u. u \<noteq> [] \<and> prefix u (c # cs) \<and> Q u"
    by (auto simp: prefix_Cons intro: exI [of _ "[c]"])
qed

section \<open>Numbered tries\<close>

text \<open>\<open>L\<close> lists the words of the trie; the node of a word is its position, and 0, the node of the
  empty word, when it is not there.\<close>

definition node_of :: "'a list list \<Rightarrow> 'a list \<Rightarrow> nat" where
  "node_of L w = (if w \<in> set L then length (takeWhile (\<lambda>v. v \<noteq> w) L) else 0)"

lemma node_of_in: "w \<in> set L \<Longrightarrow> node_of L w < length L \<and> L ! node_of L w = w"
proof -
  assume w: "w \<in> set L"
  then have "length (takeWhile (\<lambda>v. v \<noteq> w) L) < length L" by (induction L) auto
  moreover from nth_length_takeWhile [OF this] have "L ! length (takeWhile (\<lambda>v. v \<noteq> w) L) = w" by simp
  ultimately show ?thesis using w by (simp add: node_of_def)
qed

lemma node_of_nth: "distinct L \<Longrightarrow> n < length L \<Longrightarrow> node_of L (L ! n) = n"
  using node_of_in [of "L ! n" L] nth_eq_iff_index_eq [of L "node_of L (L ! n)" n] by simp

lemma node_of_eq: "distinct L \<Longrightarrow> n < length L \<Longrightarrow> L ! n = w \<Longrightarrow> node_of L w = n"
  by (auto simp: node_of_nth)

lemma node_of_iff: "distinct L \<Longrightarrow> w \<in> set L \<Longrightarrow> n < length L \<Longrightarrow> L ! n = w \<longleftrightarrow> node_of L w = n"
  using node_of_in [of w L] by (auto simp: node_of_nth)

lemma node_of_notin: "w \<notin> set L \<Longrightarrow> node_of L w = 0"
  by (simp add: node_of_def)

lemma node_of_snoc: "v \<notin> set L \<Longrightarrow> node_of (L @ [v]) w = (if w = v then length L else node_of L w)"
proof -
  assume v: "v \<notin> set L"
  have "takeWhile (\<lambda>u. u \<noteq> v) L = L" using v by (auto simp: takeWhile_eq_all_conv)
  moreover have "takeWhile (\<lambda>u. u \<noteq> w) (L @ [v]) = takeWhile (\<lambda>u. u \<noteq> w) L" if "w \<in> set L"
    using that by (rule takeWhile_append1) simp
  ultimately show ?thesis using v by (auto simp: node_of_def takeWhile_append)
qed

definition trie_inv :: "nat list list \<Rightarrow> ACAutomaton \<Rightarrow> bool" where
  "trie_inv L ac \<longleftrightarrow>
     distinct L \<and> L \<noteq> [] \<and> L ! 0 = [] \<and> prefix_closed (set L) \<and>
     length (trie ac) = length L \<and> length (exists ac) = length L \<and> fail ac = replicate (length L) 0 \<and>
     acount ac + 1 = length L \<and>
     (\<forall>n < length L. length (trie ac ! n) = 53 \<and>
       (\<forall>c < 53. trie ac ! n ! c =
          \<lparr>edgeType = (L ! n @ [c] \<in> set L), nextNode = node_of L (L ! n @ [c])\<rparr>))"

lemma trie_invD:
  assumes "trie_inv L ac"
  shows "distinct L" "L \<noteq> []" "L ! 0 = []" "prefix_closed (set L)" "length (trie ac) = length L"
    "length (exists ac) = length L" "length (fail ac) = length L" "acount ac + 1 = length L"
  using assms by (simp_all add: trie_inv_def)

lemma trie_inv_row:
  "trie_inv L ac \<Longrightarrow> n < length L \<Longrightarrow> c < 53 \<Longrightarrow>
   trie ac ! n ! c = \<lparr>edgeType = (L ! n @ [c] \<in> set L), nextNode = node_of L (L ! n @ [c])\<rparr>"
  by (simp add: trie_inv_def)

lemma trie_inv_New: "trie_inv [[]] NewACAutomaton"
  by (simp add: trie_inv_def NewACAutomaton_def newNode_def validCharCount_def prefix_closed_def node_of_notin)

lemma node_of_root: "distinct L \<Longrightarrow> L \<noteq> [] \<Longrightarrow> L ! 0 = [] \<Longrightarrow> node_of L [] = 0"
  by (rule node_of_eq) auto

lemma node_of_pos:
  assumes "distinct L" "L \<noteq> []" "L ! 0 = []" "w \<noteq> []"
  shows "node_of L w = 0 \<longleftrightarrow> w \<notin> set L"
  using assms node_of_in [of w L] node_of_notin [of w L] by (metis)

text \<open>One step of \<^verbatim>\<open>Add\<close> gives a new word the next number.\<close>

definition add_word :: "'a list \<Rightarrow> 'a list list \<Rightarrow> 'a list list" where
  "add_word w L = (if w \<in> set L then L else L @ [w])"

definition add_words :: "'a list list \<Rightarrow> 'a list list \<Rightarrow> 'a list list" where
  "add_words ws L = fold add_word ws L"

lemma set_add_word [simp]: "set (add_word w L) = insert w (set L)"
  by (auto simp: add_word_def)

lemma set_add_words [simp]: "set (add_words ws L) = set L \<union> set ws"
  by (induction ws arbitrary: L) (auto simp: add_words_def)

lemma prefix_add_word: "prefix L (add_word w L)"
  by (simp add: add_word_def)

lemma prefix_add_words: "prefix L (add_words ws L)"
  by (induction ws arbitrary: L) (auto simp: add_words_def intro: prefix_order.trans [OF prefix_add_word])

lemma ac_child_spec:
  assumes I: "trie_inv L ac" and n: "n < length L" and c: "c < 53"
  defines "L' \<equiv> add_word (L ! n @ [c]) L"
  obtains ac' where "ac_child n c ac = (node_of L' (L ! n @ [c]), ac')" "trie_inv L' ac'"
    "exists ac' = exists ac @ replicate (length L' - length L) no_match"
proof (cases "L ! n @ [c] \<in> set L")
  case True
  then have "nextNode (trie ac ! n ! c) \<noteq> 0"
    using trie_inv_row [OF I n c] node_of_pos [of L "L ! n @ [c]"] trie_invD [OF I] by simp
  then have "ac_child n c ac = (node_of L (L ! n @ [c]), ac)"
    using trie_inv_row [OF I n c] by (simp add: ac_child_def)
  with True I show ?thesis by (intro that [of ac]) (auto simp: L'_def add_word_def)
next
  case new: False
  let ?w = "L ! n @ [c]" and ?m = "length L"
  let ?L = "L @ [?w]"
  let ?T = "(trie ac @ [newNode])[n := (trie ac ! n)[c := \<lparr>edgeType = True, nextNode = ?m\<rparr>]]"
  let ?ac = "ac\<lparr>acount := ?m, trie := ?T, fail := fail ac @ [0], exists := exists ac @ [no_match]\<rparr>"
  note D = trie_invD [OF I]
  have z: "nextNode (trie ac ! n ! c) = 0" using trie_inv_row [OF I n c] new by (simp add: node_of_notin)
  have len: "length (trie ac ! n) = 53" using I n by (simp add: trie_inv_def)
  have "ac_child n c ac = (?m, ?ac)"
    using z D n c len by (auto simp: ac_child_def set_edge_def nth_append)
  moreover have "node_of ?L ?w = ?m" using new by (simp add: node_of_snoc)
  moreover have "trie_inv ?L ?ac"
  proof -
    have pc: "prefix_closed (set ?L)" using D(4) n unfolding prefix_closed_def by auto
    have ext: "?w @ [d] \<notin> set ?L" for d
      using new D(4) unfolding prefix_closed_def by (auto dest: spec [of _ "L ! n @ [c]"])
    have row: "length (?T ! k) = 53 \<and> (\<forall>d<53. ?T ! k ! d =
        \<lparr>edgeType = (?L ! k @ [d] \<in> set ?L), nextNode = node_of ?L (?L ! k @ [d])\<rparr>)" if "k < length ?L" for k
    proof (cases "k = ?m")
      case True
      then show ?thesis using n D(5) ext
        by (simp add: nth_append newNode_def validCharCount_def node_of_notin)
    next
      case False
      with that have k: "k < ?m" by simp
      then have old: "length (trie ac ! k) = 53" using I by (simp add: trie_inv_def)
      have "(L ! k @ [d] = ?w) \<longleftrightarrow> k = n \<and> d = c" for d
        using k n D(1) by (auto simp: nth_eq_iff_index_eq)
      then show ?thesis using k n c D(5) old new trie_inv_row [OF I k]
        by (auto simp: nth_append nth_list_update node_of_snoc)
    qed
    have "?L ! 0 = []" using D(2,3) by (cases L) auto
    then show ?thesis unfolding trie_inv_def using D new pc row I
      by (simp del: length_append) (simp add: trie_inv_def replicate_append_same)
  qed
  moreover have "L' = ?L" using new by (simp add: L'_def add_word_def)
  ultimately show ?thesis by (intro that [of ?ac]) simp_all
qed

lemma prefix_nth: "prefix L L' \<Longrightarrow> n < length L \<Longrightarrow> L' ! n = L ! n"
  by (auto simp: prefix_def nth_append)

definition key :: "byte list \<Rightarrow> nat list" where
  "key p = map char_class (rev p)"

lemma map_append_Nil: "map ((@) []) xs = xs"
  by (rule map_idI) simp

lemma append_Cons_comp: "(@) w \<circ> (#) c = (@) (w @ [c])"
  by (rule ext) simp

lemma tl_prefixes_Cons: "tl (prefixes (c # cs)) = [c] # map ((#) c) (tl (prefixes cs))"
  by (cases cs) auto

lemma ac_descend_spec:
  assumes "trie_inv L ac" "n < length L" "\<forall>b\<in>set bs. unat b < 127"
  defines "L' \<equiv> add_words (map ((@) (L ! n)) (tl (prefixes (map char_class bs)))) L"
  shows "\<exists>ac'. ac_descend bs n ac = Some (node_of L' (L ! n @ map char_class bs), ac') \<and> trie_inv L' ac' \<and>
    exists ac' = exists ac @ replicate (length L' - length L) no_match"
  using assms(1-3) unfolding L'_def
proof (induction bs arbitrary: L ac n)
  case Nil
  then show ?case by (auto simp: add_words_def node_of_nth dest: trie_invD(1))
next
  case (Cons b bs)
  let ?c = "char_class b" and ?cs = "map char_class bs"
  let ?L1 = "add_word (L ! n @ [?c]) L"
  obtain ac1 where 1: "ac_child n ?c ac = (node_of ?L1 (L ! n @ [?c]), ac1)" "trie_inv ?L1 ac1"
    "exists ac1 = exists ac @ replicate (length ?L1 - length L) no_match"
    by (rule ac_child_spec [OF Cons.prems(1,2) char_class_less])
  let ?n = "node_of ?L1 (L ! n @ [?c])"
  have n1: "?n < length ?L1" "?L1 ! ?n = L ! n @ [?c]" using node_of_in [of "L ! n @ [?c]" ?L1] by auto
  let ?L2 = "add_words (map ((@) (L ! n @ [?c])) (tl (prefixes ?cs))) ?L1"
  have L2: "add_words (map ((@) (L ! n)) (tl (prefixes (map char_class (b # bs))))) L = ?L2"
    by (simp only: list.map(2) tl_prefixes_Cons add_words_def fold_simps map_map append_Cons_comp)
  have small: "\<forall>b\<in>set bs. unat b < 127" using Cons.prems(3) by simp
  from Cons.IH [OF 1(2) n1(1) small, unfolded n1(2)]
  obtain ac2 where 2: "ac_descend bs ?n ac1 = Some (node_of ?L2 ((L ! n @ [?c]) @ ?cs), ac2)" "trie_inv ?L2 ac2"
    "exists ac2 = exists ac1 @ replicate (length ?L2 - length ?L1) no_match"
    by blast
  have len: "length ?L2 - length L = length ?L1 - length L + (length ?L2 - length ?L1)"
    using prefix_length_le [OF prefix_add_word, of L "L ! n @ [?c]"]
      prefix_length_le [OF prefix_add_words, of ?L1 "map ((@) (L ! n @ [?c])) (tl (prefixes ?cs))"] by linarith
  have "exists ac2 = exists ac @ replicate (length ?L2 - length L) no_match"
    using 1(3) 2(3) by (simp only: len replicate_add append_assoc)
  moreover have "char2Index ! unat b = ?c" using Cons.prems(3) by (simp add: char_class_def)
  ultimately show ?case using 1(1) 2(1,2) Cons.prems(3) unfolding L2 by simp
qed

text \<open>The marked nodes are the keys of the patterns.\<close>

definition marks :: "nat list set \<Rightarrow> nat list list \<Rightarrow> ACAutomaton \<Rightarrow> bool" where
  "marks P L ac \<longleftrightarrow> (\<forall>n < length L. exists ac ! n =
     (if L ! n \<in> P then \<lparr>matchType = MSubstr, exist = True\<rparr> else no_match))"

lemma ac_Add_spec:
  assumes I: "trie_inv L ac" and P: "P \<subseteq> set L" and M: "marks P L ac" and p: "\<forall>b\<in>set p. unat b < 127"
  defines "L' \<equiv> add_words (prefixes (key p)) L"
  shows "\<exists>ac'. ACAutomaton_Add p MSubstr ac = Some ac' \<and> trie_inv L' ac' \<and> marks (insert (key p) P) L' ac'"
proof -
  note D = trie_invD [OF I]
  have pos: "0 < length L" and nil: "[] \<in> set L" using D(2,4) by (simp_all add: prefix_closed_def)
  have L': "L' = add_words (tl (prefixes (key p))) L"
    using nil by (cases "key p") (auto simp: L'_def add_words_def add_word_def)
  obtain ac' where d: "ac_descend (rev p) 0 ac = Some (node_of L' (key p), ac')" "trie_inv L' ac'"
    "exists ac' = exists ac @ replicate (length L' - length L) no_match"
    using ac_descend_spec [OF I pos, of "rev p"] p D(3) unfolding L' by (auto simp: key_def map_append_Nil)
  note D' = trie_invD [OF d(2)]
  have pre: "prefix L L'" unfolding L'_def by (rule prefix_add_words)
  have k: "key p \<in> set L'" by (simp add: L'_def)
  have m0: "exists ac' ! n = (if L' ! n \<in> P then \<lparr>matchType = MSubstr, exist = True\<rparr> else no_match)" if n: "n < length L'" for n
  proof (cases "n < length L")
    case True
    with M d(3) D(6) prefix_nth [OF pre] show ?thesis by (simp add: marks_def nth_append)
  next
    case False
    then have "L' ! n \<notin> set L"
      using n pre D'(1) by (auto simp: in_set_conv_nth nth_eq_iff_index_eq prefix_nth [OF pre, symmetric] dest: prefix_length_le)
    with False n P d(3) D(6) show ?thesis by (auto simp: nth_append)
  qed
  let ?ac = "ac'\<lparr>exists := (exists ac')[node_of L' (key p) := \<lparr>matchType = MSubstr, exist = True\<rparr>]\<rparr>"
  have "ACAutomaton_Add p MSubstr ac = Some ?ac" by (simp add: ACAutomaton_Add_def d(1) Let_def)
  moreover have "trie_inv L' ?ac" using d(2) by (simp add: trie_inv_def)
  moreover have "marks (insert (key p) P) L' ?ac"
    unfolding marks_def using m0 D'(6) node_of_iff [OF D'(1) k] node_of_in [OF k]
    by (auto simp: nth_list_update)
  ultimately show ?thesis by blast
qed

text \<open>The words of the trie in the order of their nodes.\<close>

definition ac_words :: "byte list list \<Rightarrow> nat list list" where
  "ac_words ps = add_words (concat (map (prefixes \<circ> key) ps)) [[]]"

lemma ac_adds_spec:
  assumes "trie_inv L ac" "P \<subseteq> set L" "marks P L ac" "\<forall>p\<in>set ps. \<forall>b\<in>set p. unat b < 127"
  defines "L' \<equiv> add_words (concat (map (prefixes \<circ> key) ps)) L"
  shows "\<exists>ac'. ac_adds ps ac = Some ac' \<and> trie_inv L' ac' \<and> marks (key ` set ps \<union> P) L' ac'"
  using assms(1-4) unfolding L'_def
proof (induction ps arbitrary: L ac P)
  case Nil
  then show ?case by (simp add: add_words_def)
next
  case (Cons p ps)
  let ?L1 = "add_words (prefixes (key p)) L"
  obtain ac1 where 1: "ACAutomaton_Add p MSubstr ac = Some ac1" "trie_inv ?L1 ac1" "marks (insert (key p) P) ?L1 ac1"
    using ac_Add_spec [OF Cons.prems(1-3), of p] Cons.prems(4) by auto
  have "insert (key p) P \<subseteq> set ?L1" using Cons.prems(2) by auto
  from Cons.IH [OF 1(2) this 1(3)] Cons.prems(4) show ?case
    by (auto simp: 1(1) add_words_def)
qed

section \<open>Building\<close>

text \<open>The inner loop over the characters of one node, in closed form: it reads the row of the
  failure node, which is another one, and never changes the failure entry of the node itself.\<close>

definition build_children :: "Edge list \<Rightarrow> nat \<Rightarrow> nat list" where
  "build_children row k = filter (\<lambda>c. nextNode (row ! c) \<noteq> 0) [0..<k]"

definition build_row :: "Edge list \<Rightarrow> Edge list \<Rightarrow> nat \<Rightarrow> Edge list" where
  "build_row row frow k = map (\<lambda>c. if c < k \<and> nextNode (row ! c) = 0
     then \<lparr>edgeType = False, nextNode = nextNode (frow ! c)\<rparr> else row ! c) [0..<length row]"

definition build_fail :: "Edge list \<Rightarrow> Edge list \<Rightarrow> nat list \<Rightarrow> nat list \<Rightarrow> nat list" where
  "build_fail row frow cs fl = fold (\<lambda>c fl. fl[nextNode (row ! c) := nextNode (frow ! c)]) cs fl"

lemma build_fail_other:
  "\<forall>c\<in>set cs. nextNode (row ! c) \<noteq> m \<Longrightarrow> build_fail row frow cs fl ! m = fl ! m"
  by (induction cs arbitrary: fl) (auto simp: build_fail_def)

lemma length_build_fail [simp]: "length (build_fail row frow cs fl) = length fl"
  by (induction cs arbitrary: fl) (auto simp: build_fail_def)

lemma build_fail_at:
  "inj_on (\<lambda>c. nextNode (row ! c)) (set cs) \<Longrightarrow> distinct cs \<Longrightarrow> c \<in> set cs \<Longrightarrow> nextNode (row ! c) < length fl \<Longrightarrow>
   build_fail row frow cs fl ! nextNode (row ! c) = nextNode (frow ! c)"
proof (induction cs arbitrary: fl)
  case (Cons d cs)
  show ?case
  proof (cases "c = d")
    case True
    then have "\<forall>e\<in>set cs. nextNode (row ! e) \<noteq> nextNode (row ! c)"
      using Cons.prems(1,2) by (auto simp: image_iff)
    then show ?thesis using True Cons.prems build_fail_other [of cs row "nextNode (row ! c)" frow]
      by (simp add: build_fail_def)
  next
    case False
    with Cons show ?thesis by (simp add: build_fail_def)
  qed
qed simp

lemma build_row_nth:
  "c < length row \<Longrightarrow> build_row row frow k ! c =
   (if c < k \<and> nextNode (row ! c) = 0 then \<lparr>edgeType = False, nextNode = nextNode (frow ! c)\<rparr> else row ! c)"
  by (simp add: build_row_def)

lemma build_row_Suc:
  "k < length row \<Longrightarrow> build_row row frow (Suc k) =
   (if nextNode (row ! k) = 0
    then (build_row row frow k)[k := \<lparr>edgeType = False, nextNode = nextNode (frow ! k)\<rparr>]
    else build_row row frow k)"
  by (auto simp: build_row_def nth_list_update less_Suc_eq intro!: nth_equalityI)

lemma build_edges:
  fixes ac n
  defines "row \<equiv> trie ac ! n" and "frow \<equiv> trie ac ! (fail ac ! n)"
  assumes n: "n < length (trie ac)" and f: "fail ac ! n \<noteq> n" and len: "length row = 53"
    and ch: "\<forall>c<53. nextNode (row ! c) \<noteq> n"
  shows "k \<le> 53 \<Longrightarrow> fold (build_edge n) [0..<k] (ac, q) =
    (ac\<lparr>trie := (trie ac)[n := build_row row frow k], fail := build_fail row frow (build_children row k) (fail ac)\<rparr>,
     q @ map (\<lambda>c. nextNode (row ! c)) (build_children row k))"
proof (induction k)
  case 0
  have "build_row row frow 0 = row" by (auto simp: build_row_def intro!: nth_equalityI)
  then show ?case by (simp add: build_children_def build_fail_def row_def)
next
  case (Suc k)
  have same: "build_fail row frow (build_children row k) (fail ac) ! n = fail ac ! n"
    using ch Suc.prems by (intro build_fail_other) (auto simp: build_children_def)
  have e: "build_row row frow k ! k = row ! k" using Suc.prems len by (simp add: build_row_nth)
  have chs: "build_children row (Suc k) = build_children row k @ (if nextNode (row ! k) \<noteq> 0 then [k] else [])"
    by (simp add: build_children_def)
  have frow: "(trie ac)[n := build_row row frow k] ! (fail ac ! n) = frow" using f by (simp add: frow_def)
  show ?case
    using Suc n e same frow build_row_Suc [of k row frow] len
    by (simp add: build_edge_def set_edge_def chs build_fail_def Let_def)
qed

text \<open>The state of the breadth-first search: \<open>D\<close> holds the finished nodes; they and the nodes of the
  queue are those whose parent is finished; the queue goes by depth.\<close>

definition bfs_inv :: "nat list list \<Rightarrow> nat set \<Rightarrow> nat list \<Rightarrow> ACAutomaton \<Rightarrow> bool" where
  "bfs_inv L D q ac \<longleftrightarrow>
     length (trie ac) = length L \<and> length (fail ac) = length L \<and>
     (\<forall>n < length L. length (trie ac ! n) = 53 \<and>
       (\<forall>c < 53. trie ac ! n ! c = \<lparr>edgeType = (L ! n @ [c] \<in> set L),
          nextNode = node_of L (if n \<in> D \<or> n = 0 then lsuf (set L) (L ! n @ [c]) else L ! n @ [c])\<rparr>)) \<and>
     (\<forall>n \<in> D \<union> set q. fail ac ! n = node_of L (lsuf (set L) (tl (L ! n)))) \<and>
     distinct q \<and> set q \<inter> D = {} \<and> 0 \<notin> set q \<union> D \<and> set q \<union> D \<subseteq> {..<length L} \<and>
     (\<forall>n < length L. n \<noteq> 0 \<longrightarrow>
        (n \<in> D \<union> set q \<longleftrightarrow> node_of L (butlast (L ! n)) \<in> insert 0 D)) \<and>
     sorted (map (\<lambda>n. length (L ! n)) q) \<and>
     (\<forall>m \<in> set q. length (L ! m) \<le> Suc (length (L ! hd q)))"

lemma bfs_row_done:
  "bfs_inv L D q ac \<Longrightarrow> n \<in> insert 0 D \<Longrightarrow> n < length L \<Longrightarrow> c < 53 \<Longrightarrow>
   trie ac ! n ! c = \<lparr>edgeType = (L ! n @ [c] \<in> set L), nextNode = node_of L (lsuf (set L) (L ! n @ [c]))\<rparr>"
  by (auto simp: bfs_inv_def)

lemma bfs_invD:
  assumes "bfs_inv L D q ac"
  shows "length (trie ac) = length L" "length (fail ac) = length L"
    "\<And>n. n < length L \<Longrightarrow> length (trie ac ! n) = 53"
    "\<And>n. n \<in> D \<union> set q \<Longrightarrow> fail ac ! n = node_of L (lsuf (set L) (tl (L ! n)))"
    "distinct q" "set q \<inter> D = {}" "0 \<notin> set q \<union> D" "set q \<union> D \<subseteq> {..<length L}"
    "\<And>n. n < length L \<Longrightarrow> n \<noteq> 0 \<Longrightarrow> n \<in> D \<union> set q \<longleftrightarrow> node_of L (butlast (L ! n)) \<in> insert 0 D"
    "sorted (map (\<lambda>n. length (L ! n)) q)" "\<And>m. m \<in> set q \<Longrightarrow> length (L ! m) \<le> Suc (length (L ! hd q))"
  using assms unfolding bfs_inv_def by blast+

lemma bfs_row_todo:
  "bfs_inv L D q ac \<Longrightarrow> n \<notin> insert 0 D \<Longrightarrow> n < length L \<Longrightarrow> c < 53 \<Longrightarrow>
   trie ac ! n ! c = \<lparr>edgeType = (L ! n @ [c] \<in> set L), nextNode = node_of L (L ! n @ [c])\<rparr>"
  by (auto simp: bfs_inv_def)

text \<open>The children of a node, in the order of their characters.\<close>

definition kid_chars :: "nat list list \<Rightarrow> nat \<Rightarrow> nat list" where
  "kid_chars L n = filter (\<lambda>c. L ! n @ [c] \<in> set L) [0..<53]"

definition kids :: "nat list list \<Rightarrow> nat \<Rightarrow> nat list" where
  "kids L n = map (\<lambda>c. node_of L (L ! n @ [c])) (kid_chars L n)"

locale word_numbering =
  fixes L :: "nat list list"
  assumes dist: "distinct L" and ne: "L \<noteq> []" and root: "L ! 0 = []" and pc: "prefix_closed (set L)"
    and chars: "w \<in> set L \<Longrightarrow> c \<in> set w \<Longrightarrow> c < 53"
begin

lemma nodeI: "w \<in> set L \<Longrightarrow> node_of L w < length L" "w \<in> set L \<Longrightarrow> L ! node_of L w = w"
  using node_of_in by blast+

lemma Nil_in: "[] \<in> set L"
  using pc by (simp add: prefix_closed_def)

lemma node_Nil [simp]: "node_of L [] = 0"
  using dist ne root by (rule node_of_root)

lemma node_0_iff: "w \<noteq> [] \<Longrightarrow> node_of L w = 0 \<longleftrightarrow> w \<notin> set L"
  using node_of_pos [OF dist ne root] by blast

lemma node_inject: "v \<in> set L \<Longrightarrow> w \<in> set L \<Longrightarrow> node_of L v = node_of L w \<longleftrightarrow> v = w"
  using nodeI(2) by metis

lemma word_ne: "n < length L \<Longrightarrow> n \<noteq> 0 \<Longrightarrow> L ! n \<noteq> []"
  using dist ne root by (metis length_greater_0_conv nth_eq_iff_index_eq)

lemma butlast_in: "w \<in> set L \<Longrightarrow> w \<noteq> [] \<Longrightarrow> butlast w \<in> set L"
  using pc by (metis append_butlast_last_id prefix_closed_def)

lemma last_less: "w \<in> set L \<Longrightarrow> w \<noteq> [] \<Longrightarrow> last w < 53"
  using chars by simp

text \<open>All shallower nodes are finished when a node comes to the front.\<close>

lemma shallow_done:
  assumes I: "bfs_inv L D (n # q) ac" and w: "w \<in> set L" "length w < length (L ! n)"
  shows "node_of L w \<in> insert 0 D"
  using w
proof (induction w rule: rev_induct)
  case (snoc c w)
  let ?m = "node_of L (w @ [c])"
  have m: "?m < length L" "L ! ?m = w @ [c]" using nodeI snoc.prems by auto
  have "w \<in> set L" using pc snoc.prems(1) by (auto simp: prefix_closed_def)
  with snoc have "node_of L w \<in> insert 0 D" by simp
  moreover have "?m \<noteq> 0" using node_0_iff snoc.prems(1) by auto
  ultimately have "?m \<in> D \<union> set (n # q)" using I m by (simp add: bfs_inv_def)
  moreover have "?m \<notin> set (n # q)"
  proof
    assume "?m \<in> set (n # q)"
    then have "length (L ! n) \<le> length (L ! ?m)" using I by (auto simp: bfs_inv_def)
    with m snoc.prems(2) show False by simp
  qed
  ultimately show ?case by blast
qed simp

lemma bfs_front:
  assumes I: "bfs_inv L D (n # q) ac"
  shows "n < length L" "n \<noteq> 0" "n \<notin> D" "L ! n \<noteq> []"
    and "fail ac ! n \<noteq> n" "length (trie ac ! n) = 53"
    and bfs_front_row: "c < 53 \<Longrightarrow> trie ac ! n ! c = \<lparr>edgeType = (L ! n @ [c] \<in> set L), nextNode = node_of L (L ! n @ [c])\<rparr>"
    and bfs_front_fail: "c < 53 \<Longrightarrow> nextNode (trie ac ! (fail ac ! n) ! c) = node_of L (lsuf (set L) (tl (L ! n @ [c])))"
proof -
  show n: "n < length L" "n \<noteq> 0" "n \<notin> D" "length (trie ac ! n) = 53" using I by (auto simp: bfs_inv_def)
  then show w: "L ! n \<noteq> []" using word_ne by simp
  let ?v = "lsuf (set L) (tl (L ! n))"
  have f: "fail ac ! n = node_of L ?v" using I by (simp add: bfs_inv_def)
  have v: "?v \<in> set L" using Nil_in by (rule lsuf_in)
  have short: "length ?v < length (L ! n)" using w by (rule lsuf_tl_length)
  then show "fail ac ! n \<noteq> n" using nodeI(2) [OF v] f by auto
  show "trie ac ! n ! c = \<lparr>edgeType = (L ! n @ [c] \<in> set L), nextNode = node_of L (L ! n @ [c])\<rparr>" if "c < 53"
    using I n that by (simp add: bfs_inv_def)
  have "fail ac ! n \<in> insert 0 D" using shallow_done [OF I v short] f by simp
  then show "nextNode (trie ac ! (fail ac ! n) ! c) = node_of L (lsuf (set L) (tl (L ! n @ [c])))" if "c < 53"
    using bfs_row_done [OF I, of "fail ac ! n" c] that f nodeI [OF v] lsuf_snoc [OF pc, of "tl (L ! n)" c] w by simp
qed

lemma child_of:
  assumes "m < length L" "m \<noteq> 0" "n < length L"
  shows "node_of L (butlast (L ! m)) = n \<longleftrightarrow> (\<exists>c<53. L ! m = L ! n @ [c])"
proof
  have m: "L ! m \<in> set L" "L ! m \<noteq> []" using assms word_ne by auto
  assume "node_of L (butlast (L ! m)) = n"
  then have "L ! n = butlast (L ! m)" using nodeI(2) butlast_in [OF m] by auto
  then have "L ! m = L ! n @ [last (L ! m)]" using m by simp
  then show "\<exists>c<53. L ! m = L ! n @ [c]" using last_less [OF m] by blast
next
  assume "\<exists>c<53. L ! m = L ! n @ [c]"
  then show "node_of L (butlast (L ! m)) = n" using assms(3) dist by (auto simp: node_of_nth)
qed

lemma kid_iff:
  assumes n: "n < length L"
  shows "m \<in> set (kids L n) \<longleftrightarrow> m < length L \<and> m \<noteq> 0 \<and> node_of L (butlast (L ! m)) = n"
proof
  assume "m \<in> set (kids L n)"
  then obtain c where c: "c < 53" "L ! n @ [c] \<in> set L" "m = node_of L (L ! n @ [c])"
    by (auto simp: kids_def kid_chars_def)
  then have m: "m < length L" "m \<noteq> 0" "L ! m = L ! n @ [c]" using nodeI [of "L ! n @ [c]"] node_0_iff [of "L ! n @ [c]"] by auto
  then show "m < length L \<and> m \<noteq> 0 \<and> node_of L (butlast (L ! m)) = n" using child_of n c(1) by blast
next
  assume m: "m < length L \<and> m \<noteq> 0 \<and> node_of L (butlast (L ! m)) = n"
  then obtain c where c: "c < 53" "L ! m = L ! n @ [c]" using child_of n by blast
  then have "c \<in> set (kid_chars L n)" "m = node_of L (L ! n @ [c])"
    using m dist node_of_nth [of L m] nth_mem [of m L] by (auto simp: kid_chars_def)
  then show "m \<in> set (kids L n)" by (auto simp: kids_def)
qed

lemma kid_word: "m \<in> set (kids L n) \<Longrightarrow> \<exists>c\<in>set (kid_chars L n). L ! m = L ! n @ [c] \<and> m = node_of L (L ! n @ [c])"
  using nodeI(2) by (auto simp: kids_def kid_chars_def)

lemma kid_inj: "inj_on (\<lambda>c. node_of L (L ! n @ [c])) (set (kid_chars L n))"
  using node_inject by (intro inj_onI) (auto simp: kid_chars_def)

lemma distinct_kids: "distinct (kids L n)"
  using kid_inj by (simp add: kids_def distinct_map kid_chars_def)

lemma kid_fresh:
  assumes "bfs_inv L D (n # q) ac" "m \<in> set (kids L n)"
  shows "m \<notin> D \<union> set (n # q)"
  using assms bfs_front [OF assms(1)] bfs_invD(9) [OF assms(1), of m] by (auto simp: kid_iff)

text \<open>The automaton after a node has been processed.\<close>

definition bfs_next :: "nat \<Rightarrow> ACAutomaton \<Rightarrow> ACAutomaton" where
  "bfs_next n ac = ac\<lparr>
     trie := (trie ac)[n := build_row (trie ac ! n) (trie ac ! (fail ac ! n)) 53],
     fail := build_fail (trie ac ! n) (trie ac ! (fail ac ! n)) (kid_chars L n) (fail ac)\<rparr>"

lemma build_edges_bfs:
  assumes I: "bfs_inv L D (n # q) ac"
  shows "fold (build_edge n) [0..<53] (ac, q) = (bfs_next n ac, q @ kids L n)"
proof -
  note F = bfs_front [OF I] and R = bfs_front_row [OF I]
  have cs: "build_children (trie ac ! n) 53 = kid_chars L n"
    unfolding build_children_def kid_chars_def using R node_0_iff by (intro filter_cong) auto
  have "nextNode (trie ac ! n ! c) \<noteq> n" if "c < 53" for c
  proof (cases "L ! n @ [c] \<in> set L")
    case True
    with that have "node_of L (L ! n @ [c]) \<in> set (kids L n)" by (auto simp: kids_def kid_chars_def)
    with kid_fresh [OF I] R [OF that] show ?thesis by auto
  next
    case False
    with R [OF that] F(2) show ?thesis by (simp add: node_of_notin)
  qed
  moreover have "map (\<lambda>c. nextNode (trie ac ! n ! c)) (kid_chars L n) = kids L n"
    unfolding kids_def using R by (intro map_cong) (auto simp: kid_chars_def)
  ultimately show ?thesis
    using build_edges [of n ac 53 q] F bfs_invD(1) [OF I] by (simp add: bfs_next_def cs)
qed

lemma bfs_next_row:
  assumes I: "bfs_inv L D (n # q) ac" and m: "m < length L" and c: "c < 53"
  shows "trie (bfs_next n ac) ! m ! c = \<lparr>edgeType = (L ! m @ [c] \<in> set L),
    nextNode = node_of L (if m \<in> insert n D \<or> m = 0 then lsuf (set L) (L ! m @ [c]) else L ! m @ [c])\<rparr>"
proof (cases "m = n")
  case True
  note F = bfs_front [OF I]
  have "trie (bfs_next n ac) ! m ! c = build_row (trie ac ! n) (trie ac ! (fail ac ! n)) 53 ! c"
    using True m bfs_invD(1) [OF I] by (simp add: bfs_next_def)
  then show ?thesis
    using True F(6) c bfs_front_row [OF I c] bfs_front_fail [OF I c] node_0_iff [of "L ! n @ [c]"]
    by (auto simp: build_row_nth lsuf_id lsuf_skip)
next
  case False
  then show ?thesis using bfs_row_done [OF I _ m c] bfs_row_todo [OF I _ m c] by (auto simp: bfs_next_def)
qed

lemma bfs_next_fail:
  assumes I: "bfs_inv L D (n # q) ac" and m: "m \<in> insert n D \<union> set (q @ kids L n)"
  shows "fail (bfs_next n ac) ! m = node_of L (lsuf (set L) (tl (L ! m)))"
proof (cases "m \<in> set (kids L n)")
  case True
  from kid_word [OF True] obtain c where c: "c \<in> set (kid_chars L n)" "L ! m = L ! n @ [c]" "m = node_of L (L ! n @ [c])" by blast
  have c53: "c' < 53" if "c' \<in> set (kid_chars L n)" for c' using that by (simp add: kid_chars_def)
  have eq: "nextNode (trie ac ! n ! c') = node_of L (L ! n @ [c'])" if "c' \<in> set (kid_chars L n)" for c'
    using bfs_front_row [OF I c53 [OF that]] by simp
  have "inj_on (\<lambda>c. nextNode (trie ac ! n ! c)) (set (kid_chars L n))"
    using kid_inj [of n] eq by (simp add: inj_on_def)
  moreover have "distinct (kid_chars L n)" by (simp add: kid_chars_def)
  moreover have "m < length (fail ac)" using True kid_iff bfs_front(1) [OF I] bfs_invD(2) [OF I] by simp
  ultimately have "fail (bfs_next n ac) ! m = nextNode (trie ac ! (fail ac ! n) ! c)"
    using c build_fail_at [of "trie ac ! n" "kid_chars L n" c] eq [OF c(1)] by (simp add: bfs_next_def)
  then show ?thesis using bfs_front_fail [OF I c53 [OF c(1)]] c(2) by simp
next
  case False
  then have "\<forall>c\<in>set (kid_chars L n). nextNode (trie ac ! n ! c) \<noteq> m"
    using bfs_front_row [OF I] by (auto simp: kids_def kid_chars_def)
  then have "fail (bfs_next n ac) ! m = fail ac ! m" by (simp add: bfs_next_def build_fail_other)
  moreover have "m \<in> D \<union> set (n # q)" using m False by auto
  ultimately show ?thesis using bfs_invD(4) [OF I] by simp
qed

lemma bfs_next_depth:
  assumes I: "bfs_inv L D (n # q) ac"
  shows "sorted (map (\<lambda>m. length (L ! m)) (q @ kids L n))"
    and "m \<in> set (q @ kids L n) \<Longrightarrow> length (L ! m) \<le> Suc (length (L ! hd (q @ kids L n)))"
proof -
  have k: "length (L ! m) = Suc (length (L ! n))" if "m \<in> set (kids L n)" for m using kid_word [OF that] by auto
  have b: "length (L ! n) \<le> length (L ! m)" "length (L ! m) \<le> Suc (length (L ! n))" if "m \<in> set q" for m
    using bfs_invD(10,11) [OF I] that by auto
  have "sorted (map (\<lambda>m. length (L ! m)) q)" using bfs_invD(10) [OF I] by simp
  moreover have "sorted (map (\<lambda>m. length (L ! m)) (kids L n))"
    using k by (intro sorted_iff_nth_mono [THEN iffD2]) (simp add: nth_mem)
  ultimately show "sorted (map (\<lambda>m. length (L ! m)) (q @ kids L n))" using k b by (auto simp: sorted_append)
  show "length (L ! m) \<le> Suc (length (L ! hd (q @ kids L n)))" if "m \<in> set (q @ kids L n)"
  proof -
    have "hd (q @ kids L n) \<in> set q \<union> set (kids L n)" using that by (cases q; cases "kids L n") auto
    then have "length (L ! n) \<le> length (L ! hd (q @ kids L n))" using k b by fastforce
    moreover have "length (L ! m) \<le> Suc (length (L ! n))" using that k b by auto
    ultimately show ?thesis by linarith
  qed
qed

lemma bfs_next_inv:
  assumes I: "bfs_inv L D (n # q) ac"
  shows "bfs_inv L (insert n D) (q @ kids L n) (bfs_next n ac)"
proof -
  note F = bfs_front [OF I] and E = bfs_invD [OF I]
  have rows: "length (trie (bfs_next n ac) ! m) = 53" if "m < length L" for m
    using that E(3) F(6) by (cases "m = n") (auto simp: bfs_next_def build_row_def E(1))
  have queue: "set (q @ kids L n) \<inter> insert n D = {}" "distinct (q @ kids L n)"
    using E(5,6) kid_fresh [OF I] distinct_kids by auto
  have parent: "m \<in> insert n D \<union> set (q @ kids L n) \<longleftrightarrow> node_of L (butlast (L ! m)) \<in> insert 0 (insert n D)"
    if "m < length L" "m \<noteq> 0" for m
    using E(9) [OF that] that F(1) by (auto simp: kid_iff)
  have range: "0 \<notin> set (q @ kids L n) \<union> insert n D" "set (q @ kids L n) \<union> insert n D \<subseteq> {..<length L}"
    using E(7,8) F(1,2) by (auto simp: kid_iff)
  have "length (trie (bfs_next n ac)) = length L" "length (fail (bfs_next n ac)) = length L"
    using E(1,2) by (simp_all add: bfs_next_def)
  then show ?thesis unfolding bfs_inv_def
    by (intro conjI allI ballI impI)
      (assumption | rule rows queue parent range bfs_next_row [OF I] bfs_next_fail [OF I] bfs_next_depth [OF I])+
qed

text \<open>At the end of the search every node is finished, and the search ends.\<close>

definition built :: "ACAutomaton \<Rightarrow> bool" where
  "built ac \<longleftrightarrow> (\<forall>n<length L. \<forall>c<53. trie ac ! n ! c =
     \<lparr>edgeType = (L ! n @ [c] \<in> set L), nextNode = node_of L (lsuf (set L) (L ! n @ [c]))\<rparr>)"

lemma bfs_all_done:
  assumes I: "bfs_inv L D [] ac"
  shows "w \<in> set L \<Longrightarrow> node_of L w \<in> insert 0 D"
proof (induction w rule: rev_induct)
  case (snoc c w)
  have m: "node_of L (w @ [c]) < length L" "L ! node_of L (w @ [c]) = w @ [c]" "node_of L (w @ [c]) \<noteq> 0"
    using nodeI snoc.prems node_0_iff by auto
  have "w \<in> set L" using pc snoc.prems by (auto simp: prefix_closed_def)
  with snoc.IH bfs_invD(9) [OF I m(1,3)] m(2) show ?case by auto
qed simp

lemma Build_loop_returns:
  "bfs_inv L D q ac \<Longrightarrow> \<exists>ac'. Build_loop q ac = Some ac' \<and> built ac' \<and> exists ac' = exists ac"
proof (induction "length L - card D" arbitrary: D q ac rule: less_induct)
  case less
  show ?case
  proof (cases q)
    case Nil
    have "built ac" unfolding built_def
      using bfs_row_done [OF less.prems] bfs_all_done [OF less.prems [unfolded Nil]] dist
      by (metis node_of_nth nth_mem)
    with Nil show ?thesis by (simp add: Build_loop.simps)
  next
    case (Cons n q')
    note I = less.prems [unfolded Cons] and F = bfs_front [OF less.prems [unfolded Cons]]
    have fin: "finite D" "insert n D \<subseteq> {..<length L}" using bfs_invD(8) [OF I] by (auto intro: finite_subset)
    then have "card (insert n D) \<le> length L" using card_mono [OF finite_lessThan, of "insert n D" "length L"] by simp
    with fin F(3) have "length L - card (insert n D) < length L - card D" by simp
    from less.hyps [OF this bfs_next_inv [OF I]] show ?thesis
      using Cons build_edges_bfs [OF I]
      by (subst Build_loop.simps) (simp add: validCharCount_def bfs_next_def)
  qed
qed

lemma bfs_start:
  assumes T: "trie_inv L ac"
  shows "bfs_inv L {} (kids L 0) ac"
proof -
  have L0: "0 < length L" using ne by simp
  have one: "lsuf (set L) [c] = (if [c] \<in> set L then [c] else [])" for c by simp
  have row: "trie ac ! n ! c = \<lparr>edgeType = (L ! n @ [c] \<in> set L),
      nextNode = node_of L (if n \<in> {} \<or> n = 0 then lsuf (set L) (L ! n @ [c]) else L ! n @ [c])\<rparr>"
    if "n < length L" "c < 53" for n c
    using trie_inv_row [OF T that] root node_of_notin [of "[c]" L] by (auto simp: one)
  have len: "length (L ! m) = 1" if "m \<in> set (kids L 0)" for m using kid_word [OF that] root by auto
  have fl: "fail ac ! m = node_of L (lsuf (set L) (tl (L ! m)))" if "m \<in> {} \<union> set (kids L 0)" for m
  proof -
    have "L ! m \<noteq> []" "tl (L ! m) = []" using len [of m] that by (auto simp: length_Suc_conv)
    moreover have "m < length L" using that kid_iff [OF L0] by simp
    ultimately show ?thesis using T by (simp add: trie_inv_def)
  qed
  have rows: "length (trie ac ! n) = 53" if "n < length L" for n using T that by (simp add: trie_inv_def)
  have parent: "m \<in> {} \<union> set (kids L 0) \<longleftrightarrow> node_of L (butlast (L ! m)) \<in> insert 0 {}" if "m < length L" "m \<noteq> 0" for m
    using that kid_iff [OF L0, of m] by simp
  have range: "0 \<notin> set (kids L 0) \<union> {}" "set (kids L 0) \<union> {} \<subseteq> {..<length L}" "set (kids L 0) \<inter> {} = {}"
    using kid_iff [OF L0] by auto
  have sorted: "sorted (map (\<lambda>m. length (L ! m)) (kids L 0))"
    using len by (intro sorted_iff_nth_mono [THEN iffD2]) (simp add: nth_mem)
  have depth: "length (L ! m) \<le> Suc (length (L ! hd (kids L 0)))" if "m \<in> set (kids L 0)" for m
    using that len by simp
  show ?thesis unfolding bfs_inv_def
    by (intro conjI allI ballI impI)
      (assumption | rule rows parent range row fl sorted depth distinct_kids trie_invD(5,7) [OF T])+
qed

lemma Build_returns:
  assumes T: "trie_inv L ac"
  shows "\<exists>ac'. ACAutomaton_Build ac = Some ac' \<and> built ac' \<and> exists ac' = exists ac"
proof -
  have L0: "0 < length L" using ne by simp
  have "filter (\<lambda>i. nextNode (trie ac ! 0 ! i) \<noteq> 0) [0..<validCharCount] = kid_chars L 0"
    unfolding kid_chars_def validCharCount_def
    using trie_inv_row [OF T L0] node_0_iff root by (intro filter_cong) auto
  moreover have "map (\<lambda>i. nextNode (trie ac ! 0 ! i)) (kid_chars L 0) = kids L 0"
    unfolding kids_def using trie_inv_row [OF T L0] by (intro map_cong) (auto simp: kid_chars_def)
  ultimately show ?thesis using Build_loop_returns [OF bfs_start [OF assms]] by (simp add: ACAutomaton_Build_def)
qed

text \<open>Reading a word leads to the node of its longest suffix in the trie, and \<^verbatim>\<open>Match\<close> answers true at
  the first mark on the way.\<close>

lemma Match_loop_built:
  assumes B: "built ac" and M: "marks P L ac" and P: "[] \<notin> P"
  shows "\<forall>b\<in>set bs. unat b < 127 \<Longrightarrow> lsuf (set L) t \<notin> P \<Longrightarrow>
    ac_Match_loop ac bs (node_of L (lsuf (set L) t)) full \<longleftrightarrow>
    (\<exists>u. u \<noteq> [] \<and> prefix u (map char_class bs) \<and> lsuf (set L) (t @ u) \<in> P)"
proof (induction bs arbitrary: t full)
  case Nil
  have "lsuf (set L) t \<in> set L" using Nil_in by (rule lsuf_in)
  then show ?case using M Nil nodeI [of "lsuf (set L) t"] by (simp add: marks_def no_match_def)
next
  case (Cons b bs)
  let ?v = "lsuf (set L) t" and ?v' = "lsuf (set L) (t @ [char_class b])"
  have v: "?v \<in> set L" "?v' \<in> set L" using Nil_in by (simp_all add: lsuf_in)
  have edge: "nextNode (trie ac ! node_of L ?v ! char_class b) = node_of L ?v'"
    using B nodeI [OF v(1)] Cons.prems(1) lsuf_snoc [OF pc] by (simp add: built_def)
  have mark: "exists ac ! node_of L ?v' = (if ?v' \<in> P then \<lparr>matchType = MSubstr, exist = True\<rparr> else no_match)"
    using M nodeI [OF v(2)] by (simp add: marks_def)
  have cc: "char2Index ! unat b = char_class b" using Cons.prems(1) by (simp add: char_class_def)
  have ex: "(\<exists>u. u \<noteq> [] \<and> prefix u (map char_class (b # bs)) \<and> lsuf (set L) (t @ u) \<in> P) \<longleftrightarrow>
      ?v' \<in> P \<or> (\<exists>u. u \<noteq> [] \<and> prefix u (map char_class bs) \<and> lsuf (set L) ((t @ [char_class b]) @ u) \<in> P)"
    using ex_prefix_Cons [of "char_class b" "map char_class bs" "\<lambda>u. lsuf (set L) (t @ u) \<in> P"] by simp
  show ?case
  proof (cases "?v' \<in> P")
    case True
    then show ?thesis unfolding ex using Cons.prems(1) mark edge
      by (simp add: cc Let_def)
  next
    case False
    with Cons.IH [OF _ False] Cons.prems(1) mark edge show ?thesis unfolding ex
      by (simp add: cc Let_def no_match_def)
  qed
qed

end


section \<open>The automaton of a list of keywords\<close>

lemma set_ac_words: "set (ac_words ps) = insert [] (\<Union>p\<in>set ps. set (prefixes (key p)))"
  by (auto simp: ac_words_def)

lemma distinct_add_words: "distinct L \<Longrightarrow> distinct (add_words ws L)"
  by (induction ws arbitrary: L) (auto simp: add_words_def add_word_def)

lemma nth_0_add_words: "L \<noteq> [] \<Longrightarrow> add_words ws L ! 0 = L ! 0"
  using prefix_nth [OF prefix_add_words, of 0 L ws] by simp

text \<open>The numbering that \<^verbatim>\<open>Add\<close> makes.\<close>

interpretation kw: word_numbering "ac_words ps" for ps
proof
  show "distinct (ac_words ps)" by (simp add: ac_words_def distinct_add_words)
  show "ac_words ps \<noteq> []" using set_ac_words [of ps] by fastforce
  show "ac_words ps ! 0 = []" by (simp add: ac_words_def nth_0_add_words)
  show "prefix_closed (set (ac_words ps))"
    by (auto simp: set_ac_words prefix_closed_def dest: append_prefixD)
  show "c < 53" if "w \<in> set (ac_words ps)" "c \<in> set w" for w c
    using that by (fastforce simp: set_ac_words key_def dest!: set_mono_prefix)
qed

text \<open>The automaton is always built, and it accepts a name exactly when, at some point of the
  reading, the longest suffix read so far that starts a keyword is a whole keyword.\<close>

lemma ac_of_spec:
  assumes ps: "\<forall>p\<in>set ps. p \<noteq> [] \<and> (\<forall>b\<in>set p. unat b < 127)"
  obtains ac where "ac_of ps = Some ac"
    "\<And>s. \<forall>b\<in>set s. unat b < 127 \<Longrightarrow> ACAutomaton_Match ac s \<longleftrightarrow>
      (\<exists>u. prefix u (key s) \<and> lsuf (set (ac_words ps)) u \<in> key ` set ps)"
proof -
  let ?P = "key ` set ps" and ?L = "ac_words ps"
  have "marks {} [[]] NewACAutomaton" by (simp add: marks_def NewACAutomaton_def)
  with ac_adds_spec [OF trie_inv_New, of "{}" ps] ps obtain ac1 where
    1: "ac_adds ps NewACAutomaton = Some ac1" "trie_inv ?L ac1" "marks ?P ?L ac1" by (auto simp: ac_words_def)
  obtain ac where 2: "ACAutomaton_Build ac1 = Some ac" "word_numbering.built ?L ac" "exists ac = exists ac1"
    using kw.Build_returns [OF 1(2)] by blast
  have M: "marks ?P ?L ac" using 1(3) 2(3) by (simp add: marks_def)
  have P: "[] \<notin> ?P" using ps by (auto simp: key_def)
  have "ACAutomaton_Match ac s \<longleftrightarrow> (\<exists>u. prefix u (key s) \<and> lsuf (set ?L) u \<in> ?P)" if "\<forall>b\<in>set s. unat b < 127" for s
  proof -
    have "ACAutomaton_Match ac s \<longleftrightarrow> (\<exists>u. u \<noteq> [] \<and> prefix u (key s) \<and> lsuf (set ?L) u \<in> ?P)"
      using kw.Match_loop_built [OF 2(2) M P, of "rev s" "[]" True] that P
      by (simp add: ACAutomaton_Match_def key_def)
    moreover have "lsuf (set ?L) [] \<notin> ?P" using P by simp
    ultimately show ?thesis by metis
  qed
  then show ?thesis using that 1(1) 2(1) by (simp add: ac_of_def)
qed

text \<open>In words: the answer is a keyword of the name, read backwards. Where no keyword lies inside
  another, the longest suffix that starts a keyword is the keyword itself.\<close>

lemma key_sublist: "sublist (key p) (key s) \<longleftrightarrow> sublist (map char_class p) (map char_class s)"
  by (simp add: key_def rev_map [symmetric])

definition inner_free :: "byte list list \<Rightarrow> bool" where
  "inner_free ps \<longleftrightarrow> (\<forall>p\<in>set ps. \<forall>q\<in>set ps. Contains q p \<longrightarrow> p = q)"

lemma lsuf_keyword_sound:
  assumes "prefix u (key s)" "lsuf T u \<in> key ` set ps"
  shows "\<exists>p\<in>set ps. sublist (key p) (key s)"
proof -
  obtain p where p: "p \<in> set ps" "lsuf T u = key p" using assms(2) by auto
  with assms(1) lsuf_suffix [of T u] show ?thesis
    by (metis prefix_imp_sublist sublist_order.order_trans suffix_imp_sublist)
qed

lemma lsuf_keyword_complete:
  assumes free: "\<And>p q. p \<in> set ps \<Longrightarrow> q \<in> set ps \<Longrightarrow> sublist (key p) (key q) \<Longrightarrow> key p = key q"
    and p: "p \<in> set ps" "sublist (key p) w"
  shows "\<exists>u. prefix u w \<and> lsuf (set (ac_words ps)) u \<in> key ` set ps"
proof -
  obtain a b where w: "w = a @ key p @ b" using p(2) by (auto simp: sublist_def)
  let ?v = "lsuf (set (ac_words ps)) (a @ key p)"
  have T: "key p \<in> set (ac_words ps)" using p(1) by (auto simp: set_ac_words)
  have v: "suffix (key p) ?v" by (rule lsuf_greatest [OF _ T]) (simp add: suffix_def)
  have "?v \<in> set (ac_words ps)" by (rule lsuf_in) (simp add: set_ac_words)
  then consider "?v = []" | q where "q \<in> set ps" "prefix ?v (key q)" by (auto simp: set_ac_words)
  then have "?v \<in> key ` set ps"
  proof cases
    case 1
    with v have "?v = key p" by simp
    with p(1) show ?thesis by blast
  next
    case 2
    from v 2(2) have "sublist (key p) (key q)"
      by (meson prefix_imp_sublist sublist_order.order_trans suffix_imp_sublist)
    with free [OF p(1) 2(1)] have "key p = key q" .
    with 2(2) have "length ?v \<le> length (key p)" by (auto dest: prefix_length_le)
    with v have "?v = key p" by (auto simp: suffix_def)
    with p(1) show ?thesis by blast
  qed
  moreover have "prefix (a @ key p) w" using w by simp
  ultimately show ?thesis by blast
qed

lemma sublist_char_class:
  assumes "\<forall>b\<in>set p. keyword_byte b" "\<forall>b\<in>set s. keyword_byte b"
  shows "sublist (map char_class p) (map char_class s) \<longleftrightarrow> sublist p s"
proof
  assume "sublist (map char_class p) (map char_class s)"
  then obtain A B where "map char_class s = A @ map char_class p @ B" by (auto simp: sublist_def)
  then have "map char_class (take (length p) (drop (length A) s)) = map char_class p"
    by (simp add: take_map [symmetric] drop_map [symmetric])
  then obtain a p' b where s: "s = a @ p' @ b" "map char_class p' = map char_class p"
    using that [of "take (length A) s" "take (length p) (drop (length A) s)" "drop (length p) (drop (length A) s)"]
    by (metis append_take_drop_id)
  have "set p' \<union> set p \<subseteq> {b. keyword_byte b}" using s assms by auto
  then have "p' = p" using s(2) inj_on_subset [OF inj_char_class] by (metis inj_on_map_eq_map)
  with s show "sublist p s" by auto
qed (rule map_mono_sublist)




text \<open>Bytes without an entry in the table have the index of the letter a.\<close>

lemma ac_slash_is_a:
  "map_option (\<lambda>ac. ACAutomaton_Match ac (bytes_of ''x/b'')) (ac_of [bytes_of ''ab'']) = Some True"
  by code_simp

end
