(* ===== verification/Mph_Matcher.thy ===== *)
theory Mph_Matcher
  imports Ac_Automaton "HOL-Library.Multiset"
begin

text \<open>
  The compiled group of domain rules, \<^verbatim>\<open>common/strmatcher/mph_matcher.go\<close>: full names and domains in
  a two-level hash table without collisions, keywords in an automaton (\<^verbatim>\<open>Ac_Automaton\<close>), regular
  expressions one by one. \<^verbatim>\<open>Build\<close> ranges over a Go map, in an order the language leaves open, and
  sorts with \<^verbatim>\<open>sort.Sort\<close>, which need not be stable: the order of the map is the argument
  \<open>order\<close>, any arrangement of its entries, and the sort the argument \<open>srt\<close>. \<^verbatim>\<open>strings.ToLower\<close>
  is the argument \<open>lower\<close>. Memory that the hash function reads through pointers is the list of the
  bytes of the string. The search for a seed that places a bucket tries all 32-bit seeds in turn and
  never ends when none fits, so it is a partial function; it returns exactly when some seed fits.
\<close>

section \<open>Hash functions\<close>

definition PrimeRK :: u32 where
  "PrimeRK = 16777619"

definition RollingHash :: "byte list \<Rightarrow> u32" where
  "RollingHash s = foldr (\<lambda>b h. h * PrimeRK + ucast b) s 0"

definition m1 :: u64 where "m1 = 16877499708836156737"
definition m2 :: u64 where "m2 = 2820277070424839065"
definition m3 :: u64 where "m3 = 9497967016996688599"
definition m4 :: u64 where "m4 = 15839092249703872147"

definition rotl31 :: "u64 \<Rightarrow> u64" where
  "rotl31 x = push_bit 31 x OR drop_bit (64 - 31) x"

definition readUnaligned32 :: "byte list \<Rightarrow> u32" where
  "readUnaligned32 q = ucast (q ! 0) OR push_bit 8 (ucast (q ! 1)) OR push_bit 16 (ucast (q ! 2)) OR
     push_bit 24 (ucast (q ! 3))"

definition readUnaligned64 :: "byte list \<Rightarrow> u64" where
  "readUnaligned64 q = ucast (q ! 0) OR push_bit 8 (ucast (q ! 1)) OR push_bit 16 (ucast (q ! 2)) OR
     push_bit 24 (ucast (q ! 3)) OR push_bit 32 (ucast (q ! 4)) OR push_bit 40 (ucast (q ! 5)) OR
     push_bit 48 (ucast (q ! 6)) OR push_bit 56 (ucast (q ! 7))"

text \<open>The cases of the switch for at most 32 bytes.\<close>

definition memhash_short :: "u64 \<Rightarrow> byte list \<Rightarrow> u64" where
  "memhash_short h p =
     (let s = length p in
      if s = 0 then h
      else if s < 4 then
        rotl31 ((h XOR ucast (p ! 0) XOR push_bit 8 (ucast (p ! (s div 2))) XOR push_bit 16 (ucast (p ! (s - 1)))) * m1) * m2
      else if s \<le> 8 then
        rotl31 ((h XOR ucast (readUnaligned32 p) XOR push_bit 32 (ucast (readUnaligned32 (drop (s - 4) p)))) * m1) * m2
      else if s \<le> 16 then
        let h = rotl31 ((h XOR readUnaligned64 p) * m1) * m2
        in rotl31 ((h XOR readUnaligned64 (drop (s - 8) p)) * m1) * m2
      else
        let h = rotl31 ((h XOR readUnaligned64 p) * m1) * m2;
            h = rotl31 ((h XOR readUnaligned64 (drop 8 p)) * m1) * m2;
            h = rotl31 ((h XOR readUnaligned64 (drop (s - 16) p)) * m1) * m2
        in rotl31 ((h XOR readUnaligned64 (drop (s - 8) p)) * m1) * m2)"

text \<open>The loop of the default case, 32 bytes at a time.\<close>

function memhash_lanes :: "u64 \<Rightarrow> u64 \<Rightarrow> u64 \<Rightarrow> u64 \<Rightarrow> byte list \<Rightarrow> u64 \<times> byte list" where
  "memhash_lanes v1 v2 v3 v4 p =
     (if length p \<ge> 32 then
        memhash_lanes
          (rotl31 ((v1 XOR readUnaligned64 p) * m1) * m2)
          (rotl31 ((v2 XOR readUnaligned64 (drop 8 p)) * m2) * m3)
          (rotl31 ((v3 XOR readUnaligned64 (drop 16 p)) * m3) * m4)
          (rotl31 ((v4 XOR readUnaligned64 (drop 24 p)) * m4) * m1)
          (drop 32 p)
      else (v1 XOR v2 XOR v3 XOR v4, p))"
  by auto
termination by (relation "measure (\<lambda>(_, _, _, _, p). length p)") auto

declare memhash_lanes.simps [simp del]

text \<open>The hash keys are all 1.\<close>

definition memhashFallback :: "byte list \<Rightarrow> u64 \<Rightarrow> u64" where
  "memhashFallback p seed =
     (let h = seed + of_nat (length p);
          (h, p) = (if length p \<le> 32 then (h, p) else memhash_lanes h seed seed seed p);
          h = memhash_short h p;
          h = h XOR drop_bit 29 h;
          h = h * m3
      in h XOR drop_bit 32 h)"

definition strhashFallback :: "byte list \<Rightarrow> u64 \<Rightarrow> u64" where
  "strhashFallback s h = memhashFallback s h"

text \<open>\<^verbatim>\<open>bits.LeadingZeros\<close> of a 64-bit integer, and the power of two above a number.\<close>

fun bit_length :: "nat \<Rightarrow> nat" where
  "bit_length n = (if n = 0 then 0 else Suc (bit_length (n div 2)))"

declare bit_length.simps [simp del]

definition LeadingZeros :: "nat \<Rightarrow> nat" where
  "LeadingZeros v = 64 - bit_length v"

definition nextPow2 :: "nat \<Rightarrow> nat" where
  "nextPow2 v = (if v \<le> 1 then 1 else unat (drop_bit (LeadingZeros v) (- 1 :: u64) + 1))"

section \<open>The group\<close>

record 're MphMatcherGroup =
  mph_ac :: "ACAutomaton option"
  mph_other :: "('re Matcher \<times> u32) list"
  rules :: "byte list list"
  level0 :: "u32 list"
  level0Mask :: nat
  level1 :: "u32 list"
  level1Mask :: nat
  mph_count :: u32
  ruleMap :: "(byte list \<times> u32) list option"

definition NewMphMatcherGroup :: "'re MphMatcherGroup" where
  "NewMphMatcherGroup = \<lparr>mph_ac = None, mph_other = [], rules = [], level0 = [], level0Mask = 0,
     level1 = [], level1Mask = 0, mph_count = 1, ruleMap = Some []\<rparr>"

text \<open>After \<^verbatim>\<open>Build\<close> the map is nil and a further rule panics.\<close>

definition AddFullOrDomainPattern :: "byte list \<Rightarrow> MatcherType \<Rightarrow> 're MphMatcherGroup \<Rightarrow> 're MphMatcherGroup option" where
  "AddFullOrDomainPattern pat t g =
     (let h = RollingHash pat in
      case t of
        MDomain \<Rightarrow> (case ruleMap g of None \<Rightarrow> None
          | Some m \<Rightarrow> Some (g\<lparr>ruleMap := Some (AList.update pat h
              (AList.update (dot # pat) (h * PrimeRK + ucast dot) m))\<rparr>))
      | MFull \<Rightarrow> (case ruleMap g of None \<Rightarrow> None
          | Some m \<Rightarrow> Some (g\<lparr>ruleMap := Some (AList.update pat h m)\<rparr>))
      | _ \<Rightarrow> Some g)"

text \<open>The result is the number of the pattern or the error of the regular expression, and the group.\<close>

definition AddPattern ::
  "(byte list \<Rightarrow> byte list) \<Rightarrow> (byte list \<Rightarrow> 'e + 're) \<Rightarrow> byte list \<Rightarrow> MatcherType \<Rightarrow> 're MphMatcherGroup \<Rightarrow>
   (('e + u32) \<times> 're MphMatcherGroup) option" where
  "AddPattern lower compile pat t g =
     (case t of
        MSubstr \<Rightarrow>
          let ac = (case mph_ac g of None \<Rightarrow> NewACAutomaton | Some ac \<Rightarrow> ac)
          in (case ACAutomaton_Add pat t ac of None \<Rightarrow> None
              | Some ac \<Rightarrow> Some (Inr (mph_count g), g\<lparr>mph_ac := Some ac\<rparr>))
      | MRegex \<Rightarrow>
          (case compile pat of Inl e \<Rightarrow> Some (Inl e, g)
           | Inr r \<Rightarrow> Some (Inr (mph_count g), g\<lparr>mph_other := mph_other g @ [(regexMatcher r, mph_count g)]\<rparr>))
      | MUnknown _ \<Rightarrow> None
      | _ \<Rightarrow>
          (case AddFullOrDomainPattern (lower pat) t g of None \<Rightarrow> None
           | Some g \<Rightarrow> Some (Inr (mph_count g), g)))"

section \<open>Building the table\<close>

text \<open>A 64-bit hash becomes a signed \<^verbatim>\<open>int\<close> before it is masked.\<close>

definition bucket_of :: "nat \<Rightarrow> u32 \<Rightarrow> nat" where
  "bucket_of msk h = nat (uint h AND int msk)"

definition slot_of :: "nat \<Rightarrow> u32 \<Rightarrow> byte list \<Rightarrow> nat" where
  "slot_of msk seed s = nat (sint (strhashFallback s (ucast seed)) AND int msk)"

text \<open>One seed on the rules of one bucket: at the first collision the slots taken are released.\<close>

fun try_seed ::
  "byte list list \<Rightarrow> nat \<Rightarrow> u32 \<Rightarrow> nat list \<Rightarrow> bool list \<Rightarrow> nat list \<Rightarrow> u32 list \<Rightarrow> bool \<times> bool list \<times> u32 list" where
  "try_seed rs msk seed [] occ tmpOcc l1 = (True, occ, l1)"
| "try_seed rs msk seed (i # vals) occ tmpOcc l1 =
     (let n = slot_of msk seed (rs ! i) in
      if occ ! n then (False, fold (\<lambda>n occ. occ[n := False]) tmpOcc occ, l1)
      else try_seed rs msk seed vals (occ[n := True]) (tmpOcc @ [n]) (l1[n := of_nat i]))"

partial_function (option) find_seed ::
  "byte list list \<Rightarrow> nat \<Rightarrow> nat list \<Rightarrow> u32 \<Rightarrow> bool list \<Rightarrow> u32 list \<Rightarrow> (u32 \<times> bool list \<times> u32 list) option" where
  "find_seed rs msk vals seed occ l1 =
     (case try_seed rs msk seed vals occ [] l1 of
        (found, occ, l1) \<Rightarrow> if found then Some (seed, occ, l1) else find_seed rs msk vals (seed + 1) occ l1)"

declare find_seed.simps [code]

fun place_buckets ::
  "byte list list \<Rightarrow> nat \<Rightarrow> (nat \<times> nat list) list \<Rightarrow> bool list \<Rightarrow> u32 list \<Rightarrow> u32 list \<Rightarrow> (u32 list \<times> u32 list) option" where
  "place_buckets rs msk [] occ l0 l1 = Some (l0, l1)"
| "place_buckets rs msk ((n, vals) # buckets) occ l0 l1 =
     (case find_seed rs msk vals 0 occ l1 of None \<Rightarrow> None
      | Some (seed, occ, l1) \<Rightarrow> place_buckets rs msk buckets occ (l0[n := seed]) l1)"

definition sparse_buckets :: "nat \<Rightarrow> nat \<Rightarrow> (byte list \<times> u32) list \<Rightarrow> nat list list" where
  "sparse_buckets len msk order =
     fold (\<lambda>(ruleIdx, (rule, hash)) sb. let n = bucket_of msk hash in sb[n := sb ! n @ [ruleIdx]])
       (zip [0..<length order] order) (replicate len [])"

text \<open>The entries of the map, with the placeholder of an empty one.\<close>

definition map_entries :: "(byte list \<times> u32) list \<Rightarrow> (byte list \<times> u32) list" where
  "map_entries m = (if m = [] then [(bytes_of ''empty___'', RollingHash (bytes_of ''empty___''))] else m)"

definition build_order :: "(byte list \<times> u32) list \<Rightarrow> (byte list \<times> u32) list \<Rightarrow> bool" where
  "build_order m order \<longleftrightarrow> mset order = mset (map_entries m)"

definition by_size :: "((nat \<times> nat list) list \<Rightarrow> (nat \<times> nat list) list) \<Rightarrow> bool" where
  "by_size srt \<longleftrightarrow> (\<forall>bs. mset (srt bs) = mset bs \<and> sorted_wrt (\<lambda>a b. length (snd b) \<le> length (snd a)) (srt bs))"

text \<open>\<^verbatim>\<open>Build\<close>; it panics when the map is nil, that is when it is called again.\<close>

definition MphMatcherGroup_Build ::
  "((nat \<times> nat list) list \<Rightarrow> (nat \<times> nat list) list) \<Rightarrow> (byte list \<times> u32) list \<Rightarrow> 're MphMatcherGroup \<Rightarrow>
   're MphMatcherGroup option" where
  "MphMatcherGroup_Build srt order g =
     (case (case mph_ac g of None \<Rightarrow> Some None | Some ac \<Rightarrow> map_option Some (ACAutomaton_Build ac)) of
        None \<Rightarrow> None
      | Some ac \<Rightarrow>
        (case ruleMap g of None \<Rightarrow> None
         | Some m \<Rightarrow>
           let keyLen = length (map_entries m);
               l0 = replicate (nextPow2 (keyLen div 4)) 0;
               mask0 = length l0 - 1;
               l1 = replicate (nextPow2 keyLen) 0;
               mask1 = length l1 - 1;
               rs = rules g @ map fst order;
               sparse = sparse_buckets (length l0) mask0 order;
               buckets = srt (filter (\<lambda>b. snd b \<noteq> []) (zip [0..<length sparse] sparse))
           in (case place_buckets rs mask1 buckets (replicate (length l1) False) l0 l1 of None \<Rightarrow> None
               | Some (l0, l1) \<Rightarrow> Some (g\<lparr>mph_ac := ac, rules := rs, level0 := l0, level0Mask := mask0,
                   level1 := l1, level1Mask := mask1, ruleMap := None\<rparr>))))"

section \<open>Matching\<close>

definition nth_opt :: "'a list \<Rightarrow> nat \<Rightarrow> 'a option" where
  "nth_opt xs i = (if i < length xs then Some (xs ! i) else None)"

definition Lookup :: "u32 \<Rightarrow> byte list \<Rightarrow> 're MphMatcherGroup \<Rightarrow> bool option" where
  "Lookup h s g =
     (case nth_opt (level0 g) (bucket_of (level0Mask g) h) of None \<Rightarrow> None
      | Some seed \<Rightarrow>
        (case nth_opt (level1 g) (slot_of (level1Mask g) seed s) of None \<Rightarrow> None
         | Some n \<Rightarrow> (case nth_opt (rules g) (unat n) of None \<Rightarrow> None | Some r \<Rightarrow> Some (s = r))))"

text \<open>The loop over the name from its end: the hash of every suffix, a lookup at every dot. The first
  argument is the unread part, last byte first, the second the part read.\<close>

fun mph_scan :: "'re MphMatcherGroup \<Rightarrow> byte list \<Rightarrow> byte list \<Rightarrow> u32 \<Rightarrow> (bool \<times> u32) option" where
  "mph_scan g [] suf h = Some (False, h)"
| "mph_scan g (b # bs) suf h =
     (let h = h * PrimeRK + ucast b in
      if b = dot then
        (case Lookup h (b # suf) g of None \<Rightarrow> None
         | Some found \<Rightarrow> if found then Some (True, h) else mph_scan g bs (b # suf) h)
      else mph_scan g bs (b # suf) h)"

definition MphMatcherGroup_Match ::
  "('re \<Rightarrow> byte list \<Rightarrow> bool) \<Rightarrow> 're MphMatcherGroup \<Rightarrow> byte list \<Rightarrow> u32 list option" where
  "MphMatcherGroup_Match MatchString g s =
     (case mph_scan g (rev s) [] 0 of None \<Rightarrow> None
      | Some (found, h) \<Rightarrow>
          if found then Some [1]
          else (case Lookup h s g of None \<Rightarrow> None
            | Some found \<Rightarrow>
                if found then Some [1]
                else if (case mph_ac g of None \<Rightarrow> False | Some ac \<Rightarrow> ACAutomaton_Match ac s) then Some [1]
                else (case find (\<lambda>e. Matcher_Match MatchString (fst e) s) (mph_other g) of
                        None \<Rightarrow> Some [] | Some e \<Rightarrow> Some [snd e])))"

section \<open>The table\<close>

lemma nat_and_le: "nat (x AND int m) \<le> m"
  using AND_upper2 [of "int m" x] by (simp add: nat_le_iff)

lemma bucket_of_le: "bucket_of m h \<le> m"
  by (simp add: bucket_of_def nat_and_le)

lemma slot_of_le: "slot_of m seed s \<le> m"
  by (simp add: slot_of_def nat_and_le)

lemma RollingHash_Cons: "RollingHash (b # s) = RollingHash s * PrimeRK + ucast b"
  by (simp add: RollingHash_def)

text \<open>Reading an updated list; out-of-range updates change nothing.\<close>

lemma nth_upd: "j < length xs \<Longrightarrow> xs[a := x] ! j = (if a = j then x else xs ! j)"
  by (cases "a < length xs") auto

lemma fold_clear_nth:
  "j < length occ \<Longrightarrow> fold (\<lambda>n occ. occ[n := False]) ns occ ! j \<longleftrightarrow> occ ! j \<and> j \<notin> set ns"
  by (induction ns arbitrary: occ) (auto simp: nth_upd)

lemma length_fold_clear: "length (fold (\<lambda>n occ. occ[n := False]) ns occ) = length occ"
  by (induction ns arbitrary: occ) auto

text \<open>A failed attempt leaves the occupied slots as they were; a successful one stores every rule of
  the bucket in a slot of its own. Occupied slots are never overwritten.\<close>

lemma try_seed_False:
  "try_seed rs msk seed vals occ tmp l1 = (False, occ', l1') \<Longrightarrow> length occ = Suc msk \<Longrightarrow>
   occ' = fold (\<lambda>n occ. occ[n := False]) tmp occ"
proof (induction rs msk seed vals occ tmp l1 rule: try_seed.induct)
  case (2 rs msk seed i vals occ tmp l1)
  define n where "n = slot_of msk seed (rs ! i)"
  show ?case
  proof (cases "occ ! n")
    case False
    with 2 have "occ' = fold (\<lambda>n occ. occ[n := False]) (tmp @ [n]) (occ[n := True])"
      by (simp add: n_def [symmetric])
    also have "\<dots> = fold (\<lambda>n occ. occ[n := False]) tmp occ"
      using False slot_of_le [of msk seed "rs ! i"] "2.prems"(2)
      by (auto simp: n_def length_fold_clear fold_clear_nth nth_upd intro!: nth_equalityI split: if_splits)
    finally show ?thesis .
  qed (use 2 in \<open>simp add: n_def\<close>)
qed simp

definition kept :: "nat list \<Rightarrow> bool list \<Rightarrow> u32 list \<Rightarrow> u32 list \<Rightarrow> bool" where
  "kept vals occ l1 l1' \<longleftrightarrow> length l1' = length l1 \<and>
     (\<forall>j < length l1. (occ ! j \<longrightarrow> l1' ! j = l1 ! j) \<and> l1' ! j \<in> insert (l1 ! j) (of_nat ` set vals))"

definition stored :: "byte list list \<Rightarrow> nat \<Rightarrow> u32 \<Rightarrow> nat list \<Rightarrow> bool list \<Rightarrow> bool list \<Rightarrow> u32 list \<Rightarrow> bool" where
  "stored rs msk seed vals occ occ' l1' \<longleftrightarrow> length occ' = length occ \<and>
     (\<forall>j < length occ. occ ! j \<longrightarrow> occ' ! j) \<and>
     (\<forall>i \<in> set vals. occ' ! slot_of msk seed (rs ! i) \<and> l1' ! slot_of msk seed (rs ! i) = of_nat i)"

lemma kept_trans: "kept vals occ l1 l2 \<Longrightarrow> kept vals occ l2 l3 \<Longrightarrow> kept vals occ l1 l3"
  unfolding kept_def by (metis insertE insertI1 insertI2)

lemma try_seed_kept:
  "try_seed rs msk seed vals occ tmp l1 = (found, occ', l1') \<Longrightarrow> length occ = Suc msk \<Longrightarrow> length l1 = Suc msk \<Longrightarrow>
   kept vals occ l1 l1'"
proof (induction rs msk seed vals occ tmp l1 rule: try_seed.induct)
  case (2 rs msk seed i vals occ tmp l1)
  define n where "n = slot_of msk seed (rs ! i)"
  show ?case
  proof (cases "occ ! n")
    case False
    with 2 have "kept vals (occ[n := True]) (l1[n := of_nat i]) l1'" by (simp add: n_def [symmetric])
    then show ?thesis using False "2.prems"(2,3) unfolding kept_def
      by (auto simp: nth_upd split: if_splits)
  qed (use 2 in \<open>simp add: n_def kept_def\<close>)
qed (simp add: kept_def)

lemma try_seed_True:
  "try_seed rs msk seed vals occ tmp l1 = (True, occ', l1') \<Longrightarrow> length occ = Suc msk \<Longrightarrow> length l1 = Suc msk \<Longrightarrow>
   stored rs msk seed vals occ occ' l1'"
proof (induction rs msk seed vals occ tmp l1 rule: try_seed.induct)
  case (2 rs msk seed i vals occ tmp l1)
  define n where "n = slot_of msk seed (rs ! i)"
  have n: "n < Suc msk" using slot_of_le [of msk seed "rs ! i"] by (simp add: n_def)
  from "2.prems" have free: "\<not> occ ! n"
    and r: "try_seed rs msk seed vals (occ[n := True]) (tmp @ [n]) (l1[n := of_nat i]) = (True, occ', l1')"
    by (auto simp: n_def [symmetric] split: if_splits)
  have S: "stored rs msk seed vals (occ[n := True]) occ' l1'"
    using "2.IH" [OF n_def] free r "2.prems"(2,3) by simp
  have "kept vals (occ[n := True]) (l1[n := of_nat i]) l1'"
    using try_seed_kept [OF r] "2.prems"(2,3) by simp
  then have "l1' ! n = of_nat i" using n "2.prems"(2,3) by (simp add: kept_def)
  moreover have "occ' ! n" using S n "2.prems"(2) by (simp add: stored_def)
  ultimately show ?case using S n unfolding stored_def n_def [symmetric]
    by (auto simp: nth_upd n_def)
qed (simp add: stored_def)

definition seed_found :: "byte list list \<Rightarrow> nat \<Rightarrow> nat list \<Rightarrow> bool list \<Rightarrow> u32 list \<Rightarrow> u32 \<times> bool list \<times> u32 list \<Rightarrow> bool" where
  "seed_found rs msk vals occ l1 r \<longleftrightarrow>
     (case r of (seed, occ', l1') \<Rightarrow> stored rs msk seed vals occ occ' l1' \<and> kept vals occ l1 l1')"

lemma find_seed_spec:
  "find_seed rs msk vals seed occ l1 = Some r \<Longrightarrow>
   length occ = Suc msk \<longrightarrow> length l1 = Suc msk \<longrightarrow> seed_found rs msk vals occ l1 r"
proof (rule find_seed.raw_induct [of "\<lambda>rs msk vals seed occ l1 r.
    length occ = Suc msk \<longrightarrow> length l1 = Suc msk \<longrightarrow> seed_found rs msk vals occ l1 r"], goal_cases)
  case (1 f rs msk vals seed occ l1 r)
  show ?case
  proof (intro impI)
    assume len: "length occ = Suc msk" "length l1 = Suc msk"
    obtain found occ' l1' where t: "try_seed rs msk seed vals occ [] l1 = (found, occ', l1')"
      by (cases "try_seed rs msk seed vals occ [] l1") auto
    have k: "kept vals occ l1 l1'" using try_seed_kept [OF t len] .
    show "seed_found rs msk vals occ l1 r"
    proof (cases found)
      case True
      then show ?thesis using 1(3) t k try_seed_True [of rs msk seed vals occ "[]" l1] len
        by (auto simp: seed_found_def)
    next
      case False
      with t have "occ' = occ" using try_seed_False [of rs msk seed vals occ "[]" l1 occ' l1'] len(1) by simp
      moreover have "length l1' = Suc msk" using k len(2) by (simp add: kept_def)
      ultimately have "seed_found rs msk vals occ l1' r"
        using 1(2) [of rs msk vals "seed + 1" occ l1' r] 1(3) len(1) t False by simp
      with k show ?thesis by (auto simp: seed_found_def intro: kept_trans)
    qed
  qed
qed

text \<open>The search for a seed ends exactly when some seed places all rules of the bucket.\<close>

lemma try_seed_occ_only:
  "\<exists>found occ'. \<forall>l1. \<exists>l1'. try_seed rs msk seed vals occ tmp l1 = (found, occ', l1')"
proof (induction rs msk seed vals occ tmp "[] :: u32 list" rule: try_seed.induct)
  case (2 rs msk seed i vals occ tmp)
  show ?case
  proof (cases "occ ! slot_of msk seed (rs ! i)")
    case False
    with 2 [OF refl] show ?thesis by (simp add: Let_def) blast
  qed (auto simp: Let_def)
qed auto

definition fits :: "byte list list \<Rightarrow> nat \<Rightarrow> nat list \<Rightarrow> bool list \<Rightarrow> u32 \<Rightarrow> bool" where
  "fits rs msk vals occ seed \<longleftrightarrow> fst (try_seed rs msk seed vals occ [] [])"

lemma try_seed_fits: "fst (try_seed rs msk seed vals occ [] l1) \<longleftrightarrow> fits rs msk vals occ seed"
  using try_seed_occ_only [of rs msk seed vals occ "[]"] unfolding fits_def by (metis fst_conv)

lemma find_seed_returns:
  "fits rs msk vals occ good \<Longrightarrow> length occ = Suc msk \<Longrightarrow> \<exists>r. find_seed rs msk vals seed occ l1 = Some r"
proof (induction "unat (good - seed)" arbitrary: seed l1 rule: less_induct)
  case less
  obtain found occ' l1' where t: "try_seed rs msk seed vals occ [] l1 = (found, occ', l1')"
    by (cases "try_seed rs msk seed vals occ [] l1") auto
  show ?case
  proof (cases found)
    case True
    with t show ?thesis by (simp add: find_seed.simps)
  next
    case False
    with t less.prems(1) try_seed_fits [of rs msk seed vals occ l1] have "seed \<noteq> good" by auto
    then have "good - seed \<noteq> 0" by simp
    then have "unat (good - seed - 1) < unat (good - seed)" by (rule measure_unat)
    then have "unat (good - (seed + 1)) < unat (good - seed)" by (simp add: diff_diff_eq)
    moreover have "occ' = occ" using False t try_seed_False [of rs msk seed vals occ "[]" l1 occ' l1'] less.prems(2) by simp
    ultimately show ?thesis using less.hyps [of "seed + 1" l1'] less.prems t False
      by (subst find_seed.simps) simp
  qed
qed

lemma find_seed_fits:
  "find_seed rs msk vals seed occ l1 = Some r \<Longrightarrow> length occ = Suc msk \<longrightarrow> fits rs msk vals occ (fst r)"
proof (rule find_seed.raw_induct [of "\<lambda>rs msk vals seed occ l1 r.
    length occ = Suc msk \<longrightarrow> fits rs msk vals occ (fst r)"], goal_cases)
  case (1 f rs msk vals seed occ l1 r)
  obtain found occ' l1' where t: "try_seed rs msk seed vals occ [] l1 = (found, occ', l1')"
    by (cases "try_seed rs msk seed vals occ [] l1") auto
  show ?case
  proof (cases found)
    case True
    with 1(3) t try_seed_fits [of rs msk seed vals occ l1] show ?thesis by auto
  next
    case False
    with 1(3) t try_seed_False [of rs msk seed vals occ "[]" l1 occ' l1'] 1(2) [of rs msk vals "seed + 1" occ l1' r]
    show ?thesis by auto
  qed
qed

lemma kept_step:
  assumes "kept vals occ l1 l2" "kept ws occ1 l2 l3" "\<forall>j < length l1. occ ! j \<longrightarrow> occ1 ! j"
  shows "kept (vals @ ws) occ l1 l3"
  unfolding kept_def
proof (intro conjI allI impI)
  show "length l3 = length l1" using assms by (simp add: kept_def)
  fix j assume j: "j < length l1"
  then have 1: "occ ! j \<longrightarrow> l2 ! j = l1 ! j" "l2 ! j \<in> insert (l1 ! j) (of_nat ` set vals)"
    and 2: "occ1 ! j \<longrightarrow> l3 ! j = l2 ! j" "l3 ! j \<in> insert (l2 ! j) (of_nat ` set ws)"
    using assms(1,2) by (simp_all add: kept_def)
  show "l3 ! j \<in> insert (l1 ! j) (of_nat ` set (vals @ ws))" using 1(2) 2(2) by auto
  show "l3 ! j = l1 ! j" if "occ ! j" using 1(1) 2(1) assms(3) j that by simp
qed

text \<open>All buckets: every rule is found at the slot of its bucket's seed.\<close>

definition all_placed :: "byte list list \<Rightarrow> nat \<Rightarrow> (nat \<times> nat list) list \<Rightarrow> u32 list \<Rightarrow> u32 list \<Rightarrow> bool" where
  "all_placed rs msk bs l0 l1 \<longleftrightarrow>
     (\<forall>(n, vals) \<in> set bs. \<forall>i \<in> set vals. l1 ! slot_of msk (l0 ! n) (rs ! i) = of_nat i)"

lemma place_buckets_spec:
  assumes "place_buckets rs msk bs occ l0 l1 = Some (l0', l1')" "length occ = Suc msk" "length l1 = Suc msk"
    "distinct (map fst bs)" "\<forall>b\<in>set bs. fst b < length l0"
  shows "length l0' = length l0 \<and> (\<forall>n. n \<notin> fst ` set bs \<longrightarrow> l0' ! n = l0 ! n) \<and>
    kept (concat (map snd bs)) occ l1 l1' \<and> all_placed rs msk bs l0' l1'"
  using assms
proof (induction rs msk bs occ l0 l1 rule: place_buckets.induct)
  case (2 rs msk n vals bs occ l0 l1)
  obtain seed occ1 l2 where f: "find_seed rs msk vals 0 occ l1 = Some (seed, occ1, l2)"
    and rest: "place_buckets rs msk bs occ1 (l0[n := seed]) l2 = Some (l0', l1')"
    using "2.prems"(1) by (auto split: option.splits)
  have S: "stored rs msk seed vals occ occ1 l2" and K: "kept vals occ l1 l2"
    using find_seed_spec [OF f] "2.prems"(2,3) by (auto simp: seed_found_def)
  have len: "length occ1 = Suc msk" "length l2 = Suc msk"
    using S K "2.prems"(2,3) by (simp_all add: stored_def kept_def)
  have IH: "length l0' = length l0" "\<forall>m. m \<notin> fst ` set bs \<longrightarrow> l0' ! m = l0[n := seed] ! m"
    "kept (concat (map snd bs)) occ1 l2 l1'" "all_placed rs msk bs l0' l1'"
    using "2.IH" [OF f refl refl rest len] "2.prems"(4,5) by auto
  have n: "l0' ! n = seed" using IH(2) "2.prems"(4,5) by simp
  have "l1' ! slot_of msk seed (rs ! i) = of_nat i" if "i \<in> set vals" for i
    using S IH(3) that slot_of_le [of msk seed "rs ! i"] len by (auto simp: stored_def kept_def less_Suc_eq_le)
  then have "all_placed rs msk ((n, vals) # bs) l0' l1'" using IH(4) n by (auto simp: all_placed_def)
  moreover have "kept (concat (map snd ((n, vals) # bs))) occ l1 l1'"
    using kept_step [OF K IH(3)] S "2.prems"(2,3) by (simp add: stored_def)
  moreover have "l0' ! m = l0 ! m" if "m \<notin> fst ` set ((n, vals) # bs)" for m
    using IH(2) that by simp
  ultimately show ?case using IH(1) by blast
qed (simp add: kept_def all_placed_def)

lemma sparse_buckets_spec:
  "length (sparse_buckets len msk order) = len \<and>
   (len = Suc msk \<longrightarrow> (\<forall>n<len. set (sparse_buckets len msk order ! n) =
      {i. i < length order \<and> bucket_of msk (snd (order ! i)) = n}))"
proof (induction order rule: rev_induct)
  case (snoc e order)
  obtain r h where e: "e = (r, h)" by (cases e)
  have step: "sparse_buckets len msk (order @ [e]) =
      (sparse_buckets len msk order)[bucket_of msk h := sparse_buckets len msk order ! bucket_of msk h @ [length order]]"
    by (simp add: sparse_buckets_def e Let_def)
  show ?case
  proof (intro conjI impI allI)
    show "length (sparse_buckets len msk (order @ [e])) = len" using snoc by (simp add: step)
    fix n assume len: "len = Suc msk" and n: "n < len"
    have "set (sparse_buckets len msk (order @ [e]) ! n) =
        set (sparse_buckets len msk order ! n) \<union> (if n = bucket_of msk h then {length order} else {})"
      using snoc n by (auto simp: step nth_upd)
    also have "\<dots> = {i. i < length (order @ [e]) \<and> bucket_of msk (snd ((order @ [e]) ! i)) = n}"
      using snoc n len e by (auto simp: nth_append less_Suc_eq)
    finally show "set (sparse_buckets len msk (order @ [e]) ! n) = \<dots>" .
  qed
qed (simp add: sparse_buckets_def del: replicate_Suc)

lemma nextPow2_pos:
  assumes "v < 2 ^ 63"
  shows "0 < nextPow2 v"
proof (cases "v \<le> 1")
  case False
  have len: "bit_length v \<le> k" if "v < 2 ^ k" for k
    using that
  proof (induction k arbitrary: v)
    case (Suc k)
    then have "bit_length (v div 2) \<le> k" if "v \<noteq> 0" using that by simp
    then show ?case by (subst bit_length.simps) auto
  qed (simp add: bit_length.simps)
  have lz: "0 < LeadingZeros v" using len [OF assms] by (simp add: LeadingZeros_def)
  have "drop_bit (LeadingZeros v) (- 1 :: u64) \<noteq> - 1"
  proof
    assume "drop_bit (LeadingZeros v) (- 1 :: u64) = - 1"
    then have "bit (drop_bit (LeadingZeros v) (- 1 :: u64)) 63 = bit (- 1 :: u64) 63" by simp
    with lz show False by (simp add: bit_drop_bit_eq bit_mask_iff)
  qed
  then have "drop_bit (LeadingZeros v) (- 1 :: u64) + 1 \<noteq> 0" by (metis eq_neg_iff_add_eq_0)
  with False show ?thesis by (simp add: nextPow2_def unat_gt_0)
qed (simp add: nextPow2_def)

text \<open>After \<^verbatim>\<open>Build\<close> a lookup with the right hash decides membership in the rules.\<close>

definition table_ok :: "'re MphMatcherGroup \<Rightarrow> bool" where
  "table_ok g \<longleftrightarrow> (\<forall>s. Lookup (RollingHash s) s g = Some (s \<in> set (rules g)))"

definition map_ok :: "(byte list \<times> u32) list \<Rightarrow> bool" where
  "map_ok m \<longleftrightarrow> (\<forall>(r, h) \<in> set m. h = RollingHash r)"

lemma Lookup_built:
  assumes order: "order \<noteq> []" "length order < 2 ^ 32" "map_ok order"
    and place: "place_buckets (map fst order) (length l1 - 1) bs (replicate (length l1) False) l0 l1 = Some (l0', l1')"
    and l1: "l1 = replicate n1 0" "0 < n1" and l0: "0 < length l0"
    and bs: "set bs = {b. \<exists>n<length l0. b = (n, sparse_buckets (length l0) (length l0 - 1) order ! n) \<and> snd b \<noteq> []}"
      "distinct (map fst bs)"
    and g: "rules g = map fst order" "level0 g = l0'" "level0Mask g = length l0 - 1" "level1 g = l1'" "level1Mask g = length l1 - 1"
  shows "table_ok g"
  unfolding table_ok_def
proof
  fix s
  let ?m0 = "length l0 - 1" and ?m1 = "length l1 - 1"
  have P: "length l0' = length l0" "kept (concat (map snd bs)) (replicate (length l1) False) l1 l1'"
    "all_placed (map fst order) ?m1 bs l0' l1'"
    using place_buckets_spec [OF place _ _ bs(2)] bs(1) l1 by auto
  have sp: "set (sparse_buckets (length l0) ?m0 order ! n) = {i. i < length order \<and> bucket_of ?m0 (snd (order ! i)) = n}"
    if "n < length l0" for n
    using sparse_buckets_spec [of "length l0" ?m0 order] that by auto
  define n where "n = bucket_of ?m0 (RollingHash s)"
  define j where "j = slot_of ?m1 (l0' ! n) s"
  have n: "n < length l0" using bucket_of_le [of ?m0 "RollingHash s"] l0 unfolding n_def by linarith
  have j: "j < length l1" using slot_of_le [of ?m1 "l0' ! n" s] l1 unfolding j_def by simp
  have "l1' ! j \<in> insert (l1 ! j) (of_nat ` set (concat (map snd bs)))" using P(2) j by (simp add: kept_def)
  moreover have "i < length order" if "i \<in> set (concat (map snd bs))" for i
    using that bs(1) sp by auto
  ultimately consider "l1' ! j = 0" | i where "l1' ! j = of_nat i" "i < length order"
    using l1 j by auto
  then have "unat (l1' ! j) < length order"
  proof cases
    case (2 i)
    then have "i < 2 ^ 32" using order(2) by linarith
    with 2 show ?thesis by (simp add: unat_of_nat take_bit_eq_mod)
  qed (use order(1) in simp)
  moreover have e: "bucket_of (level0Mask g) (RollingHash s) = n" "slot_of (level1Mask g) (l0' ! n) s = j"
    by (simp_all add: g n_def j_def)
  ultimately have L: "Lookup (RollingHash s) s g = Some (s = fst (order ! unat (l1' ! j)))"
    and sound: "fst (order ! unat (l1' ! j)) \<in> set (rules g)"
    using n j P(1,2) by (simp_all add: Lookup_def nth_opt_def e g(1,2,4) kept_def)
  have "s = fst (order ! unat (l1' ! j))" if s: "s \<in> set (rules g)"
  proof -
    obtain i where i: "i < length order" "fst (order ! i) = s" using s g(1) by (auto simp: in_set_conv_nth)
    then have "snd (order ! i) = RollingHash s" using order(3) nth_mem [OF i(1)] by (force simp: map_ok_def)
    then have "i \<in> set (sparse_buckets (length l0) ?m0 order ! n)" using sp [OF n] i by (simp add: n_def)
    then have "(n, sparse_buckets (length l0) ?m0 order ! n) \<in> set bs" using bs(1) n by auto
    with P(3) \<open>i \<in> _\<close> have "l1' ! slot_of ?m1 (l0' ! n) (map fst order ! i) = of_nat i" unfolding all_placed_def by blast
    then have "l1' ! j = of_nat i" using i by (simp add: j_def)
    then have "unat (l1' ! j) = i" using i(1) order(2) by (simp add: unat_of_nat take_bit_eq_mod)
    with i show ?thesis by simp
  qed
  with L sound show "Lookup (RollingHash s) s g = Some (s \<in> set (rules g))" by auto
qed

section \<open>What is in a group\<close>

text \<open>Adding patterns one after the other, up to the first error, as the callers do.\<close>

fun AddPatterns ::
  "(byte list \<Rightarrow> byte list) \<Rightarrow> (byte list \<Rightarrow> 'e + 're) \<Rightarrow> (byte list \<times> MatcherType) list \<Rightarrow> 're MphMatcherGroup \<Rightarrow>
   ('e + 're MphMatcherGroup) option" where
  "AddPatterns lower compile [] g = Some (Inr g)"
| "AddPatterns lower compile ((p, t) # ps) g =
     (case AddPattern lower compile p t g of None \<Rightarrow> None
      | Some (Inl e, g) \<Rightarrow> Some (Inl e)
      | Some (Inr _, g) \<Rightarrow> AddPatterns lower compile ps g)"

definition rule_set :: "(byte list \<Rightarrow> byte list) \<Rightarrow> (byte list \<times> MatcherType) list \<Rightarrow> byte list set" where
  "rule_set lower ps = {lower p | p t. (p, t) \<in> set ps \<and> (t = MFull \<or> t = MDomain)} \<union>
     {dot # lower p | p. (p, MDomain) \<in> set ps}"

definition kwords :: "(byte list \<times> MatcherType) list \<Rightarrow> byte list list" where
  "kwords ps = map fst (filter (\<lambda>p. snd p = MSubstr) ps)"

definition regexes :: "(byte list \<Rightarrow> 'e + 're) \<Rightarrow> (byte list \<times> MatcherType) list \<Rightarrow> 're list" where
  "regexes compile ps = map (\<lambda>p. projr (compile (fst p))) (filter (\<lambda>p. snd p = MRegex) ps)"

definition group_ac :: "byte list list \<Rightarrow> ACAutomaton option option" where
  "group_ac ks = (if ks = [] then Some None else map_option Some (ac_adds ks NewACAutomaton))"

lemma group_ac_iff:
  "Some a = group_ac ks \<longleftrightarrow>
   (if ks = [] then a = None else \<exists>ac. ac_adds ks NewACAutomaton = Some ac \<and> a = Some ac)"
  by (cases "ac_adds ks NewACAutomaton") (auto simp: group_ac_def)

definition unbuilt ::
  "(byte list \<Rightarrow> byte list) \<Rightarrow> (byte list \<Rightarrow> 'e + 're) \<Rightarrow> (byte list \<times> MatcherType) list \<Rightarrow> 're MphMatcherGroup \<Rightarrow> bool" where
  "unbuilt lower compile ps g \<longleftrightarrow>
     (\<exists>m. ruleMap g = Some m \<and> map_ok m \<and> fst ` set m = rule_set lower ps \<and> distinct (map fst m)) \<and>
     Some (mph_ac g) = group_ac (kwords ps) \<and>
     mph_other g = map (\<lambda>r. (regexMatcher r, 1)) (regexes compile ps) \<and> mph_count g = 1 \<and> rules g = [] \<and>
     (\<forall>(p, t) \<in> set ps. t = MRegex \<longrightarrow> (\<exists>r. compile p = Inr r))"

lemma unbuilt_New: "unbuilt lower compile [] NewMphMatcherGroup"
  by (simp add: unbuilt_def NewMphMatcherGroup_def map_ok_def rule_set_def kwords_def regexes_def group_ac_def)

lemma ac_adds_snoc:
  "ac_adds (ps @ [p]) ac = (case ac_adds ps ac of None \<Rightarrow> None | Some ac \<Rightarrow> ACAutomaton_Add p MSubstr ac)"
  by (induction ps arbitrary: ac) (auto split: option.splits)

lemma map_ok_update: "map_ok m \<Longrightarrow> map_ok (AList.update r (RollingHash r) m)"
  by (induction m) (auto simp: map_ok_def split: if_splits)

lemma unbuilt_AddPattern:
  assumes U: "unbuilt lower compile ps g" and A: "AddPattern lower compile p t g = Some (Inr i, g')"
  shows "unbuilt lower compile (ps @ [(p, t)]) g'"
proof -
  obtain m where m: "ruleMap g = Some m" "map_ok m" "fst ` set m = rule_set lower ps" "distinct (map fst m)"
    using U by (auto simp: unbuilt_def)
  have dotted: "RollingHash (lower p) * PrimeRK + 46 = RollingHash (dot # lower p)" by (simp add: RollingHash_Cons)
  have up: "fst ` set (AList.update k v al) = insert k (fst ` set al)" for k :: "byte list" and v :: u32 and al
    by (induction al) auto
  show ?thesis
  proof (cases t)
    case MFull
    have "rule_set lower (ps @ [(p, MFull)]) = insert (lower p) (rule_set lower ps)" by (auto simp: rule_set_def)
    then show ?thesis using U A m MFull
      by (auto simp: unbuilt_def AddPattern_def AddFullOrDomainPattern_def up map_ok_update distinct_update
          kwords_def regexes_def)
  next
    case MDomain
    have "rule_set lower (ps @ [(p, MDomain)]) = insert (lower p) (insert (dot # lower p) (rule_set lower ps))"
      by (auto simp: rule_set_def)
    then show ?thesis using U A m MDomain
      by (auto simp: unbuilt_def AddPattern_def AddFullOrDomainPattern_def Let_def dotted up map_ok_update distinct_update
          kwords_def regexes_def)
  next
    case MSubstr
    have "rule_set lower (ps @ [(p, MSubstr)]) = rule_set lower ps" by (auto simp: rule_set_def)
    moreover have "kwords (ps @ [(p, t)]) = kwords ps @ [p]" using MSubstr by (simp add: kwords_def)
    moreover have "Some (mph_ac g') = group_ac (kwords ps @ [p])"
      using U A MSubstr by (cases "kwords ps = []")
        (auto simp: unbuilt_def AddPattern_def Let_def group_ac_iff ac_adds_snoc split: option.splits)
    ultimately show ?thesis using U A MSubstr
      by (auto simp: unbuilt_def AddPattern_def Let_def regexes_def split: option.splits)
  next
    case MRegex
    have "rule_set lower (ps @ [(p, MRegex)]) = rule_set lower ps" by (auto simp: rule_set_def)
    then show ?thesis using U A MRegex
      by (auto simp: unbuilt_def AddPattern_def kwords_def regexes_def split: sum.splits)
  next
    case (MUnknown b)
    with A show ?thesis by (simp add: AddPattern_def)
  qed
qed

lemma unbuilt_AddPatterns:
  "unbuilt lower compile qs g \<Longrightarrow> AddPatterns lower compile ps g = Some (Inr g') \<Longrightarrow> unbuilt lower compile (qs @ ps) g'"
proof (induction ps arbitrary: qs g)
  case (Cons pt ps)
  obtain p t where pt: "pt = (p, t)" by (cases pt)
  obtain i g1 where 1: "AddPattern lower compile p t g = Some (Inr i, g1)" "AddPatterns lower compile ps g1 = Some (Inr g')"
    using Cons.prems(2) by (auto simp: pt split: option.splits prod.splits sum.splits)
  from Cons.IH [OF unbuilt_AddPattern [OF Cons.prems(1) 1(1)] 1(2)] show ?case by (simp add: pt)
qed simp

text \<open>What \<^verbatim>\<open>Build\<close> makes of it.\<close>

definition rules_of :: "(byte list \<Rightarrow> byte list) \<Rightarrow> (byte list \<times> MatcherType) list \<Rightarrow> byte list set" where
  "rules_of lower ps = (if rule_set lower ps = {} then {bytes_of ''empty___''} else rule_set lower ps)"

lemma Build_spec:
  assumes U: "unbuilt lower compile ps g" and m: "ruleMap g = Some m" and small: "length m < 2 ^ 32 - 1"
    and order: "build_order m order" and srt: "by_size srt" and B: "MphMatcherGroup_Build srt order g = Some g'"
  shows "table_ok g' \<and> set (rules g') = rules_of lower ps \<and> mph_other g' = mph_other g \<and>
    (if kwords ps = [] then mph_ac g' = None else (\<exists>ac. ac_of (kwords ps) = Some ac \<and> mph_ac g' = Some ac))"
proof -
  let ?k = "length (map_entries m)"
  define l0 :: "u32 list" where "l0 = replicate (nextPow2 (?k div 4)) 0"
  define l1 :: "u32 list" where "l1 = replicate (nextPow2 ?k) 0"
  define sparse where "sparse = sparse_buckets (length l0) (length l0 - 1) order"
  define bs where "bs = srt (filter (\<lambda>b. snd b \<noteq> []) (zip [0..<length sparse] sparse))"
  have k: "?k < 2 ^ 32" "0 < ?k" using small by (auto simp: map_entries_def)
  have pos: "0 < length l0" "0 < nextPow2 ?k" using nextPow2_pos [of "?k div 4"] nextPow2_pos [of ?k] k by (auto simp: l0_def)
  have O: "length order = ?k" "set order = set (map_entries m)"
    using order mset_eq_length mset_eq_setD unfolding build_order_def by blast+
  have U': "map_ok m" "fst ` set m = rule_set lower ps" "rules g = []" using U m by (auto simp: unbuilt_def)
  then have ok: "map_ok order" using O(2) by (auto simp: map_ok_def map_entries_def split: if_splits)
  have len_sparse: "length sparse = length l0" unfolding sparse_def using sparse_buckets_spec by blast
  have bs_m: "mset bs = mset (filter (\<lambda>b. snd b \<noteq> []) (zip [0..<length sparse] sparse))"
    using srt by (simp add: bs_def by_size_def)
  have set_bs: "set bs = {b. \<exists>n<length l0. b = (n, sparse ! n) \<and> snd b \<noteq> []}"
    using mset_eq_setD [OF bs_m] len_sparse by (auto simp: set_zip intro: exI [of _ "_ :: nat"]) (metis add_0 nth_upt)
  have "distinct (map fst (filter (\<lambda>b. snd b \<noteq> []) (zip [0..<length sparse] sparse)))"
    by (rule distinct_map_filter) simp
  then have dist: "distinct (map fst bs)"
    using bs_m by (metis mset_eq_imp_distinct_iff mset_map)
  obtain ac l0' l1' where B': "(case mph_ac g of None \<Rightarrow> Some None | Some ac \<Rightarrow> map_option Some (ACAutomaton_Build ac)) = Some ac"
      "place_buckets (map fst order) (length l1 - 1) bs (replicate (length l1) False) l0 l1 = Some (l0', l1')"
      "g' = g\<lparr>mph_ac := ac, rules := map fst order, level0 := l0', level0Mask := length l0 - 1,
         level1 := l1', level1Mask := length l1 - 1, ruleMap := None\<rparr>"
    using B m U'(3) by (auto simp: MphMatcherGroup_Build_def Let_def l0_def l1_def sparse_def bs_def split: option.splits)
  have "order \<noteq> []" "length order < 2 ^ 32" using O(1) k by auto
  then have "table_ok g'"
    using Lookup_built [OF _ _ ok B'(2) l1_def pos(2,1) set_bs [unfolded sparse_def] dist, of g']
    by (auto simp: B'(3))
  moreover have "set (rules g') = rules_of lower ps"
    using O(2) U'(2) by (auto simp: B'(3) rules_of_def map_entries_def)
  moreover have "if kwords ps = [] then mph_ac g' = None else (\<exists>ac. ac_of (kwords ps) = Some ac \<and> mph_ac g' = Some ac)"
    using U B'(1) by (auto simp: B'(3) unbuilt_def group_ac_iff ac_of_def dest: sym split: option.splits if_splits)
  ultimately show ?thesis by (simp add: B'(3))
qed

section \<open>What a group matches\<close>

text \<open>A rule that starts with a dot and is a suffix of the name.\<close>

definition dot_rule :: "byte list set \<Rightarrow> byte list \<Rightarrow> bool" where
  "dot_rule R s \<longleftrightarrow> (\<exists>r \<in> R. suffix r s \<and> r \<noteq> [] \<and> hd r = dot)"

lemma mph_scan_spec:
  assumes T: "table_ok g"
  shows "if \<exists>u. u \<noteq> [] \<and> prefix u bs \<and> last u = dot \<and> rev u @ suf \<in> set (rules g)
    then \<exists>h. mph_scan g bs suf (RollingHash suf) = Some (True, h)
    else mph_scan g bs suf (RollingHash suf) = Some (False, RollingHash (rev bs @ suf))"
proof (induction bs arbitrary: suf)
  case (Cons b bs)
  have h: "RollingHash suf * PrimeRK + ucast b = RollingHash (b # suf)" by (simp add: RollingHash_Cons)
  have ex: "(\<exists>u. u \<noteq> [] \<and> prefix u (b # bs) \<and> last u = dot \<and> rev u @ suf \<in> set (rules g)) \<longleftrightarrow>
      b = dot \<and> b # suf \<in> set (rules g) \<or>
      (\<exists>u. u \<noteq> [] \<and> prefix u bs \<and> last u = dot \<and> rev u @ (b # suf) \<in> set (rules g))"
    using ex_prefix_Cons [of b bs "\<lambda>u. last u = dot \<and> rev u @ suf \<in> set (rules g)"] by auto
  show ?case
  proof (cases "b = dot \<and> b # suf \<in> set (rules g)")
    case True
    then have b: "b = dot" and r: "(dot # suf \<in> set (rules g)) = True" by auto
    have h': "RollingHash suf * PrimeRK + 46 = RollingHash (dot # suf)" by (simp add: RollingHash_Cons)
    have "Lookup (RollingHash (dot # suf)) (dot # suf) g = Some (dot # suf \<in> set (rules g))"
      using T unfolding table_ok_def by blast
    then have "mph_scan g (b # bs) suf (RollingHash suf) = Some (True, RollingHash (dot # suf))"
      by (simp add: Let_def h' b r)
    then show ?thesis using r b unfolding ex by simp
  next
    case False
    then have "mph_scan g (b # bs) suf (RollingHash suf) = mph_scan g bs (b # suf) (RollingHash (b # suf))"
      using T by (auto simp: Let_def h table_ok_def)
    moreover have "(\<exists>u. u \<noteq> [] \<and> prefix u (b # bs) \<and> last u = dot \<and> rev u @ suf \<in> set (rules g)) \<longleftrightarrow>
        (\<exists>u. u \<noteq> [] \<and> prefix u bs \<and> last u = dot \<and> rev u @ (b # suf) \<in> set (rules g))"
      unfolding ex using False by blast
    moreover have "rev (b # bs) @ suf = rev bs @ b # suf" by simp
    ultimately show ?thesis using Cons.IH [of "b # suf"] by (simp only:)
  qed
qed simp

lemma dot_rule_scan:
  "(\<exists>u. u \<noteq> [] \<and> prefix u (rev s) \<and> last u = dot \<and> rev u @ [] \<in> R) \<longleftrightarrow> dot_rule R s"
proof
  assume "\<exists>u. u \<noteq> [] \<and> prefix u (rev s) \<and> last u = dot \<and> rev u @ [] \<in> R"
  then obtain u where "u \<noteq> []" "prefix u (rev s)" "last u = dot" "rev u \<in> R" by auto
  then show "dot_rule R s" unfolding dot_rule_def
    by (intro bexI [of _ "rev u"]) (auto simp: suffix_to_prefix hd_rev)
next
  assume "dot_rule R s"
  then obtain r where "r \<in> R" "suffix r s" "r \<noteq> []" "hd r = dot" by (auto simp: dot_rule_def)
  then show "\<exists>u. u \<noteq> [] \<and> prefix u (rev s) \<and> last u = dot \<and> rev u @ [] \<in> R"
    by (intro exI [of _ "rev r"]) (auto simp: suffix_to_prefix last_rev)
qed

lemma Match_built:
  assumes T: "table_ok g"
  shows "\<exists>out. MphMatcherGroup_Match MatchString g s = Some out \<and>
    (out \<noteq> [] \<longleftrightarrow> s \<in> set (rules g) \<or> dot_rule (set (rules g)) s \<or>
      (\<exists>ac. mph_ac g = Some ac \<and> ACAutomaton_Match ac s) \<or>
      (\<exists>e \<in> set (mph_other g). Matcher_Match MatchString (fst e) s))"
proof -
  have R0: "RollingHash [] = 0" by (simp add: RollingHash_def)
  have L: "Lookup (RollingHash s) s g = Some (s \<in> set (rules g))" using T by (simp add: table_ok_def)
  show ?thesis
  proof (cases "dot_rule (set (rules g)) s")
    case True
    then obtain h where "mph_scan g (rev s) [] 0 = Some (True, h)"
      using mph_scan_spec [OF T, of "rev s" "[]"] unfolding dot_rule_scan R0 by auto
    with True show ?thesis by (simp add: MphMatcherGroup_Match_def)
  next
    case False
    then have "mph_scan g (rev s) [] 0 = Some (False, RollingHash s)"
      using mph_scan_spec [OF T, of "rev s" "[]"] unfolding dot_rule_scan R0 by simp
    with False L show ?thesis
      by (auto simp: MphMatcherGroup_Match_def find_None_iff find_Some_iff split: option.splits)
  qed
qed

text \<open>What the rules of a list of patterns accept, written without the table.\<close>

definition mph_rule_match :: "(byte list \<Rightarrow> byte list) \<Rightarrow> (byte list \<times> MatcherType) list \<Rightarrow> byte list \<Rightarrow> bool" where
  "mph_rule_match lower ps s \<longleftrightarrow> s \<in> rules_of lower ps \<or> dot_rule (rules_of lower ps) s"

lemma mph_Match_iff:
  assumes "AddPatterns lower compile ps NewMphMatcherGroup = Some (Inr g)" "ruleMap g = Some m" "length m < 2 ^ 32 - 1"
    "build_order m order" "by_size srt" "MphMatcherGroup_Build srt order g = Some g'"
  shows "\<exists>out. MphMatcherGroup_Match MatchString g' s = Some out \<and>
    (out \<noteq> [] \<longleftrightarrow> mph_rule_match lower ps s \<or>
      (\<exists>ac. kwords ps \<noteq> [] \<and> ac_of (kwords ps) = Some ac \<and> ACAutomaton_Match ac s) \<or>
      (\<exists>r \<in> set (regexes compile ps). MatchString r s))"
proof -
  have U: "unbuilt lower compile ps g" using unbuilt_AddPatterns [OF unbuilt_New assms(1)] by simp
  note B = Build_spec [OF U assms(2-6)]
  have others: "(\<exists>e \<in> set (mph_other g'). Matcher_Match MatchString (fst e) s) \<longleftrightarrow> (\<exists>r \<in> set (regexes compile ps). MatchString r s)"
    using B U by (auto simp: unbuilt_def)
  have kw: "(\<exists>ac. mph_ac g' = Some ac \<and> ACAutomaton_Match ac s) \<longleftrightarrow>
      (\<exists>ac. kwords ps \<noteq> [] \<and> ac_of (kwords ps) = Some ac \<and> ACAutomaton_Match ac s)"
    using B by (auto split: if_splits)
  have T: "table_ok g'" and R: "set (rules g') = rules_of lower ps" using B by simp_all
  show ?thesis using Match_built [OF T, of MatchString s] unfolding others kw R mph_rule_match_def by blast
qed

text \<open>C36: in a table that \<open>Build\<close> has made, in whatever order the map was read and the buckets of
  one size were sorted, a lookup with the rolling hash of a string never panics and finds exactly the
  rules that were added (or the placeholder, if there were none): no collision of the hash
  functions can produce a wrong answer, although only one slot is compared.\<close>

theorem Lookup_exact:
  assumes "AddPatterns lower compile ps NewMphMatcherGroup = Some (Inr g)" "ruleMap g = Some m" "length m < 2 ^ 32 - 1"
    "build_order m order" "by_size srt" "MphMatcherGroup_Build srt order g = Some g'"
  shows "Lookup (RollingHash s) s g' = Some (s \<in> rules_of lower ps)"
proof -
  have "unbuilt lower compile ps g" using unbuilt_AddPatterns [OF unbuilt_New assms(1)] by simp
  from Build_spec [OF this assms(2-6)] show ?thesis by (simp add: table_ok_def)
qed

text \<open>The concrete group of the witness: a domain rule and a full name.\<close>

definition sample_patterns :: "(byte list \<times> MatcherType) list" where
  "sample_patterns = [(bytes_of ''b.com'', MDomain), (bytes_of ''a.b'', MFull)]"

definition sample_group :: "unit MphMatcherGroup" where
  "sample_group = NewMphMatcherGroup\<lparr>ruleMap := Some [(bytes_of ''.b.com'', 1645401529),
     (bytes_of ''b.com'', 1238644521), (bytes_of ''a.b'', 3136496893)]\<rparr>"

definition sample_sort :: "(nat \<times> nat list) list \<Rightarrow> (nat \<times> nat list) list" where
  "sample_sort = sort_key (\<lambda>b. - int (length (snd b)))"

lemma sample_sort_by_size: "by_size sample_sort"
  unfolding by_size_def sample_sort_def
proof (intro allI conjI)
  fix bs :: "(nat \<times> nat list) list"
  have "sorted (map (\<lambda>b. - int (length (snd b))) (sort_key (\<lambda>b. - int (length (snd b))) bs))" by simp
  then show "sorted_wrt (\<lambda>a b. length (snd b) \<le> length (snd a)) (sort_key (\<lambda>b. - int (length (snd b))) bs)"
    by (simp add: sorted_wrt_map)
qed simp

lemma sample_added: "AddPatterns (\<lambda>s. s) (\<lambda>_. Inl ()) sample_patterns NewMphMatcherGroup = Some (Inr sample_group)"
  by code_simp

lemma sample_built: "\<exists>g'. MphMatcherGroup_Build sample_sort (the (ruleMap sample_group)) sample_group = Some g'"
proof -
  have "MphMatcherGroup_Build sample_sort (the (ruleMap sample_group)) sample_group \<noteq> None" by code_simp
  then show ?thesis by blast
qed

theorem Lookup_exact_witness:
  "\<exists>g'. MphMatcherGroup_Build sample_sort (the (ruleMap sample_group)) sample_group = Some g' \<and>
     Lookup (RollingHash (bytes_of ''a.b'')) (bytes_of ''a.b'') g' = Some True \<and>
     Lookup (RollingHash (bytes_of ''a.c'')) (bytes_of ''a.c'') g' = Some False"
proof -
  obtain g' where g': "MphMatcherGroup_Build sample_sort (the (ruleMap sample_group)) sample_group = Some g'"
    using sample_built by blast
  have m: "ruleMap sample_group = Some (the (ruleMap sample_group))" "length (the (ruleMap sample_group)) < 2 ^ 32 - 1"
    "build_order (the (ruleMap sample_group)) (the (ruleMap sample_group))"
    by (simp_all add: sample_group_def build_order_def map_entries_def)
  note L = Lookup_exact [OF sample_added m sample_sort_by_size g']
  have "bytes_of ''a.b'' \<in> rules_of (\<lambda>s. s) sample_patterns" "bytes_of ''a.c'' \<notin> rules_of (\<lambda>s. s) sample_patterns"
    by (auto simp: rules_of_def rule_set_def sample_patterns_def bytes_of_def)
  with L g' show ?thesis by simp
qed

text \<open>C39: two names the compiled group accepts and the rules do not mean. A group with keywords but
  without full or domain rules accepts \<open>empty___\<close>, the placeholder that \<open>Build\<close> puts into the empty
  table; and a full name that starts with a dot, which matches itself only, is treated like a domain
  suffix, because the loop looks up every suffix that starts with a dot.\<close>

definition match_after :: "(byte list \<times> MatcherType) list \<Rightarrow> byte list \<Rightarrow> u32 list option" where
  "match_after ps s =
     (case AddPatterns (\<lambda>s. s) (\<lambda>_. Inl ()) ps (NewMphMatcherGroup :: unit MphMatcherGroup) of
        Some (Inr g) \<Rightarrow>
          (case MphMatcherGroup_Build sample_sort (map_entries (the (ruleMap g))) g of
             None \<Rightarrow> None | Some g \<Rightarrow> MphMatcherGroup_Match (\<lambda>_ _. False) g s)
      | _ \<Rightarrow> None)"


end
