(* ===== verification/Spec2Isabelle.thy ===== *)
theory Spec2Isabelle
  imports Net Multi_Buffer Kcp_System Kcp_Listener Trojan_Protocol Vless_Protocol Mux_Client Mph_Matcher
begin

text \<open>
  This library verifies the transport core of the proxy engine under
  \<^verbatim>\<open>src/CShroudDAW/Infrastructure/Cores/Xray/Protos\<close> (all file names below are relative to it).
  The engine takes a connection from a client protocol, wraps its bytes or packets into the
  messages of a tunnel protocol (Trojan, VLESS, the session multiplexer), and carries them over a
  transport, of which mKCP, a reliable stream over UDP, is the one written in the repository
  itself. Every part moves data in \<^verbatim>\<open>buf.Buffer\<close> and \<^verbatim>\<open>buf.MultiBuffer\<close> values.

  \<^bold>\<open>Conventions.\<close> A panic of the Go code (index, slice, nil, division by zero, \<^verbatim>\<open>common.Must\<close>) is
  \<open>None\<close>; an error is \<open>Inl\<close> or \<open>Some e\<close> next to the state the code leaves behind. Integers keep
  their width: \<^verbatim>\<open>uint8\<close> to \<^verbatim>\<open>uint64\<close> are words, \<^verbatim>\<open>int32\<close> is an integer wrapped by \<open>i32\<close>. A
  struct is a record and a method a function that returns the updated record; a mutex makes the
  method one step. An \<^verbatim>\<open>io.Reader\<close> is the list of chunks its calls deliver, so that a theorem
  about every reader with a given concatenation covers every way the network cuts the bytes; an
  \<^verbatim>\<open>io.Writer\<close> is a function argument. The dirty array behind a pooled or stack buffer, the
  clock, random bytes, AEAD ciphers, hash functions, Unicode case conversion and the protobuf
  codec are arguments.

  \<^bold>\<open>Foundations.\<close>
  \<^item> \<^verbatim>\<open>Prelude\<close>: widths, slices, big-endian integers and the lemma collections; \<^verbatim>\<open>Go_Std\<close>: errors,
    \<^verbatim>\<open>io.ReadFull\<close>, number and IP address syntax of the Go library.
  \<^item> \<^verbatim>\<open>Net\<close> (\<^verbatim>\<open>common/net\<close>, \<^verbatim>\<open>common/serial\<close>, \<^verbatim>\<open>common/bitmask\<close>): addresses, ports, destinations;
    parsing always gives a well-formed address.
  \<^item> \<^verbatim>\<open>Buffer\<close> (\<^verbatim>\<open>common/buf/buffer.go\<close>, \<^verbatim>\<open>common/bytespool\<close>): the pooled buffer with its index
    arithmetic; the locale \<open>byte_fifo\<close> is the contract of a byte queue, interpreted for buffers
    here and for \<^verbatim>\<open>MultiBufferContainer\<close> in \<^verbatim>\<open>Multi_Buffer\<close> (\<^verbatim>\<open>common/buf/multi_buffer.go\<close>). The
    lemmas show that pools keep their size classes, that a dirty array never shows, that cutting
    loses no byte, and where \<^verbatim>\<open>Compact\<close> does.

  \<^bold>\<open>mKCP\<close> (\<^verbatim>\<open>transport/internet/kcp\<close>).
  \<^item> \<^verbatim>\<open>Kcp_Segment\<close>, \<^verbatim>\<open>Kcp_Crypt\<close>, \<^verbatim>\<open>Packet_Headers\<close>, \<^verbatim>\<open>Kcp_IO\<close>: segments, the two authenticators
    (locale \<open>aead\<close>), the disguise headers, packets; round trips, and totality of the parsers on
    arbitrary datagrams.
  \<^item> \<^verbatim>\<open>Kcp_Config\<close>, \<^verbatim>\<open>Kcp_RoundTrip\<close>: settings and the 32-bit round trip estimate.
  \<^item> \<^verbatim>\<open>Kcp_Sending\<close>, \<^verbatim>\<open>Kcp_Receiving\<close>: windows, acknowledgements, flushing, reassembly, with their
    invariants and behaviour across the wrap-around of the segment numbers.
  \<^item> \<^verbatim>\<open>Kcp_Connection\<close>: the state machine, incoming segments, the periodic flush, cutting of the
    written stream; one-way states and termination of abandoned connections.
  \<^item> \<^verbatim>\<open>Kcp_System\<close>: two connections and a network that loses, duplicates, delays and reorders
    packets, as an inductive step relation; what is read is always a prefix of what was written.
  \<^item> \<^verbatim>\<open>Kcp_Listener\<close>: the table of connections of a server; packets of one peer never touch the
    connection of another.

  \<^bold>\<open>Tunnel protocols.\<close>
  \<^item> \<^verbatim>\<open>Protocol_Address\<close> (\<^verbatim>\<open>common/protocol/address.go\<close>): the address codec all protocols share; the
    locale \<open>io_writer\<close> is the contract of a writer that takes its bytes, interpreted for buffers
    and byte lists, and carries the round trips of all protocols.
  \<^item> \<^verbatim>\<open>Trojan_Protocol\<close> (\<^verbatim>\<open>proxy/trojan/protocol.go\<close>), \<^verbatim>\<open>Vless_Protocol\<close>
    (\<^verbatim>\<open>proxy/vless/encoding\<close>, \<^verbatim>\<open>common/protocol/headers.go\<close>): headers and packet framing; what one
    side writes the other reads, and a VLESS server accepts known users only.
  \<^item> \<^verbatim>\<open>Validator\<close> (\<^verbatim>\<open>proxy/vless/validator.go\<close>, \<^verbatim>\<open>proxy/trojan/validator.go\<close>): the user tables refine
    a list of users when the keys are unique.
  \<^item> \<^verbatim>\<open>Mux_Frame\<close> (\<^verbatim>\<open>common/mux/frame.go\<close>, \<^verbatim>\<open>writer.go\<close>, \<^verbatim>\<open>reader.go\<close>): frames of many sessions on one
    connection; sessions never disturb each other.

  \<^bold>\<open>Loops.\<close> Loops over data are recursive functions with their termination proofs; loops whose end
  depends on the data below them (\<^verbatim>\<open>write_chunks\<close>, \<open>recv_all\<close>) are partial functions into
  \<open>option\<close>, and the theorems show that they return. No fuel is used except the explicit number of
  calls in statements such as \<open>read_packets\<close>.

  \<^bold>\<open>Not modelled.\<close> Goroutines, timers and sockets (their calls appear as steps of the step
  relations); TLS, REALITY, WebSocket, gRPC, HTTP and WireGuard transports, which wrap third-party
  libraries; the raw splicing of TLS records of the vision flow; the VMess, Shadowsocks, HTTP and
  DNS proxies; the application layer (\<^verbatim>\<open>app/\<close>: dispatcher, router, DNS, statistics, policy) and
  the configuration messages generated by protoc; the C\# gateway and its database.
\<close>

end
